(* ===== verification/Prelude.thy ===== *)
theory Prelude
  imports Complex_Main "HOL-Library.Word" "HOL-Library.AList" "HOL-Library.Sublist"
begin

unbundle bit_operations_syntax

text \<open>
  The vocabulary the component theories share: bytes and wire integers, exceptions as values,
  Python slicing, insertion-ordered dictionaries, and the facts about them that every
  component proof uses.  The collections \<open>res_simps\<close> (results of fallible code),
  \<open>wire_simps\<close> (packing and unpacking) and \<open>dict_simps\<close> (dictionary operations) are
  what the component proofs hand to the simplifier.
\<close>

named_theorems res_simps \<open>evaluation and inversion of fallible computations\<close>
named_theorems wire_simps \<open>big-endian packing, unpacking and slicing\<close>
named_theorems dict_simps \<open>lookups in updated dictionaries\<close>

section \<open>Types of the model\<close>

type_synonym byte = "8 word"
type_synonym bytes = "byte list"
type_synonym u16 = "16 word"
type_synonym u32 = "32 word"

text \<open>Wall-clock and monotonic readings are floats in the code; here exact rationals.\<close>

type_synonym time = rat

text \<open>
  A Python \<open>str\<close> is a list of characters, each standing for a code point below 256 (the
  names of the DNS wire format are decoded with the latin-1 codec).
\<close>

type_synonym str = string

section \<open>Exceptions as values\<close>

datatype err =
    DNSFormatError
  | ValueError
  | StructError
  | IndexError
  | UnicodeDecodeError
  | EOFError
  | ZlibError
  | InvalidTag
  | ResolutionError
  | OSError
  | TypeError
  | KeyError
  | OverflowError
  | RuntimeError
  | VaultError
  | Locked
  | ConfigError
  | AssertionError
  | WireGuardError
  | FirewallError
  | HotspotError
  | AttributeError
  | PinMismatch

type_synonym 'a res = "err + 'a"

fun rbind :: "'a res \<Rightarrow> ('a \<Rightarrow> 'b res) \<Rightarrow> 'b res" where
  "rbind (Inl e) f = Inl e"
| "rbind (Inr x) f = f x"

definition guard_err :: "bool \<Rightarrow> err \<Rightarrow> unit res" where
  "guard_err c e = (if c then Inl e else Inr ())"

fun rmap :: "('a \<Rightarrow> 'b res) \<Rightarrow> 'a list \<Rightarrow> 'b list res" where
  "rmap f [] = Inr []"
| "rmap f (x # xs) = rbind (f x) (\<lambda>y. rbind (rmap f xs) (\<lambda>ys. Inr (y # ys)))"

definition ok :: "'a res \<Rightarrow> bool" where
  "ok r = (case r of Inl _ \<Rightarrow> False | Inr _ \<Rightarrow> True)"

lemma ok_simps [simp, res_simps]: "ok (Inr x)" "\<not> ok (Inl e)"
  by (simp_all add: ok_def)

lemma rbind_Inr_iff [res_simps]:
  "rbind m f = Inr y \<longleftrightarrow> (\<exists>x. m = Inr x \<and> f x = Inr y)"
  by (cases m) auto

lemma rbind_Inl_iff [res_simps]:
  "rbind m f = Inl e \<longleftrightarrow> m = Inl e \<or> (\<exists>x. m = Inr x \<and> f x = Inl e)"
  by (cases m) auto

lemma guard_err_iff [res_simps]:
  "guard_err c e = Inr u \<longleftrightarrow> \<not> c" "guard_err c e = Inl e' \<longleftrightarrow> c \<and> e' = e"
  by (auto simp: guard_err_def)

lemma rmap_length: "rmap f xs = Inr ys \<Longrightarrow> length ys = length xs"
  by (induction xs arbitrary: ys) (auto simp: res_simps)

section \<open>Slices and big-endian integers\<close>

text \<open>\<open>data[a:b]\<close> for non-negative bounds: short at the end of the data, never an error.\<close>

definition slice :: "nat \<Rightarrow> nat \<Rightarrow> 'a list \<Rightarrow> 'a list" where
  "slice a b xs = take (b - a) (drop a xs)"

lemma length_slice [wire_simps]: "length (slice a b xs) = min (b - a) (length xs - a)"
  by (simp add: slice_def min.commute)

lemma slice_append_left [wire_simps]:
  "b \<le> length xs \<Longrightarrow> slice a b (xs @ ys) = slice a b xs"
  by (cases "a \<le> b") (simp_all add: slice_def)

lemma slice_append_mid [wire_simps]:
  "a = length xs \<Longrightarrow> b = a + length ys \<Longrightarrow> slice a b (xs @ ys @ zs) = ys"
  by (simp add: slice_def)

lemma slice_append_end [wire_simps]:
  "a = length xs \<Longrightarrow> b = a + length ys \<Longrightarrow> slice a b (xs @ ys) = ys"
  by (simp add: slice_def)

text \<open>\<open>struct.pack("!H")\<close>, \<open>struct.pack("!I")\<close> and their inverses.\<close>

definition pack_H :: "u16 \<Rightarrow> bytes" where
  "pack_H w = [ucast (drop_bit 8 w), ucast w]"

definition pack_I :: "u32 \<Rightarrow> bytes" where
  "pack_I w = [ucast (drop_bit 24 w), ucast (drop_bit 16 w), ucast (drop_bit 8 w), ucast w]"

definition join_H :: "byte \<Rightarrow> byte \<Rightarrow> u16" where
  "join_H a b = push_bit 8 (ucast a) OR ucast b"

definition join_I :: "byte \<Rightarrow> byte \<Rightarrow> byte \<Rightarrow> byte \<Rightarrow> u32" where
  "join_I a b c d =
     push_bit 24 (ucast a) OR push_bit 16 (ucast b) OR push_bit 8 (ucast c) OR ucast d"

definition unpack_H :: "bytes \<Rightarrow> nat \<Rightarrow> u16" where
  "unpack_H xs i = join_H (xs ! i) (xs ! (i + 1))"

definition unpack_I :: "bytes \<Rightarrow> nat \<Rightarrow> u32" where
  "unpack_I xs i = join_I (xs ! i) (xs ! (i + 1)) (xs ! (i + 2)) (xs ! (i + 3))"

lemma length_pack [simp, wire_simps]: "length (pack_H h) = 2" "length (pack_I w) = 4"
  by (simp_all add: pack_H_def pack_I_def)

lemma byte_high [simp]: "8 \<le> n \<Longrightarrow> \<not> bit (b :: byte) n"
  by (auto dest: bit_imp_le_length)

lemma join_pack_H: "join_H (ucast (drop_bit 8 w)) (ucast w) = w"
  by (rule bit_word_eqI) (auto simp: join_H_def bit_simps)

lemma join_pack_I:
  "join_I (ucast (drop_bit 24 w)) (ucast (drop_bit 16 w)) (ucast (drop_bit 8 w)) (ucast w) = w"
proof (rule bit_word_eqI)
  fix n assume "n < LENGTH(32)"
  then consider "n < 8" | "8 \<le> n" "n < 16" | "16 \<le> n" "n < 24" | "24 \<le> n" "n < 32"
    by fastforce
  then show "bit (join_I (ucast (drop_bit 24 w)) (ucast (drop_bit 16 w)) (ucast (drop_bit 8 w))
      (ucast w)) n = bit w n"
    by cases (auto simp: join_I_def bit_simps)
qed

lemma pack_join_H: "pack_H (join_H a b) = [a, b]"
  by (auto simp: pack_H_def join_H_def bit_simps intro!: bit_word_eqI)

lemma pack_join_I: "pack_I (join_I a b c d) = [a, b, c, d]"
  by (auto simp: pack_I_def join_I_def bit_simps intro!: bit_word_eqI)

lemma unpack_pack_H [simp, wire_simps]:
  "i = length pre \<Longrightarrow> unpack_H (pre @ pack_H w @ post) i = w"
  by (simp add: unpack_H_def pack_H_def nth_append join_pack_H)

lemma unpack_pack_I [simp, wire_simps]:
  "i = length pre \<Longrightarrow> unpack_I (pre @ pack_I w @ post) i = w"
  by (simp add: unpack_I_def pack_I_def nth_append join_pack_I)

lemma unpack_append_left [wire_simps]:
  "i + 1 < length xs \<Longrightarrow> unpack_H (xs @ ys) i = unpack_H xs i"
  "i + 3 < length xs \<Longrightarrow> unpack_I (xs @ ys) i = unpack_I xs i"
  by (simp_all add: unpack_H_def unpack_I_def nth_append)

text \<open>\<open>struct.pack_into("!I", out, offset, value)\<close> on a buffer long enough to hold it.\<close>

definition pack_into_I :: "bytes \<Rightarrow> nat \<Rightarrow> u32 \<Rightarrow> bytes" where
  "pack_into_I out i w = take i out @ pack_I w @ drop (i + 4) out"

lemma length_pack_into_I [simp, wire_simps]:
  "i + 4 \<le> length out \<Longrightarrow> length (pack_into_I out i w) = length out"
  by (simp add: pack_into_I_def)

lemma nth_pack_into_I:
  assumes "i + 4 \<le> length out" and "j < length out"
  shows "pack_into_I out i w ! j = (if i \<le> j \<and> j < i + 4 then pack_I w ! (j - i) else out ! j)"
proof -
  have "take i out @ pack_I w @ drop (i + 4) out
      = (take i out @ pack_I w) @ drop (i + 4) out" by simp
  then show ?thesis using assms by (auto simp: pack_into_I_def nth_append)
qed

section \<open>Insertion-ordered dictionaries\<close>

text \<open>
  A Python \<open>dict\<close> is an association list in insertion order with distinct keys: storing under
  an existing key keeps its position (\<^const>\<open>AList.update\<close>), a new key goes to the end,
  \<open>del\<close> and \<open>pop\<close> remove (\<^const>\<open>AList.delete\<close>).
\<close>

type_synonym ('k, 'v) dict = "('k \<times> 'v) list"

abbreviation dget :: "('k, 'v) dict \<Rightarrow> 'k \<Rightarrow> 'v option" where "dget d \<equiv> map_of d"
abbreviation dset :: "'k \<Rightarrow> 'v \<Rightarrow> ('k, 'v) dict \<Rightarrow> ('k, 'v) dict" where "dset \<equiv> AList.update"
abbreviation ddel :: "'k \<Rightarrow> ('k, 'v) dict \<Rightarrow> ('k, 'v) dict" where "ddel \<equiv> AList.delete"
abbreviation dkeys :: "('k, 'v) dict \<Rightarrow> 'k list" where "dkeys d \<equiv> map fst d"
abbreviation dvals :: "('k, 'v) dict \<Rightarrow> 'v list" where "dvals d \<equiv> map snd d"

definition dict_ok :: "('k, 'v) dict \<Rightarrow> bool" where
  "dict_ok d = distinct (dkeys d)"

lemma dget_dset [simp, dict_simps]: "dget (dset k v d) k' = (if k' = k then Some v else dget d k')"
  by (simp add: update_conv')

lemma dget_ddel [simp, dict_simps]: "dget (ddel k d) k' = (if k' = k then None else dget d k')"
  by (simp add: delete_conv')

lemma dict_ok_simps [simp, intro, dict_simps]:
  "dict_ok []"
  "dict_ok d \<Longrightarrow> dict_ok (dset k v d)"
  "dict_ok d \<Longrightarrow> dict_ok (ddel k d)"
  "dict_ok d \<Longrightarrow> dict_ok (filter P d)"
  by (simp_all add: dict_ok_def distinct_update distinct_delete distinct_map_filter)

lemma dict_ok_sort [simp]: "dict_ok (sort_key f d) = dict_ok d"
  by (simp add: dict_ok_def distinct_map)

lemma dget_iff: "dict_ok d \<Longrightarrow> dget d k = Some v \<longleftrightarrow> (k, v) \<in> set d"
  by (simp add: dict_ok_def)

lemma dget_None_iff: "dget d k = None \<longleftrightarrow> k \<notin> set (dkeys d)"
  by (simp add: map_of_eq_None_iff)

lemma ddel_absent [dict_simps]: "dget d k = None \<Longrightarrow> ddel k d = d"
  by (simp add: map_of_eq_None_iff delete_idem)

lemma length_dset: "length (dset k v d) = (if dget d k = None then Suc (length d) else length d)"
  by (induction d) auto

lemma length_ddel:
  "dict_ok d \<Longrightarrow> length (ddel k d) = (if dget d k = None then length d else length d - 1)"
proof (induction d)
  case (Cons p d)
  obtain k' v' where p: "p = (k', v')" by (cases p)
  from Cons.prems have "dict_ok d" and fresh: "k' \<notin> set (dkeys d)"
    by (simp_all add: dict_ok_def p)
  with Cons.IH have IH: "length (ddel k d) = (if dget d k = None then length d else length d - 1)"
    by simp
  show ?case
  proof (cases "k = k'")
    case True
    with fresh have "ddel k d = d" by (simp add: delete_idem)
    with True show ?thesis by (simp add: p)
  next
    case False
    moreover have "dget d k \<noteq> None \<Longrightarrow> length d \<noteq> 0" by auto
    ultimately show ?thesis using IH by (auto simp: p)
  qed
qed simp

lemma set_dset_subset: "set (dset k v d) \<subseteq> insert (k, v) (set d)"
  by (induction d) auto

lemma set_ddel: "set (ddel k d) = {p \<in> set d. fst p \<noteq> k}"
  by (auto simp: AList.delete_eq)

section \<open>The dictionary interface\<close>

text \<open>
  The contract the bounded tables of the program rest on (the response cache, the login
  limiter, the session store, the lease table): what a lookup returns after a store or a
  removal, and how the size moves.
\<close>

locale dictionary =
  fixes lookup :: "'d \<Rightarrow> 'k \<Rightarrow> 'v option"
    and store :: "'k \<Rightarrow> 'v \<Rightarrow> 'd \<Rightarrow> 'd"
    and remove :: "'k \<Rightarrow> 'd \<Rightarrow> 'd"
    and inv :: "'d \<Rightarrow> bool"
  assumes lookup_store: "lookup (store k v d) k' = (if k' = k then Some v else lookup d k')"
    and lookup_remove: "lookup (remove k d) k' = (if k' = k then None else lookup d k')"
    and inv_store: "inv d \<Longrightarrow> inv (store k v d)"
    and inv_remove: "inv d \<Longrightarrow> inv (remove k d)"
begin

lemma lookup_fold_remove:
  "lookup (fold remove ks d) k = (if k \<in> set ks then None else lookup d k)"
  by (induction ks arbitrary: d) (auto simp: lookup_remove)

lemma inv_fold_remove: "inv d \<Longrightarrow> inv (fold remove ks d)"
  by (induction ks arbitrary: d) (auto simp: inv_remove)

lemma store_remove_lookup: "lookup (store k v (remove k d)) = lookup (store k v d)"
  by (rule ext) (simp add: lookup_store lookup_remove)

end

locale sized_dictionary = dictionary lookup store remove inv
  for lookup :: "'d \<Rightarrow> 'k \<Rightarrow> 'v option" and store remove inv +
  fixes entries :: "'d \<Rightarrow> nat"
  assumes entries_store:
      "inv d \<Longrightarrow> entries (store k v d) = (if lookup d k = None then Suc (entries d) else entries d)"
    and entries_remove:
      "inv d \<Longrightarrow> entries (remove k d) = (if lookup d k = None then entries d else entries d - 1)"
begin

lemma entries_store_le: "inv d \<Longrightarrow> entries (store k v d) \<le> Suc (entries d)"
  by (simp add: entries_store)

lemma entries_remove_le: "inv d \<Longrightarrow> entries (remove k d) \<le> entries d"
  by (simp add: entries_remove)

lemma entries_fold_remove_le: "inv d \<Longrightarrow> entries (fold remove ks d) \<le> entries d"
proof (induction ks arbitrary: d)
  case (Cons k ks)
  have "entries (fold remove ks (remove k d)) \<le> entries (remove k d)"
    by (rule Cons.IH) (rule inv_remove [OF Cons.prems])
  also have "\<dots> \<le> entries d" by (rule entries_remove_le [OF Cons.prems])
  finally show ?case by simp
qed simp

text \<open>Removing \<open>n\<close> distinct present keys frees exactly \<open>n\<close> entries.\<close>

lemma entries_fold_remove:
  assumes "inv d" and "distinct ks" and "\<And>k. k \<in> set ks \<Longrightarrow> lookup d k \<noteq> None"
  shows "entries (fold remove ks d) = entries d - length ks"
  using assms
proof (induction ks arbitrary: d)
  case (Cons k ks)
  have "entries (fold remove ks (remove k d)) = entries (remove k d) - length ks"
    using Cons.prems by (intro Cons.IH) (auto simp: inv_remove lookup_remove)
  then show ?case using Cons.prems by (simp add: entries_remove)
qed simp

end

interpretation pydict: sized_dictionary map_of AList.update AList.delete dict_ok length
  by unfold_locales (auto simp: length_dset length_ddel)

section \<open>Python conversions\<close>

text \<open>\<open>int(x)\<close> on a float truncates towards zero.\<close>

definition py_int :: "rat \<Rightarrow> int" where
  "py_int x = (if 0 \<le> x then \<lfloor>x\<rfloor> else \<lceil>x\<rceil>)"

lemma py_int_nonneg: "0 \<le> x \<Longrightarrow> 0 \<le> py_int x"
  by (simp add: py_int_def)

lemma py_int_le: "0 \<le> x \<Longrightarrow> of_int (py_int x) \<le> x"
  by (simp add: py_int_def)

lemma py_int_of_int [simp]: "py_int (of_int i) = i"
  by (simp add: py_int_def)

definition clamp :: "int \<Rightarrow> int \<Rightarrow> int \<Rightarrow> int" where
  "clamp value low high = max low (min value high)"

lemma clamp_bounds: "low \<le> high \<Longrightarrow> low \<le> clamp v low high \<and> clamp v low high \<le> high"
  by (auto simp: clamp_def)

text \<open>Stable sort by a key, as \<open>sorted(xs, key=f)\<close>.\<close>

abbreviation sorted_by :: "('a \<Rightarrow> 'b::linorder) \<Rightarrow> 'a list \<Rightarrow> 'a list" where
  "sorted_by \<equiv> sort_key"

end
