(* ===== verification/PyStr.thy ===== *)
theory PyStr
  imports Prelude
begin

text \<open>
  The string methods the program uses, on strings of code points below 256: \<open>lower\<close>,
  \<open>strip\<close>, \<open>split\<close>, \<open>join\<close>, \<open>splitlines\<close>, \<open>find\<close>, \<open>startswith\<close> (\<^const>\<open>prefix\<close>),
  \<open>endswith\<close> (\<^const>\<open>suffix\<close>).  They are the language's library, so they are defined, not
  assumed.  The lemmas are the round trip of \<open>split\<close> and \<open>join\<close> and what \<open>strip\<close> and
  \<open>lower\<close> leave behind.
\<close>

section \<open>Character classes and case\<close>

definition code_pt :: "char \<Rightarrow> nat" where "code_pt c = of_char c"

definition is_upper :: "char \<Rightarrow> bool" where
  "is_upper c = (let n = code_pt c in 65 \<le> n \<and> n \<le> 90 \<or> 192 \<le> n \<and> n \<le> 222 \<and> n \<noteq> 215)"

definition lower_char :: "char \<Rightarrow> char" where
  "lower_char c = (if is_upper c then char_of (code_pt c + 32) else c)"

definition lower :: "str \<Rightarrow> str" where "lower s = map lower_char s"

definition is_ascii :: "char \<Rightarrow> bool" where "is_ascii c = (code_pt c < 128)"

definition isascii :: "str \<Rightarrow> bool" where "isascii s = list_all is_ascii s"

text \<open>\<open>str.isspace\<close> below 256, which is what \<open>strip()\<close> and \<open>split()\<close> use.\<close>

definition is_space :: "char \<Rightarrow> bool" where
  "is_space c = (let n = code_pt c in
     9 \<le> n \<and> n \<le> 13 \<or> 28 \<le> n \<and> n \<le> 32 \<or> n = 133 \<or> n = 160)"

text \<open>The line boundaries of \<open>splitlines()\<close> below 256.\<close>

definition is_linebreak :: "char \<Rightarrow> bool" where
  "is_linebreak c = (let n = code_pt c in
     10 \<le> n \<and> n \<le> 13 \<or> 28 \<le> n \<and> n \<le> 30 \<or> n = 133)"

lemma code_pt_lt [simp]: "code_pt c < 256"
  by (simp add: code_pt_def)

lemma code_pt_char_of [simp]: "n < 256 \<Longrightarrow> code_pt (char_of n) = n"
  by (simp add: code_pt_def)

lemma lower_char_idem [simp]: "lower_char (lower_char c) = lower_char c"
  by (auto simp: lower_char_def is_upper_def Let_def)

lemma lower_simps [simp]: "lower [] = []" "lower (c # s) = lower_char c # lower s"
    "lower (s @ t) = lower s @ lower t" "length (lower s) = length s"
    "lower (lower s) = lower s" "lower s = [] \<longleftrightarrow> s = []"
  by (simp_all add: lower_def)

lemma lower_char_dot [simp]: "lower_char c = CHR ''.'' \<longleftrightarrow> c = CHR ''.''"
proof -
  have "code_pt CHR ''.'' = 46" by (simp add: code_pt_def)
  moreover have "is_upper c \<Longrightarrow> code_pt (char_of (code_pt c + 32) :: char) = code_pt c + 32"
    by (rule code_pt_char_of) (auto simp: is_upper_def Let_def)
  ultimately have "is_upper c \<Longrightarrow> char_of (code_pt c + 32) \<noteq> CHR ''.'' \<and> c \<noteq> CHR ''.''"
    by (auto simp: is_upper_def Let_def)
  then show ?thesis by (auto simp: lower_char_def)
qed

section \<open>strip, split, join\<close>

definition lstrip :: "(char \<Rightarrow> bool) \<Rightarrow> str \<Rightarrow> str" where "lstrip p s = dropWhile p s"

definition rstrip :: "(char \<Rightarrow> bool) \<Rightarrow> str \<Rightarrow> str" where "rstrip p s = rev (dropWhile p (rev s))"

definition strip :: "(char \<Rightarrow> bool) \<Rightarrow> str \<Rightarrow> str" where "strip p s = rstrip p (lstrip p s)"

definition is_dot :: "char \<Rightarrow> bool" where "is_dot c = (c = CHR ''.'')"

abbreviation strip_dots :: "str \<Rightarrow> str" where "strip_dots \<equiv> strip is_dot"
abbreviation strip_ws :: "str \<Rightarrow> str" where "strip_ws \<equiv> strip is_space"

text \<open>\<open>s.split(sep)\<close> for a one-character separator: never the empty list.\<close>

fun split_on :: "'a \<Rightarrow> 'a list \<Rightarrow> 'a list list" where
  "split_on c [] = [[]]"
| "split_on c (x # xs) =
     (if x = c then [] # split_on c xs
      else (case split_on c xs of [] \<Rightarrow> [[x]] | y # ys \<Rightarrow> (x # y) # ys))"

fun join :: "'a list \<Rightarrow> 'a list list \<Rightarrow> 'a list" where
  "join sep [] = []"
| "join sep [x] = x"
| "join sep (x # y # ys) = x @ sep @ join sep (y # ys)"

text \<open>\<open>s.split()\<close>: the maximal runs of characters that are not white space.\<close>

fun words_acc :: "(char \<Rightarrow> bool) \<Rightarrow> str \<Rightarrow> str \<Rightarrow> str list" where
  "words_acc p [] acc = (if acc = [] then [] else [rev acc])"
| "words_acc p (c # s) acc =
     (if p c then (if acc = [] then words_acc p s [] else rev acc # words_acc p s [])
      else words_acc p s (c # acc))"

definition split_ws :: "str \<Rightarrow> str list" where "split_ws s = words_acc is_space s []"

text \<open>\<open>splitlines()\<close>: a carriage return and a line feed together are one boundary.\<close>

fun splitlines_acc :: "str \<Rightarrow> str \<Rightarrow> str list" where
  "splitlines_acc [] acc = (if acc = [] then [] else [rev acc])"
| "splitlines_acc (c # s) acc =
     (if c = CHR 0x0D \<and> s \<noteq> [] \<and> hd s = CHR 0x0A then rev acc # splitlines_acc (tl s) []
      else if is_linebreak c then rev acc # splitlines_acc s []
      else splitlines_acc s (c # acc))"

definition splitlines :: "str \<Rightarrow> str list" where "splitlines s = splitlines_acc s []"

text \<open>\<open>s.find(sub)\<close>: the least index, \<^const>\<open>None\<close> for -1.\<close>

fun find_sub :: "'a list \<Rightarrow> 'a list \<Rightarrow> nat option" where
  "find_sub sub [] = (if sub = [] then Some 0 else None)"
| "find_sub sub (x # xs) =
     (if prefix sub (x # xs) then Some 0 else map_option Suc (find_sub sub xs))"

definition removesuffix :: "'a list \<Rightarrow> 'a list \<Rightarrow> 'a list" where
  "removesuffix suf s = (if suf \<noteq> [] \<and> suffix suf s then take (length s - length suf) s else s)"

lemma split_on_ne [simp]: "split_on c s \<noteq> []"
  by (induction s) (auto split: list.splits)

lemma join_split_on: "join [c] (split_on c s) = s"
proof (induction s)
  case (Cons x s)
  then show ?case by (cases "split_on c s"; cases "tl (split_on c s)") auto
qed simp

lemma split_on_no_sep: "c \<notin> set x \<Longrightarrow> split_on c x = [x]"
  by (induction x) auto

lemma split_on_append: "c \<notin> set x \<Longrightarrow> split_on c (x @ c # s) = x # split_on c s"
  by (induction x) auto

lemma split_on_join:
  "ls \<noteq> [] \<Longrightarrow> (\<And>l. l \<in> set ls \<Longrightarrow> c \<notin> set l) \<Longrightarrow> split_on c (join [c] ls) = ls"
  by (induction "[c]" ls rule: join.induct) (auto simp: split_on_no_sep split_on_append)

lemma split_on_parts: "l \<in> set (split_on c s) \<Longrightarrow> c \<notin> set l \<and> set l \<subseteq> set s"
proof (induction s arbitrary: l)
  case (Cons x s)
  obtain y ys where y: "split_on c s = y # ys" by (cases "split_on c s") auto
  with Cons.IH [of y] have "c \<notin> set y \<and> set y \<subseteq> set s" by simp
  with Cons y show ?case by (fastforce split: if_splits)
qed simp

lemma lower_split_on: "map lower (split_on CHR ''.'' s) = split_on CHR ''.'' (lower s)"
  by (induction s) (auto split: list.splits)

lemma lower_join: "lower (join [CHR ''.''] ls) = join [CHR ''.''] (map lower ls)"
proof (induction "[CHR ''.'']" ls rule: join.induct)
  case (3 x y ys)
  have "lower_char CHR ''.'' = CHR ''.''" by simp
  with 3 show ?case by simp
qed simp_all

lemma length_join_dot:
  "length (join [c] ls) + 1 = sum_list (map (\<lambda>l. length l + 1) ls)" if "ls \<noteq> []"
  using that by (induction "[c]" ls rule: join.induct) auto

lemma suffix_rstrip: "prefix (rstrip p s) s"
  by (metis rstrip_def rev_rev_ident suffix_dropWhile suffix_to_prefix)

lemma strip_set: "set (strip p s) \<subseteq> set s"
  by (metis lstrip_def rstrip_def set_dropWhileD set_rev strip_def subsetI)

lemma strip_ends:
  "strip p s \<noteq> [] \<Longrightarrow> \<not> p (hd (strip p s)) \<and> \<not> p (last (strip p s))"
proof -
  assume ne: "strip p s \<noteq> []"
  define t where "t = dropWhile p s"
  from ne have t: "dropWhile p (rev t) \<noteq> []" by (simp add: strip_def rstrip_def lstrip_def t_def)
  then have last: "\<not> p (last (strip p s))"
    using hd_dropWhile [OF t] by (simp add: strip_def rstrip_def lstrip_def t_def last_rev)
  have tne: "t \<noteq> []" using t by auto
  have "prefix (strip p s) t" by (simp add: strip_def lstrip_def t_def suffix_rstrip)
  then have "hd (strip p s) = hd t" using ne by (auto simp: prefix_def)
  moreover have "\<not> p (hd t)" using tne hd_dropWhile unfolding t_def by blast
  ultimately show ?thesis using last by simp
qed

lemma strip_id:
  assumes "s \<noteq> [] \<Longrightarrow> \<not> p (hd s)" and "s \<noteq> [] \<Longrightarrow> \<not> p (last s)"
  shows "strip p s = s"
proof (cases "s = []")
  case False
  with assms have "dropWhile p s = s" by (cases s) auto
  moreover have "dropWhile p (rev s) = rev s"
    using False assms(2) by (cases "rev s") (auto simp: hd_rev [symmetric])
  ultimately show ?thesis by (simp add: strip_def rstrip_def lstrip_def)
qed (simp add: strip_def rstrip_def lstrip_def)

lemma strip_idem [simp]: "strip p (strip p s) = strip p s"
  by (rule strip_id) (use strip_ends in blast)+

lemma dropWhile_dots_lower: "dropWhile is_dot (lower s) = lower (dropWhile is_dot s)"
  by (induction s) (auto simp: is_dot_def)

lemma rev_lower: "rev (lower s) = lower (rev s)"
  by (simp add: lower_def rev_map)

lemma strip_dots_lower: "strip_dots (lower s) = lower (strip_dots s)"
  by (simp add: strip_def lstrip_def rstrip_def dropWhile_dots_lower rev_lower)

text \<open>\<open>name.strip(".").lower()\<close>, the form every lookup in the program is made with.\<close>

definition canon :: "str \<Rightarrow> str" where "canon name = lower (strip_dots name)"

lemma canon_idem [simp]: "canon (canon n) = canon n"
  by (simp add: canon_def strip_dots_lower)

lemma removesuffix_append [simp]: "suf \<noteq> [] \<Longrightarrow> removesuffix suf (s @ suf) = s"
  by (simp add: removesuffix_def suffix_def)

end
