(* ===== verification/IpAddr.thy ===== *)
theory IpAddr
  imports PyStr
begin

text \<open>
  What the program uses of the standard \<open>ipaddress\<close> module: addresses as version and integer,
  the text form of an address and its parser, networks with a prefix length, and membership.
\<close>

section \<open>Numbers as text\<close>

fun digits :: "nat \<Rightarrow> nat \<Rightarrow> nat list" where
  "digits b n = (if b < 2 \<or> n < b then [n] else digits b (n div b) @ [n mod b])"

declare digits.simps [simp del]

definition digit_char :: "nat \<Rightarrow> char" where
  "digit_char d = (if d < 10 then char_of (48 + d) else char_of (87 + d))"

definition dec :: "nat \<Rightarrow> str" where "dec n = map digit_char (digits 10 n)"

text \<open>\<open>str(n)\<close> of an integer.\<close>

definition dec_int :: "int \<Rightarrow> str" where
  "dec_int n = (if n < 0 then CHR ''-'' # dec (nat (- n)) else dec (nat n))"

definition hex :: "nat \<Rightarrow> str" where "hex n = map digit_char (digits 16 n)"

definition char_digit :: "char \<Rightarrow> nat option" where
  "char_digit c = (let n = code_pt c in
     if 48 \<le> n \<and> n \<le> 57 then Some (n - 48)
     else if 97 \<le> n \<and> n \<le> 102 then Some (n - 87)
     else if 65 \<le> n \<and> n \<le> 70 then Some (n - 55) else None)"

fun parse_digits :: "nat \<Rightarrow> nat \<Rightarrow> str \<Rightarrow> nat option" where
  "parse_digits b acc [] = Some acc"
| "parse_digits b acc (c # s) =
     (case char_digit c of
        None \<Rightarrow> None
      | Some d \<Rightarrow> if d < b then parse_digits b (acc * b + d) s else None)"

definition is_dec_digit :: "char \<Rightarrow> bool" where
  "is_dec_digit c = (48 \<le> code_pt c \<and> code_pt c \<le> 57)"

text \<open>\<open>int(text)\<close>: surrounding space, a sign, digits with single underscores between them.\<close>

definition py_int_text :: "str \<Rightarrow> int option" where
  "py_int_text s =
     (let t = strip_ws s;
          neg = (t \<noteq> [] \<and> hd t = CHR ''-'');
          ds = (if t \<noteq> [] \<and> (hd t = CHR ''-'' \<or> hd t = CHR ''+'') then tl t else t)
      in if list_all (\<lambda>p. p \<noteq> [] \<and> list_all is_dec_digit p) (split_on CHR ''_'' ds)
         then map_option (\<lambda>n. if neg then - int n else int n)
                (parse_digits 10 0 (concat (split_on CHR ''_'' ds)))
         else None)"

definition partition_at :: "char \<Rightarrow> str \<Rightarrow> str \<times> str" where
  "partition_at c s = (takeWhile (\<lambda>x. x \<noteq> c) s, tl (dropWhile (\<lambda>x. x \<noteq> c) s))"

lemma digits_lt: "1 < b \<Longrightarrow> d \<in> set (digits b n) \<Longrightarrow> d < b"
proof (induction b n rule: digits.induct)
  case (1 b n)
  then show ?case by (subst (asm) digits.simps [of b n]) (auto split: if_splits)
qed

lemma char_digit_digit_char: "d < 16 \<Longrightarrow> char_digit (digit_char d) = Some d"
  by (auto simp: char_digit_def digit_char_def Let_def)

lemma parse_digits_append:
  "parse_digits b acc (s @ t) = Option.bind (parse_digits b acc s) (\<lambda>a. parse_digits b a t)"
  by (induction s arbitrary: acc) (auto split: option.splits)

lemma parse_digits_digits:
  assumes "1 < b" "b \<le> 16"
  shows "parse_digits b 0 (map digit_char (digits b n)) = Some n"
  using assms
proof (induction b n rule: digits.induct)
  case (1 b n)
  show ?case
  proof (cases "n < b")
    case True
    then show ?thesis using 1
      by (subst digits.simps) (simp add: char_digit_digit_char)
  next
    case False
    then have "n mod b < b" "n mod b < 16" using 1
      by (auto intro: less_le_trans [of _ b])
    moreover have "parse_digits b 0 (map digit_char (digits b (n div b))) = Some (n div b)"
      using 1 False by simp
    ultimately show ?thesis using 1 False
      by (subst digits.simps) (simp add: parse_digits_append char_digit_digit_char)
  qed
qed

section \<open>Addresses and networks\<close>

datatype ipaddr = V4 nat | V6 nat

fun ip_version :: "ipaddr \<Rightarrow> nat" where
  "ip_version (V4 _) = 4" | "ip_version (V6 _) = 6"

fun ip_value :: "ipaddr \<Rightarrow> nat" where
  "ip_value (V4 n) = n" | "ip_value (V6 n) = n"

fun ip_width :: "ipaddr \<Rightarrow> nat" where
  "ip_width (V4 _) = 32" | "ip_width (V6 _) = 128"

definition ip_ok :: "ipaddr \<Rightarrow> bool" where "ip_ok a = (ip_value a < 2 ^ ip_width a)"

text \<open>\<open>.packed\<close>, and the constructor from packed bytes.\<close>

fun be_bytes :: "nat \<Rightarrow> nat \<Rightarrow> bytes" where
  "be_bytes 0 n = []"
| "be_bytes (Suc k) n = be_bytes k (n div 256) @ [of_nat (n mod 256)]"

definition be_value :: "bytes \<Rightarrow> nat" where
  "be_value bs = foldl (\<lambda>a b. a * 256 + unat b) 0 bs"

fun packed :: "ipaddr \<Rightarrow> bytes" where
  "packed (V4 n) = be_bytes 4 n" | "packed (V6 n) = be_bytes 16 n"

lemma length_be_bytes [simp]: "length (be_bytes k n) = k"
  by (induction k arbitrary: n) auto

lemma be_value_snoc: "be_value (xs @ [x]) = be_value xs * 256 + unat x"
  by (simp add: be_value_def)

lemma be_value_be_bytes: "n < 256 ^ k \<Longrightarrow> be_value (be_bytes k n) = n"
proof (induction k arbitrary: n)
  case (Suc k)
  then have "n div 256 < 256 ^ k" by (simp add: less_mult_imp_div_less mult.commute)
  moreover have "unat (of_nat (n mod 256) :: byte) = n mod 256" by (simp add: unat_of_nat)
  ultimately show ?case by (simp add: be_value_snoc Suc.IH)
qed (simp add: be_value_def)

lemma be_value_lt: "be_value bs < 256 ^ length bs"
proof (induction bs rule: rev_induct)
  case (snoc x xs)
  have "unat x < 256" using unsigned_less [of x, where ?'a = nat] by simp
  with snoc show ?case by (simp add: be_value_snoc)
qed (simp add: be_value_def)

text \<open>A network is its version, network address and prefix length; \<open>a in n\<close>.\<close>

record network =
  net_base :: ipaddr
  prefixlen :: nat

definition host_bits :: "ipaddr \<Rightarrow> nat \<Rightarrow> nat" where
  "host_bits a plen = ip_width a - plen"

definition in_net :: "ipaddr \<Rightarrow> network \<Rightarrow> bool" where
  "in_net a n = (ip_version a = ip_version (net_base n) \<and>
     ip_value a div 2 ^ host_bits (net_base n) (prefixlen n)
       = ip_value (net_base n) div 2 ^ host_bits (net_base n) (prefixlen n))"

definition v4_of :: "nat \<Rightarrow> nat \<Rightarrow> nat \<Rightarrow> nat \<Rightarrow> ipaddr" where
  "v4_of a b c d = V4 (((a * 256 + b) * 256 + c) * 256 + d)"

section \<open>Text form\<close>

fun ip_str4 :: "nat \<Rightarrow> str" where
  "ip_str4 n = join ''.'' (map (\<lambda>b. dec (unat b)) (be_bytes 4 n))"

text \<open>
  IPv6: the longest run of at least two zero groups, the first of that length, becomes
  \<open>::\<close>, as \<open>_compress_hextets\<close> does.
\<close>

fun hextets :: "nat \<Rightarrow> nat \<Rightarrow> nat list" where
  "hextets 0 n = []"
| "hextets (Suc k) n = hextets k (n div 65536) @ [n mod 65536]"

fun zero_run :: "nat list \<Rightarrow> nat" where
  "zero_run (h # hs) = (if h = 0 then Suc (zero_run hs) else 0)"
| "zero_run [] = 0"

fun best_run :: "nat \<Rightarrow> nat list \<Rightarrow> nat \<times> nat \<Rightarrow> nat \<times> nat" where
  "best_run i [] best = best"
| "best_run i (h # hs) best =
     best_run (Suc i) hs (if snd best < zero_run (h # hs) then (i, zero_run (h # hs)) else best)"

definition ip_str6 :: "nat \<Rightarrow> str" where
  "ip_str6 n =
     (let hs = hextets 8 n; (start, len) = best_run 0 hs (0, 0)
      in if 1 < len
         then join '':'' (map hex (take start hs)) @ ''::''
              @ join '':'' (map hex (drop (start + len) hs))
         else join '':'' (map hex hs))"

fun ip_str :: "ipaddr \<Rightarrow> str" where
  "ip_str (V4 n) = ip_str4 n" | "ip_str (V6 n) = ip_str6 n"

section \<open>Parsing\<close>

text \<open>
  \<open>ipaddress.ip_address(text)\<close>: four decimal octets of at most three digits without leading
  zeros, or eight groups of at most four hexadecimal digits with one \<open>::\<close> and an optional
  dotted tail.  \<^const>\<open>None\<close> is the \<open>ValueError\<close>.  Scope identifiers (\<open>%eth0\<close>) are not modelled.
\<close>

definition parse_octet :: "str \<Rightarrow> nat option" where
  "parse_octet s =
     (if s = [] \<or> 3 < length s \<or> \<not> list_all is_dec_digit s
         \<or> (1 < length s \<and> hd s = CHR ''0'') then None
      else case parse_digits 10 0 s of None \<Rightarrow> None | Some n \<Rightarrow> if n \<le> 255 then Some n else None)"

definition parse_v4 :: "str \<Rightarrow> nat option" where
  "parse_v4 s =
     (case map parse_octet (split_on CHR ''.'' s) of
        [Some a, Some b, Some c, Some d] \<Rightarrow> Some (((a * 256 + b) * 256 + c) * 256 + d)
      | _ \<Rightarrow> None)"

definition parse_hextet :: "str \<Rightarrow> nat option" where
  "parse_hextet s = (if s = [] \<or> 4 < length s then None else parse_digits 16 0 s)"

fun parse_all :: "(str \<Rightarrow> nat option) \<Rightarrow> str list \<Rightarrow> nat list option" where
  "parse_all f [] = Some []"
| "parse_all f (s # ss) =
     (case f s of None \<Rightarrow> None
      | Some n \<Rightarrow> (case parse_all f ss of None \<Rightarrow> None | Some ns \<Rightarrow> Some (n # ns)))"

definition hextet_value :: "nat list \<Rightarrow> nat" where
  "hextet_value hs = foldl (\<lambda>a h. a * 65536 + h) 0 hs"

text \<open>A dotted tail is replaced by the two groups it stands for.\<close>

definition expand_tail :: "str list \<Rightarrow> str list option" where
  "expand_tail parts =
     (if parts \<noteq> [] \<and> CHR ''.'' \<in> set (last parts)
      then (case parse_v4 (last parts) of
              None \<Rightarrow> None
            | Some n \<Rightarrow> Some (butlast parts @ [hex (n div 65536), hex (n mod 65536)]))
      else Some parts)"

definition inner_empties :: "str list \<Rightarrow> nat list" where
  "inner_empties parts = filter (\<lambda>i. parts ! i = []) [1..<length parts - 1]"

definition parse_v6 :: "str \<Rightarrow> nat option" where
  "parse_v6 s =
     (let raw = split_on CHR '':'' s in
      if length raw < 3 then None
      else case expand_tail raw of
        None \<Rightarrow> None
      | Some parts \<Rightarrow>
          if 9 < length parts then None
          else (case inner_empties parts of
            [] \<Rightarrow>
              if length parts \<noteq> 8 then None
              else map_option hextet_value (parse_all parse_hextet parts)
          | [i] \<Rightarrow>
              (let hi = take i parts; lo = drop (Suc i) parts;
                   hi' = (if hd parts = [] then (if i = 1 then Some [] else None) else Some hi);
                   lo' = (if last parts = [] then (if length lo = 1 then Some [] else None) else Some lo)
               in case (hi', lo') of
                    (Some h, Some l) \<Rightarrow>
                      if 8 < length h + length l + 1 then None
                      else (case (parse_all parse_hextet h, parse_all parse_hextet l) of
                              (Some hs, Some ls) \<Rightarrow>
                                Some (hextet_value (hs @ replicate (8 - length hs - length ls) 0 @ ls))
                            | _ \<Rightarrow> None)
                  | _ \<Rightarrow> None)
          | _ \<Rightarrow> None))"

definition ip_address :: "str \<Rightarrow> ipaddr option" where
  "ip_address s =
     (case parse_v4 s of
        Some n \<Rightarrow> Some (V4 n)
      | None \<Rightarrow> map_option V6 (parse_v6 s))"

text \<open>\<open>ip_network(text, strict=False)\<close> ; the host bits are masked off.\<close>

definition parse_prefix :: "nat \<Rightarrow> str \<Rightarrow> nat option" where
  "parse_prefix width s =
     (if s = [] \<or> \<not> list_all is_dec_digit s then None
      else case parse_digits 10 0 s of None \<Rightarrow> None | Some n \<Rightarrow> if n \<le> width then Some n else None)"

definition mask_host :: "ipaddr \<Rightarrow> nat \<Rightarrow> ipaddr" where
  "mask_host a plen =
     (let h = 2 ^ host_bits a plen in
      case a of V4 n \<Rightarrow> V4 (n div h * h) | V6 n \<Rightarrow> V6 (n div h * h))"

text \<open>For IPv4 the prefix may be a netmask or a hostmask.\<close>

definition mask_prefix :: "str \<Rightarrow> nat option" where
  "mask_prefix s =
     (case parse_v4 s of
        None \<Rightarrow> None
      | Some n \<Rightarrow>
          (case List.find (\<lambda>p. n = 2 ^ 32 - 2 ^ (32 - p)) [0..<33] of
             Some p \<Rightarrow> Some p
           | None \<Rightarrow> List.find (\<lambda>p. n = 2 ^ (32 - p) - 1) [0..<33]))"

definition network_prefix :: "ipaddr \<Rightarrow> str \<Rightarrow> nat option" where
  "network_prefix a s =
     (case parse_prefix (ip_width a) s of
        Some n \<Rightarrow> Some n
      | None \<Rightarrow> if ip_version a = 4 then mask_prefix s else None)"

definition ip_network :: "str \<Rightarrow> network option" where
  "ip_network s =
     (case split_on CHR ''/'' s of
        [a] \<Rightarrow> map_option (\<lambda>x. \<lparr>net_base = x, prefixlen = ip_width x\<rparr>) (ip_address a)
      | [a, p] \<Rightarrow>
          (case ip_address a of
             None \<Rightarrow> None
           | Some x \<Rightarrow> map_option (\<lambda>n. \<lparr>net_base = mask_host x n, prefixlen = n\<rparr>)
                         (network_prefix x p))
      | _ \<Rightarrow> None)"

lemma in_net_same: "in_net a \<lparr>net_base = a, prefixlen = n\<rparr>"
  by (simp add: in_net_def)

lemma mask_host_in_net:
  assumes "in_net a \<lparr>net_base = mask_host x n, prefixlen = n\<rparr>"
  shows "ip_version a = ip_version x \<and> ip_value a div 2 ^ host_bits x n = ip_value x div 2 ^ host_bits x n"
  using assms by (cases x) (auto simp: in_net_def mask_host_def host_bits_def Let_def)

end
