(* ===== verification/Dnsmsg.thy ===== *)
theory Dnsmsg
  imports IpAddr
begin

unbundle bit_operations_syntax

text \<open>
  The DNS wire-format codec, \<open>symbivpn/dnsmsg.py\<close>: header, names with compression pointers,
  questions, resource records, TTL rewriting, CNAME and address extraction, and the builders of
  synthetic answers.  Integers read from the wire keep their width; a raised exception is an
  \<^const>\<open>Inl\<close>.  \<open>iter_records\<close> is a generator, so its model is the list of records it yields
  together with the exception that ends it, and each consumer says how far it reads.
\<close>

section \<open>Constants\<close>

definition TYPE_A :: u16 where "TYPE_A = 1"
definition TYPE_CNAME :: u16 where "TYPE_CNAME = 5"
definition TYPE_AAAA :: u16 where "TYPE_AAAA = 28"
definition TYPE_OPT :: u16 where "TYPE_OPT = 41"
definition TYPE_ANY :: u16 where "TYPE_ANY = 255"
definition CLASS_IN :: u16 where "CLASS_IN = 1"

definition RCODE_NOERROR :: u16 where "RCODE_NOERROR = 0"
definition RCODE_FORMERR :: u16 where "RCODE_FORMERR = 1"
definition RCODE_SERVFAIL :: u16 where "RCODE_SERVFAIL = 2"
definition RCODE_NXDOMAIN :: u16 where "RCODE_NXDOMAIN = 3"
definition RCODE_NOTIMP :: u16 where "RCODE_NOTIMP = 4"
definition RCODE_REFUSED :: u16 where "RCODE_REFUSED = 5"

definition HEADER_LEN :: nat where "HEADER_LEN = 12"
definition MAX_LABEL_LEN :: nat where "MAX_LABEL_LEN = 63"
definition MAX_NAME_LEN :: nat where "MAX_NAME_LEN = 255"
definition SAFE_UDP_PAYLOAD :: u16 where "SAFE_UDP_PAYLOAD = 1232"

definition TYPE_NAMES :: "(u16, str) dict" where
  "TYPE_NAMES =
     [(1, ''A''), (2, ''NS''), (5, ''CNAME''), (6, ''SOA''), (12, ''PTR''), (15, ''MX''),
      (16, ''TXT''), (28, ''AAAA''), (33, ''SRV''), (41, ''OPT''), (64, ''SVCB''),
      (65, ''HTTPS''), (255, ''ANY'')]"

definition type_name :: "u16 \<Rightarrow> str" where
  "type_name rtype =
     (case dget TYPE_NAMES rtype of Some n \<Rightarrow> n | None \<Rightarrow> ''TYPE'' @ dec (unat rtype))"

lemmas dns_consts =
  TYPE_A_def TYPE_CNAME_def TYPE_AAAA_def TYPE_OPT_def TYPE_ANY_def CLASS_IN_def
  RCODE_NOERROR_def RCODE_FORMERR_def RCODE_SERVFAIL_def RCODE_NXDOMAIN_def RCODE_NOTIMP_def
  RCODE_REFUSED_def HEADER_LEN_def MAX_LABEL_LEN_def MAX_NAME_LEN_def SAFE_UDP_PAYLOAD_def

section \<open>Header\<close>

record header =
  msg_id :: u16
  flags :: u16
  qdcount :: u16
  ancount :: u16
  nscount :: u16
  arcount :: u16

definition is_response :: "header \<Rightarrow> bool" where "is_response h = (flags h AND 0x8000 \<noteq> 0)"
definition opcode :: "header \<Rightarrow> u16" where "opcode h = drop_bit 11 (flags h) AND 0x0F"
definition truncated :: "header \<Rightarrow> bool" where "truncated h = (flags h AND 0x0200 \<noteq> 0)"
definition recursion_desired :: "header \<Rightarrow> bool" where
  "recursion_desired h = (flags h AND 0x0100 \<noteq> 0)"
definition rcode :: "header \<Rightarrow> u16" where "rcode h = flags h AND 0x000F"

record question =
  qname :: str
  qtype :: u16
  qclass :: u16

record resource_record =
  rname :: str
  rtype :: u16
  rclass :: u16
  ttl :: u32
  rdata :: bytes
  ttl_offset :: nat

definition parse_header :: "bytes \<Rightarrow> header res" where
  "parse_header data =
     (if length data < HEADER_LEN then Inl DNSFormatError
      else Inr \<lparr>msg_id = unpack_H data 0, flags = unpack_H data 2, qdcount = unpack_H data 4,
                ancount = unpack_H data 6, nscount = unpack_H data 8, arcount = unpack_H data 10\<rparr>)"

definition pack_header :: "header \<Rightarrow> bytes" where
  "pack_header h = pack_H (msg_id h) @ pack_H (flags h) @ pack_H (qdcount h)
     @ pack_H (ancount h) @ pack_H (nscount h) @ pack_H (arcount h)"

section \<open>Names\<close>

definition latin1 :: "byte \<Rightarrow> char" where "latin1 b = char_of (unat b)"

definition char_byte :: "char \<Rightarrow> byte" where "char_byte c = of_nat (code_pt c)"

text \<open>
  The \<open>while True\<close> of \<open>read_name\<close>.  \<open>endn\<close> is \<open>end_of_name\<close>: \<^const>\<open>None\<close> until the first
  pointer is followed.  The loop stops because it follows at most 64 pointers, and between two
  pointers every label adds to \<open>total\<close>, which may not exceed 255.
\<close>

function read_loop ::
  "bytes \<Rightarrow> nat \<Rightarrow> nat \<Rightarrow> nat \<Rightarrow> nat option \<Rightarrow> str list \<Rightarrow> (str list \<times> nat) res" where
  "read_loop data cursor tot jumps endn labels =
     (if length data \<le> cursor then Inl DNSFormatError
      else let len = data ! cursor in
        if len AND 0xC0 = 0xC0 then
          (if length data \<le> cursor + 1 then Inl DNSFormatError
           else let pointer = unat (unpack_H data cursor AND 0x3FFF);
                    endn' = (case endn of None \<Rightarrow> Some (cursor + 2) | Some e \<Rightarrow> Some e)
             in if cursor \<le> pointer then Inl DNSFormatError
                else if 64 < jumps + 1 then Inl DNSFormatError
                else read_loop data pointer tot (jumps + 1) endn' labels)
        else if len AND 0xC0 \<noteq> 0 then Inl DNSFormatError
        else if len = 0 then Inr (labels, case endn of None \<Rightarrow> cursor + 1 | Some e \<Rightarrow> e)
        else if length data < cursor + 1 + unat len then Inl DNSFormatError
        else if MAX_NAME_LEN < tot + unat len + 1 then Inl DNSFormatError
        else read_loop data (cursor + 1 + unat len) (tot + unat len + 1) jumps endn
               (labels @ [lower (map latin1 (slice (cursor + 1) (cursor + 1 + unat len) data))]))"
  by pat_completeness auto
termination
  by (relation "measures [\<lambda>(data, cursor, tot, jumps, endn, labels). 65 - jumps,
        \<lambda>(data, cursor, tot, jumps, endn, labels). 256 - tot]")
     (auto simp: MAX_NAME_LEN_def)

declare read_loop.simps [simp del]

definition read_name :: "bytes \<Rightarrow> nat \<Rightarrow> (str \<times> nat) res" where
  "read_name data offset =
     rbind (read_loop data offset 0 0 None []) (\<lambda>(labels, e). Inr (join ''.'' labels, e))"

text \<open>
  \<open>encode_name\<close>.  \<open>idna\<close> stands for the standard \<open>idna\<close> codec, used for labels that are not
  ASCII only; its \<open>UnicodeError\<close> is a \<open>ValueError\<close>.
\<close>

definition encode_label :: "(str \<Rightarrow> bytes res) \<Rightarrow> str \<Rightarrow> bytes res" where
  "encode_label idna label =
     rbind (if isascii label then Inr (map char_byte label) else idna label) (\<lambda>raw.
       if raw = [] then Inl ValueError
       else if MAX_LABEL_LEN < length raw then Inl ValueError
       else Inr (of_nat (length raw) # raw))"

definition encode_name :: "(str \<Rightarrow> bytes res) \<Rightarrow> str \<Rightarrow> bytes res" where
  "encode_name idna name =
     (let name = strip_dots name in
      if name = [] then Inr [0]
      else rbind (rmap (encode_label idna) (split_on CHR ''.'' name)) (\<lambda>parts.
        let out = concat parts @ [0] in
        if MAX_NAME_LEN < length out then Inl ValueError else Inr out))"

section \<open>Questions and records\<close>

fun questions_loop :: "bytes \<Rightarrow> nat \<Rightarrow> nat \<Rightarrow> (question list \<times> nat) res" where
  "questions_loop data 0 offset = Inr ([], offset)"
| "questions_loop data (Suc n) offset =
     rbind (read_name data offset) (\<lambda>(name, offset).
       if length data < offset + 4 then Inl DNSFormatError
       else rbind (questions_loop data n (offset + 4)) (\<lambda>(qs, e).
         Inr (\<lparr>qname = name, qtype = unpack_H data offset, qclass = unpack_H data (offset + 2)\<rparr> # qs,
              e)))"

definition parse_questions :: "bytes \<Rightarrow> (question list \<times> nat) res" where
  "parse_questions data =
     rbind (parse_header data) (\<lambda>h. questions_loop data (unat (qdcount h)) HEADER_LEN)"

definition first_question :: "bytes \<Rightarrow> question option res" where
  "first_question data =
     rbind (parse_questions data) (\<lambda>(qs, _). Inr (case qs of [] \<Rightarrow> None | q # _ \<Rightarrow> Some q))"

fun records_loop :: "bytes \<Rightarrow> nat \<Rightarrow> nat \<Rightarrow> resource_record list \<times> err option" where
  "records_loop data 0 offset = ([], None)"
| "records_loop data (Suc n) offset =
     (case read_name data offset of
        Inl e \<Rightarrow> ([], Some e)
      | Inr (name, offset) \<Rightarrow>
          if length data < offset + 10 then ([], Some DNSFormatError)
          else let rdlength = unat (unpack_H data (offset + 8)) in
            if length data < offset + 10 + rdlength then ([], Some DNSFormatError)
            else let rr = \<lparr>rname = name, rtype = unpack_H data offset,
                           rclass = unpack_H data (offset + 2), ttl = unpack_I data (offset + 4),
                           rdata = slice (offset + 10) (offset + 10 + rdlength) data,
                           ttl_offset = offset + 4\<rparr>;
                     (rs, e) = records_loop data n (offset + 10 + rdlength)
                 in (rr # rs, e))"

definition iter_records :: "bytes \<Rightarrow> resource_record list \<times> err option" where
  "iter_records data =
     (case rbind (parse_header data) (\<lambda>h. rbind (parse_questions data) (\<lambda>(_, offset). Inr (h, offset))) of
        Inl e \<Rightarrow> ([], Some e)
      | Inr (h, offset) \<Rightarrow>
          records_loop data (unat (ancount h) + unat (nscount h) + unat (arcount h)) offset)"

text \<open>A consumer that runs the generator to its end sees its exception.\<close>

definition all_records :: "bytes \<Rightarrow> resource_record list res" where
  "all_records data = (case iter_records data of (rs, None) \<Rightarrow> Inr rs | (_, Some e) \<Rightarrow> Inl e)"

text \<open>
  One that breaks when the index reaches \<open>n\<close> pulls at most \<open>n + 1\<close> records, so it sees the
  exception only when at most \<open>n\<close> were yielded before it.
\<close>

definition first_records :: "nat \<Rightarrow> bytes \<Rightarrow> resource_record list res" where
  "first_records n data =
     (case iter_records data of
        (rs, None) \<Rightarrow> Inr (take n rs)
      | (rs, Some e) \<Rightarrow> if length rs \<le> n then Inl e else Inr (take n rs))"

section \<open>TTLs\<close>

definition live_ttls :: "resource_record list \<Rightarrow> nat list" where
  "live_ttls rs = map (\<lambda>rr. unat (ttl rr)) (filter (\<lambda>rr. rtype rr \<noteq> TYPE_OPT) rs)"

definition message_ttl :: "bytes \<Rightarrow> int \<Rightarrow> int res" where
  "message_ttl data dflt =
     rbind (all_records data) (\<lambda>rs.
       Inr (if live_ttls rs = [] then dflt else int (Min (set (live_ttls rs)))))"

definition write_ttls :: "(resource_record \<Rightarrow> u32) \<Rightarrow> resource_record list \<Rightarrow> bytes \<Rightarrow> bytes" where
  "write_ttls f rs out =
     fold (\<lambda>rr out. if rtype rr = TYPE_OPT then out else pack_into_I out (ttl_offset rr) (f rr)) rs out"

definition aged :: "int \<Rightarrow> resource_record \<Rightarrow> u32" where
  "aged elapsed rr = word_of_int (max 0 (uint (ttl rr) - elapsed))"

definition with_ttls_reduced :: "bytes \<Rightarrow> int \<Rightarrow> bytes res" where
  "with_ttls_reduced data elapsed =
     (if elapsed \<le> 0 then Inr data
      else rbind (all_records data) (\<lambda>rs. Inr (write_ttls (aged elapsed) rs data)))"

section \<open>What an answer says\<close>

definition cname_target :: "bytes \<Rightarrow> resource_record \<Rightarrow> str list" where
  "cname_target data rr =
     (if rtype rr = TYPE_CNAME \<and> rclass rr = CLASS_IN then
        (case read_name data (ttl_offset rr + 6) of
           Inl _ \<Rightarrow> []
         | Inr (target, _) \<Rightarrow> if target = [] then [] else [target])
      else [])"

definition cname_chain :: "bytes \<Rightarrow> str list res" where
  "cname_chain data =
     rbind (parse_header data) (\<lambda>h.
       rbind (first_records (unat (ancount h)) data) (\<lambda>rs.
         Inr (concat (map (cname_target data) rs))))"

definition record_address :: "resource_record \<Rightarrow> ipaddr list" where
  "record_address rr =
     (if rclass rr \<noteq> CLASS_IN then []
      else if rtype rr = TYPE_A \<and> length (rdata rr) = 4 then [V4 (be_value (rdata rr))]
      else if rtype rr = TYPE_AAAA \<and> length (rdata rr) = 16 then [V6 (be_value (rdata rr))]
      else [])"

definition answer_addresses :: "bytes \<Rightarrow> ipaddr list res" where
  "answer_addresses data =
     rbind (parse_header data) (\<lambda>h.
       rbind (first_records (unat (ancount h)) data) (\<lambda>rs.
         Inr (concat (map record_address rs))))"

text \<open>These two return at the first OPT record and turn an exception into the default.\<close>

definition edns_payload_size :: "bytes \<Rightarrow> u16 option" where
  "edns_payload_size data =
     map_option rclass (find (\<lambda>rr. rtype rr = TYPE_OPT) (fst (iter_records data)))"

definition EDNS_DO_BIT :: u32 where "EDNS_DO_BIT = 0x8000"

definition wants_dnssec :: "bytes \<Rightarrow> bool" where
  "wants_dnssec data =
     (case find (\<lambda>rr. rtype rr = TYPE_OPT) (fst (iter_records data)) of
        None \<Rightarrow> False
      | Some rr \<Rightarrow> ttl rr AND EDNS_DO_BIT \<noteq> 0)"

definition checking_disabled :: "bytes \<Rightarrow> bool" where
  "checking_disabled data =
     (case parse_header data of Inl _ \<Rightarrow> False | Inr h \<Rightarrow> flags h AND 0x0010 \<noteq> 0)"

section \<open>Building answers\<close>

definition opt_record :: "u16 \<Rightarrow> bytes" where
  "opt_record payload_size = [0] @ pack_H TYPE_OPT @ pack_H payload_size @ pack_I 0 @ pack_H 0"

definition response_flags :: "u16 \<Rightarrow> u16 \<Rightarrow> u16" where
  "response_flags qflags rc =
     0x8000 OR (qflags AND 0x7800) OR (qflags AND 0x0100) OR 0x0080 OR (qflags AND 0x0010)
       OR (rc AND 0x000F)"

text \<open>Header, question and additional bytes of every synthetic answer, in this order.\<close>

definition response_skeleton :: "bytes \<Rightarrow> u16 \<Rightarrow> u16 \<Rightarrow> (bytes \<times> bytes \<times> bytes) res" where
  "response_skeleton query rc an =
     rbind (parse_header query) (\<lambda>h.
     rbind (parse_questions query) (\<lambda>(_, question_end).
       let question = slice HEADER_LEN question_end query;
           (additional, ar) =
             (case edns_payload_size query of
                None \<Rightarrow> ([], 0)
              | Some sz \<Rightarrow> (opt_record (min (max sz 512) SAFE_UDP_PAYLOAD), 1));
           out = pack_header \<lparr>msg_id = msg_id h, flags = response_flags (flags h) rc,
                   qdcount = qdcount h, ancount = an, nscount = 0, arcount = ar\<rparr>
       in Inr (out, question, additional)))"

definition build_error_response :: "bytes \<Rightarrow> u16 \<Rightarrow> bytes res" where
  "build_error_response query rc =
     rbind (response_skeleton query rc 0) (\<lambda>(out, question, additional).
       Inr (out @ question @ additional))"

text \<open>\<open>struct.pack("!I", n)\<close> raises when the integer does not fit.\<close>

definition pack_ttl :: "int \<Rightarrow> bytes res" where
  "pack_ttl n = (if 0 \<le> n \<and> n < 2 ^ 32 then Inr (pack_I (word_of_int n)) else Inl StructError)"

definition build_address_response ::
  "bytes \<Rightarrow> u16 \<Rightarrow> ipaddr option \<Rightarrow> int \<Rightarrow> bytes res" where
  "build_address_response query qt address t =
     (case address of
        None \<Rightarrow>
          rbind (response_skeleton query RCODE_NOERROR 0) (\<lambda>(out, question, additional).
            Inr (out @ question @ additional))
      | Some a \<Rightarrow>
          rbind (response_skeleton query RCODE_NOERROR 1) (\<lambda>(out, question, additional).
          rbind (pack_ttl t) (\<lambda>ttl_bytes.
            Inr (out @ question @ pack_H 0xC00C @ pack_H qt @ pack_H CLASS_IN @ ttl_bytes
                 @ pack_H (of_nat (length (packed a))) @ packed a @ additional))))"

text \<open>\<open>rnd\<close> is the 16-bit transaction ID drawn from the system generator.\<close>

definition build_query :: "(str \<Rightarrow> bytes res) \<Rightarrow> u16 \<Rightarrow> str \<Rightarrow> u16 \<Rightarrow> bool \<Rightarrow> bytes res" where
  "build_query idna rnd name qt want_edns =
     rbind (encode_name idna name) (\<lambda>encoded.
       Inr (pack_header \<lparr>msg_id = rnd, flags = 0x0100, qdcount = 1, ancount = 0, nscount = 0,
              arcount = (if want_edns then 1 else 0)\<rparr>
            @ encoded @ pack_H qt @ pack_H CLASS_IN
            @ (if want_edns then opt_record SAFE_UDP_PAYLOAD else [])))"

definition set_message_id :: "bytes \<Rightarrow> u16 \<Rightarrow> bytes res" where
  "set_message_id data mid =
     (if length data < 2 then Inl DNSFormatError else Inr (pack_H mid @ drop 2 data))"

section \<open>Names: bounds and round trip\<close>

lemma label_len_bits: "n \<le> 63 \<Longrightarrow> (of_nat n :: byte) AND 0xC0 = 0"
proof -
  assume n: "n \<le> 63"
  have "take_bit 6 (of_nat n :: byte) = of_nat n"
    using n by (simp add: take_bit_of_nat [symmetric] take_bit_nat_eq_self flip: of_nat_take_bit)
  moreover have "take_bit 6 (of_nat n :: byte) AND 0xC0 = 0"
    by (simp add: take_bit_eq_mask and.assoc mask_eq_exp_minus_1)
  ultimately show ?thesis by simp
qed

lemma unat_label_len: "n \<le> 63 \<Longrightarrow> unat (of_nat n :: byte) = n"
  by (simp add: unat_of_nat)

lemma latin1_char_byte [simp]: "latin1 (char_byte c) = c"
  by (simp add: latin1_def char_byte_def unat_of_nat code_pt_def)

text \<open>One unfolding of the loop, per kind of length byte.\<close>

lemma read_loop_end [wire_simps]: "length data \<le> c \<Longrightarrow> read_loop data c t j en ls = Inl DNSFormatError"
  by (subst read_loop.simps) simp

lemma read_loop_ptr:
  "c < length data \<Longrightarrow> data ! c AND 0xC0 = 0xC0 \<Longrightarrow> read_loop data c t j en ls =
     (if c + 1 < length data \<and> unat (unpack_H data c AND 0x3FFF) < c \<and> j < 64
      then read_loop data (unat (unpack_H data c AND 0x3FFF)) t (j + 1)
             (case en of None \<Rightarrow> Some (c + 2) | Some x \<Rightarrow> Some x) ls
      else Inl DNSFormatError)"
  by (subst read_loop.simps) (simp add: Let_def not_le)

lemma read_loop_nul [wire_simps]:
  "c < length data \<Longrightarrow> data ! c = 0 \<Longrightarrow> read_loop data c t j en ls =
     Inr (ls, case en of None \<Rightarrow> c + 1 | Some x \<Rightarrow> x)"
  by (subst read_loop.simps) (simp add: Let_def)

lemma read_loop_lab:
  "c < length data \<Longrightarrow> data ! c AND 0xC0 = 0 \<Longrightarrow> data ! c \<noteq> 0 \<Longrightarrow> read_loop data c t j en ls =
     (if c + 1 + unat (data ! c) \<le> length data \<and> t + unat (data ! c) + 1 \<le> 255
      then read_loop data (c + 1 + unat (data ! c)) (t + unat (data ! c) + 1) j en
             (ls @ [lower (map latin1 (slice (c + 1) (c + 1 + unat (data ! c)) data))])
      else Inl DNSFormatError)"
  by (subst read_loop.simps) (simp add: Let_def MAX_NAME_LEN_def not_less)

lemma read_loop_bad:
  "c < length data \<Longrightarrow> data ! c AND 0xC0 \<noteq> 0xC0 \<Longrightarrow> data ! c AND 0xC0 \<noteq> 0
   \<Longrightarrow> read_loop data c t j en ls = Inl DNSFormatError"
  by (subst read_loop.simps) (simp add: Let_def)

lemma read_loop_induct [consumes 1, case_names pointer stop label]:
  assumes run: "read_loop data c t j en ls = Inr (ls', e)"
    and pointer: "\<And>data c t j en ls. c + 1 < length data \<Longrightarrow> unat (unpack_H data c AND 0x3FFF) < c \<Longrightarrow> j < 64
      \<Longrightarrow> P data (unat (unpack_H data c AND 0x3FFF)) t (j + 1)
            (case en of None \<Rightarrow> Some (c + 2) | Some x \<Rightarrow> Some x) ls
      \<Longrightarrow> P data c t j en ls"
    and stop: "\<And>data c t j en. c < length data \<Longrightarrow> data ! c = 0
      \<Longrightarrow> e = (case en of None \<Rightarrow> c + 1 | Some x \<Rightarrow> x) \<Longrightarrow> P data c t j en ls'"
    and label: "\<And>data c t j en ls. data ! c AND 0xC0 = 0 \<Longrightarrow> data ! c \<noteq> 0
      \<Longrightarrow> c + 1 + unat (data ! c) \<le> length data \<Longrightarrow> t + unat (data ! c) + 1 \<le> 255
      \<Longrightarrow> P data (c + 1 + unat (data ! c)) (t + unat (data ! c) + 1) j en
            (ls @ [lower (map latin1 (slice (c + 1) (c + 1 + unat (data ! c)) data))])
      \<Longrightarrow> P data c t j en ls"
  shows "P data c t j en ls"
  using run
proof (induction data c t j en ls rule: read_loop.induct)
  case (1 data c t j en ls)
  let ?p = "unat (unpack_H data c AND 0x3FFF)"
  let ?en = "case en of None \<Rightarrow> Some (c + 2) | Some x \<Rightarrow> Some x"
  let ?n = "unat (data ! c)"
  let ?lab = "lower (map latin1 (slice (c + 1) (c + 1 + ?n) data))"
  have inb: "c < length data"
    using "1.prems" by (subst (asm) read_loop.simps) (simp split: if_splits)
  consider (ptr) "data ! c AND 0xC0 = 0xC0" | (nul) "data ! c = 0"
    | (lab) "data ! c AND 0xC0 = 0" "data ! c \<noteq> 0"
    | (bad) "data ! c AND 0xC0 \<noteq> 0xC0" "data ! c AND 0xC0 \<noteq> 0" "data ! c \<noteq> 0"
    by auto
  then show ?case
  proof cases
    case ptr
    have r: "c + 1 < length data" "?p < c" "j < 64" "read_loop data ?p t (j + 1) ?en ls = Inr (ls', e)"
      using "1.prems" unfolding read_loop_ptr [OF inb ptr] by (simp_all only: sum.distinct split: if_splits)
    have "P data ?p t (j + 1) ?en ls"
      by (rule "1.IH"(1) [OF _ refl ptr _ refl refl]) (use r inb in auto)
    from pointer [OF r(1-3) this] show ?thesis .
  next
    case nul
    have ls: "ls = ls'" and e: "e = (case en of None \<Rightarrow> c + 1 | Some x \<Rightarrow> x)"
      using "1.prems" unfolding read_loop_nul [OF inb nul] by simp_all
    show ?thesis unfolding ls by (rule stop [OF inb nul e])
  next
    case lab
    have r: "c + 1 + ?n \<le> length data" "t + ?n + 1 \<le> 255"
        "read_loop data (c + 1 + ?n) (t + ?n + 1) j en (ls @ [?lab]) = Inr (ls', e)"
      using "1.prems" unfolding read_loop_lab [OF inb lab] by (simp_all only: sum.distinct split: if_splits)
    have "P data (c + 1 + ?n) (t + ?n + 1) j en (ls @ [?lab])"
      by (rule "1.IH"(2)) (use r inb lab in \<open>auto simp: MAX_NAME_LEN_def\<close>)
    from label [OF lab r(1,2) this] show ?thesis .
  next
    case bad
    with "1.prems" show ?thesis by (simp add: read_loop_bad [OF inb])
  qed
qed

lemma read_loop_bounds:
  "read_loop data c t j en ls = Inr (ls', e) \<Longrightarrow>
     (case en of None \<Rightarrow> c < e \<and> e \<le> length data | Some x \<Rightarrow> e = x)"
  by (induction rule: read_loop_induct) (auto split: option.splits)

lemma read_loop_size:
  assumes "read_loop data c t j en ls = Inr (ls', e)"
    and "sum_list (map (\<lambda>l. length l + 1) ls) = t" and "t \<le> 255"
  shows "sum_list (map (\<lambda>l. length l + 1) ls') \<le> 255"
  using assms by (induction rule: read_loop_induct) (auto simp: wire_simps)

lemma read_name_bounds:
  assumes "read_name data off = Inr (name, e)"
  shows "off < e" "e \<le> length data" "length name \<le> 254"
proof -
  from assms obtain ls where run: "read_loop data off 0 0 None [] = Inr (ls, e)"
    and name: "name = join ''.'' ls"
    by (auto simp: read_name_def res_simps)
  from read_loop_bounds [OF run] show "off < e" "e \<le> length data" by simp_all
  from read_loop_size [OF run] have "sum_list (map (\<lambda>l. length l + 1) ls) \<le> 255" by simp
  then show "length name \<le> 254"
    using length_join_dot [of ls "CHR ''.''"] by (cases "ls = []") (auto simp: name)
qed

definition wire_label :: "str \<Rightarrow> bytes" where
  "wire_label l = of_nat (length l) # map char_byte l"

definition good_label :: "str \<Rightarrow> bool" where
  "good_label l = (l \<noteq> [] \<and> length l \<le> 63 \<and> isascii l)"

lemma length_wire_label [simp]: "length (wire_label l) = length l + 1"
  by (simp add: wire_label_def)

lemma read_loop_label_step:
  assumes "good_label l" and "t + length l + 1 \<le> 255"
  shows "read_loop (pre @ wire_label l @ post) (length pre) t j en acc =
    read_loop ((pre @ wire_label l) @ post) (length (pre @ wire_label l)) (t + length l + 1) j en
      (acc @ [lower l])"
proof -
  let ?d = "pre @ wire_label l @ post"
  have n: "unat (of_nat (length l) :: byte) = length l"
    using assms(1) by (intro unat_label_len) (simp add: good_label_def)
  then have nz: "(of_nat (length l) :: byte) \<noteq> 0"
    using assms(1) by (intro notI) (simp add: good_label_def)
  have d: "?d ! length pre = of_nat (length l)" by (simp add: wire_label_def nth_append)
  have sl: "map latin1 (slice (Suc (length pre)) (Suc (length pre + length l)) ?d) = l"
    using slice_append_mid [of "length pre + 1" "pre @ [of_nat (length l)]" _ "map char_byte l" post]
    by (simp add: wire_label_def comp_def)
  have "read_loop ?d (length pre) t j en acc =
      read_loop ?d (length pre + 1 + length l) (t + length l + 1) j en (acc @ [lower l])"
    using assms label_len_bits [of "length l"]
    by (subst read_loop_lab) (simp_all add: d n nz sl good_label_def)
  then show ?thesis by simp
qed

lemma read_loop_labels:
  assumes "\<forall>l \<in> set ls. good_label l" and "t + sum_list (map (\<lambda>l. length l + 1) ls) \<le> 255"
  shows "read_loop (pre @ concat (map wire_label ls) @ 0 # post) (length pre) t j en acc =
    Inr (acc @ map lower ls, case en of None \<Rightarrow> length pre + length (concat (map wire_label ls)) + 1
      | Some x \<Rightarrow> x)"
  using assms
proof (induction ls arbitrary: pre t acc)
  case Nil
  then show ?case by (simp add: read_loop_nul nth_append split: option.split)
next
  case (Cons l ls)
  have "read_loop (pre @ concat (map wire_label (l # ls)) @ 0 # post) (length pre) t j en acc =
      read_loop ((pre @ wire_label l) @ concat (map wire_label ls) @ 0 # post)
        (length (pre @ wire_label l)) (t + length l + 1) j en (acc @ [lower l])"
    using read_loop_label_step [of l t pre "concat (map wire_label ls) @ 0 # post" j en acc] Cons.prems
    by simp
  also have "\<dots> = Inr ((acc @ [lower l]) @ map lower ls,
      case en of None \<Rightarrow> length (pre @ wire_label l) + length (concat (map wire_label ls)) + 1
      | Some x \<Rightarrow> x)"
    by (rule Cons.IH) (use Cons.prems in auto)
  finally show ?case by (simp split: option.splits)
qed

lemma rmap_encode_label:
  assumes "rmap (encode_label idna) ls = Inr parts" and "\<forall>l \<in> set ls. isascii l"
  shows "parts = map wire_label ls \<and> (\<forall>l \<in> set ls. good_label l)"
  using assms
  by (induction ls arbitrary: parts)
     (auto simp: res_simps encode_label_def wire_label_def good_label_def MAX_LABEL_LEN_def
       split: if_splits)

lemma isascii_simps [simp]: "isascii [] " "isascii (c # s) \<longleftrightarrow> is_ascii c \<and> isascii s"
    "isascii (s @ t) \<longleftrightarrow> isascii s \<and> isascii t"
  by (auto simp: isascii_def)

lemma isascii_subset: "set s \<subseteq> set t \<Longrightarrow> isascii t \<Longrightarrow> isascii s"
  by (auto simp: isascii_def list_all_iff)

lemma length_concat_wire: "length (concat (map wire_label ls)) = sum_list (map (\<lambda>l. length l + 1) ls)"
  by (induction ls) auto

lemma encode_name_ascii:
  assumes "encode_name idna name = Inr enc" and "isascii name"
  shows "\<exists>ls. enc = concat (map wire_label ls) @ [0] \<and> join ''.'' ls = strip_dots name
    \<and> (\<forall>l \<in> set ls. good_label l) \<and> sum_list (map (\<lambda>l. length l + 1) ls) \<le> 254"
proof (cases "strip_dots name = []")
  case True
  with assms show ?thesis by (intro exI [of _ "[]"]) (simp add: encode_name_def)
next
  case False
  let ?ls = "split_on CHR ''.'' (strip_dots name)"
  from False assms(1) have "rbind (rmap (encode_label idna) ?ls) (\<lambda>parts.
      if 255 < length (concat parts @ [0]) then Inl ValueError else Inr (concat parts @ [0])) = Inr enc"
    by (simp add: encode_name_def Let_def MAX_NAME_LEN_def)
  then obtain parts where parts: "rmap (encode_label idna) ?ls = Inr parts"
    and "(if 255 < length (concat parts @ [0]) then Inl ValueError else Inr (concat parts @ [0])) = Inr enc"
    unfolding rbind_Inr_iff by blast
  then have enc: "enc = concat parts @ [0]" "length enc \<le> 255" by (auto split: if_splits)
  have "isascii (strip_dots name)" by (rule isascii_subset [OF strip_set assms(2)])
  then have "\<forall>l \<in> set ?ls. isascii l"
    using split_on_parts isascii_subset by metis
  from rmap_encode_label [OF parts this]
  have "parts = map wire_label ?ls" "\<forall>l \<in> set ?ls. good_label l" by simp_all
  with enc show ?thesis
    by (intro exI [of _ ?ls]) (simp add: join_split_on length_concat_wire)
qed

lemma read_loop_encoded:
  assumes "encode_name idna name = Inr enc" and "isascii name"
  obtains ls where "\<And>pre post j en. read_loop (pre @ enc @ post) (length pre) 0 j en [] =
      Inr (ls, case en of None \<Rightarrow> length pre + length enc | Some x \<Rightarrow> x)"
    and "join ''.'' ls = canon name"
proof -
  from encode_name_ascii [OF assms] obtain ls where
    ls: "enc = concat (map wire_label ls) @ [0]" "join ''.'' ls = strip_dots name"
      "\<forall>l \<in> set ls. good_label l" "sum_list (map (\<lambda>l. length l + 1) ls) \<le> 254" by blast
  have "read_loop (pre @ enc @ post) (length pre) 0 j en [] =
      Inr (map lower ls, case en of None \<Rightarrow> length pre + length enc | Some x \<Rightarrow> x)" for pre post j en
    using read_loop_labels [of ls 0 pre post j en "[]"] ls by (simp split: option.splits)
  moreover have "join ''.'' (map lower ls) = canon name"
    using ls(2) lower_join [of ls] by (simp add: canon_def)
  ultimately show ?thesis by (rule that)
qed

lemma read_encode_name:
  assumes "encode_name idna name = Inr enc" and "isascii name"
  shows "read_name (pre @ enc @ post) (length pre) = Inr (canon name, length pre + length enc)"
proof -
  from assms obtain ls where "\<And>pre post j en. read_loop (pre @ enc @ post) (length pre) 0 j en [] =
      Inr (ls, case en of None \<Rightarrow> length pre + length enc | Some x \<Rightarrow> x)"
    and "join ''.'' ls = canon name" by (rule read_loop_encoded) blast
  then show ?thesis by (simp add: read_name_def)
qed

lemma u16_eqI:
  assumes "\<And>n. n \<in> {0, 1, 2, 3, 4, 5, 6, 7, 8, 9, 10, 11, 12, 13, 14, 15} \<Longrightarrow> bit a n = bit b n"
  shows "(a :: u16) = b"
proof (rule bit_word_eqI)
  fix n assume "n < LENGTH(16)"
  then have "n < 16" by simp
  then have "n \<in> {0, 1, 2, 3, 4, 5, 6, 7, 8, 9, 10, 11, 12, 13, 14, 15}"
    by (simp only: insert_iff empty_iff simp_thms) presburger
  then show "bit a n = bit b n" by (rule assms)
qed

lemma response_flags_bits:
  "response_flags q rc AND 0x8000 = 0x8000"
  "response_flags q rc AND 0x000F = rc AND 0x000F"
  "drop_bit 11 (response_flags q rc) AND 0x0F = drop_bit 11 q AND 0x0F"
  "response_flags q rc AND 0x0100 = q AND 0x0100"
  "response_flags q rc AND 0x0200 = 0"
  "response_flags q rc AND 0x0010 = q AND 0x0010"
  by (rule u16_eqI; auto simp: response_flags_def bit_simps)+

lemma records_loop_layout:
  assumes "records_loop data n off = (rs, e)"
  shows "sorted_wrt (\<lambda>a b. ttl_offset a + 4 \<le> ttl_offset b) rs \<and>
    (\<forall>rr \<in> set rs. off + 5 \<le> ttl_offset rr \<and> ttl_offset rr + 6 \<le> length data
      \<and> unpack_I data (ttl_offset rr) = ttl rr)"
  using assms
proof (induction data n off arbitrary: rs e rule: records_loop.induct)
  case (2 data n off)
  show ?case
  proof (cases "read_name data off")
    case (Inl x)
    with "2.prems" show ?thesis by simp
  next
    case (Inr p)
    obtain name o2 where p: "p = (name, o2)" by (cases p)
    define rd where "rd = unat (unpack_H data (o2 + 8))"
    have o2: "off < o2" using read_name_bounds(1) [of data off name o2] Inr p by simp
    show ?thesis
    proof (cases "length data < o2 + 10 \<or> length data < o2 + 10 + rd")
      case True
      with "2.prems" Inr p show ?thesis by (auto simp: rd_def Let_def split: if_splits)
    next
      case False
      obtain rs' e' where rec: "records_loop data n (o2 + 10 + rd) = (rs', e')"
        by (cases "records_loop data n (o2 + 10 + rd)")
      from False have le: "\<not> length data < o2 + 10" "\<not> length data < o2 + 10 + rd" by auto
      from "2.IH" [OF Inr p [symmetric] le(1) rd_def le(2) refl rec]
      have IH: "sorted_wrt (\<lambda>a b. ttl_offset a + 4 \<le> ttl_offset b) rs'"
        "\<forall>rr \<in> set rs'. o2 + 10 + rd + 5 \<le> ttl_offset rr \<and> ttl_offset rr + 6 \<le> length data
          \<and> unpack_I data (ttl_offset rr) = ttl rr" by auto
      from "2.prems" Inr p le rec have "rs = \<lparr>rname = name, rtype = unpack_H data o2,
          rclass = unpack_H data (o2 + 2), ttl = unpack_I data (o2 + 4),
          rdata = slice (o2 + 10) (o2 + 10 + rd) data, ttl_offset = o2 + 4\<rparr> # rs'"
        by (simp add: Let_def rd_def)
      with IH o2 le show ?thesis by fastforce
    qed
  qed
qed simp


section \<open>Questions, headers and TTL rewriting\<close>

lemma questions_loop_bounds:
  "questions_loop data n off = Inr (qs, e) \<Longrightarrow> off \<le> length data
    \<Longrightarrow> off \<le> e \<and> e \<le> length data \<and> length qs = n"
proof (induction data n off arbitrary: qs e rule: questions_loop.induct)
  case (2 data n off)
  from "2.prems"(1) obtain name o2 qs' where rd: "read_name data off = Inr (name, o2)"
    and le: "\<not> length data < o2 + 4"
    and rec: "questions_loop data n (o2 + 4) = Inr (qs', e)" and len: "length qs = Suc (length qs')"
    by (auto simp: rbind_Inr_iff split: if_splits)
  have "o2 + 4 \<le> length data" using le by simp
  from "2.IH" [OF le rec this] read_name_bounds [OF rd] len le show ?case by simp
qed simp

lemma parse_questions_bounds:
  assumes "parse_questions data = Inr (qs, e)"
  shows "12 \<le> e" "e \<le> length data"
    "\<exists>h. parse_header data = Inr h \<and> length qs = unat (qdcount h)"
proof -
  from assms obtain h where h: "parse_header data = Inr h"
    and loop: "questions_loop data (unat (qdcount h)) 12 = Inr (qs, e)"
    by (auto simp: parse_questions_def rbind_Inr_iff HEADER_LEN_def)
  from h have "12 \<le> length data" by (simp add: parse_header_def HEADER_LEN_def split: if_splits)
  with questions_loop_bounds [OF loop] h show "12 \<le> e" "e \<le> length data"
    "\<exists>h. parse_header data = Inr h \<and> length qs = unat (qdcount h)" by auto
qed

lemma parse_questions_header: "parse_questions data = Inr r \<Longrightarrow> \<exists>h. parse_header data = Inr h"
  by (auto simp: parse_questions_def rbind_Inr_iff)

lemma length_pack_header [simp]: "length (pack_header h) = 12"
  by (simp add: pack_header_def)

lemma parse_pack_header [simp]: "parse_header (pack_header h @ rest) = Inr h"
proof -
  let ?d = "pack_header h @ rest"
  have
    "unpack_H ?d 0 = msg_id h" "unpack_H ?d 2 = flags h" "unpack_H ?d 4 = qdcount h"
    "unpack_H ?d 6 = ancount h" "unpack_H ?d 8 = nscount h" "unpack_H ?d 10 = arcount h"
    by (simp_all add: pack_header_def unpack_H_def pack_H_def join_pack_H)
  then show ?thesis by (simp add: parse_header_def HEADER_LEN_def)
qed

lemma iter_records_layout:
  assumes "iter_records data = (rs, e)"
  shows "sorted_wrt (\<lambda>a b. ttl_offset a + 4 \<le> ttl_offset b) rs \<and>
    (\<forall>rr \<in> set rs. 17 \<le> ttl_offset rr \<and> ttl_offset rr + 6 \<le> length data
      \<and> unpack_I data (ttl_offset rr) = ttl rr)"
proof -
  show ?thesis
  proof (cases "rbind (parse_header data) (\<lambda>h. rbind (parse_questions data) (\<lambda>(_, off). Inr (h, off)))")
    case (Inl x)
    with assms show ?thesis by (simp add: iter_records_def)
  next
    case (Inr p)
    then obtain h qs off where p: "p = (h, off)" and q: "parse_questions data = Inr (qs, off)"
      by (auto simp: rbind_Inr_iff)
    with Inr assms have "records_loop data (unat (ancount h) + unat (nscount h) + unat (arcount h)) off
        = (rs, e)" by (simp add: iter_records_def)
    from records_loop_layout [OF this] parse_questions_bounds(1) [OF q] show ?thesis
      by fastforce
  qed
qed

lemma all_records_layout:
  assumes "all_records data = Inr rs"
  shows "sorted_wrt (\<lambda>a b. ttl_offset a + 4 \<le> ttl_offset b) rs \<and>
    (\<forall>rr \<in> set rs. 17 \<le> ttl_offset rr \<and> ttl_offset rr + 6 \<le> length data
      \<and> unpack_I data (ttl_offset rr) = ttl rr)"
proof -
  from assms have "iter_records data = (rs, None)"
    by (auto simp: all_records_def split: prod.splits option.splits)
  then show ?thesis by (rule iter_records_layout)
qed

lemma length_write_ttls:
  "\<forall>rr \<in> set rs. ttl_offset rr + 6 \<le> length out \<Longrightarrow> length (write_ttls f rs out) = length out"
  by (induction rs arbitrary: out) (auto simp: write_ttls_def)

lemma write_ttls_frame:
  assumes "\<forall>rr \<in> set rs. ttl_offset rr + 6 \<le> length out" and "j < length out"
    and "\<forall>rr \<in> set rs. rtype rr \<noteq> TYPE_OPT \<longrightarrow> \<not> (ttl_offset rr \<le> j \<and> j < ttl_offset rr + 4)"
  shows "write_ttls f rs out ! j = out ! j"
  using assms
proof (induction rs arbitrary: out)
  case (Cons rr rs)
  let ?o = "if rtype rr = TYPE_OPT then out else pack_into_I out (ttl_offset rr) (f rr)"
  have len: "length ?o = length out" using Cons.prems(1) by simp
  have "write_ttls f rs ?o ! j = ?o ! j" using Cons.prems len by (intro Cons.IH) auto
  moreover have "?o ! j = out ! j"
    using Cons.prems by (cases "rtype rr = TYPE_OPT") (auto simp: nth_pack_into_I)
  ultimately show ?case by (simp add: write_ttls_def)
qed (simp add: write_ttls_def)

lemma unpack_pack_into_I:
  "i + 4 \<le> length out \<Longrightarrow> unpack_I (pack_into_I out i w) i = w"
  by (simp add: pack_into_I_def)

lemma unpack_I_cong:
  "(\<And>j. i \<le> j \<Longrightarrow> j < i + 4 \<Longrightarrow> xs ! j = ys ! j) \<Longrightarrow> unpack_I xs i = unpack_I ys i"
  by (simp add: unpack_I_def)

lemma write_ttls_at:
  assumes "\<forall>rr \<in> set rs. ttl_offset rr + 6 \<le> length out"
    and "sorted_wrt (\<lambda>a b. ttl_offset a + 4 \<le> ttl_offset b) rs"
    and "rr \<in> set rs" and "rtype rr \<noteq> TYPE_OPT"
  shows "unpack_I (write_ttls f rs out) (ttl_offset rr) = f rr"
  using assms
proof (induction rs arbitrary: out)
  case (Cons r rs)
  let ?o = "if rtype r = TYPE_OPT then out else pack_into_I out (ttl_offset r) (f r)"
  have len: "length ?o = length out" using Cons.prems(1) by simp
  have unf: "write_ttls f (r # rs) out = write_ttls f rs ?o" by (simp add: write_ttls_def)
  show ?case
  proof (cases "rr \<in> set rs")
    case True
    then show ?thesis using Cons.prems len unfolding unf by (intro Cons.IH) auto
  next
    case False
    with Cons.prems have r: "r = rr" by simp
    have "unpack_I (write_ttls f rs ?o) (ttl_offset rr) = unpack_I ?o (ttl_offset rr)"
      by (rule unpack_I_cong, rule write_ttls_frame) (use Cons.prems len r in fastforce)+
    also have "\<dots> = f rr" using Cons.prems r by (simp add: unpack_pack_into_I)
    finally show ?thesis unfolding unf .
  qed
qed simp

lemma uint_aged: "0 < n \<Longrightarrow> uint (aged n rr) = max 0 (uint (ttl rr) - n)"
  using uint_lt2p [of "ttl rr"] by (auto simp: aged_def word_of_int_inverse uint_word_of_int max_def)

section \<open>Well-formed queries and the answers built for them\<close>

text \<open>
  The shape of an ordinary query: one question with an uncompressed name.  Every statement about
  what a client reads back is made for messages of this shape.
\<close>

definition query_of :: "header \<Rightarrow> bytes \<Rightarrow> u16 \<Rightarrow> u16 \<Rightarrow> bytes \<Rightarrow> bytes" where
  "query_of h enc qt qc rest = pack_header h @ enc @ pack_H qt @ pack_H qc @ rest"

lemma parse_query_of:
  assumes "qdcount h = 1" and "encode_name idna name = Inr enc" and "isascii name"
  shows "parse_header (query_of h enc qt qc rest) = Inr h"
    and "parse_questions (query_of h enc qt qc rest) =
      Inr ([\<lparr>qname = canon name, qtype = qt, qclass = qc\<rparr>], length enc + 16)"
proof -
  let ?d = "query_of h enc qt qc rest"
  show h: "parse_header ?d = Inr h" by (simp add: query_of_def)
  have "read_name ?d 12 = Inr (canon name, 12 + length enc)"
    using read_encode_name [OF assms(2,3), of "pack_header h" "pack_H qt @ pack_H qc @ rest"]
    by (simp add: query_of_def)
  moreover have "unpack_H ?d (12 + length enc) = qt"
    using unpack_pack_H [of _ "pack_header h @ enc" qt "pack_H qc @ rest"] by (simp add: query_of_def)
  moreover have "unpack_H ?d (14 + length enc) = qc"
    using unpack_pack_H [of _ "pack_header h @ enc @ pack_H qt" qc rest] by (simp add: query_of_def)
  moreover have "\<not> length ?d < 12 + length enc + 4" by (simp add: query_of_def)
  moreover have "unat (qdcount h) = Suc 0" using assms(1) by simp
  ultimately show "parse_questions ?d =
      Inr ([\<lparr>qname = canon name, qtype = qt, qclass = qc\<rparr>], length enc + 16)"
    using h by (simp add: parse_questions_def HEADER_LEN_def ac_simps)
qed

lemma read_root: "read_name (pre @ 0 # post) (length pre) = Inr ([], length pre + 1)"
  by (simp add: read_name_def read_loop_nul nth_append)

lemma records_opt:
  "records_loop (pre @ opt_record sz) (Suc 0) (length pre) =
     ([\<lparr>rname = [], rtype = TYPE_OPT, rclass = sz, ttl = 0, rdata = [], ttl_offset = length pre + 5\<rparr>],
      None)"
proof -
  let ?d = "pre @ opt_record sz"
  define k where "k = length pre + 1"
  have d: "?d = pre @ 0 # pack_H TYPE_OPT @ pack_H sz @ pack_I 0 @ pack_H 0"
    by (simp add: opt_record_def)
  have "read_name ?d (length pre) = Inr ([], k)" unfolding d k_def by (rule read_root)
  moreover have "unpack_H ?d k = TYPE_OPT"
    using unpack_pack_H [of k "pre @ [0]" TYPE_OPT] unfolding d by (simp add: k_def)
  moreover have "unpack_H ?d (k + 2) = sz"
    using unpack_pack_H [of "k + 2" "pre @ 0 # pack_H TYPE_OPT" sz] unfolding d by (simp add: k_def)
  moreover have "unpack_I ?d (k + 4) = 0"
    using unpack_pack_I [of "k + 4" "pre @ 0 # pack_H TYPE_OPT @ pack_H sz" 0] unfolding d
    by (simp add: k_def)
  moreover have "unpack_H ?d (k + 8) = 0"
    using unpack_pack_H [of "k + 8" "pre @ 0 # pack_H TYPE_OPT @ pack_H sz @ pack_I 0" 0 "[]"]
    unfolding d by (simp add: k_def)
  moreover have "length ?d = k + 10" by (simp add: opt_record_def k_def)
  ultimately have "records_loop ?d (Suc 0) (length pre) =
      ([\<lparr>rname = [], rtype = TYPE_OPT, rclass = sz, ttl = 0, rdata = [], ttl_offset = k + 4\<rparr>], None)"
    by (simp add: Let_def slice_def)
  then show ?thesis by (simp add: k_def)
qed

definition answer_bytes :: "u16 \<Rightarrow> u32 \<Rightarrow> ipaddr \<Rightarrow> bytes" where
  "answer_bytes qt t a = pack_H 0xC00C @ pack_H qt @ pack_H CLASS_IN @ pack_I t
     @ pack_H (of_nat (length (packed a))) @ packed a"

lemma length_packed: "length (packed a) = ip_width a div 8"
  by (cases a) simp_all

lemma packed_value: "ip_ok a \<Longrightarrow> be_value (packed a) = ip_value a"
  by (cases a) (simp_all add: ip_ok_def be_value_be_bytes)

lemma answer_pointer:
  assumes "encode_name idna name = Inr enc" and "isascii name" and "length hdr = 12"
  shows "read_name (hdr @ enc @ mid @ pack_H 0xC00C @ post) (12 + length enc + length mid) =
    Inr (canon name, 14 + length enc + length mid)"
proof -
  let ?d = "hdr @ enc @ mid @ pack_H 0xC00C @ post"
  let ?c = "12 + length enc + length mid"
  have pc: "pack_H (0xC00C :: u16) = [0xC0, 0x0C]" by (simp add: pack_H_def)
  have c: "?d ! ?c = 0xC0" "?c + 1 < length ?d" "?c < length ?d"
    using assms(3) by (simp_all add: nth_append pc)
  have "unpack_H ?d ?c = 0xC00C"
    using unpack_pack_H [of ?c "hdr @ enc @ mid" "0xC00C" post] assms(3) by simp
  then have p: "unat (unpack_H ?d ?c AND 0x3FFF) = 12" by simp
  from assms(1,2) obtain ls where ls: "\<And>pre post j en.
      read_loop (pre @ enc @ post) (length pre) 0 j en [] =
      Inr (ls, case en of None \<Rightarrow> length pre + length enc | Some x \<Rightarrow> x)"
    and j: "join ''.'' ls = canon name" by (rule read_loop_encoded) blast
  have ptr: "?d ! ?c AND 0xC0 = 0xC0" unfolding c(1) by simp
  have lt: "12 < ?c" using encode_name_ascii [OF assms(1,2)] by auto
  have "read_loop ?d ?c 0 0 None [] = read_loop ?d 12 0 1 (Some (?c + 2)) []"
    unfolding read_loop_ptr [OF c(3) ptr] p using c(2) lt by simp
  also have "\<dots> = Inr (ls, ?c + 2)"
    using ls [of hdr "mid @ pack_H 0xC00C @ post" 1 "Some (?c + 2)"] assms(3) by simp
  finally show ?thesis by (simp add: read_name_def j)
qed

lemma skeleton_Inr:
  assumes "response_skeleton query rc an = Inr (out, question, additional)"
    and "parse_header query = Inr h" and "parse_questions query = Inr (qs, e)"
  shows "\<exists>ar. out = pack_header \<lparr>msg_id = msg_id h, flags = response_flags (flags h) rc,
      qdcount = qdcount h, ancount = an, nscount = 0, arcount = ar\<rparr>
    \<and> question = slice 12 e query
    \<and> (additional = [] \<and> ar = 0 \<or> (\<exists>sz. additional = opt_record sz \<and> ar = 1))"
  using assms
  by (cases "edns_payload_size query")
     (auto simp: response_skeleton_def Let_def HEADER_LEN_def)

lemma skeleton_ok: "ok (response_skeleton query rc an) \<longleftrightarrow> ok (parse_questions query)"
proof (cases "parse_questions query")
  case (Inr r)
  then obtain h where "parse_header query = Inr h" using parse_questions_header by blast
  with Inr show ?thesis
    by (cases r; cases "edns_payload_size query") (simp_all add: response_skeleton_def Let_def)
next
  case (Inl e)
  then show ?thesis by (cases "parse_header query") (simp_all add: response_skeleton_def)
qed

lemma build_error_ok: "ok (build_error_response query rc) \<longleftrightarrow> ok (parse_questions query)"
proof -
  have "ok (build_error_response query rc) \<longleftrightarrow> ok (response_skeleton query rc 0)"
    by (cases "response_skeleton query rc 0") (auto simp: build_error_response_def)
  then show ?thesis by (simp add: skeleton_ok)
qed

text \<open>What every synthetic answer promises the client that asked.\<close>

definition answers_query :: "header \<Rightarrow> nat \<Rightarrow> bytes \<Rightarrow> u16 \<Rightarrow> bytes \<Rightarrow> bool" where
  "answers_query h e query rc out =
     (case parse_header out of
        Inl _ \<Rightarrow> False
      | Inr h' \<Rightarrow> is_response h' \<and> msg_id h' = msg_id h \<and> opcode h' = opcode h \<and> rcode h' = rc
          \<and> recursion_desired h' = recursion_desired h \<and> \<not> truncated h' \<and> qdcount h' = qdcount h
          \<and> nscount h' = 0 \<and> slice 12 e out = slice 12 e query)"

lemma response_header_bits:
  assumes "rc AND 0x000F = rc"
  shows "is_response \<lparr>msg_id = i, flags = response_flags q rc, qdcount = a, ancount = b,
            nscount = c, arcount = d\<rparr>"
    and "rcode \<lparr>msg_id = i, flags = response_flags q rc, qdcount = a, ancount = b,
            nscount = c, arcount = d\<rparr> = rc"
    and "\<not> truncated \<lparr>msg_id = i, flags = response_flags q rc, qdcount = a, ancount = b,
            nscount = c, arcount = d\<rparr>"
  using assms by (simp_all add: is_response_def rcode_def truncated_def response_flags_bits)

lemma skeleton_answers:
  assumes "response_skeleton query rc an = Inr (out, question, additional)"
    and "parse_header query = Inr h" and "parse_questions query = Inr (qs, e)"
    and "rc AND 0x000F = rc"
  shows "answers_query h e query rc (out @ question @ rest)"
proof -
  from skeleton_Inr [OF assms(1-3)] obtain ar where
    out: "out = pack_header \<lparr>msg_id = msg_id h, flags = response_flags (flags h) rc,
      qdcount = qdcount h, ancount = an, nscount = 0, arcount = ar\<rparr>"
    and q: "question = slice 12 e query" by blast
  from parse_questions_bounds [OF assms(3)] have e: "12 \<le> e" "e \<le> length query" by simp_all
  then have "length question = e - 12" by (simp add: q length_slice)
  then have "slice 12 e (out @ question @ rest) = question"
    using e by (intro slice_append_mid) (simp_all add: out)
  with out q show ?thesis
    by (simp add: answers_query_def response_header_bits [OF assms(4)] opcode_def
        recursion_desired_def response_flags_bits)
qed

text \<open>The record section of an address answer.\<close>

lemma answer_records:
  fixes mid :: bytes
  assumes "encode_name idna name = Inr enc" and "isascii name" and "length hdr = 12"
    and "ip_ok a" and "additional = [] \<and> n = 0 \<or> (\<exists>sz. additional = opt_record sz \<and> n = Suc 0)"
  defines "off \<equiv> 12 + length enc + length mid"
  shows "\<exists>opts. (\<forall>r \<in> set opts. rtype r = TYPE_OPT) \<and>
    records_loop (hdr @ enc @ mid @ answer_bytes qt t a @ additional) (Suc n) off =
    (\<lparr>rname = canon name, rtype = qt, rclass = CLASS_IN, ttl = t, rdata = packed a,
      ttl_offset = off + 6\<rparr> # opts, None)"
proof -
  let ?d = "hdr @ enc @ mid @ answer_bytes qt t a @ additional"
  let ?len = "length (packed a)"
  define k where "k = off + 2"
  have len: "?len \<le> 16" by (simp add: length_packed) (cases a; simp)
  then have u: "unat (of_nat ?len :: u16) = ?len" by (simp add: unat_of_nat)
  have "read_name ?d off = Inr (canon name, k)"
    using answer_pointer [OF assms(1,2,3), of mid "pack_H qt @ pack_H CLASS_IN @ pack_I t
        @ pack_H (of_nat ?len) @ packed a @ additional"]
    by (simp add: answer_bytes_def off_def k_def)
  moreover have "unpack_H ?d k = qt"
    using unpack_pack_H [of k "hdr @ enc @ mid @ pack_H 0xC00C" qt] assms(3)
    by (simp add: answer_bytes_def off_def k_def)
  moreover have "unpack_H ?d (k + 2) = CLASS_IN"
    using unpack_pack_H [of "k + 2" "hdr @ enc @ mid @ pack_H 0xC00C @ pack_H qt" CLASS_IN] assms(3)
    by (simp add: answer_bytes_def off_def k_def)
  moreover have "unpack_I ?d (k + 4) = t"
    using unpack_pack_I [of "k + 4" "hdr @ enc @ mid @ pack_H 0xC00C @ pack_H qt @ pack_H CLASS_IN" t]
      assms(3) by (simp add: answer_bytes_def off_def k_def)
  moreover have "unpack_H ?d (k + 8) = of_nat ?len"
    using unpack_pack_H [of "k + 8" "hdr @ enc @ mid @ pack_H 0xC00C @ pack_H qt @ pack_H CLASS_IN
      @ pack_I t" "of_nat ?len"] assms(3) by (simp add: answer_bytes_def off_def k_def)
  moreover have "slice (k + 10) (k + 10 + ?len) ?d = packed a"
    using slice_append_mid [of "k + 10" "hdr @ enc @ mid @ pack_H 0xC00C @ pack_H qt
      @ pack_H CLASS_IN @ pack_I t @ pack_H (of_nat ?len)" _ "packed a" additional] assms(3)
    by (simp add: answer_bytes_def off_def k_def)
  moreover have "length ?d = k + 10 + ?len + length additional"
    using assms(3) by (simp add: answer_bytes_def off_def k_def)
  moreover have "\<exists>opts. (\<forall>r \<in> set opts. rtype r = TYPE_OPT) \<and>
      records_loop ?d n (k + 10 + ?len) = (opts, None)"
    using assms(5)
  proof
    assume "\<exists>sz. additional = opt_record sz \<and> n = Suc 0"
    then obtain sz where "additional = opt_record sz" "n = Suc 0" by blast
    then show ?thesis
      using records_opt [of "hdr @ enc @ mid @ answer_bytes qt t a" sz] assms(3)
      by (simp add: answer_bytes_def off_def k_def add.assoc del: records_loop.simps)
  qed simp
  ultimately show ?thesis by (auto simp: Let_def u k_def)
qed

lemma records_loop_length:
  "records_loop data n off = (rs, None) \<Longrightarrow> length rs = n"
proof (induction data n off arbitrary: rs rule: records_loop.induct)
  case (2 data n off)
  show ?case
  proof (cases "read_name data off")
    case (Inr p)
    with "2.prems" obtain rs' where "rs = hd rs # rs'"
      "records_loop data n (snd p + 10 + unat (unpack_H data (snd p + 8))) = (rs', None)"
      "\<not> length data < snd p + 10" "\<not> length data < snd p + 10 + unat (unpack_H data (snd p + 8))"
      by (cases p) (auto simp: Let_def split: if_splits prod.splits)
    moreover from "2.IH" [OF Inr prod.collapse this(3) refl this(4) refl this(2)]
    have "length rs' = n" .
    ultimately show ?thesis by (metis length_Cons)
  qed (use "2.prems" in simp)
qed simp

lemma address_response_shape:
  assumes "build_address_response query qt (Some a) t = Inr out"
    and "parse_header query = Inr h" and "parse_questions query = Inr (qs, e)"
  shows "\<exists>ar additional. out = pack_header \<lparr>msg_id = msg_id h,
      flags = response_flags (flags h) RCODE_NOERROR, qdcount = qdcount h, ancount = 1, nscount = 0,
      arcount = ar\<rparr> @ slice 12 e query @ answer_bytes qt (word_of_int t) a @ additional
    \<and> 0 \<le> t \<and> t < 2 ^ 32
    \<and> (additional = [] \<and> ar = 0 \<or> (\<exists>sz. additional = opt_record sz \<and> ar = 1))"
proof -
  from assms(1) obtain o1 q ad where sk: "response_skeleton query RCODE_NOERROR 1 = Inr (o1, q, ad)"
    and t: "0 \<le> t \<and> t < 2 ^ 32" and out: "out = o1 @ q @ answer_bytes qt (word_of_int t) a @ ad"
    by (auto simp: build_address_response_def rbind_Inr_iff pack_ttl_def answer_bytes_def
        split: if_splits)
  from skeleton_Inr [OF sk assms(2,3)] t show ?thesis unfolding out by blast
qed

lemma address_response_answers:
  assumes "encode_name idna name = Inr enc" and "isascii name" and "qdcount h = 1" and "ip_ok a"
    and "build_address_response (query_of h enc qt qc rest) qt' (Some a) t = Inr out"
  shows "\<exists>opts. (\<forall>r \<in> set opts. rtype r = TYPE_OPT) \<and> iter_records out = (\<lparr>rname = canon name, rtype = qt', rclass = CLASS_IN,
      ttl = word_of_int t, rdata = packed a, ttl_offset = length enc + 22\<rparr> # opts, None)
    \<and> parse_questions out = Inr ([\<lparr>qname = canon name, qtype = qt, qclass = qc\<rparr>], length enc + 16)
    \<and> 0 \<le> t \<and> t < 2 ^ 32
    \<and> parse_header out = Inr \<lparr>msg_id = msg_id h, flags = response_flags (flags h) RCODE_NOERROR,
        qdcount = 1, ancount = 1, nscount = 0, arcount = of_nat (length opts)\<rparr>"
proof -
  let ?q = "query_of h enc qt qc rest"
  note pq = parse_query_of [OF assms(3,1,2), of qt qc rest]
  from address_response_shape [OF assms(5) pq] obtain ar ad where
    out: "out = pack_header \<lparr>msg_id = msg_id h, flags = response_flags (flags h) RCODE_NOERROR,
      qdcount = qdcount h, ancount = 1, nscount = 0, arcount = ar\<rparr>
      @ slice 12 (length enc + 16) ?q @ answer_bytes qt' (word_of_int t) a @ ad"
    and t: "0 \<le> t \<and> t < 2 ^ 32"
    and ad: "ad = [] \<and> ar = 0 \<or> (\<exists>sz. ad = opt_record sz \<and> ar = 1)" by blast
  define h' where "h' = \<lparr>msg_id = msg_id h, flags = response_flags (flags h) RCODE_NOERROR,
      qdcount = 1, ancount = 1, nscount = 0, arcount = ar\<rparr>"
  have "slice 12 (length enc + 16) ?q = enc @ pack_H qt @ pack_H qc"
    using slice_append_mid [of 12 "pack_header h" "length enc + 16" "enc @ pack_H qt @ pack_H qc" rest]
    by (simp add: query_of_def)
  then have out2: "out = query_of h' enc qt qc (answer_bytes qt' (word_of_int t) a @ ad)"
    using assms(3) by (simp add: out query_of_def h'_def)
  note pq' = parse_query_of [OF _ assms(1,2), of h' qt qc "answer_bytes qt' (word_of_int t) a @ ad",
      folded out2]
  have q1: "qdcount h' = 1" by (simp add: h'_def)
  from ad have n: "ad = [] \<and> unat ar = 0 \<or> (\<exists>sz. ad = opt_record sz \<and> unat ar = Suc 0)"
    by auto
  from answer_records [OF assms(1,2) _ assms(4) n, of "pack_header h'" "pack_H qt @ pack_H qc" qt'
      "word_of_int t"]
  obtain opts where opt: "\<forall>r \<in> set opts. rtype r = TYPE_OPT"
    and recs: "records_loop out (Suc (unat ar)) (length enc + 16) =
    (\<lparr>rname = canon name, rtype = qt', rclass = CLASS_IN, ttl = word_of_int t, rdata = packed a,
      ttl_offset = length enc + 22\<rparr> # opts, None)"
    by (auto simp: out2 query_of_def ac_simps)
  have "unat (ancount h') + unat (nscount h') + unat (arcount h') = Suc (unat ar)"
    by (simp add: h'_def)
  with recs pq' [OF q1] have it: "iter_records out = (\<lparr>rname = canon name, rtype = qt', rclass = CLASS_IN,
      ttl = word_of_int t, rdata = packed a, ttl_offset = length enc + 22\<rparr> # opts, None)"
    by (simp add: iter_records_def)
  from records_loop_length [OF recs] have "of_nat (length opts) = ar" by simp
  with it pq' [OF q1] t opt show ?thesis by (auto simp: h'_def)
qed

section \<open>Properties\<close>

text \<open>decoding a name of any message, hostile ones included, returns: either an error or a name
  of at most 254 characters together with an offset strictly past the start and inside the message.\<close>

theorem read_name_bounded:
  assumes "read_name data off = Inr (name, e)"
  shows "off < e \<and> e \<le> length data \<and> length name \<le> 254"
  using read_name_bounds [OF assms] by simp

theorem read_name_bounded_witness:
  "read_name [3, 119, 119, 119, 0] 0 = Inr (''www'', 5) \<and> (0::nat) < 5 \<and> (5::nat) \<le> length [3, 119, 119, 119, 0::byte]
    \<and> length ''www'' \<le> 254"
proof -
  have h: "read_name [3, 119, 119, 119, 0] 0 = Inr (''www'', 5)" by code_simp
  from read_name_bounded [OF h] h show ?thesis by simp
qed

text \<open>a compression pointer that does not point strictly backwards is refused.\<close>

theorem forward_pointer_refused:
  assumes "c + 1 < length data" and "data ! c AND 0xC0 = 0xC0"
    and "c \<le> unat (unpack_H data c AND 0x3FFF)"
  shows "read_name data c = Inl DNSFormatError"
  using assms by (simp add: read_name_def read_loop_ptr)

theorem forward_pointer_refused_witness:
  "read_name [0xC0, 0x00, 0] 0 = Inl DNSFormatError"
  by (rule forward_pointer_refused) code_simp+

text \<open>C9: encoding an ASCII name and decoding it at any position of any message gives back the
  stripped, lower-cased name and the offset just past it.\<close>

theorem name_round_trip:
  assumes "encode_name idna name = Inr enc" and "isascii name"
  shows "read_name (pre @ enc @ post) (length pre) = Inr (canon name, length pre + length enc)"
  using assms by (rule read_encode_name)

theorem name_round_trip_witness:
  "read_name ([7, 7] @ [3, 65, 98, 99, 2, 67, 111, 0] @ [9]) (length [7, 7::byte])
     = Inr (''abc.co'', length [7, 7::byte] + length [3, 65, 98, 99, 2, 67, 111, 0::byte])"
proof -
  have e: "encode_name (\<lambda>_. Inl ValueError) ''Abc.Co.'' = Inr [3, 65, 98, 99, 2, 67, 111, 0]" by code_simp
  have c: "canon ''Abc.Co.'' = ''abc.co''" by code_simp
  have a: "isascii ''Abc.Co.''" by code_simp
  from name_round_trip [OF e a, of "[7, 7]" "[9]"] show ?thesis unfolding c .
qed

text \<open>ageing a cached message by \<open>n\<close> seconds keeps its length, replaces every TTL outside OPT
  records by the old one less \<open>n\<close>, floored at 0, and changes no byte outside those TTL fields.\<close>

theorem ttls_reduced_in_place:
  assumes "with_ttls_reduced data n = Inr out" and "0 < n" and "all_records data = Inr rs"
  shows "length out = length data
    \<and> (\<forall>rr \<in> set rs. rtype rr \<noteq> TYPE_OPT \<longrightarrow>
         uint (unpack_I out (ttl_offset rr)) = max 0 (uint (ttl rr) - n))
    \<and> (\<forall>j < length data.
         (\<forall>rr \<in> set rs. rtype rr \<noteq> TYPE_OPT \<longrightarrow> \<not> (ttl_offset rr \<le> j \<and> j < ttl_offset rr + 4)) \<longrightarrow>
         out ! j = data ! j)"
proof -
  note layout = all_records_layout [OF assms(3)]
  have out: "out = write_ttls (aged n) rs data"
    using assms by (simp add: with_ttls_reduced_def)
  show ?thesis unfolding out
    using layout assms(2) by (auto simp: length_write_ttls write_ttls_at write_ttls_frame uint_aged)
qed

text \<open>A response for \<open>a\<close>, type A, with one record of TTL 300: the input of several witnesses.\<close>

definition sample_response :: bytes where
  "sample_response =
     [0, 7, 0x81, 0x80, 0, 1, 0, 1, 0, 0, 0, 0, 1, 97, 0, 0, 1, 0, 1,
      0xC0, 12, 0, 1, 0, 1, 0, 0, 1, 44, 0, 4, 93, 184, 216, 34]"

lemma sample_header: "parse_header sample_response = Inr \<lparr>msg_id = 7, flags = 0x8180, qdcount = 1,
    ancount = 1, nscount = 0, arcount = 0\<rparr>"
  by code_simp

lemma sample_name: "read_name sample_response 12 = Inr (''a'', 15)" "read_name sample_response 19 = Inr (''a'', 21)"
  by code_simp+

lemma sample_questions: "parse_questions sample_response = Inr ([\<lparr>qname = ''a'', qtype = 1, qclass = 1\<rparr>], 19)"
  by code_simp

lemma sample_records: "all_records sample_response = Inr
      [\<lparr>rname = ''a'', rtype = 1, rclass = 1, ttl = 300, rdata = [93, 184, 216, 34], ttl_offset = 25\<rparr>]"
  by code_simp

theorem ttls_reduced_in_place_witness:
  "\<exists>out rs. with_ttls_reduced sample_response 100 = Inr out \<and> all_records sample_response = Inr rs
    \<and> length rs = 1 \<and> length out = length sample_response
    \<and> (\<forall>rr \<in> set rs. rtype rr \<noteq> TYPE_OPT \<longrightarrow>
         uint (unpack_I out (ttl_offset rr)) = max 0 (uint (ttl rr) - 100))"
proof -
  note a = sample_records
  obtain out where w: "with_ttls_reduced sample_response 100 = Inr out"
    using a by (simp add: with_ttls_reduced_def)
  from ttls_reduced_in_place [OF w _ a] w a show ?thesis by auto
qed

text \<open>A query for \<open>a.co\<close>, type A, with an EDNS0 record announcing a 4096-byte buffer.\<close>

definition sample_query :: bytes where
  "sample_query =
     [0x12, 0x34, 0x01, 0, 0, 1, 0, 0, 0, 0, 0, 1, 1, 97, 2, 99, 111, 0, 0, 1, 0, 1,
      0, 0, 41, 0x10, 0, 0, 0, 0, 0, 0, 0]"

definition sample_query_header :: header where
  "sample_query_header = \<lparr>msg_id = 0x1234, flags = 0x0100, qdcount = 1, ancount = 0, nscount = 0,
     arcount = 1\<rparr>"

lemma sample_query_parse:
  "parse_header sample_query = Inr sample_query_header"
  "parse_questions sample_query = Inr ([\<lparr>qname = ''a.co'', qtype = 1, qclass = 1\<rparr>], 22)"
  by code_simp+

text \<open>an error answer is built exactly for the messages whose questions parse, and it carries
  the client's transaction ID, opcode, recursion bit and question bytes, the requested status, and
  no answer records.\<close>

theorem error_response_answers_query:
  assumes "build_error_response query rc = Inr out" and "rc AND 0x000F = rc"
  shows "\<exists>h qs e. parse_header query = Inr h \<and> parse_questions query = Inr (qs, e)
    \<and> answers_query h e query rc out \<and> (\<exists>h'. parse_header out = Inr h' \<and> ancount h' = 0)"
proof -
  from assms(1) have "ok (build_error_response query rc)" by simp
  then have "ok (parse_questions query)" by (simp add: build_error_ok)
  then obtain qs e where q: "parse_questions query = Inr (qs, e)"
    by (cases "parse_questions query") auto
  then obtain h where h: "parse_header query = Inr h" using parse_questions_header by blast
  from assms(1) obtain o1 qn ad where sk: "response_skeleton query rc 0 = Inr (o1, qn, ad)"
    and out: "out = o1 @ qn @ ad" by (auto simp: build_error_response_def rbind_Inr_iff)
  from skeleton_answers [OF sk h q assms(2), of ad] skeleton_Inr [OF sk h q]
  show ?thesis using h q by (auto simp: out)
qed

theorem error_response_answers_query_witness:
  "\<exists>out. build_error_response sample_query RCODE_NXDOMAIN = Inr out
    \<and> answers_query sample_query_header 22 sample_query RCODE_NXDOMAIN out"
proof -
  have "ok (build_error_response sample_query RCODE_NXDOMAIN)"
    by (simp add: build_error_ok sample_query_parse)
  then obtain out where w: "build_error_response sample_query RCODE_NXDOMAIN = Inr out"
    by (cases "build_error_response sample_query RCODE_NXDOMAIN") auto
  have "RCODE_NXDOMAIN AND 0x000F = RCODE_NXDOMAIN" by (simp add: RCODE_NXDOMAIN_def)
  from error_response_answers_query [OF w this] w show ?thesis by (auto simp: sample_query_parse)
qed

text \<open>the answer that points a name at an address reads back as exactly that: one A or AAAA
  record with the given TTL, under the queried name, echoing ID and question.\<close>

theorem address_response_reads_back:
  assumes "encode_name idna name = Inr enc" and "isascii name" and "qdcount h = 1" and "ip_ok a"
    and "qt = (case a of V4 _ \<Rightarrow> TYPE_A | V6 _ \<Rightarrow> TYPE_AAAA)"
    and "build_address_response (query_of h enc qt CLASS_IN rest) qt (Some a) t = Inr out"
  shows "answer_addresses out = Inr [a] \<and> cname_chain out = Inr [] \<and> message_ttl out 0 = Inr t
    \<and> first_question out = Inr (Some \<lparr>qname = canon name, qtype = qt, qclass = CLASS_IN\<rparr>)
    \<and> (\<exists>h'. parse_header out = Inr h' \<and> msg_id h' = msg_id h \<and> is_response h'
         \<and> rcode h' = RCODE_NOERROR)"
proof -
  from address_response_answers [OF assms(1-4,6)] obtain opts where
    opt: "\<forall>r \<in> set opts. rtype r = TYPE_OPT"
    and it: "iter_records out = (\<lparr>rname = canon name, rtype = qt, rclass = CLASS_IN,
      ttl = word_of_int t, rdata = packed a, ttl_offset = length enc + 22\<rparr> # opts, None)"
    and q: "parse_questions out = Inr ([\<lparr>qname = canon name, qtype = qt, qclass = CLASS_IN\<rparr>],
      length enc + 16)"
    and t: "0 \<le> t" "t < 2 ^ 32"
    and h: "parse_header out = Inr \<lparr>msg_id = msg_id h, flags = response_flags (flags h) RCODE_NOERROR,
        qdcount = 1, ancount = 1, nscount = 0, arcount = of_nat (length opts)\<rparr>" by blast
  have qt: "qt = TYPE_A \<or> qt = TYPE_AAAA" "qt \<noteq> TYPE_OPT" "qt \<noteq> TYPE_CNAME"
    using assms(5) by (cases a; simp add: dns_consts)+
  have "int (unat (word_of_int t :: u32)) = t"
    using t by (simp add: uint_word_of_int)
  moreover have "live_ttls opts = []" using opt by (simp add: live_ttls_def filter_empty_conv)
  ultimately have "message_ttl out 0 = Inr t"
    using qt(2) by (simp add: message_ttl_def all_records_def it live_ttls_def)
  moreover have "[a] = (case a of V4 _ \<Rightarrow> [V4 (be_value (packed a))] | V6 _ \<Rightarrow> [V6 (be_value (packed a))])"
    using packed_value [OF assms(4)] by (cases a) simp_all
  then have "answer_addresses out = Inr [a]"
    using assms(5) by (cases a)
      (simp_all add: answer_addresses_def first_records_def it h record_address_def length_packed
        TYPE_A_def TYPE_AAAA_def del: packed.simps)
  moreover have "cname_chain out = Inr []"
    using qt(3) by (simp add: cname_chain_def first_records_def it h cname_target_def)
  ultimately show ?thesis
    using q h by (simp add: first_question_def response_header_bits RCODE_NOERROR_def)
qed

theorem address_response_reads_back_witness:
  "\<exists>out. build_address_response sample_query TYPE_A (Some (V4 0)) 60 = Inr out
    \<and> answer_addresses out = Inr [V4 0]"
proof -
  have e: "encode_name (\<lambda>_. Inl ValueError) ''a.co'' = Inr [1, 97, 2, 99, 111, 0]" by code_simp
  have s: "sample_query = query_of sample_query_header [1, 97, 2, 99, 111, 0] TYPE_A CLASS_IN
      [0, 0, 41, 0x10, 0, 0, 0, 0, 0, 0, 0]"
    by code_simp
  have "ok (build_address_response sample_query TYPE_A (Some (V4 0)) 60)"
    using skeleton_ok [of sample_query RCODE_NOERROR 1]
    by (cases "response_skeleton sample_query RCODE_NOERROR 1")
       (auto simp: sample_query_parse build_address_response_def pack_ttl_def)
  then obtain out where w: "build_address_response sample_query TYPE_A (Some (V4 0)) 60 = Inr out"
    by (cases "build_address_response sample_query TYPE_A (Some (V4 0)) 60") auto
  have "isascii ''a.co''" by code_simp
  from address_response_reads_back [OF e this _ _ _ w [unfolded s]] w show ?thesis
    by (auto simp: sample_query_header_def ip_ok_def)
qed

text \<open>a query built for upstream asks for exactly the name, type and class it was built for.\<close>

theorem build_query_reads_back:
  assumes "build_query idna rnd name qt edns = Inr out" and "isascii name"
  shows "first_question out = Inr (Some \<lparr>qname = canon name, qtype = qt, qclass = CLASS_IN\<rparr>)
    \<and> (\<exists>h. parse_header out = Inr h \<and> msg_id h = rnd \<and> \<not> is_response h \<and> recursion_desired h
         \<and> qdcount h = 1 \<and> ancount h = 0)"
proof -
  let ?h = "\<lparr>msg_id = rnd, flags = 0x0100, qdcount = 1, ancount = 0, nscount = 0,
      arcount = (if edns then 1 else 0)\<rparr>"
  from assms(1) obtain enc where enc: "encode_name idna name = Inr enc"
    and out: "out = query_of ?h enc qt CLASS_IN (if edns then opt_record SAFE_UDP_PAYLOAD else [])"
    by (auto simp: build_query_def rbind_Inr_iff query_of_def)
  have "parse_questions out = Inr ([\<lparr>qname = canon name, qtype = qt, qclass = CLASS_IN\<rparr>], length enc + 16)"
    unfolding out by (rule parse_query_of(2) [OF _ enc assms(2)]) simp
  moreover have "parse_header out = Inr ?h" unfolding out by (simp add: query_of_def)
  ultimately show ?thesis
    by (simp add: first_question_def is_response_def recursion_desired_def)
qed

theorem build_query_reads_back_witness:
  "\<exists>out. build_query (\<lambda>_. Inl ValueError) 9 ''A.co.'' TYPE_AAAA True = Inr out
    \<and> first_question out = Inr (Some \<lparr>qname = ''a.co'', qtype = TYPE_AAAA, qclass = CLASS_IN\<rparr>)"
proof -
  have e: "encode_name (\<lambda>_. Inl ValueError) ''A.co.'' = Inr [1, 65, 2, 99, 111, 0]" by code_simp
  obtain out where w: "build_query (\<lambda>_. Inl ValueError) 9 ''A.co.'' TYPE_AAAA True = Inr out"
    by (simp add: build_query_def e)
  have "isascii ''A.co.''" "canon ''A.co.'' = ''a.co''" by code_simp+
  with build_query_reads_back [OF w] w show ?thesis by auto
qed

end
