(* ===== verification/Cache.thy ===== *)
theory Cache
  imports Dnsmsg
begin

text \<open>
  The response cache, \<open>symbivpn/cache.py\<close> (class \<open>DNSCache\<close>): an insertion-ordered table of raw
  responses, least recently used first.  Every operation takes the clock reading \<open>now\<close> it would
  make; \<open>get\<close> also returns the key handed to the prefetch callback, if any.  The invariant says the
  keys are distinct, the size is within the configured bound and every stored response parses.
\<close>

section \<open>State\<close>

record cache_key =
  ck_name :: str
  ck_qtype :: u16
  ck_qclass :: u16
  ck_dnssec :: bool

record cache_entry =
  wire :: bytes
  stored_at :: time
  expires_at :: time
  e_ttl :: int
  e_rcode :: u16
  hits :: nat
  refreshing :: bool

record lookup =
  l_wire :: bytes
  stale :: bool
  age :: int

record cache_stats =
  s_hits :: nat
  s_misses :: nat
  s_stale_hits :: nat
  s_evictions :: nat
  s_expired :: nat
  s_prefetches :: nat
  s_inserts :: nat

record cache_config =
  max_entries :: nat
  min_ttl :: int
  max_ttl :: int
  min_negative_ttl :: int
  max_negative_ttl :: int
  serve_stale_for :: int
  prefetch_after :: rat
  prefetch_min_hits :: nat

definition default_cache_config :: cache_config where
  "default_cache_config = \<lparr>max_entries = 100000, min_ttl = 300, max_ttl = 86400,
     min_negative_ttl = 60, max_negative_ttl = 3600, serve_stale_for = 86400,
     prefetch_after = 9 / 10, prefetch_min_hits = 2\<rparr>"

text \<open>\<open>has_prefetch\<close> says whether a prefetch callback is set.\<close>

record dns_cache =
  cconf :: cache_config
  entries :: "(cache_key, cache_entry) dict"
  stats :: cache_stats
  has_prefetch :: bool

definition zero_stats :: cache_stats where
  "zero_stats = \<lparr>s_hits = 0, s_misses = 0, s_stale_hits = 0, s_evictions = 0, s_expired = 0,
     s_prefetches = 0, s_inserts = 0\<rparr>"

definition new_cache :: "cache_config \<Rightarrow> bool \<Rightarrow> dns_cache" where
  "new_cache conf pf = \<lparr>cconf = conf, entries = [], stats = zero_stats, has_prefetch = pf\<rparr>"

definition hit_rate :: "cache_stats \<Rightarrow> rat" where
  "hit_rate s = (let n = s_hits s + s_misses s in if n = 0 then 0 else of_nat (s_hits s) / of_nat n)"

section \<open>Operations\<close>

text \<open>\<open>OrderedDict.move_to_end\<close>.\<close>

definition move_to_end :: "'k \<Rightarrow> ('k, 'v) dict \<Rightarrow> ('k, 'v) dict" where
  "move_to_end k d = (case dget d k of None \<Rightarrow> d | Some v \<Rightarrow> ddel k d @ [(k, v)])"

definition rewrite_all_ttls :: "bytes \<Rightarrow> u32 \<Rightarrow> bytes" where
  "rewrite_all_ttls w t = (case all_records w of Inl _ \<Rightarrow> w | Inr rs \<Rightarrow> write_ttls (\<lambda>_. t) rs w)"

definition should_prefetch :: "dns_cache \<Rightarrow> time \<Rightarrow> cache_entry \<Rightarrow> bool \<Rightarrow> bool" where
  "should_prefetch c now entry fresh =
     (fresh \<and> has_prefetch c \<and> \<not> refreshing entry \<and> prefetch_min_hits (cconf c) \<le> hits entry
      \<and> 0 < e_ttl entry \<and> of_int (e_ttl entry) * prefetch_after (cconf c) \<le> now - stored_at entry)"

text \<open>A hit: move to the end, count, and mark the entry when a prefetch is due.\<close>

definition hit_entry :: "dns_cache \<Rightarrow> time \<Rightarrow> cache_entry \<Rightarrow> bool \<Rightarrow> cache_entry \<times> bool" where
  "hit_entry c now entry fresh =
     (let entry1 = entry\<lparr>hits := hits entry + 1\<rparr>;
          prefetch = should_prefetch c now entry1 fresh
      in (if prefetch then entry1\<lparr>refreshing := True\<rparr> else entry1, prefetch))"

definition hit_stats :: "cache_stats \<Rightarrow> bool \<Rightarrow> bool \<Rightarrow> cache_stats" where
  "hit_stats s fresh prefetch =
     (let s1 = (if fresh then s\<lparr>s_hits := s_hits s + 1\<rparr>
                else s\<lparr>s_stale_hits := s_stale_hits s + 1\<rparr>)
      in if prefetch then s1\<lparr>s_prefetches := s_prefetches s1 + 1\<rparr> else s1)"

definition cache_touch :: "dns_cache \<Rightarrow> time \<Rightarrow> cache_key \<Rightarrow> cache_entry \<Rightarrow> bool \<Rightarrow> dns_cache" where
  "cache_touch c now key entry fresh =
     (let (entry', prefetch) = hit_entry c now entry fresh
      in c\<lparr>entries := dset key entry' (move_to_end key (entries c)),
           stats := hit_stats (stats c) fresh prefetch\<rparr>)"

definition cache_get ::
  "dns_cache \<Rightarrow> time \<Rightarrow> cache_key \<Rightarrow> bool \<Rightarrow> dns_cache \<times> cache_key option \<times> lookup option res" where
  "cache_get c now key allow_stale =
     (let missed = c\<lparr>stats := (stats c)\<lparr>s_misses := s_misses (stats c) + 1\<rparr>\<rparr> in
      case dget (entries c) key of
        None \<Rightarrow> (missed, None, Inr None)
      | Some entry \<Rightarrow>
          let age = py_int (now - stored_at entry);
              fresh = now < expires_at entry
          in
          if \<not> fresh \<and> expires_at entry + of_int (serve_stale_for (cconf c)) \<le> now then
            (c\<lparr>entries := ddel key (entries c),
               stats := (stats c)\<lparr>s_expired := s_expired (stats c) + 1,
                                  s_misses := s_misses (stats c) + 1\<rparr>\<rparr>, None, Inr None)
          else if \<not> fresh \<and> \<not> allow_stale then (missed, None, Inr None)
          else
            let c' = cache_touch c now key entry fresh in
            case (if fresh then with_ttls_reduced (wire entry) age
                  else Inr (rewrite_all_ttls (wire entry) 30)) of
              Inl e \<Rightarrow> (c', None, Inl e)
            | Inr w \<Rightarrow> (c', if snd (hit_entry c now entry fresh) then Some key else None,
                        Inr (Some \<lparr>l_wire = w, stale = \<not> fresh, age = age\<rparr>)))"

text \<open>\<open>while len(entries) > max_entries: popitem(last=False)\<close>, counting the evictions.\<close>

function evict_loop :: "nat \<Rightarrow> ('k, 'v) dict \<Rightarrow> nat \<Rightarrow> ('k, 'v) dict \<times> nat" where
  "evict_loop m d n = (if m < length d then evict_loop m (tl d) (n + 1) else (d, n))"
  by pat_completeness auto
termination
  by (relation "measure (\<lambda>(m, d, n). length d)") auto

declare evict_loop.simps [simp del]

definition evict_if_needed :: "dns_cache \<Rightarrow> dns_cache" where
  "evict_if_needed c =
     (let (d, n) = evict_loop (max_entries (cconf c)) (entries c) (s_evictions (stats c))
      in c\<lparr>entries := d, stats := (stats c)\<lparr>s_evictions := n\<rparr>\<rparr>)"

definition put_ttl :: "cache_config \<Rightarrow> bytes \<Rightarrow> u16 option \<Rightarrow> (int \<times> u16) option" where
  "put_ttl conf w rc =
     (case parse_header w of
        Inl _ \<Rightarrow> None
      | Inr h \<Rightarrow>
          let rc' = (case rc of None \<Rightarrow> rcode h | Some r \<Rightarrow> r) in
          if truncated h then None
          else case message_ttl w 0 of
            Inl _ \<Rightarrow> None
          | Inr upstream_ttl \<Rightarrow>
              Some (if rc' \<noteq> RCODE_NOERROR \<or> ancount h = 0
                    then clamp upstream_ttl (min_negative_ttl conf) (max_negative_ttl conf)
                    else clamp upstream_ttl (min_ttl conf) (max_ttl conf), rc'))"

definition cache_put :: "dns_cache \<Rightarrow> time \<Rightarrow> cache_key \<Rightarrow> bytes \<Rightarrow> u16 option \<Rightarrow> dns_cache \<times> int" where
  "cache_put c now key w rc =
     (case put_ttl (cconf c) w rc of
        None \<Rightarrow> (c, 0)
      | Some (t, rc') \<Rightarrow>
          if t \<le> 0 then (c, 0)
          else
            let entry = \<lparr>wire = w, stored_at = now, expires_at = now + of_int t, e_ttl = t,
                         e_rcode = rc', hits = 0, refreshing = False\<rparr>
            in (evict_if_needed
                  (c\<lparr>entries := move_to_end key (dset key entry (entries c)),
                     stats := (stats c)\<lparr>s_inserts := s_inserts (stats c) + 1\<rparr>\<rparr>), t))"

definition finish_refresh :: "dns_cache \<Rightarrow> cache_key \<Rightarrow> dns_cache" where
  "finish_refresh c key =
     (case dget (entries c) key of
        None \<Rightarrow> c
      | Some entry \<Rightarrow> c\<lparr>entries := dset key (entry\<lparr>refreshing := False\<rparr>) (entries c)\<rparr>)"

definition invalidate :: "dns_cache \<Rightarrow> str option \<Rightarrow> dns_cache \<times> nat" where
  "invalidate c name =
     (case name of
        None \<Rightarrow> (c\<lparr>entries := []\<rparr>, length (entries c))
      | Some n \<Rightarrow>
          let target = canon n;
              doomed = filter (\<lambda>k. ck_name k = target) (dkeys (entries c))
          in (c\<lparr>entries := fold ddel doomed (entries c)\<rparr>, length doomed))"

record snapshot_row =
  r_name :: str
  r_type :: str
  r_dnssec :: bool
  r_hits :: nat
  r_expires_in :: int
  r_stale :: bool

definition snapshot :: "dns_cache \<Rightarrow> time \<Rightarrow> snapshot_row list" where
  "snapshot c now = map (\<lambda>(key, entry).
     \<lparr>r_name = ck_name key, r_type = type_name (ck_qtype key), r_dnssec = ck_dnssec key,
      r_hits = hits entry, r_expires_in = max 0 (py_int (expires_at entry - now)),
      r_stale = (expires_at entry \<le> now)\<rparr>) (rev (entries c))"

section \<open>Order and eviction\<close>

lemma evict_loop_drop: "evict_loop m d n = (drop (length d - m) d, n + (length d - m))"
proof (induction m d n rule: evict_loop.induct)
  case (1 m d n)
  show ?case
  proof (cases "m < length d")
    case True
    then obtain x xs where d: "d = x # xs" by (cases d) auto
    with True 1 have "evict_loop m d n = (drop (length xs - m) xs, n + 1 + (length xs - m))"
      by (subst evict_loop.simps) simp
    with True d show ?thesis by (simp add: Suc_diff_le)
  qed (simp add: evict_loop.simps)
qed

lemma entries_evict [simp]:
  "entries (evict_if_needed c) = drop (length (entries c) - max_entries (cconf c)) (entries c)"
  "cconf (evict_if_needed c) = cconf c"
  "has_prefetch (evict_if_needed c) = has_prefetch c"
  by (simp_all add: evict_if_needed_def evict_loop_drop)

lemma dget_move [simp]: "dict_ok d \<Longrightarrow> dget (move_to_end k d) k' = dget d k'"
  by (auto simp: move_to_end_def map_add_def split: option.splits)

lemma move_to_end_ok [simp]: "dict_ok d \<Longrightarrow> dict_ok (move_to_end k d)"
  by (auto simp: move_to_end_def dict_ok_def distinct_delete set_ddel split: option.splits)

lemma set_move [simp]: "dict_ok d \<Longrightarrow> set (move_to_end k d) = set d"
  by (auto simp: move_to_end_def set_ddel dict_ok_def split: option.splits dest: eq_key_imp_eq_value)

lemma length_move [simp]: "dict_ok d \<Longrightarrow> length (move_to_end k d) = length d"
proof (cases "dget d k")
  case (Some v)
  moreover assume "dict_ok d"
  moreover have "d \<noteq> []" using Some by auto
  ultimately show ?thesis by (simp add: move_to_end_def length_ddel)
qed (simp add: move_to_end_def)

lemma dkeys_move: "k \<in> set (dkeys d) \<Longrightarrow> dkeys (move_to_end k d) = filter (\<lambda>k'. k' \<noteq> k) (dkeys d) @ [k]"
  by (auto simp: move_to_end_def AList.delete_eq filter_map comp_def case_prod_beta
      intro!: arg_cong [where f = "map fst"] filter_cong split: option.split
      dest: map_of_eq_None_iff [THEN iffD1])

lemma dkeys_dset: "dkeys (dset k v d) = (if k \<in> set (dkeys d) then dkeys d else dkeys d @ [k])"
  by (induction d) auto

lemma dict_ok_drop [simp]: "dict_ok d \<Longrightarrow> dict_ok (drop n d)"
  by (simp add: dict_ok_def drop_map [symmetric] distinct_drop)

section \<open>The cache invariant\<close>

text \<open>
  \<open>parses\<close> is what \<open>put\<close> and \<open>load\<close> check before storing: the message has a header and all its
  records can be walked, so rewriting its TTLs on the way out cannot raise.
\<close>

definition parses :: "bytes \<Rightarrow> bool" where
  "parses w = (ok (parse_header w) \<and> ok (all_records w))"

definition cache_inv :: "dns_cache \<Rightarrow> bool" where
  "cache_inv c = (dict_ok (entries c) \<and> length (entries c) \<le> max_entries (cconf c)
     \<and> (\<forall>(k, e) \<in> set (entries c). parses (wire e)))"

lemma cache_invI [intro]:
  "dict_ok (entries c) \<Longrightarrow> length (entries c) \<le> max_entries (cconf c)
   \<Longrightarrow> (\<And>k e. (k, e) \<in> set (entries c) \<Longrightarrow> parses (wire e)) \<Longrightarrow> cache_inv c"
  by (auto simp: cache_inv_def)

lemma cache_invD:
  assumes "cache_inv c"
  shows "dict_ok (entries c)" "length (entries c) \<le> max_entries (cconf c)"
    "(k, e) \<in> set (entries c) \<Longrightarrow> parses (wire e)"
  using assms by (auto simp: cache_inv_def)

lemma cache_inv_new: "cache_inv (new_cache conf pf)"
  by (auto simp: new_cache_def)

lemma dget_in: "dget d k = Some v \<Longrightarrow> (k, v) \<in> set d"
  by (rule map_of_SomeD)

lemma set_dset: "(k', v') \<in> set (dset k v d) \<Longrightarrow> (k', v') \<in> set d \<or> (k', v') = (k, v)"
  by (induction d) (auto split: if_splits)

lemma set_dset_same: "dict_ok d \<Longrightarrow> (k, v') \<in> set (dset k v d) \<longleftrightarrow> v' = v"
  using dget_iff [of "dset k v d" k v'] by auto

lemma with_ttls_reduced_ok: "parses w \<Longrightarrow> ok (with_ttls_reduced w n)"
  by (cases "all_records w") (auto simp: with_ttls_reduced_def parses_def)

lemma touch_config [simp]: "cconf (cache_touch c now key entry fresh) = cconf c"
    "has_prefetch (cache_touch c now key entry fresh) = has_prefetch c"
  by (simp_all add: cache_touch_def case_prod_beta)

lemma get_config [simp]: "cconf (fst (cache_get c now key st)) = cconf c"
    "has_prefetch (fst (cache_get c now key st)) = has_prefetch c"
  by (simp_all add: cache_get_def Let_def split: option.split sum.split)

lemma length_dset_present: "dget d k \<noteq> None \<Longrightarrow> length (dset k v d) = length d"
  by (simp add: length_dset)

text \<open>A hit rewrites the entry in place of the old one and moves it to the end.\<close>

lemma cache_inv_touch:
  assumes "cache_inv c" and "dget (entries c) key = Some entry" and "wire entry' = wire entry"
    and "entries c' = dset key entry' (move_to_end key (entries c))" and "cconf c' = cconf c"
  shows "cache_inv c'"
proof
  note D = cache_invD [OF assms(1)]
  show "dict_ok (entries c')" using D(1) assms(4) by simp
  show "length (entries c') \<le> max_entries (cconf c')"
    using D(1,2) assms(2,4,5) by (simp add: length_dset_present)
  fix k e assume "(k, e) \<in> set (entries c')"
  then have "(k, e) \<in> set (entries c) \<or> (k, e) = (key, entry')"
    using set_dset [of k e key entry' "move_to_end key (entries c)"] D(1) assms(4) by simp
  then show "parses (wire e)" using D(3) dget_in [OF assms(2)] assms(3) by auto
qed

lemma get_hit:
  assumes "dget (entries c) key = Some entry"
    and "now < expires_at entry
      \<or> \<not> expires_at entry + of_int (serve_stale_for (cconf c)) \<le> now \<and> st"
  shows "fst (cache_get c now key st) = cache_touch c now key entry (now < expires_at entry)"
  using assms by (auto simp: cache_get_def Let_def split: sum.split)

lemma cache_inv_get:
  assumes "cache_inv c"
  shows "cache_inv (fst (cache_get c now key st))"
proof (cases "dget (entries c) key")
  case None
  with assms show ?thesis by (auto simp: cache_get_def cache_inv_def)
next
  case (Some entry)
  let ?fresh = "now < expires_at entry"
  consider (gone) "\<not> ?fresh" "expires_at entry + of_int (serve_stale_for (cconf c)) \<le> now"
    | (kept) "\<not> ?fresh" "\<not> expires_at entry + of_int (serve_stale_for (cconf c)) \<le> now" "\<not> st"
    | (hit) "?fresh \<or> \<not> expires_at entry + of_int (serve_stale_for (cconf c)) \<le> now \<and> st"
    by blast
  then show ?thesis
  proof cases
    case gone
    have "length (ddel key (entries c)) \<le> length (entries c)" by (simp add: length_delete_le)
    with gone Some assms show ?thesis
      by (auto simp: cache_get_def cache_inv_def set_ddel)
  next
    case kept
    with Some assms show ?thesis by (auto simp: cache_get_def cache_inv_def Let_def)
  next
    case hit
    with get_hit [OF Some] have "fst (cache_get c now key st) = cache_touch c now key entry ?fresh"
      by blast
    moreover have "cache_inv (cache_touch c now key entry ?fresh)"
      by (rule cache_inv_touch [OF assms Some, of "fst (hit_entry c now entry ?fresh)"])
         (simp_all add: cache_touch_def case_prod_beta hit_entry_def Let_def)
    ultimately show ?thesis by simp
  qed
qed

lemma put_ttl_parses: "put_ttl conf w rc = Some r \<Longrightarrow> parses w"
  by (auto simp: put_ttl_def parses_def message_ttl_def ok_def Let_def rbind_Inr_iff
      split: sum.splits if_splits)

lemma put_entries:
  fixes now :: time and key :: cache_key
  assumes "put_ttl (cconf c) w rc = Some (t, rc')" and "0 < t"
  defines "entry \<equiv> \<lparr>wire = w, stored_at = now, expires_at = now + of_int t, e_ttl = t,
      e_rcode = rc', hits = 0, refreshing = False\<rparr>"
  defines "d \<equiv> move_to_end key (dset key entry (entries c))"
  shows "entries (fst (cache_put c now key w rc)) = drop (length d - max_entries (cconf c)) d"
    and "snd (cache_put c now key w rc) = t"
    and "cconf (fst (cache_put c now key w rc)) = cconf c"
  using assms by (simp_all add: cache_put_def Let_def)

lemma cache_inv_put:
  assumes "cache_inv c"
  shows "cache_inv (fst (cache_put c now key w rc))"
proof (cases "put_ttl (cconf c) w rc")
  case (Some r)
  obtain t rc' where r: "r = (t, rc')" by (cases r)
  show ?thesis
  proof (cases "t \<le> 0")
    case False
    then have t: "0 < t" by simp
    note D = cache_invD [OF assms]
    note E = put_entries [OF Some [unfolded r] t, of now key]
    show ?thesis
    proof
      show "dict_ok (entries (fst (cache_put c now key w rc)))" using D(1) by (simp add: E)
      show "length (entries (fst (cache_put c now key w rc)))
          \<le> max_entries (cconf (fst (cache_put c now key w rc)))" by (simp add: E)
      fix k e assume "(k, e) \<in> set (entries (fst (cache_put c now key w rc)))"
      then have "(k, e) \<in> set (entries c) \<or> wire e = w"
        unfolding E by (auto dest!: in_set_dropD set_dset simp: D(1))
      then show "parses (wire e)" using D(3) put_ttl_parses [OF Some] by auto
    qed
  qed (use assms Some r in \<open>simp add: cache_put_def\<close>)
qed (use assms in \<open>simp add: cache_put_def\<close>)

lemma cache_inv_finish: "cache_inv c \<Longrightarrow> cache_inv (finish_refresh c key)"
proof (cases "dget (entries c) key")
  case (Some e)
  assume inv: "cache_inv c"
  note D = cache_invD [OF inv]
  show ?thesis
  proof
    show "dict_ok (entries (finish_refresh c key))"
      and "length (entries (finish_refresh c key)) \<le> max_entries (cconf (finish_refresh c key))"
      using D(1,2) Some by (simp_all add: finish_refresh_def length_dset_present)
    fix k e' assume "(k, e') \<in> set (entries (finish_refresh c key))"
    then have "(k, e') \<in> set (entries c) \<or> wire e' = wire e"
      using Some set_dset [of k e' key "e\<lparr>refreshing := False\<rparr>" "entries c"]
      by (auto simp: finish_refresh_def)
    then show "parses (wire e')" using D(3) dget_in [OF Some] by auto
  qed
qed (simp add: finish_refresh_def)

lemma set_fold_ddel: "set (fold ddel ks d) \<subseteq> set d"
  by (induction ks arbitrary: d) (fastforce simp: set_ddel)+

lemma cache_inv_invalidate:
  assumes "cache_inv c"
  shows "cache_inv (fst (invalidate c name))"
proof (cases name)
  case None
  then show ?thesis by (auto simp: invalidate_def)
next
  case (Some n)
  note D = cache_invD [OF assms]
  let ?ks = "filter (\<lambda>k. ck_name k = canon n) (dkeys (entries c))"
  have "dict_ok (fold ddel ?ks (entries c))" by (rule pydict.inv_fold_remove [OF D(1)])
  moreover have "length (fold ddel ?ks (entries c)) \<le> length (entries c)"
    by (rule pydict.entries_fold_remove_le [OF D(1)])
  moreover have "set (fold ddel ?ks (entries c)) \<subseteq> set (entries c)" by (rule set_fold_ddel)
  ultimately show ?thesis using D Some
    by (intro cache_invI) (auto simp: invalidate_def Let_def)
qed

section \<open>What a lookup returns\<close>

lemma get_result:
  assumes "snd (snd (cache_get c now key st)) = Inr (Some l)"
  obtains entry where "dget (entries c) key = Some entry"
    and "age l = py_int (now - stored_at entry)" and "stale l \<longleftrightarrow> \<not> now < expires_at entry"
    and "now < expires_at entry \<or> st \<and> now < expires_at entry + of_int (serve_stale_for (cconf c))"
    and "now < expires_at entry \<longrightarrow> with_ttls_reduced (wire entry) (age l) = Inr (l_wire l)"
    and "\<not> now < expires_at entry \<longrightarrow> l_wire l = rewrite_all_ttls (wire entry) 30"
proof (cases "dget (entries c) key")
  case None
  with assms show ?thesis by (simp add: cache_get_def)
next
  case (Some entry)
  with assms show ?thesis
    by (intro that [of entry]) (auto simp: cache_get_def Let_def split: if_splits sum.splits)
qed

lemma get_never_raises:
  assumes "cache_inv c"
  shows "ok (snd (snd (cache_get c now key st)))"
proof (cases "dget (entries c) key")
  case (Some entry)
  have "parses (wire entry)" using cache_invD(3) [OF assms dget_in [OF Some]] .
  from with_ttls_reduced_ok [OF this, of "py_int (now - stored_at entry)"] Some show ?thesis
    by (auto simp: cache_get_def Let_def split: sum.splits)
qed (simp add: cache_get_def)

lemma put_dget:
  assumes "cache_inv c" and "put_ttl (cconf c) w rc = Some (t, rc')" and "0 < t"
    and "0 < max_entries (cconf c)"
  shows "dget (entries (fst (cache_put c now key w rc))) key =
    Some \<lparr>wire = w, stored_at = now, expires_at = now + of_int t, e_ttl = t, e_rcode = rc',
      hits = 0, refreshing = False\<rparr>"
proof -
  let ?e = "\<lparr>wire = w, stored_at = now, expires_at = now + of_int t, e_ttl = t, e_rcode = rc',
      hits = 0, refreshing = False\<rparr>"
  let ?b = "dset key ?e (entries c)"
  let ?d = "move_to_end key ?b"
  note E = put_entries [OF assms(2,3), of now key]
  have okb: "dict_ok ?b" using cache_invD(1) [OF assms(1)] by simp
  have d: "?d = ddel key ?b @ [(key, ?e)]" by (simp add: move_to_end_def)
  have "length ?d \<le> Suc (max_entries (cconf c))"
    using cache_invD(1,2) [OF assms(1)] okb pydict.entries_store_le [of "entries c" key ?e] by simp
  with assms(4) have "length ?d - max_entries (cconf c) \<le> length (ddel key ?b)"
    unfolding d by simp
  then have "(key, ?e) \<in> set (drop (length ?d - max_entries (cconf c)) ?d)"
    unfolding d by simp
  moreover have "dict_ok (drop (length ?d - max_entries (cconf c)) ?d)" using okb by simp
  ultimately show ?thesis unfolding E(1) by (simp add: dget_iff)
qed

section \<open>Runs of operations\<close>

datatype cache_op =
    Get time cache_key bool
  | Put time cache_key bytes "u16 option"
  | Finish cache_key
  | Invalidate "str option"

fun cache_step :: "dns_cache \<Rightarrow> cache_op \<Rightarrow> dns_cache" where
  "cache_step c (Get now key st) = fst (cache_get c now key st)"
| "cache_step c (Put now key w rc) = fst (cache_put c now key w rc)"
| "cache_step c (Finish key) = finish_refresh c key"
| "cache_step c (Invalidate name) = fst (invalidate c name)"

definition cache_run :: "dns_cache \<Rightarrow> cache_op list \<Rightarrow> dns_cache" where
  "cache_run c ops = foldl cache_step c ops"

text \<open>The keys handed to the prefetch callback along a run.\<close>

fun prefetched :: "dns_cache \<Rightarrow> cache_op list \<Rightarrow> cache_key list" where
  "prefetched c [] = []"
| "prefetched c (op # ops) =
     (case op of Get now key st \<Rightarrow>
        (case fst (snd (cache_get c now key st)) of None \<Rightarrow> [] | Some k \<Rightarrow> [k])
      | _ \<Rightarrow> []) @ prefetched (cache_step c op) ops"

lemma cache_inv_run: "cache_inv c \<Longrightarrow> cache_inv (cache_run c ops)"
proof (induction ops arbitrary: c)
  case (Cons op ops)
  have "cache_inv (cache_step c op)"
    using Cons.prems by (cases op)
      (simp_all add: cache_inv_get cache_inv_put cache_inv_finish cache_inv_invalidate)
  from Cons.IH [OF this] show ?case by (simp add: cache_run_def)
qed (simp add: cache_run_def)

text \<open>No refresh of \<open>k\<close> can be scheduled by a lookup: it is absent or already being refreshed.\<close>

definition no_refresh_due :: "dns_cache \<Rightarrow> cache_key \<Rightarrow> bool" where
  "no_refresh_due c k = (case dget (entries c) k of None \<Rightarrow> True | Some e \<Rightarrow> refreshing e)"

lemma prefetch_key:
  "fst (snd (cache_get c now key st)) = Some k \<Longrightarrow> k = key \<and> \<not> no_refresh_due c key"
  by (auto simp: cache_get_def Let_def hit_entry_def should_prefetch_def no_refresh_due_def
      split: option.splits if_splits sum.splits)

lemma get_entry_after:
  assumes "dict_ok (entries c)"
  shows "dget (entries (fst (cache_get c now key st))) k =
    (if k \<noteq> key then dget (entries c) k
     else case dget (entries c) key of None \<Rightarrow> None
     | Some e \<Rightarrow>
         if now < expires_at e \<or> \<not> expires_at e + of_int (serve_stale_for (cconf c)) \<le> now \<and> st
         then Some (fst (hit_entry c now e (now < expires_at e)))
         else if \<not> expires_at e + of_int (serve_stale_for (cconf c)) \<le> now then Some e else None)"
  using assms
  by (auto simp: cache_get_def Let_def cache_touch_def case_prod_beta split: option.split sum.split)

lemma no_refresh_get:
  "dict_ok (entries c) \<Longrightarrow> no_refresh_due c k \<Longrightarrow> no_refresh_due (fst (cache_get c now key st)) k"
  by (auto simp: no_refresh_due_def get_entry_after hit_entry_def Let_def should_prefetch_def
      split: option.splits)

lemma prefetch_marks:
  assumes "dict_ok (entries c)" and "fst (snd (cache_get c now key st)) = Some k"
  shows "no_refresh_due (fst (cache_get c now key st)) k"
proof -
  obtain e where e: "dget (entries c) key = Some e"
    and m: "snd (hit_entry c now e (now < expires_at e))"
    and k: "k = key"
    using assms(2) by (auto simp: cache_get_def Let_def split: option.splits if_splits sum.splits)
  from m have fresh: "now < expires_at e" by (auto simp: hit_entry_def should_prefetch_def Let_def)
  have "refreshing (fst (hit_entry c now e (now < expires_at e)))"
    using m by (auto simp: hit_entry_def Let_def)
  with e fresh k assms(1) show ?thesis by (simp add: no_refresh_due_def get_entry_after)
qed

lemma no_refresh_prefetched:
  "dict_ok (entries c) \<Longrightarrow> no_refresh_due c k \<Longrightarrow> \<forall>op \<in> set ops. \<exists>n key st. op = Get n key st
   \<Longrightarrow> k \<notin> set (prefetched c ops)"
proof (induction ops arbitrary: c)
  case (Cons op ops)
  then obtain n key st where op: "op = Get n key st" by auto
  have "dict_ok (entries (cache_step c op))"
    using Cons.prems(1) by (auto simp: op cache_get_def Let_def cache_touch_def case_prod_beta
        split: option.split sum.split)
  moreover have "no_refresh_due (cache_step c op) k"
    using Cons.prems by (simp add: op no_refresh_get)
  ultimately have "k \<notin> set (prefetched (cache_step c op) ops)" using Cons by simp
  with Cons.prems(2) show ?case
    by (auto simp: op dest!: prefetch_key [OF sym] split: option.splits)
qed simp

lemma dict_ok_get: "dict_ok (entries c) \<Longrightarrow> dict_ok (entries (fst (cache_get c now key st)))"
  by (auto simp: cache_get_def Let_def cache_touch_def case_prod_beta split: option.split sum.split)

section \<open>Properties\<close>

definition young :: "'k \<Rightarrow> 'k list \<Rightarrow> 'k list" where
  "young key ks = filter (\<lambda>k. k \<noteq> key) ks @ [key]"

text \<open>from an empty cache of any configuration, every sequence of lookups, insertions,
  refresh completions and invalidations leaves distinct keys, at most \<open>max_entries\<close> entries and
  only storable responses; so the next lookup, whenever and of whatever key, never raises.\<close>

theorem cache_runs_safe:
  "cache_inv (cache_run (new_cache conf pf) ops)
   \<and> ok (snd (snd (cache_get (cache_run (new_cache conf pf) ops) now key st)))"
  using cache_inv_run [OF cache_inv_new] get_never_raises by blast

text \<open>a response that was stored for \<open>t\<close> seconds is returned by a lookup made within that
  time, marked fresh, aged by the whole seconds elapsed, with its TTLs reduced by that age.\<close>

theorem put_then_get:
  assumes "cache_inv c" and "0 < max_entries (cconf c)"
    and "snd (cache_put c now key w rc) = t" and "0 < t"
    and "now \<le> later" and "later < now + of_int t"
  shows "\<exists>out. snd (snd (cache_get (fst (cache_put c now key w rc)) later key st))
      = Inr (Some \<lparr>l_wire = out, stale = False, age = \<lfloor>later - now\<rfloor>\<rparr>)
    \<and> with_ttls_reduced w \<lfloor>later - now\<rfloor> = Inr out"
proof -
  obtain rc' where p: "put_ttl (cconf c) w rc = Some (t, rc')"
    using assms(3,4) by (auto simp: cache_put_def Let_def split: option.splits if_splits)
  note e = put_dget [OF assms(1) p assms(4,2), of now key]
  have "parses w" by (rule put_ttl_parses [OF p])
  from with_ttls_reduced_ok [OF this, of "\<lfloor>later - now\<rfloor>"] obtain out where
    "with_ttls_reduced w \<lfloor>later - now\<rfloor> = Inr out" by (auto simp: ok_def split: sum.splits)
  with e assms(5,6) show ?thesis by (simp add: cache_get_def py_int_def)
qed

text \<open>whatever a lookup returns was stored under exactly that key, has not outlived its time to
  live unless the caller allowed stale answers and the serve-stale window is still open, and a
  stale answer is the stored message with every TTL set to 30 seconds.\<close>

theorem get_serves_only_live:
  assumes "snd (snd (cache_get c now key st)) = Inr (Some l)"
  shows "\<exists>e. dget (entries c) key = Some e \<and> age l = py_int (now - stored_at e)
    \<and> (if stale l
       then st \<and> expires_at e \<le> now \<and> now < expires_at e + of_int (serve_stale_for (cconf c))
            \<and> l_wire l = rewrite_all_ttls (wire e) 30
       else now < expires_at e \<and> with_ttls_reduced (wire e) (age l) = Inr (l_wire l))"
  using assms by (elim get_result) (auto simp: not_less)

text \<open>the cache is least-recently-used: a hit moves the key to the young end, and a stored key
  goes to the young end while the oldest keys beyond \<open>max_entries\<close> are evicted.\<close>

theorem lru_order:
  assumes "cache_inv c"
  shows "(\<forall>e. dget (entries c) key = Some e \<longrightarrow> now < expires_at e \<longrightarrow>
        dkeys (entries (fst (cache_get c now key st))) = young key (dkeys (entries c)))
    \<and> (0 < snd (cache_put c now key w rc) \<longrightarrow>
        dkeys (entries (fst (cache_put c now key w rc)))
          = (let ks = young key (dkeys (entries c)) in drop (length ks - max_entries (cconf c)) ks))"
proof (intro conjI allI impI)
  fix e assume e: "dget (entries c) key = Some e" and "now < expires_at e"
  then have "fst (cache_get c now key st) = cache_touch c now key e True"
    using get_hit [OF e, of now st] by simp
  moreover have "key \<in> set (dkeys (entries c))" using e by (metis dget_None_iff option.distinct(1))
  ultimately show "dkeys (entries (fst (cache_get c now key st))) = young key (dkeys (entries c))"
    by (simp add: cache_touch_def case_prod_beta dkeys_dset dkeys_move young_def)
next
  assume "0 < snd (cache_put c now key w rc)"
  then obtain t rc' where p: "put_ttl (cconf c) w rc = Some (t, rc')" and t: "0 < t"
    by (auto simp: cache_put_def Let_def split: option.splits if_splits)
  let ?d = "move_to_end key (dset key \<lparr>wire = w, stored_at = now, expires_at = now + of_int t,
      e_ttl = t, e_rcode = rc', hits = 0, refreshing = False\<rparr> (entries c))"
  have k: "dkeys ?d = young key (dkeys (entries c))"
    by (subst dkeys_move) (auto simp: dkeys_dset young_def)
  then have "length ?d = length (young key (dkeys (entries c)))" by (metis length_map)
  with k show "dkeys (entries (fst (cache_put c now key w rc)))
      = (let ks = young key (dkeys (entries c)) in drop (length ks - max_entries (cconf c)) ks)"
    by (simp add: put_entries(1) [OF p t] drop_map [symmetric] Let_def)
qed

text \<open>with sane bounds, the time a response is kept for is 0 (not stored, the cache is
  unchanged) or lies within the configured bounds: those for negative answers when the status is
  not NOERROR or there are no answers, those for positive answers otherwise.  A truncated or
  malformed response is never stored.\<close>

theorem put_ttl_within_bounds:
  assumes "0 < min_ttl conf" "min_ttl conf \<le> max_ttl conf"
    and "0 < min_negative_ttl conf" "min_negative_ttl conf \<le> max_negative_ttl conf"
    and "cconf c = conf" and "cache_put c now key w rc = (c', t)"
  shows "t = 0 \<and> c' = c \<and> \<not> (\<exists>h. parse_header w = Inr h \<and> \<not> truncated h \<and> ok (all_records w))
    \<or> (\<exists>h. parse_header w = Inr h \<and> \<not> truncated h \<and> ok (all_records w)
        \<and> (if (case rc of None \<Rightarrow> rcode h | Some r \<Rightarrow> r) \<noteq> RCODE_NOERROR \<or> ancount h = 0
           then min_negative_ttl conf \<le> t \<and> t \<le> max_negative_ttl conf
           else min_ttl conf \<le> t \<and> t \<le> max_ttl conf))"
proof (cases "put_ttl conf w rc")
  case None
  with assms(5,6) have "t = 0" "c' = c" by (auto simp: cache_put_def)
  moreover have "\<not> (\<exists>h. parse_header w = Inr h \<and> \<not> truncated h \<and> ok (all_records w))"
    using None by (auto simp: put_ttl_def message_ttl_def Let_def ok_def
        split: sum.splits if_splits option.splits)
  ultimately show ?thesis by blast
next
  case (Some r)
  obtain s rc' where r: "r = (s, rc')" by (cases r)
  have "parses w" by (rule put_ttl_parses [OF Some])
  moreover from Some r obtain h where h: "parse_header w = Inr h" "\<not> truncated h"
    and s: "\<exists>u. s = (if (case rc of None \<Rightarrow> rcode h | Some r \<Rightarrow> r) \<noteq> RCODE_NOERROR \<or> ancount h = 0
        then clamp u (min_negative_ttl conf) (max_negative_ttl conf)
        else clamp u (min_ttl conf) (max_ttl conf))"
    by (auto simp: put_ttl_def Let_def split: sum.splits if_splits option.splits)
  moreover have "0 < s" using s assms(1-4) clamp_bounds by (smt (verit, best))
  then have "t = s" using assms(5,6) Some r by (auto simp: cache_put_def Let_def)
  ultimately show ?thesis using s assms(1-4) clamp_bounds
    by (auto simp: parses_def)
qed

text \<open>in any run of lookups from a cache with distinct keys, the prefetch callback is called
  at most once for each key: the entry stays marked until its refresh finishes.\<close>

theorem prefetch_once:
  assumes "dict_ok (entries c)" and "\<forall>op \<in> set ops. \<exists>n key st. op = Get n key st"
  shows "distinct (prefetched c ops)"
  using assms
proof (induction ops arbitrary: c)
  case (Cons op ops)
  then obtain n key st where op: "op = Get n key st" by auto
  have d: "dict_ok (entries (cache_step c op))" using Cons.prems(1) by (simp add: op dict_ok_get)
  have "k \<notin> set (prefetched (cache_step c op) ops)"
    if "fst (snd (cache_get c n key st)) = Some k" for k
    using no_refresh_prefetched [OF d] prefetch_marks [OF Cons.prems(1) that] Cons.prems(2)
    by (simp add: op)
  with Cons.IH [OF d] Cons.prems(2) show ?case by (auto simp: op split: option.split)
qed simp

section \<open>Witnesses\<close>

definition sample_key :: cache_key where
  "sample_key = \<lparr>ck_name = ''a'', ck_qtype = 1, ck_qclass = 1, ck_dnssec = False\<rparr>"

definition sample_entry :: cache_entry where
  "sample_entry = \<lparr>wire = sample_response, stored_at = 1000, expires_at = 1300, e_ttl = 300,
     e_rcode = 0, hits = 0, refreshing = False\<rparr>"

definition sample_cache :: dns_cache where
  "sample_cache = \<lparr>cconf = default_cache_config, entries = [(sample_key, sample_entry)],
     stats = zero_stats, has_prefetch = True\<rparr>"

lemma sample_flags:
  "truncated \<lparr>msg_id = 7, flags = 0x8180, qdcount = 1, ancount = 1, nscount = 0, arcount = 0\<rparr> = False"
  "rcode \<lparr>msg_id = 7, flags = 0x8180, qdcount = 1, ancount = 1, nscount = 0, arcount = 0\<rparr> = 0"
  by code_simp+

lemma sample_put_ttl: "put_ttl default_cache_config sample_response None = Some (300, 0)"
  by (simp add: put_ttl_def sample_header sample_records sample_flags message_ttl_def live_ttls_def
      RCODE_NOERROR_def TYPE_OPT_def default_cache_config_def clamp_def)

lemma sample_parses: "parses sample_response"
  using sample_header sample_records by (simp add: parses_def)

lemma sample_inv: "cache_inv sample_cache"
  by (auto simp: cache_inv_def sample_cache_def sample_entry_def sample_parses dict_ok_def
      default_cache_config_def)

lemma sample_put:
  "snd (cache_put (new_cache default_cache_config True) 1000 sample_key sample_response None) = 300"
  by (simp add: cache_put_def new_cache_def sample_put_ttl)

theorem put_then_get_witness:
  "\<exists>out. snd (snd (cache_get (fst (cache_put (new_cache default_cache_config True) 1000 sample_key
        sample_response None)) 1100 sample_key False))
      = Inr (Some \<lparr>l_wire = out, stale = False, age = 100\<rparr>)
    \<and> with_ttls_reduced sample_response 100 = Inr out"
  using put_then_get [of "new_cache default_cache_config True" 1000 sample_key sample_response None 300
      1100 False, OF cache_inv_new _ sample_put]
  by (simp add: new_cache_def default_cache_config_def)

theorem get_serves_only_live_witness:
  "\<exists>l e. snd (snd (cache_get sample_cache 1400 sample_key True)) = Inr (Some l) \<and> stale l
    \<and> dget (entries sample_cache) sample_key = Some e \<and> expires_at e \<le> 1400
    \<and> l_wire l = rewrite_all_ttls (wire e) 30"
proof -
  let ?l = "\<lparr>l_wire = rewrite_all_ttls sample_response 30, stale = True, age = 400\<rparr>"
  have "snd (snd (cache_get sample_cache 1400 sample_key True)) = Inr (Some ?l)"
    by (simp add: cache_get_def sample_cache_def sample_entry_def default_cache_config_def py_int_def)
  from get_serves_only_live [OF this] this show ?thesis by auto
qed

theorem lru_order_witness:
  "dkeys (entries (fst (cache_get sample_cache 1100 sample_key False)))
     = young sample_key (dkeys (entries sample_cache))"
  using lru_order [OF sample_inv, of sample_key 1100 False]
  by (simp add: sample_cache_def sample_entry_def)

theorem put_ttl_within_bounds_witness:
  "300 \<le> snd (cache_put (new_cache default_cache_config True) 1000 sample_key sample_response None)"
proof -
  let ?c = "new_cache default_cache_config True"
  obtain c' t where p: "cache_put ?c 1000 sample_key sample_response None = (c', t)"
    by (cases "cache_put ?c 1000 sample_key sample_response None")
  have b: "0 < min_ttl default_cache_config" "min_ttl default_cache_config \<le> max_ttl default_cache_config"
    "0 < min_negative_ttl default_cache_config"
    "min_negative_ttl default_cache_config \<le> max_negative_ttl default_cache_config"
    "cconf ?c = default_cache_config"
    by (simp_all add: default_cache_config_def new_cache_def)
  from put_ttl_within_bounds [OF b p] p show ?thesis
    by (simp add: sample_header sample_records sample_flags RCODE_NOERROR_def
        default_cache_config_def)
qed

definition busy_cache :: dns_cache where
  "busy_cache = sample_cache\<lparr>entries := [(sample_key, sample_entry\<lparr>hits := 1\<rparr>)]\<rparr>"

lemma busy_prefetch: "fst (snd (cache_get busy_cache 1280 sample_key st)) = Some sample_key"
  using with_ttls_reduced_ok [OF sample_parses, of 280]
  by (simp add: cache_get_def busy_cache_def sample_cache_def sample_entry_def hit_entry_def
      should_prefetch_def default_cache_config_def ok_def py_int_def Let_def split: sum.splits)

theorem prefetch_once_witness:
  "distinct (prefetched busy_cache [Get 1280 sample_key False, Get 1281 sample_key False])
   \<and> sample_key \<in> set (prefetched busy_cache [Get 1280 sample_key False, Get 1281 sample_key False])"
proof
  show "distinct (prefetched busy_cache [Get 1280 sample_key False, Get 1281 sample_key False])"
    by (rule prefetch_once) (auto simp: busy_cache_def sample_cache_def dict_ok_def)
qed (simp add: busy_prefetch)

end
