(* ===== verification/SingleFlight.thy ===== *)
theory SingleFlight
  imports Cache
begin

text \<open>
  Collapsing concurrent identical lookups, \<open>symbivpn/cache.py\<close> (class \<open>SingleFlight\<close>).  Events are
  numbered as they are created and an event is set when its number is in \<open>fired\<close>.  The threads
  that use it, \<open>DNSEngine._resolve\<close> in \<open>symbivpn/engine.py\<close>, are a step relation over a phase per
  thread, with every interleaving of the locked sections.
\<close>

section \<open>State and operations\<close>

definition RESULT_GRACE :: time where "RESULT_GRACE = 2"
definition MAX_RESULTS :: nat where "MAX_RESULTS = 512"

record flight =
  waiters :: "(cache_key, nat) dict"
  results :: "(cache_key, bytes option \<times> time) dict"
  fired :: "nat list"
  next_event :: nat

definition new_flight :: flight where
  "new_flight = \<lparr>waiters = [], results = [], fired = [], next_event = 0\<rparr>"

definition leader :: "flight \<Rightarrow> cache_key \<Rightarrow> flight \<times> bool \<times> nat" where
  "leader s key =
     (case dget (waiters s) key of
        Some event \<Rightarrow> (s, False, event)
      | None \<Rightarrow>
          (s\<lparr>waiters := dset key (next_event s) (waiters s), next_event := Suc (next_event s)\<rparr>,
           True, next_event s))"

definition prune :: "time \<Rightarrow> (cache_key, bytes option \<times> time) dict \<Rightarrow> (cache_key, bytes option \<times> time) dict" where
  "prune now rs =
     (if length rs \<le> MAX_RESULTS div 2 then rs
      else
        let kept = filter (\<lambda>(k, v). now - RESULT_GRACE < snd v) rs in
        if MAX_RESULTS < length kept then
          let ordered = sorted_by (\<lambda>(k, v). snd v) kept in drop (length ordered div 2) ordered
        else kept)"

definition publish :: "flight \<Rightarrow> time \<Rightarrow> cache_key \<Rightarrow> bytes option \<Rightarrow> flight" where
  "publish s now key result =
     s\<lparr>results := prune now (dset key (result, now) (results s)),
       waiters := ddel key (waiters s),
       fired := (case dget (waiters s) key of None \<Rightarrow> fired s | Some event \<Rightarrow> event # fired s)\<rparr>"

text \<open>\<open>woken\<close> is what \<open>event.wait(timeout)\<close> returned.\<close>

definition collect :: "flight \<Rightarrow> cache_key \<Rightarrow> bool \<Rightarrow> bytes option" where
  "collect s key woken =
     (if \<not> woken then None
      else case dget (results s) key of None \<Rightarrow> None | Some found \<Rightarrow> fst found)"

definition done_turn :: "flight \<Rightarrow> cache_key \<Rightarrow> flight" where
  "done_turn s key =
     s\<lparr>waiters := ddel key (waiters s),
       fired := (case dget (waiters s) key of None \<Rightarrow> fired s | Some event \<Rightarrow> event # fired s)\<rparr>"

section \<open>Threads\<close>

text \<open>
  A thread that leads resolves and publishes, then ends its turn; \<open>finally\<close> ends the turn of a
  leader that dies before publishing too.  A follower goes on when its event is set or times out.
\<close>

datatype phase =
    Idle
  | Leading cache_key nat
  | Published cache_key
  | Waiting cache_key nat

record flight_sys =
  shared :: flight
  phase_of :: "nat \<Rightarrow> phase"

definition initial_sys :: flight_sys where
  "initial_sys = \<lparr>shared = new_flight, phase_of = (\<lambda>_. Idle)\<rparr>"

inductive flight_step :: "flight_sys \<Rightarrow> flight_sys \<Rightarrow> bool" where
  lead: "phase_of s t = Idle \<Longrightarrow> leader (shared s) key = (f, True, ev)
    \<Longrightarrow> flight_step s (s\<lparr>shared := f, phase_of := (phase_of s)(t := Leading key ev)\<rparr>)"
| follow: "phase_of s t = Idle \<Longrightarrow> leader (shared s) key = (f, False, ev)
    \<Longrightarrow> flight_step s (s\<lparr>shared := f, phase_of := (phase_of s)(t := Waiting key ev)\<rparr>)"
| publishes: "phase_of s t = Leading key ev
    \<Longrightarrow> flight_step s (s\<lparr>shared := publish (shared s) now key result,
          phase_of := (phase_of s)(t := Published key)\<rparr>)"
| dies: "phase_of s t = Leading key ev
    \<Longrightarrow> flight_step s (s\<lparr>shared := done_turn (shared s) key, phase_of := (phase_of s)(t := Idle)\<rparr>)"
| ends: "phase_of s t = Published key
    \<Longrightarrow> flight_step s (s\<lparr>shared := done_turn (shared s) key, phase_of := (phase_of s)(t := Idle)\<rparr>)"
| wakes: "phase_of s t = Waiting key ev \<Longrightarrow> ev \<in> set (fired (shared s))
    \<Longrightarrow> flight_step s (s\<lparr>phase_of := (phase_of s)(t := Idle)\<rparr>)"
| times_out: "phase_of s t = Waiting key ev
    \<Longrightarrow> flight_step s (s\<lparr>phase_of := (phase_of s)(t := Idle)\<rparr>)"

inductive_cases flight_stepE: "flight_step s s'"

inductive reachable_sys :: "flight_sys \<Rightarrow> bool" where
  start: "reachable_sys initial_sys"
| step: "reachable_sys s \<Longrightarrow> flight_step s s' \<Longrightarrow> reachable_sys s'"

section \<open>Invariants\<close>

text \<open>Every event in the table belongs to a thread that is still leading and will release it; a
  follower's event is set or still in the table.\<close>

definition owned :: "flight_sys \<Rightarrow> bool" where
  "owned s = (\<forall>k ev. dget (waiters (shared s)) k = Some ev \<longrightarrow> (\<exists>t. phase_of s t = Leading k ev))"

definition heard :: "flight_sys \<Rightarrow> bool" where
  "heard s = (\<forall>t k ev. phase_of s t = Waiting k ev \<longrightarrow>
     ev \<in> set (fired (shared s)) \<or> dget (waiters (shared s)) k = Some ev)"

definition bounded_results :: "flight \<Rightarrow> bool" where
  "bounded_results f = (dict_ok (results f) \<and> length (results f) \<le> MAX_RESULTS)"

lemma leader_cases:
  assumes "leader f key = (f', b, ev)"
  obtains "b = False" "f' = f" "dget (waiters f) key = Some ev"
    | "b = True" "dget (waiters f) key = None" "ev = next_event f"
      "f' = f\<lparr>waiters := dset key ev (waiters f), next_event := Suc ev\<rparr>"
  using assms by (auto simp: leader_def split: option.splits)

lemma released [simp]:
  "waiters (publish f now key r) = ddel key (waiters f)"
  "waiters (done_turn f key) = ddel key (waiters f)"
  "set (fired (done_turn f key)) = set (fired f) \<union> set_option (dget (waiters f) key)"
  "set (fired (publish f now key r)) = set (fired f) \<union> set_option (dget (waiters f) key)"
  "results (done_turn f key) = results f"
  by (auto simp: publish_def done_turn_def split: option.split)

text \<open>Ending a turn, by publishing or not, keeps both whatever phase the thread goes to.\<close>

lemma release_keeps:
  assumes "owned s" and "heard s" and "waiters f' = ddel key (waiters (shared s))"
    and "set (fired f') = set (fired (shared s)) \<union> set_option (dget (waiters (shared s)) key)"
    and "(\<exists>ev. phase_of s t = Leading key ev) \<or> phase_of s t = Published key"
    and "\<forall>k ev. p \<noteq> Waiting k ev"
  shows "owned (s\<lparr>shared := f', phase_of := (phase_of s)(t := p)\<rparr>)
    \<and> heard (s\<lparr>shared := f', phase_of := (phase_of s)(t := p)\<rparr>)"
proof
  show "owned (s\<lparr>shared := f', phase_of := (phase_of s)(t := p)\<rparr>)"
    unfolding owned_def
  proof (intro allI impI)
    fix k ev assume "dget (waiters (shared (s\<lparr>shared := f', phase_of := (phase_of s)(t := p)\<rparr>))) k = Some ev"
    then have k: "k \<noteq> key" and "dget (waiters (shared s)) k = Some ev"
      using assms(3) by (auto split: if_splits)
    then obtain u where u: "phase_of s u = Leading k ev" using assms(1) by (auto simp: owned_def)
    with k assms(5) have "u \<noteq> t" by auto
    with u show "\<exists>t'. phase_of (s\<lparr>shared := f', phase_of := (phase_of s)(t := p)\<rparr>) t' = Leading k ev"
      by (intro exI [of _ u]) simp
  qed
  show "heard (s\<lparr>shared := f', phase_of := (phase_of s)(t := p)\<rparr>)"
    unfolding heard_def
  proof (intro allI impI)
    fix u k ev assume "phase_of (s\<lparr>shared := f', phase_of := (phase_of s)(t := p)\<rparr>) u = Waiting k ev"
    then have "phase_of s u = Waiting k ev" using assms(6) by (auto split: if_splits)
    then have "ev \<in> set (fired (shared s)) \<or> dget (waiters (shared s)) k = Some ev"
      using assms(2) by (simp add: heard_def)
    then show "ev \<in> set (fired (shared (s\<lparr>shared := f', phase_of := (phase_of s)(t := p)\<rparr>)))
        \<or> dget (waiters (shared (s\<lparr>shared := f', phase_of := (phase_of s)(t := p)\<rparr>))) k = Some ev"
      using assms(3,4) by (cases "k = key") auto
  qed
qed

lemma move_idle_keeps:
  assumes "owned s" and "heard s" and "\<forall>k ev. phase_of s t \<noteq> Leading k ev"
  shows "owned (s\<lparr>phase_of := (phase_of s)(t := Idle)\<rparr>) \<and> heard (s\<lparr>phase_of := (phase_of s)(t := Idle)\<rparr>)"
  using assms by (auto simp: owned_def heard_def) metis

lemma lead_keeps:
  assumes "owned s" and "heard s" and "phase_of s t = Idle" and "leader (shared s) key = (f, True, ev)"
  shows "owned (s\<lparr>shared := f, phase_of := (phase_of s)(t := Leading key ev)\<rparr>)
    \<and> heard (s\<lparr>shared := f, phase_of := (phase_of s)(t := Leading key ev)\<rparr>)"
proof -
  from assms(4) have new: "dget (waiters (shared s)) key = None"
    and f: "waiters f = dset key ev (waiters (shared s))" "fired f = fired (shared s)"
    by (auto elim!: leader_cases)
  have "\<exists>u. u \<noteq> t \<and> phase_of s u = Leading k e" if "dget (waiters (shared s)) k = Some e" for k e
    using assms(1,3) that unfolding owned_def by (metis phase.distinct(1))
  then have "owned (s\<lparr>shared := f, phase_of := (phase_of s)(t := Leading key ev)\<rparr>)"
    by (auto simp: owned_def f)
  moreover have "heard (s\<lparr>shared := f, phase_of := (phase_of s)(t := Leading key ev)\<rparr>)"
    unfolding heard_def
  proof (intro allI impI)
    fix u k e assume "phase_of (s\<lparr>shared := f, phase_of := (phase_of s)(t := Leading key ev)\<rparr>) u = Waiting k e"
    then have "phase_of s u = Waiting k e" by (auto split: if_splits)
    then have "e \<in> set (fired (shared s)) \<or> dget (waiters (shared s)) k = Some e"
      using assms(2) by (simp add: heard_def)
    then show "e \<in> set (fired (shared (s\<lparr>shared := f, phase_of := (phase_of s)(t := Leading key ev)\<rparr>)))
        \<or> dget (waiters (shared (s\<lparr>shared := f, phase_of := (phase_of s)(t := Leading key ev)\<rparr>))) k = Some e"
      using new f by (cases "k = key") auto
  qed
  ultimately show ?thesis by simp
qed

lemma follow_keeps:
  assumes "owned s" and "heard s" and "phase_of s t = Idle" and "leader (shared s) key = (f, False, ev)"
  shows "owned (s\<lparr>shared := f, phase_of := (phase_of s)(t := Waiting key ev)\<rparr>)
    \<and> heard (s\<lparr>shared := f, phase_of := (phase_of s)(t := Waiting key ev)\<rparr>)"
proof -
  from assms(4) have f: "f = shared s" "dget (waiters (shared s)) key = Some ev"
    by (auto elim!: leader_cases)
  have "\<exists>u. u \<noteq> t \<and> phase_of s u = Leading k e" if "dget (waiters (shared s)) k = Some e" for k e
    using assms(1,3) that unfolding owned_def by (metis phase.distinct(1))
  then have "owned (s\<lparr>shared := f, phase_of := (phase_of s)(t := Waiting key ev)\<rparr>)"
    by (auto simp: owned_def f)
  with assms(2) f(2) show ?thesis by (auto simp: heard_def f(1))
qed

lemma step_keeps: "flight_step s s' \<Longrightarrow> owned s \<and> heard s \<Longrightarrow> owned s' \<and> heard s'"
proof (induction rule: flight_step.induct)
  case (publishes s t key ev now result)
  then show ?case by (intro release_keeps) auto
next
  case (dies s t key ev)
  then show ?case by (intro release_keeps) auto
next
  case (ends s t key)
  then show ?case by (intro release_keeps) auto
qed (auto intro!: lead_keeps [THEN conjunct1] lead_keeps [THEN conjunct2]
      follow_keeps [THEN conjunct1] follow_keeps [THEN conjunct2]
      move_idle_keeps [THEN conjunct1] move_idle_keeps [THEN conjunct2])

lemma no_orphans: "reachable_sys s \<Longrightarrow> owned s \<and> heard s"
proof (induction rule: reachable_sys.induct)
  case start
  show ?case by (simp add: owned_def heard_def initial_sys_def new_flight_def)
qed (rule step_keeps)

section \<open>The results table\<close>

lemma prune_ok:
  assumes "dict_ok rs" and "length rs \<le> Suc MAX_RESULTS"
  shows "dict_ok (prune now rs) \<and> length (prune now rs) \<le> MAX_RESULTS"
proof -
  have "length (filter P rs) - length (filter P rs) div 2 \<le> MAX_RESULTS" for P
  proof -
    have "n - n div 2 \<le> 512" if "n \<le> 513" for n :: nat using that by presburger
    moreover have "length (filter P rs) \<le> 513"
      using le_trans [OF length_filter_le assms(2)] by (simp add: MAX_RESULTS_def)
    ultimately show ?thesis by (simp add: MAX_RESULTS_def)
  qed
  with assms(1) show ?thesis
    by (auto simp: prune_def Let_def dict_ok_drop MAX_RESULTS_def)
qed

lemma bounded_publish: "bounded_results f \<Longrightarrow> bounded_results (publish f now key r)"
  using prune_ok [of "dset key (r, now) (results f)" now]
  by (auto simp: bounded_results_def publish_def length_dset)

lemma bounded_step: "flight_step s s' \<Longrightarrow> bounded_results (shared s) \<Longrightarrow> bounded_results (shared s')"
  by (induction rule: flight_step.induct)
     (auto simp: bounded_publish, auto simp: bounded_results_def elim!: leader_cases)

lemma bounded_reachable: "reachable_sys s \<Longrightarrow> bounded_results (shared s)"
proof (induction rule: reachable_sys.induct)
  case start
  show ?case by (simp add: bounded_results_def initial_sys_def new_flight_def)
qed (rule bounded_step)

text \<open>The newest result survives pruning when every other one is strictly older.\<close>

lemma last_sorted:
  assumes "x \<in> set xs" and "\<forall>y \<in> set xs. y \<noteq> x \<longrightarrow> f y < f x"
  shows "last (sort_key f xs) = x"
proof (rule ccontr)
  let ?s = "sort_key f xs"
  assume ne: "last ?s \<noteq> x"
  have s: "?s \<noteq> []" "x \<in> set ?s" using assms(1) by (auto dest: arg_cong [of _ _ set])
  then have "last ?s \<in> set xs" by (metis last_in_set set_sort)
  with ne assms(2) have "f (last ?s) < f x" by blast
  moreover have "x \<in> set (butlast ?s)" using s ne by (metis in_set_butlastD append_butlast_last_id
      Un_iff set_append empty_iff empty_set insert_iff list.set(2))
  moreover have "sorted (map f (butlast ?s) @ [f (last ?s)])"
    using sorted_sort_key [of f xs] s(1) by (metis append_butlast_last_id list.map(1) list.map(2) map_append)
  ultimately show False by (fastforce simp: sorted_append)
qed

lemma publish_keeps_newest:
  assumes "dict_ok (results f)" and "\<forall>(k, v) \<in> set (results f). k \<noteq> key \<longrightarrow> snd v < now"
  shows "dget (results (publish f now key r)) key = Some (r, now)"
proof -
  let ?rs = "dset key (r, now) (results f)"
  let ?P = "\<lambda>(k :: cache_key, v :: bytes option \<times> time). now - RESULT_GRACE < snd v"
  let ?f = "\<lambda>(k :: cache_key, v :: bytes option \<times> time). snd v"
  let ?o = "sort_key ?f (filter ?P ?rs)"
  have d: "dict_ok ?rs" using assms(1) by simp
  have mem: "(key, (r, now)) \<in> set (filter ?P ?rs)"
    using dget_iff [OF d, of key "(r, now)"] by (simp add: RESULT_GRACE_def)
  have "\<forall>y \<in> set (filter ?P ?rs). y \<noteq> (key, (r, now)) \<longrightarrow> ?f y < ?f (key, (r, now))"
    using assms(2) set_dset_same [OF assms(1), of key _ "(r, now)"] by (fastforce dest: set_dset)
  from last_sorted [OF mem this] have l: "last ?o = (key, (r, now))" .
  have do: "dict_ok ?o" using dict_ok_simps(4) [OF d, of ?P] by (simp only: dict_ok_sort)
  have ne: "?o \<noteq> []" using mem by (metis length_greater_0_conv length_pos_if_in_set length_sort)
  have half: "n div 2 < n" if "n \<noteq> 0" for n :: nat using that by simp
  have "length ?o div 2 < length ?o" by (rule half) (use ne in \<open>simp del: length_sort\<close>)
  then have "last (drop (length ?o div 2) ?o) = last ?o" "drop (length ?o div 2) ?o \<noteq> []"
    by (simp_all only: last_drop drop_eq_Nil not_le)
  then have "(key, (r, now)) \<in> set (drop (length ?o div 2) ?o)" using l by (metis last_in_set)
  then have 1: "dget (drop (length ?o div 2) ?o) key = Some (r, now)"
    using dict_ok_drop [OF do] by (simp add: dget_iff)
  moreover have "dget (filter ?P ?rs) key = Some (r, now)" using mem dict_ok_simps(4) [OF d, of ?P]
    by (simp only: dget_iff)
  ultimately show ?thesis by (auto simp: publish_def prune_def Let_def)
qed

section \<open>Properties\<close>

text \<open>C28: no follower is ever stranded: in every reachable state a waiting follower's event is set
  already, or a live thread is leading that very event and sets it when it publishes and also when
  it dies.\<close>

theorem no_stranded_follower:
  assumes "reachable_sys s" and "phase_of s t = Waiting key ev"
  shows "ev \<in> set (fired (shared s))
    \<or> (\<exists>u. phase_of s u = Leading key ev
         \<and> (\<forall>now r. ev \<in> set (fired (publish (shared s) now key r)))
         \<and> ev \<in> set (fired (done_turn (shared s) key)))"
  using no_orphans [OF assms(1)] assms(2) unfolding owned_def heard_def
  by (cases "ev \<in> set (fired (shared s))") fastforce+

text \<open>whatever the interleaving, the table of published results never holds more than 512
  answers and never two for one key.\<close>

theorem results_stay_bounded:
  assumes "reachable_sys s"
  shows "dict_ok (results (shared s)) \<and> length (results (shared s)) \<le> MAX_RESULTS"
  using bounded_reachable [OF assms] by (simp add: bounded_results_def)

text \<open>a follower woken by a publication gets exactly the published answer, even when the table is
  pruned at that moment, provided the other answers were published strictly earlier.\<close>

theorem follower_gets_answer:
  assumes "dict_ok (results f)" and "\<forall>(k, v) \<in> set (results f). k \<noteq> key \<longrightarrow> snd v < now"
  shows "collect (publish f now key r) key True = r"
  using publish_keeps_newest [OF assms] by (simp add: collect_def)

text \<open>
  The key is not exclusive, however: ending a turn after publishing pops whatever event is in the
  table, so a leader that starts between another's publication and the end of its turn loses its
  claim, and a third thread becomes a second leader of the same key.
\<close>

definition race_key :: cache_key where
  "race_key = \<lparr>ck_name = ''a'', ck_qtype = 1, ck_qclass = 1, ck_dnssec = False\<rparr>"

definition lead_in :: "flight_sys \<Rightarrow> nat \<Rightarrow> flight_sys" where
  "lead_in s t = s\<lparr>shared := fst (leader (shared s) race_key),
     phase_of := (phase_of s)(t := Leading race_key (snd (snd (leader (shared s) race_key))))\<rparr>"

lemma lead_in_step:
  "phase_of s t = Idle \<Longrightarrow> dget (waiters (shared s)) race_key = None \<Longrightarrow> flight_step s (lead_in s t)"
  unfolding lead_in_def by (rule lead) (auto simp: leader_def)

text \<open>two threads can lead the same key at once: there is a reachable state with two leaders of
  one key, so two identical upstream queries are in flight.\<close>

theorem two_leaders_reachable:
  "\<exists>s t u k e e'. reachable_sys s \<and> t \<noteq> u \<and> phase_of s t = Leading k e \<and> phase_of s u = Leading k e'"
proof -
  let ?s1 = "lead_in initial_sys 0"
  let ?s2 = "?s1\<lparr>shared := publish (shared ?s1) 0 race_key None,
      phase_of := (phase_of ?s1)(0 := Published race_key)\<rparr>"
  let ?s3 = "lead_in ?s2 1"
  let ?s4 = "?s3\<lparr>shared := done_turn (shared ?s3) race_key, phase_of := (phase_of ?s3)(0 := Idle)\<rparr>"
  let ?s5 = "lead_in ?s4 2"
  have "reachable_sys ?s1"
    by (rule reachable_sys.step [OF start lead_in_step]) (simp_all add: initial_sys_def new_flight_def)
  moreover have "flight_step ?s1 ?s2"
    by (rule publishes) (simp add: lead_in_def)
  moreover have "flight_step ?s2 ?s3"
    by (rule lead_in_step) (simp_all add: lead_in_def initial_sys_def)
  moreover have "flight_step ?s3 ?s4"
    by (rule ends) (simp add: lead_in_def)
  moreover have "flight_step ?s4 ?s5"
    by (rule lead_in_step) (simp_all add: lead_in_def initial_sys_def)
  ultimately have "reachable_sys ?s5" by (blast intro: reachable_sys.step)
  moreover have "phase_of ?s5 1 = Leading race_key (snd (snd (leader (shared ?s2) race_key)))"
    "phase_of ?s5 2 = Leading race_key (snd (snd (leader (shared ?s4) race_key)))"
    by (simp_all add: lead_in_def)
  moreover have "(1 :: nat) \<noteq> 2" by simp
  ultimately show ?thesis by blast
qed

section \<open>Witnesses\<close>

definition waiting_sys :: flight_sys where
  "waiting_sys = (lead_in initial_sys 0)\<lparr>phase_of := (phase_of (lead_in initial_sys 0))(1 := Waiting race_key 0)\<rparr>"

lemma waiting_reachable: "reachable_sys waiting_sys"
proof -
  have "reachable_sys (lead_in initial_sys 0)"
    by (rule reachable_sys.step [OF start lead_in_step]) (simp_all add: initial_sys_def new_flight_def)
  moreover have "flight_step (lead_in initial_sys 0) waiting_sys"
    using follow [of "lead_in initial_sys 0" 1 race_key "shared (lead_in initial_sys 0)" 0]
    by (simp add: waiting_sys_def lead_in_def initial_sys_def new_flight_def leader_def)
  ultimately show ?thesis by (rule reachable_sys.step)
qed

theorem no_stranded_follower_witness:
  "\<exists>u. phase_of waiting_sys u = Leading race_key 0
     \<and> 0 \<in> set (fired (done_turn (shared waiting_sys) race_key))"
  using no_stranded_follower [OF waiting_reachable, of 1 race_key 0]
  by (auto simp: waiting_sys_def lead_in_def initial_sys_def new_flight_def leader_def)

theorem results_stay_bounded_witness: "length (results (shared waiting_sys)) \<le> 512"
  using results_stay_bounded [OF waiting_reachable] by (simp add: MAX_RESULTS_def)

theorem follower_gets_answer_witness:
  "collect (publish new_flight 5 race_key (Some [1, 2, 3])) race_key True = Some [1, 2, 3]"
  by (rule follower_gets_answer) (simp_all add: new_flight_def)

end
