(* ===== verification/Blocklist.thy ===== *)
theory Blocklist
  imports PyStr
begin

text \<open>
  Rule sets and list parsing, \<open>symbivpn/blocklist.py\<close> (\<open>DomainSet\<close>, \<open>parse_rules\<close> and what they
  call).  The regular-expression engine is a parameter: \<open>rx p\<close> is the compiled pattern's search,
  \<^const>\<open>None\<close> for an invalid pattern; the three patterns the module itself uses are written out
  as the functions they denote.  The interface of a rule set, as its clients use it, is the
  locale \<open>rule_set\<close>.
\<close>

section \<open>Parent domains\<close>

function parents :: "str \<Rightarrow> str list" where
  "parents name =
     (if name = [] then []
      else name # (case find_sub ''.'' name of None \<Rightarrow> [] | Some dot \<Rightarrow> parents (drop (dot + 1) name)))"
  by pat_completeness auto
termination by (relation "measure length") auto

declare parents.simps [simp del]

definition parent_domains :: "str \<Rightarrow> str list" where
  "parent_domains name = parents (canon name)"

section \<open>Domain sets\<close>

record rule_match =
  m_rule :: str
  m_source :: str

record domain_set =
  ds_exact :: "(str, str) dict"
  ds_suffix :: "(str, str) dict"
  ds_regex :: "(str \<times> str) list"

type_synonym regex_engine = "str \<Rightarrow> (str \<Rightarrow> bool) option"

definition empty_set :: domain_set where
  "empty_set = \<lparr>ds_exact = [], ds_suffix = [], ds_regex = []\<rparr>"

definition ds_len :: "domain_set \<Rightarrow> nat" where
  "ds_len s = length (ds_exact s) + length (ds_suffix s) + length (ds_regex s)"

text \<open>\<open>clear\<close>.\<close>

definition ds_clear :: "domain_set \<Rightarrow> domain_set" where
  "ds_clear s = s\<lparr>ds_exact := [], ds_suffix := [], ds_regex := []\<rparr>"

definition add_exact :: "str \<Rightarrow> str \<Rightarrow> domain_set \<Rightarrow> domain_set" where
  "add_exact domain source s =
     (case dget (ds_exact s) domain of
        None \<Rightarrow> s\<lparr>ds_exact := dset domain source (ds_exact s)\<rparr>
      | Some _ \<Rightarrow> s)"

definition add_suffix :: "str \<Rightarrow> str \<Rightarrow> domain_set \<Rightarrow> domain_set" where
  "add_suffix domain source s =
     s\<lparr>ds_exact := ddel domain (ds_exact s), ds_suffix := dset domain source (ds_suffix s)\<rparr>"

definition add_regex :: "regex_engine \<Rightarrow> str \<Rightarrow> str \<Rightarrow> domain_set \<Rightarrow> domain_set" where
  "add_regex rx pattern source s =
     (case rx pattern of
        None \<Rightarrow> s
      | Some _ \<Rightarrow> s\<lparr>ds_regex := ds_regex s @ [(pattern, source)]\<rparr>)"

definition searches :: "regex_engine \<Rightarrow> str \<Rightarrow> str \<Rightarrow> bool" where
  "searches rx pattern name = (case rx pattern of None \<Rightarrow> False | Some f \<Rightarrow> f name)"

fun first_suffix :: "(str, str) dict \<Rightarrow> str list \<Rightarrow> rule_match option" where
  "first_suffix d [] = None"
| "first_suffix d (c # cs) =
     (case dget d c of
        Some source \<Rightarrow> Some \<lparr>m_rule = ''*.'' @ c, m_source = source\<rparr>
      | None \<Rightarrow> first_suffix d cs)"

fun first_regex :: "regex_engine \<Rightarrow> (str \<times> str) list \<Rightarrow> str \<Rightarrow> rule_match option" where
  "first_regex rx [] name = None"
| "first_regex rx ((pattern, source) # rs) name =
     (if searches rx pattern name
      then Some \<lparr>m_rule = ''/'' @ pattern @ ''/'', m_source = source\<rparr>
      else first_regex rx rs name)"

definition match :: "regex_engine \<Rightarrow> domain_set \<Rightarrow> str \<Rightarrow> rule_match option" where
  "match rx s name =
     (let name = canon name in
      if name = [] then None
      else case dget (ds_exact s) name of
        Some source \<Rightarrow> Some \<lparr>m_rule = name, m_source = source\<rparr>
      | None \<Rightarrow>
          (case (if ds_suffix s = [] then None else first_suffix (ds_suffix s) (parent_domains name)) of
             Some m \<Rightarrow> Some m
           | None \<Rightarrow> first_regex rx (ds_regex s) name))"

section \<open>Parsing\<close>

text \<open>\<open>$\<close> in a pattern: the end, or before a final line feed.\<close>

definition at_end :: "str \<Rightarrow> bool" where
  "at_end s = (s = [] \<or> s = [CHR 0x0A])"

definition adblock_options :: "str \<Rightarrow> bool" where
  "adblock_options t =
     (at_end t \<or> (t \<noteq> [] \<and> hd t = CHR ''$'' \<and> at_end (dropWhile (\<lambda>c. \<not> is_space c) (tl t))))"

definition adblock_tail :: "str \<Rightarrow> bool" where
  "adblock_tail t = (adblock_options t \<or> (t \<noteq> [] \<and> hd t = CHR ''^'' \<and> adblock_options (tl t)))"

definition adblock_char :: "char \<Rightarrow> bool" where
  "adblock_char c = (c \<noteq> CHR ''^'' \<and> c \<noteq> CHR ''/'' \<and> c \<noteq> CHR ''*'')"

text \<open>
  \<open>([^\^/\*]+)\^?(\$[^\s]*)?$\<close>: the group is greedy, so it is the longest non-empty run whose
  remainder matches.
\<close>

fun longest_group :: "nat \<Rightarrow> str \<Rightarrow> str option" where
  "longest_group 0 s = None"
| "longest_group (Suc n) s =
     (if adblock_tail (drop (Suc n) s) then Some (take (Suc n) s) else longest_group n s)"

definition adblock_group :: "str \<Rightarrow> str option" where
  "adblock_group s = longest_group (length (takeWhile adblock_char s)) s"

definition adblock_block :: "str \<Rightarrow> str option" where
  "adblock_block line = (if prefix ''||'' line then adblock_group (drop 2 line) else None)"

definition adblock_allow :: "str \<Rightarrow> str option" where
  "adblock_allow line = (if prefix ''@@||'' line then adblock_group (drop 4 line) else None)"

definition domain_char :: "char \<Rightarrow> bool" where
  "domain_char c = (97 \<le> code_pt c \<and> code_pt c \<le> 122 \<or> 48 \<le> code_pt c \<and> code_pt c \<le> 57
     \<or> c = CHR ''_'' \<or> c = CHR ''-'')"

definition valid_label :: "str \<Rightarrow> bool" where
  "valid_label l = (l \<noteq> [] \<and> length l \<le> 63 \<and> list_all domain_char l
     \<and> hd l \<noteq> CHR ''-'' \<and> last l \<noteq> CHR ''-'')"

definition valid_domain :: "str \<Rightarrow> bool" where
  "valid_domain d =
     (let d' = (if d \<noteq> [] \<and> last d = CHR 0x0A then butlast d else d)
      in list_all valid_label (split_on CHR ''.'' d'))"

definition cut_at :: "str \<Rightarrow> str \<Rightarrow> str" where
  "cut_at sep s = (case find_sub sep s of None \<Rightarrow> s | Some i \<Rightarrow> take i s)"

definition after :: "str \<Rightarrow> str \<Rightarrow> str" where
  "after sep s = (case find_sub sep s of None \<Rightarrow> s | Some i \<Rightarrow> drop (i + length sep) s)"

text \<open>\<open>idna\<close> is the standard codec, composed with the ASCII decoding; \<^const>\<open>None\<close> its \<open>UnicodeError\<close>.\<close>

definition normalise :: "(str \<Rightarrow> str option) \<Rightarrow> str \<Rightarrow> str" where
  "normalise idna domain =
     (let domain = lower (strip_dots (strip_ws domain)) in
      if domain = [] \<or> 253 < length domain then []
      else
        let domain = (if prefix ''http://'' domain \<or> prefix ''https://'' domain
                      then cut_at ''/'' (after ''://'' domain) else domain) in
        if CHR ''/'' \<in> set domain \<or> CHR '' '' \<in> set domain then []
        else case (if isascii domain then Some domain else idna domain) of
          None \<Rightarrow> []
        | Some d \<Rightarrow> if valid_domain d then d else [])"

definition looks_like_address :: "str \<Rightarrow> bool" where
  "looks_like_address text =
     (let t = (if text \<noteq> [] \<and> last text = CHR 0x0A then butlast text else text);
          ps = split_on CHR ''.'' t
      in (length ps = 4 \<and> list_all (\<lambda>p. 1 \<le> length p \<and> length p \<le> 3
            \<and> list_all (\<lambda>c. 48 \<le> code_pt c \<and> code_pt c \<le> 57) p) ps)
         \<or> CHR '':'' \<in> set text)"

definition SINKHOLE_ADDRESSES :: "str list" where
  "SINKHOLE_ADDRESSES = [''0.0.0.0'', ''127.0.0.1'', ''::'', ''::1'', ''0.0.0.0.0.0'']"

definition HOSTS_NOISE :: "str list" where
  "HOSTS_NOISE = [''localhost'', ''localhost.localdomain'', ''local'', ''broadcasthost'',
     ''ip6-localhost'', ''ip6-loopback'', ''ip6-localnet'', ''ip6-mcastprefix'', ''ip6-allnodes'',
     ''ip6-allrouters'', ''ip6-allhosts'', ''0.0.0.0'']"

record parse_result =
  pr_block :: domain_set
  pr_allow :: domain_set
  lines_read :: nat
  lines_skipped :: nat
  allow_rules_ignored :: nat
  regexes_refused :: nat

definition empty_result :: parse_result where
  "empty_result = \<lparr>pr_block = empty_set, pr_allow = empty_set, lines_read = 0, lines_skipped = 0,
     allow_rules_ignored = 0, regexes_refused = 0\<rparr>"

record parse_opts =
  hosts_match_subdomains :: bool
  trust_allow_rules :: bool
  trust_regex_rules :: bool
  po_rx :: regex_engine
  po_idna :: "str \<Rightarrow> str option"

definition add_domain :: "str \<Rightarrow> str \<Rightarrow> bool \<Rightarrow> domain_set \<Rightarrow> domain_set" where
  "add_domain domain source as_suffix target =
     (if as_suffix then add_suffix domain source target else add_exact domain source target)"

definition block_suffix :: "str \<Rightarrow> str \<Rightarrow> parse_result \<Rightarrow> bool \<times> parse_result" where
  "block_suffix domain source r =
     (if domain = [] then (False, r) else (True, r\<lparr>pr_block := add_suffix domain source (pr_block r)\<rparr>))"

text \<open>The names of a hosts line, up to a comment field; whether any was added.\<close>

fun hosts_names :: "parse_opts \<Rightarrow> str \<Rightarrow> str list \<Rightarrow> bool \<Rightarrow> domain_set \<Rightarrow> bool \<times> domain_set" where
  "hosts_names po source [] added s = (added, s)"
| "hosts_names po source (c # cs) added s =
     (if prefix ''#'' c then (added, s)
      else
        let domain = normalise (po_idna po) c in
        if domain \<noteq> [] \<and> domain \<notin> set HOSTS_NOISE
        then hosts_names po source cs True (add_domain domain source (hosts_match_subdomains po) s)
        else hosts_names po source cs added s)"

definition unsupported :: "str \<Rightarrow> bool" where
  "unsupported line = (list_ex (\<lambda>p. prefix p line) [''@@'', ''||'', ''|'', ''/'', ''##'', ''#@#'', ''#?#'']
     \<and> \<not> prefix ''/*'' line)"

definition consume_rule :: "parse_opts \<Rightarrow> str \<Rightarrow> str \<Rightarrow> parse_result \<Rightarrow> bool \<times> parse_result" where
  "consume_rule po line source r =
     (case adblock_allow line of
        Some g \<Rightarrow>
          if \<not> trust_allow_rules po
          then (True, r\<lparr>allow_rules_ignored := allow_rules_ignored r + 1\<rparr>)
          else
            let domain = normalise (po_idna po) g in
            if domain = [] then (False, r)
            else (True, r\<lparr>pr_allow := add_suffix domain source (pr_allow r)\<rparr>)
      | None \<Rightarrow>
        (case adblock_block line of
           Some g \<Rightarrow> block_suffix (normalise (po_idna po) g) source r
         | None \<Rightarrow>
           if unsupported line then
             (if prefix ''/'' line \<and> suffix ''/'' line \<and> 2 < length line then
                (if \<not> trust_regex_rules po
                 then (True, r\<lparr>regexes_refused := regexes_refused r + 1\<rparr>)
                 else (True, r\<lparr>pr_block := add_regex (po_rx po) (butlast (tl line)) source (pr_block r)\<rparr>))
              else (False, r))
           else
             let fs = split_ws line in
             if 2 \<le> length fs \<and> looks_like_address (hd fs) then
               (if hd fs \<notin> set SINKHOLE_ADDRESSES then (False, r)
                else let (added, b) = hosts_names po source (tl fs) False (pr_block r)
                     in (added, r\<lparr>pr_block := b\<rparr>))
             else if length fs \<noteq> 1 then (False, r)
             else
               let entry = hd fs in
               if prefix ''*.'' entry then block_suffix (normalise (po_idna po) (drop 2 entry)) source r
               else
                 let domain = normalise (po_idna po) entry in
                 if domain \<noteq> [] \<and> domain \<notin> set HOSTS_NOISE
                 then (True, r\<lparr>pr_block :=
                         add_domain domain source (hosts_match_subdomains po) (pr_block r)\<rparr>)
                 else (False, r)))"

text \<open>Trailing comments, not in lines that start a regular expression.\<close>

definition strip_comment :: "str \<Rightarrow> str \<Rightarrow> str" where
  "strip_comment marker line =
     (case find_sub marker line of None \<Rightarrow> line | Some i \<Rightarrow> strip_ws (take i line))"

definition parse_line :: "parse_opts \<Rightarrow> str \<Rightarrow> parse_result \<Rightarrow> str \<Rightarrow> parse_result" where
  "parse_line po source r raw =
     (let r = r\<lparr>lines_read := lines_read r + 1\<rparr>;
          line = strip_ws raw
      in if line = [] \<or> hd line \<in> {CHR ''#'', CHR ''!'', CHR '';'', CHR ''[''} then r
         else
           let line = (if prefix ''/'' line then line
                       else strip_comment [CHR 0x09, CHR ''#''] (strip_comment '' #'' line))
           in if line = [] then r
              else let (used, r') = consume_rule po line source r
                   in if used then r' else r'\<lparr>lines_skipped := lines_skipped r' + 1\<rparr>)"

definition parse_rules :: "parse_opts \<Rightarrow> str \<Rightarrow> str \<Rightarrow> parse_result \<Rightarrow> parse_result" where
  "parse_rules po text source into = foldl (parse_line po source) into (splitlines text)"

text \<open>\<open>dict.update\<close> and \<open>_merge\<close>.\<close>

definition dupdate :: "('k, 'v) dict \<Rightarrow> ('k, 'v) dict \<Rightarrow> ('k, 'v) dict" where
  "dupdate d e = fold (\<lambda>(k, v). dset k v) e d"

definition merge_set :: "domain_set \<Rightarrow> domain_set \<Rightarrow> domain_set" where
  "merge_set a b = \<lparr>ds_exact = dupdate (ds_exact a) (ds_exact b),
     ds_suffix = dupdate (ds_suffix a) (ds_suffix b), ds_regex = ds_regex a @ ds_regex b\<rparr>"

definition merge_result :: "parse_result \<Rightarrow> parse_result \<Rightarrow> parse_result" where
  "merge_result t e =
     \<lparr>pr_block = merge_set (pr_block t) (pr_block e), pr_allow = merge_set (pr_allow t) (pr_allow e),
      lines_read = lines_read t + lines_read e, lines_skipped = lines_skipped t + lines_skipped e,
      allow_rules_ignored = allow_rules_ignored t + allow_rules_ignored e,
      regexes_refused = regexes_refused t + regexes_refused e\<rparr>"

section \<open>What a name is under\<close>

text \<open>The declarative reading: a rule covers a name that equals it or ends in it after a dot.\<close>

definition is_under :: "str \<Rightarrow> str \<Rightarrow> bool" where
  "is_under name d = (d \<noteq> [] \<and> (name = d \<or> suffix (CHR ''.'' # d) name))"

lemma find_sub_first: "c \<notin> set p \<Longrightarrow> find_sub [c] (p @ c # r) = Some (length p)"
  by (induction p) auto

lemma find_sub_absent: "c \<notin> set s \<Longrightarrow> find_sub [c] s = None"
  by (induction s) auto

lemma suffix_first: "c \<notin> set p \<Longrightarrow> suffix (c # d) (p @ c # r) \<longleftrightarrow> d = r \<or> suffix (c # d) r"
  by (induction p) (auto simp: suffix_Cons)

lemma parents_under:
  "name = [] \<or> last name \<noteq> CHR ''.'' \<Longrightarrow> d \<in> set (parents name) \<longleftrightarrow> is_under name d"
proof (induction "length name" arbitrary: name rule: less_induct)
  case less
  show ?case
  proof (cases "CHR ''.'' \<in> set name")
    case False
    then have "\<not> suffix (CHR ''.'' # d) name" by (auto simp: suffix_def)
    with False show ?thesis
      by (subst parents.simps) (auto simp: is_under_def find_sub_absent)
  next
    case True
    then obtain p r where n: "name = p @ CHR ''.'' # r" and p: "CHR ''.'' \<notin> set p"
      by (meson split_list_first)
    have "r \<noteq> []" using less.prems by (auto simp: n)
    then have r: "last r \<noteq> CHR ''.''" using less.prems by (simp add: n)
    have "set (parents name) = insert name (set (parents r))"
      by (subst parents.simps) (simp add: n find_sub_first [OF p])
    moreover have "d \<in> set (parents r) \<longleftrightarrow> is_under r d" using less.hyps [of r] r by (simp add: n)
    ultimately show ?thesis using suffix_first [OF p, of d r] \<open>r \<noteq> []\<close>
      by (auto simp: is_under_def n)
  qed
qed

lemma canon_last: "canon n = [] \<or> last (canon n) \<noteq> CHR ''.''"
proof (cases "strip_dots n = []")
  case False
  then have "\<not> is_dot (last (strip_dots n))" by (rule strip_ends [THEN conjunct2])
  with False show ?thesis
    by (auto simp: canon_def lower_def last_map is_dot_def)
qed (simp add: canon_def)

lemma parent_domains_under: "d \<in> set (parent_domains n) \<longleftrightarrow> is_under (canon n) d"
  unfolding parent_domains_def by (rule parents_under [OF canon_last])

section \<open>What a rule set matches\<close>

lemma first_suffix_None: "first_suffix d cs = None \<longleftrightarrow> (\<forall>c \<in> set cs. dget d c = None)"
  by (induction cs) (auto split: option.splits)

lemma first_suffix_Some:
  "first_suffix d cs = Some m \<Longrightarrow> \<exists>c pre post. cs = pre @ c # post \<and> dget d c = Some (m_source m)
     \<and> m_rule m = ''*.'' @ c \<and> (\<forall>p \<in> set pre. dget d p = None)"
proof (induction cs)
  case (Cons c cs)
  show ?case
  proof (cases "dget d c")
    case None
    with Cons obtain c' pre post where "cs = pre @ c' # post" "dget d c' = Some (m_source m)"
      "m_rule m = ''*.'' @ c'" "\<forall>p \<in> set pre. dget d p = None" by auto
    with None show ?thesis by (intro exI [of _ c'] exI [of _ "c # pre"] exI [of _ post]) auto
  next
    case (Some v)
    with Cons.prems show ?thesis by (intro exI [of _ c] exI [of _ "[]"] exI [of _ cs]) auto
  qed
qed simp

lemma first_regex_None: "first_regex rx rs n = None \<longleftrightarrow> (\<forall>p \<in> set rs. \<not> searches rx (fst p) n)"
  by (induction rx rs n rule: first_regex.induct) simp_all

definition covers :: "regex_engine \<Rightarrow> domain_set \<Rightarrow> str \<Rightarrow> bool" where
  "covers rx s n = (n \<noteq> [] \<and> (dget (ds_exact s) n \<noteq> None
     \<or> (\<exists>d. is_under n d \<and> dget (ds_suffix s) d \<noteq> None)
     \<or> (\<exists>p \<in> set (ds_regex s). searches rx (fst p) n)))"

lemma match_parts:
  "match rx s name = (if canon name = [] then None
     else case dget (ds_exact s) (canon name) of
       Some source \<Rightarrow> Some \<lparr>m_rule = canon name, m_source = source\<rparr>
     | None \<Rightarrow> (case first_suffix (ds_suffix s) (parent_domains name) of
         Some m \<Rightarrow> Some m
       | None \<Rightarrow> first_regex rx (ds_regex s) (canon name)))"
proof -
  have "(if ds_suffix s = [] then None else first_suffix (ds_suffix s) (parent_domains name))
      = first_suffix (ds_suffix s) (parent_domains name)"
    using first_suffix_None [of "[]" "parent_domains name"] by simp
  moreover have "parent_domains (canon name) = parent_domains name" by (simp add: parent_domains_def)
  ultimately show ?thesis by (simp only: match_def Let_def)
qed

lemma match_iff: "match rx s name = None \<longleftrightarrow> \<not> covers rx s (canon name)"
proof -
  have "first_suffix (ds_suffix s) (parent_domains name) = None
      \<longleftrightarrow> (\<forall>d. is_under (canon name) d \<longrightarrow> dget (ds_suffix s) d = None)"
    unfolding first_suffix_None using parent_domains_under by blast
  moreover have "first_regex rx (ds_regex s) (canon name) = None
      \<longleftrightarrow> (\<forall>p \<in> set (ds_regex s). \<not> searches rx (fst p) (canon name))"
    by (rule first_regex_None)
  ultimately show ?thesis
    unfolding match_parts covers_def
    by (cases "dget (ds_exact s) (canon name)";
        cases "first_suffix (ds_suffix s) (parent_domains name)") simp_all
qed


section \<open>The rule-set interface\<close>

text \<open>
  What the policy engine, the compatibility rules and the block-list manager rely on: adding a
  domain makes exactly the names at or under it match as well.
\<close>

locale rule_set =
  fixes hit :: "'s \<Rightarrow> str \<Rightarrow> bool"
    and add :: "str \<Rightarrow> 's \<Rightarrow> 's"
    and under :: "str \<Rightarrow> str \<Rightarrow> bool"
  assumes hit_add: "hit (add d s) n \<longleftrightarrow> hit s n \<or> under n d"
begin

lemma hit_fold: "hit (fold add ds s) n \<longleftrightarrow> hit s n \<or> (\<exists>d \<in> set ds. under n d)"
  by (induction ds arbitrary: s) (auto simp: hit_add)

lemma hit_mono: "hit s n \<Longrightarrow> hit (fold add ds s) n"
  by (simp add: hit_fold)

lemma order_irrelevant: "set ds = set ds' \<Longrightarrow> hit (fold add ds s) = hit (fold add ds' s)"
  by (rule ext) (simp add: hit_fold)

end

lemma covers_add_suffix: "covers rx (add_suffix d src s) n \<longleftrightarrow> covers rx s n \<or> is_under n d"
  by (auto simp: covers_def add_suffix_def is_under_def)

interpretation ds: rule_set "\<lambda>s n. match rx s n \<noteq> None" "\<lambda>d. add_suffix d src" "\<lambda>n. is_under (canon n)"
  for rx src
  by unfold_locales (simp add: match_iff covers_add_suffix)

lemma match_empty [simp]: "match rx empty_set n = None"
  by (simp add: match_iff covers_def empty_set_def)

lemma add_exact_hit: "match rx (add_exact d src s) n \<noteq> None \<longleftrightarrow> match rx s n \<noteq> None \<or> d \<noteq> [] \<and> canon n = d"
  by (auto simp: match_iff covers_def add_exact_def split: option.split)

section \<open>Merging\<close>

lemma dget_dupdate: "dget (dupdate d e) k = (case dget (rev e) k of None \<Rightarrow> dget d k | Some v \<Rightarrow> Some v)"
  unfolding dupdate_def by (induction e arbitrary: d) (auto simp: map_add_def split: option.split)

lemma dget_dupdate_None: "dget (dupdate d e) k = None \<longleftrightarrow> dget d k = None \<and> dget e k = None"
  using dget_None_iff [of "rev e" k] dget_None_iff [of e k]
  by (cases "dget (rev e) k") (auto simp: dget_dupdate)

lemma covers_merge: "covers rx (merge_set a b) n \<longleftrightarrow> covers rx a n \<or> covers rx b n"
  by (auto simp: covers_def merge_set_def dget_dupdate_None)

section \<open>What parsing leaves in the result\<close>

definition wf_rules :: "domain_set \<Rightarrow> bool" where
  "wf_rules s = (\<forall>d \<in> set (dkeys (ds_exact s)) \<union> set (dkeys (ds_suffix s)). valid_domain d)"

lemma valid_nonempty: "valid_domain d \<Longrightarrow> d \<noteq> []"
  by (auto simp: valid_domain_def valid_label_def)

lemma normalise_valid: "normalise idna d \<noteq> [] \<Longrightarrow> valid_domain (normalise idna d)"
  by (auto simp: normalise_def Let_def split: if_splits option.splits)

lemma keys_dset: "fst ` set (dset k v d) = insert k (fst ` set d)"
  by (induction d) auto

lemma keys_ddel: "p \<in> set (ddel k d) \<Longrightarrow> p \<in> set d"
  by (simp add: set_ddel)

lemma wf_empty [simp]: "wf_rules empty_set"
  by (simp add: wf_rules_def empty_set_def)

lemma wf_add_suffix [simp]: "valid_domain d \<Longrightarrow> wf_rules s \<Longrightarrow> wf_rules (add_suffix d src s)"
  by (auto simp: wf_rules_def add_suffix_def keys_dset dest!: keys_ddel simp del: image_iff)

lemma wf_add_domain [simp]: "valid_domain d \<Longrightarrow> wf_rules s \<Longrightarrow> wf_rules (add_domain d src b s)"
  by (simp add: add_domain_def) (auto simp: wf_rules_def add_exact_def keys_dset split: option.split)

lemma wf_add_regex [simp]: "wf_rules (add_regex rx p src s) = wf_rules s"
  by (simp add: add_regex_def wf_rules_def split: option.split)

lemma regex_kept [simp]: "ds_regex (add_suffix d src s) = ds_regex s" "ds_regex (add_domain d src b s) = ds_regex s"
  by (simp_all add: add_suffix_def add_domain_def add_exact_def split: option.split)

text \<open>What a step of the parser may do to the result, as a relation on results.\<close>

definition parse_keeps :: "parse_opts \<Rightarrow> parse_result \<Rightarrow> parse_result \<Rightarrow> bool" where
  "parse_keeps po r r' =
     ((wf_rules (pr_block r) \<longrightarrow> wf_rules (pr_block r')) \<and> (wf_rules (pr_allow r) \<longrightarrow> wf_rules (pr_allow r'))
      \<and> (\<not> trust_allow_rules po \<longrightarrow> pr_allow r' = pr_allow r)
      \<and> (\<not> trust_regex_rules po \<longrightarrow> ds_regex (pr_block r') = ds_regex (pr_block r))
      \<and> ds_regex (pr_allow r') = ds_regex (pr_allow r))"

lemma keeps_refl [simp]: "parse_keeps po r r"
  by (simp add: parse_keeps_def)

lemma keeps_trans: "parse_keeps po r r' \<Longrightarrow> parse_keeps po r' r'' \<Longrightarrow> parse_keeps po r r''"
  by (auto simp: parse_keeps_def)

lemma hosts_names_keeps:
  "hosts_names po source cs added s = (a, s') \<Longrightarrow>
     (wf_rules s \<longrightarrow> wf_rules s') \<and> ds_regex s' = ds_regex s"
proof (induction po source cs added s arbitrary: a s' rule: hosts_names.induct)
  case (2 po source c cs added s)
  then show ?case
    by (auto simp: Let_def normalise_valid split: if_splits)
qed simp

lemma consume_keeps: "parse_keeps po r (snd (consume_rule po line source r))"
proof -
  have h: "parse_keeps po r (r\<lparr>pr_block := s'\<rparr>)"
    if "hosts_names po source cs False (pr_block r) = (a, s')" for cs a s'
    using hosts_names_keeps [OF that] by (simp add: parse_keeps_def)
  have b: "parse_keeps po r (snd (block_suffix (normalise i d) source r))" for i d
    by (simp add: block_suffix_def parse_keeps_def normalise_valid)
  have d: "parse_keeps po r (r\<lparr>pr_block := add_domain (normalise i d) source x (pr_block r)\<rparr>)"
    if "normalise i d \<noteq> []" for i d x
    using that by (simp add: parse_keeps_def normalise_valid)
  have a: "parse_keeps po r (r\<lparr>pr_allow := add_suffix (normalise i d) source (pr_allow r)\<rparr>)"
    if "normalise i d \<noteq> []" "trust_allow_rules po" for i d
    using that by (simp add: parse_keeps_def normalise_valid)
  have x: "parse_keeps po r (r\<lparr>pr_block := add_regex rx p source (pr_block r)\<rparr>)"
    if "trust_regex_rules po" for rx p
    using that by (simp add: parse_keeps_def)
  have c: "parse_keeps po r (r\<lparr>allow_rules_ignored := n\<rparr>)" "parse_keeps po r (r\<lparr>regexes_refused := n\<rparr>)" for n
    by (simp_all add: parse_keeps_def)
  show ?thesis
    using h b d a x c
    by (auto simp: consume_rule_def Let_def split: option.split prod.split)
qed

lemma parse_line_keeps: "parse_keeps po r (parse_line po source r raw)"
proof -
  let ?r = "r\<lparr>lines_read := lines_read r + 1\<rparr>"
  have 1: "parse_keeps po r ?r" by (simp add: parse_keeps_def)
  have 2: "parse_keeps po x (x\<lparr>lines_skipped := n\<rparr>)" for x n by (simp add: parse_keeps_def)
  have 3: "parse_keeps po r (snd (consume_rule po line source ?r))" for line
    using keeps_trans [OF 1 consume_keeps] .
  have 4: "parse_keeps po r ((snd (consume_rule po line source ?r))\<lparr>lines_skipped := n\<rparr>)" for line n
    using keeps_trans [OF 3 2] .
  show ?thesis
    unfolding parse_line_def Let_def case_prod_beta using 1 3 4 by (simp only: if_split simp_thms) 
qed

lemma parse_rules_keeps: "parse_keeps po r (parse_rules po text source r)"
proof -
  have "parse_keeps po r (foldl (parse_line po source) r xs)" for xs :: "str list"
    by (induction xs arbitrary: r) (auto intro: parse_line_keeps keeps_trans)
  then show ?thesis by (simp add: parse_rules_def)
qed

section \<open>The spellings of a rule\<close>

text \<open>A domain as lists write it: at most 253 characters, every label valid.\<close>

definition clean_domain :: "str \<Rightarrow> bool" where
  "clean_domain d = (length d \<le> 253 \<and> list_all valid_label (split_on CHR ''.'' d))"

definition name_char :: "char \<Rightarrow> bool" where
  "name_char c = (domain_char c \<or> c = CHR ''.'')"

lemma domain_char_facts:
  assumes "domain_char c"
  shows "c \<noteq> CHR ''.'' \<and> \<not> is_space c \<and> \<not> is_upper c \<and> is_ascii c \<and> adblock_char c \<and>
    c \<notin> {CHR '':'', CHR ''/'', CHR '' '', CHR 0x0A, CHR ''@'', CHR ''|'', CHR ''#'', CHR ''*'',
      CHR ''!'', CHR '';'', CHR ''['', CHR ''$'', CHR ''^''}"
proof -
  have c: "code_pt CHR ''.'' = 46" "code_pt CHR '':'' = 58" "code_pt CHR ''/'' = 47" "code_pt CHR '' '' = 32"
    "code_pt CHR 0x0A = 10" "code_pt CHR ''@'' = 64" "code_pt CHR ''|'' = 124" "code_pt CHR ''#'' = 35"
    "code_pt CHR ''*'' = 42" "code_pt CHR ''!'' = 33" "code_pt CHR '';'' = 59" "code_pt CHR ''['' = 91"
    "code_pt CHR ''$'' = 36" "code_pt CHR ''^'' = 94" "code_pt CHR ''_'' = 95" "code_pt CHR ''-'' = 45"
    by (simp_all add: code_pt_def)
  have n: "97 \<le> code_pt c \<and> code_pt c \<le> 122 \<or> 48 \<le> code_pt c \<and> code_pt c \<le> 57 \<or> code_pt c = 95 \<or> code_pt c = 45"
    using assms c by (auto simp: domain_char_def)
  then have "c \<noteq> k" if "code_pt k \<in> {46, 58, 47, 32, 10, 64, 124, 35, 42, 33, 59, 91, 36, 94}" for k
    using that by auto
  then have "c \<noteq> CHR ''.''" "c \<noteq> CHR '':''" "c \<noteq> CHR ''/''" "c \<noteq> CHR '' ''" "c \<noteq> CHR 0x0A" "c \<noteq> CHR ''@''"
    "c \<noteq> CHR ''|''" "c \<noteq> CHR ''#''" "c \<noteq> CHR ''*''" "c \<noteq> CHR ''!''" "c \<noteq> CHR '';''" "c \<noteq> CHR ''[''"
    "c \<noteq> CHR ''$''" "c \<noteq> CHR ''^''" by (simp_all only: c insert_iff simp_thms)
  moreover have "\<not> is_space c" "\<not> is_upper c" "is_ascii c"
    using n by (auto simp: is_space_def is_upper_def is_ascii_def Let_def)
  ultimately show ?thesis by (simp add: adblock_char_def)
qed

lemma clean_chars:
  assumes "clean_domain d" and "c \<in> set d"
  shows "name_char c"
proof (rule ccontr)
  assume "\<not> name_char c"
  then have "c \<noteq> CHR ''.''" "\<not> domain_char c" by (simp_all add: name_char_def)
  have "set (join ''.'' ls) \<subseteq> insert CHR ''.'' (\<Union> (set ` set ls))" for ls
    by (induction "''.''" ls rule: join.induct) auto
  from this [of "split_on CHR ''.'' d"] assms(2) \<open>c \<noteq> CHR ''.''\<close>
  obtain l where "l \<in> set (split_on CHR ''.'' d)" "c \<in> set l"
    by (auto simp: join_split_on)
  with assms(1) have "domain_char c" by (auto simp: clean_domain_def valid_label_def list_all_iff)
  with \<open>\<not> domain_char c\<close> show False by simp
qed

lemma name_char_facts:
  assumes "name_char c"
  shows "\<not> is_space c \<and> \<not> is_upper c \<and> is_ascii c \<and> adblock_char c \<and>
    c \<notin> {CHR '':'', CHR ''/'', CHR '' '', CHR 0x0A, CHR ''@'', CHR ''|'', CHR ''#'', CHR ''*'',
      CHR ''!'', CHR '';'', CHR ''['', CHR ''$'', CHR ''^''}"
proof (cases "c = CHR ''.''")
  case True
  have "code_pt CHR ''.'' = 46" by (simp add: code_pt_def)
  with True show ?thesis
    by (auto simp: is_space_def is_upper_def is_ascii_def adblock_char_def Let_def)
qed (use assms domain_char_facts in \<open>auto simp: name_char_def\<close>)

lemma hd_split_on: "s \<noteq> [] \<Longrightarrow> hd (split_on c s) = [] \<longleftrightarrow> hd s = c"
  by (cases s) (auto split: list.split)

lemma last_split_on: "s \<noteq> [] \<Longrightarrow> last (split_on c s) = [] \<longleftrightarrow> last s = c"
proof (induction s)
  case (Cons x s)
  show ?case
  proof (cases "s = []")
    case False
    obtain y ys where y: "split_on c s = y # ys" by (cases "split_on c s") auto
    with Cons.IH False have "last (y # ys) = [] \<longleftrightarrow> last s = c" by simp
    moreover have "s \<noteq> [] \<Longrightarrow> ys = [] \<Longrightarrow> y \<noteq> []"
      using join_split_on [of c s] y by auto
    ultimately show ?thesis using False y by auto
  qed simp
qed simp

lemma clean_ends:
  assumes "clean_domain d"
  shows "d \<noteq> []" "hd d \<noteq> CHR ''.''" "last d \<noteq> CHR ''.''"
proof -
  have l: "\<forall>l \<in> set (split_on CHR ''.'' d). l \<noteq> []"
    using assms by (auto simp: clean_domain_def list_all_iff valid_label_def)
  then show ne: "d \<noteq> []" by auto
  show "hd d \<noteq> CHR ''.''" using l hd_split_on [OF ne] by (metis hd_in_set split_on_ne)
  show "last d \<noteq> CHR ''.''" using l last_split_on [OF ne] by (metis last_in_set split_on_ne)
qed

lemma lower_id: "\<forall>c \<in> set s. \<not> is_upper c \<Longrightarrow> lower s = s"
  by (simp add: lower_def lower_char_def map_idI)

lemma normalise_clean:
  assumes "clean_domain d"
  shows "normalise idna d = d"
proof -
  note c = clean_chars [OF assms, THEN name_char_facts]
  note e = clean_ends [OF assms]
  have nc: "CHR '':'' \<notin> set d" using c by blast
  have "strip_ws d = d" using c e(1) by (intro strip_id) auto
  moreover have "strip_dots d = d" using e by (intro strip_id) (auto simp: is_dot_def)
  moreover have "lower d = d" using c by (intro lower_id) auto
  moreover have "\<not> prefix ''http://'' d" "\<not> prefix ''https://'' d"
    using nc by (auto simp: prefix_def)
  moreover have "isascii d" using c by (auto simp: isascii_def list_all_iff)
  moreover have "valid_domain d"
    using assms c last_in_set [OF e(1)] by (auto simp: valid_domain_def clean_domain_def)
  ultimately show ?thesis using c e(1) assms by (auto simp: normalise_def clean_domain_def)
qed

lemma words_acc_run: "\<forall>c \<in> set s. \<not> p c \<Longrightarrow> words_acc p (s @ t) acc = words_acc p t (rev s @ acc)"
  by (induction s arbitrary: acc) auto

lemma split_ws_single: "s \<noteq> [] \<Longrightarrow> \<forall>c \<in> set s. \<not> is_space c \<Longrightarrow> split_ws s = [s]"
  using words_acc_run [of s is_space "[]" "[]"] by (simp add: split_ws_def)

lemma split_ws_cons:
  "s \<noteq> [] \<Longrightarrow> \<forall>c \<in> set s. \<not> is_space c \<Longrightarrow> split_ws (s @ CHR '' '' # t) = s # split_ws t"
  using words_acc_run [of s is_space "CHR '' '' # t" "[]"]
  by (simp add: split_ws_def) (simp add: is_space_def code_pt_def)

lemma adblock_group_clean:
  assumes "clean_domain d"
  shows "adblock_group (d @ ''^'') = Some d"
proof -
  have "takeWhile adblock_char (d @ ''^'') = d"
    using clean_chars [OF assms, THEN name_char_facts]
    by (subst takeWhile_append2) (auto simp: adblock_char_def)
  moreover obtain n where "length d = Suc n" using clean_ends(1) [OF assms] by (cases d) auto
  ultimately show ?thesis
    by (simp add: adblock_group_def adblock_tail_def adblock_options_def at_end_def)
qed

section \<open>Properties\<close>

text \<open>C4: a rule set matches a name exactly when the stripped, lower-cased name is not empty and is an
  exact rule, or equals or ends in a dot and some suffix rule, or some pattern finds it.\<close>

theorem match_specification:
  "match rx s name \<noteq> None \<longleftrightarrow> canon name \<noteq> [] \<and>
     (canon name \<in> fst ` set (ds_exact s)
      \<or> (\<exists>d \<in> fst ` set (ds_suffix s). d \<noteq> [] \<and> (canon name = d \<or> suffix (''.'' @ d) (canon name)))
      \<or> (\<exists>p \<in> set (ds_regex s). searches rx (fst p) (canon name)))"
proof -
  have "dget d k = None \<longleftrightarrow> k \<notin> fst ` set d" for k :: str and d :: "(str, str) dict"
    by (simp add: dget_None_iff)
  then show ?thesis unfolding match_iff covers_def is_under_def by auto
qed

text \<open>whatever a downloaded list contains, parsing it leaves only valid domain names as rules;
  unless its exception rules are trusted it changes nothing in the allow list, and unless its
  patterns are trusted it adds no regular expression.\<close>

theorem parse_rules_contained:
  "wf_rules (pr_block r) \<and> wf_rules (pr_allow r) \<longrightarrow>
     wf_rules (pr_block (parse_rules po text source r))
     \<and> wf_rules (pr_allow (parse_rules po text source r))
     \<and> (\<not> trust_allow_rules po \<longrightarrow> pr_allow (parse_rules po text source r) = pr_allow r)
     \<and> (\<not> trust_regex_rules po \<longrightarrow>
          ds_regex (pr_block (parse_rules po text source r)) = ds_regex (pr_block r))"
  using parse_rules_keeps [of po r "text" source] by (auto simp: parse_keeps_def)

text \<open>for a clean domain, the hosts line, the plain line, the wildcard and the Adblock rule are the
  same rule: each blocks the domain and everything beneath it.\<close>

theorem spellings_agree:
  assumes "clean_domain d" and "d \<notin> set HOSTS_NOISE" and "hosts_match_subdomains po"
    and "line \<in> {d, ''0.0.0.0 '' @ d, ''*.'' @ d, ''||'' @ d @ ''^''}"
  shows "consume_rule po line source r = (True, r\<lparr>pr_block := add_suffix d source (pr_block r)\<rparr>)"
proof -
  note c = clean_chars [OF assms(1), THEN name_char_facts]
  note ne = clean_ends(1) [OF assms(1)]
  note n = normalise_clean [OF assms(1)]
  have w: "split_ws d = [d]" using ne c by (intro split_ws_single) auto
  have h: "hd d \<noteq> CHR ''@''" "hd d \<noteq> CHR ''|''" "hd d \<noteq> CHR ''/''" "hd d \<noteq> CHR ''#''" "hd d \<noteq> CHR ''*''"
    using c [OF hd_in_set [OF ne]] by auto
  obtain x xs where d: "d = x # xs" using ne by (cases d) auto
  have p: "\<not> prefix (k # ks) d" if "k \<noteq> x" for k ks using that by (simp add: d)
  consider "line = d" | "line = ''0.0.0.0 '' @ d" | "line = ''*.'' @ d" | "line = ''||'' @ d @ ''^''"
    using assms(4) by auto
  then show ?thesis
  proof cases
    case 1
    then show ?thesis using h p n w ne assms(2,3)
      by (simp add: consume_rule_def adblock_allow_def adblock_block_def unsupported_def d
          add_domain_def)
  next
    case 2
    have "split_ws line = [''0.0.0.0'', d]"
      using split_ws_cons [of "''0.0.0.0''" d] w 2 by (simp add: is_space_def code_pt_def)
    moreover have "looks_like_address ''0.0.0.0''" by code_simp
    ultimately show ?thesis using 2 h n ne assms(2,3) d
      by (simp add: consume_rule_def adblock_allow_def adblock_block_def unsupported_def
          SINKHOLE_ADDRESSES_def add_domain_def)
  next
    case 3
    have "split_ws line = [line]"
      using 3 c by (intro split_ws_single) (auto simp: is_space_def code_pt_def)
    then show ?thesis using 3 n ne
      by (simp add: consume_rule_def adblock_allow_def adblock_block_def unsupported_def
          block_suffix_def)
  next
    case 4
    then show ?thesis using adblock_group_clean [OF assms(1)] n ne
      by (simp add: consume_rule_def adblock_allow_def adblock_block_def block_suffix_def)
  qed
qed

theorem spellings_agree_witness:
  "consume_rule \<lparr>hosts_match_subdomains = True, trust_allow_rules = False, trust_regex_rules = False,
      po_rx = \<lambda>_. None, po_idna = \<lambda>_. None\<rparr> ''||ads.example^'' ''l'' empty_result
    = (True, empty_result\<lparr>pr_block := add_suffix ''ads.example'' ''l'' empty_set\<rparr>)"
proof -
  have "clean_domain ''ads.example''" by code_simp
  from spellings_agree [OF this, of _ "''||ads.example^''"] show ?thesis
    by (simp add: HOSTS_NOISE_def empty_result_def)
qed

theorem parse_rules_contained_witness:
  "pr_allow (parse_rules \<lparr>hosts_match_subdomains = True, trust_allow_rules = False,
      trust_regex_rules = False, po_rx = \<lambda>_. Some (\<lambda>_. True), po_idna = \<lambda>_. None\<rparr>
      ''@@||bank.example^'' ''l'' empty_result) = empty_set"
  using parse_rules_contained [of empty_result "\<lparr>hosts_match_subdomains = True, trust_allow_rules = False,
      trust_regex_rules = False, po_rx = \<lambda>_. Some (\<lambda>_. True), po_idna = \<lambda>_. None\<rparr>" "''@@||bank.example^''" "''l''"]
  by (simp add: empty_result_def)

end
