(* ===== verification/BlocklistLoad.thy ===== *)
theory BlocklistLoad
  imports Blocklist
begin

text \<open>
  Fetching and compiling the block lists, \<open>symbivpn/blocklist.py\<close> (\<open>BlocklistManager\<close>).  The
  network and the disk are parameters: what a download of a URL with given validators returns,
  what a local path holds, and the state of each source's cached copy, which the operations update.
  Cached copies are keyed by URL; two URLs with one SHA-256 prefix, and a cache directory that
  cannot be written, are not modelled.
\<close>

section \<open>State\<close>

type_synonym validators = "(str, str) dict"

datatype cached_copy =
    NoCopy
  | UnreadableCopy
  | BrokenCopy err
  | Copy str time

datatype download =
    Fails err
  | NotModified
  | Body str validators

record source_stats =
  ss_url :: str
  ss_rules :: nat
  ss_updated_at :: time
  ss_error :: "err option"
  ss_from_cache :: bool
  ss_rejected :: "(nat \<times> nat) option"

record manager =
  copies :: "str \<Rightarrow> cached_copy"
  mvalidators :: "(str, validators) dict"
  rule_counts :: "(str, nat) dict"
  mopts :: parse_opts
  collapse_threshold :: rat
  m_block :: domain_set
  m_allow :: domain_set
  m_sources :: "(str, source_stats) dict"
  last_update :: time

record world =
  download_of :: "str \<Rightarrow> validators \<Rightarrow> download"
  local_file :: "str \<Rightarrow> (str \<times> time) res"
  clock :: time

definition new_stats :: "str \<Rightarrow> source_stats" where
  "new_stats url = \<lparr>ss_url = url, ss_rules = 0, ss_updated_at = 0, ss_error = None,
     ss_from_cache = False, ss_rejected = None\<rparr>"

definition rule_count :: "manager \<Rightarrow> nat" where "rule_count m = ds_len (m_block m)"

definition is_allowed :: "manager \<Rightarrow> str \<Rightarrow> rule_match option" where
  "is_allowed m name = match (po_rx (mopts m)) (m_allow m) name"

definition is_blocked :: "manager \<Rightarrow> str \<Rightarrow> rule_match option" where
  "is_blocked m name = match (po_rx (mopts m)) (m_block m) name"

section \<open>Reading a source\<close>

definition is_remote :: "str \<Rightarrow> bool" where
  "is_remote url = (prefix ''http://'' url \<or> prefix ''https://'' url)"

fun copy_text :: "cached_copy \<Rightarrow> (str \<times> time) option" where
  "copy_text (Copy t mt) = Some (t, mt)"
| "copy_text _ = None"

text \<open>\<open>Path.touch\<close>: a missing file is created empty, which decompresses to the empty text.\<close>

fun touched :: "time \<Rightarrow> cached_copy \<Rightarrow> cached_copy" where
  "touched now (Copy t mt) = Copy t now"
| "touched now NoCopy = Copy [] now"
| "touched now c = c"

definition local_path :: "str \<Rightarrow> str" where
  "local_path url = (if prefix ''file://'' url then drop 7 url else url)"

definition fresh_enough :: "cached_copy \<Rightarrow> bool \<Rightarrow> time \<Rightarrow> time \<Rightarrow> bool" where
  "fresh_enough c refresh max_age now =
     (case copy_text c of None \<Rightarrow> False | Some (t, mt) \<Rightarrow> \<not> refresh \<and> now - mt < max_age)"

definition read_source ::
  "manager \<Rightarrow> world \<Rightarrow> str \<Rightarrow> bool \<Rightarrow> time \<Rightarrow> manager \<times> (str \<times> bool \<times> time) res" where
  "read_source m w url refresh max_age =
     (if \<not> is_remote url then
        (m, rbind (local_file w (local_path url)) (\<lambda>(t, mt). Inr (t, False, mt)))
      else case copies m url of
        BrokenCopy e \<Rightarrow> (m, Inl e)
      | c \<Rightarrow>
          (case copy_text c of
             Some (t, mt) \<Rightarrow>
               if fresh_enough c refresh max_age (clock w) then (m, Inr (t, True, mt))
               else (case download_of w url (case dget (mvalidators m) url of None \<Rightarrow> [] | Some v \<Rightarrow> v) of
                   Fails e \<Rightarrow> (m, Inr (t, True, mt))
                 | NotModified \<Rightarrow>
                     (m\<lparr>copies := (copies m)(url := touched (clock w) c)\<rparr>, Inr (t, True, clock w))
                 | Body payload v \<Rightarrow>
                     (m\<lparr>mvalidators := dset url v (mvalidators m),
                        copies := (copies m)(url := Copy payload (clock w))\<rparr>,
                      Inr (payload, False, clock w)))
           | None \<Rightarrow>
               (case download_of w url [] of
                   Fails e \<Rightarrow> (m, Inl e)
                 | NotModified \<Rightarrow>
                     (m\<lparr>copies := (copies m)(url := touched (clock w) c)\<rparr>, Inr ([], True, clock w))
                 | Body payload v \<Rightarrow>
                     (m\<lparr>mvalidators := dset url v (mvalidators m),
                        copies := (copies m)(url := Copy payload (clock w))\<rparr>,
                      Inr (payload, False, clock w)))))"

definition cached_text :: "manager \<Rightarrow> str \<Rightarrow> str option" where
  "cached_text m url = map_option fst (copy_text (copies m url))"

section \<open>Compiling\<close>

definition has_collapsed :: "manager \<Rightarrow> str \<Rightarrow> nat \<Rightarrow> nat \<Rightarrow> bool" where
  "has_collapsed m url produced previous =
     (is_remote url \<and> 1000 \<le> previous \<and> of_nat produced < of_nat previous * collapse_threshold m)"

definition parse_source :: "manager \<Rightarrow> str \<Rightarrow> str \<Rightarrow> parse_result" where
  "parse_source m t url = parse_rules (mopts m) t url empty_result"

definition produced_rules :: "parse_result \<Rightarrow> nat" where
  "produced_rules r = ds_len (pr_block r) + ds_len (pr_allow r)"

type_synonym load_state = "manager \<times> parse_result \<times> (str, source_stats) dict"

definition load_source :: "world \<Rightarrow> bool \<Rightarrow> time \<Rightarrow> str \<Rightarrow> load_state \<Rightarrow> load_state" where
  "load_source w refresh max_age url = (\<lambda>(m, result, sources).
     case read_source m w url refresh max_age of
       (m, Inl e) \<Rightarrow> (m, result, dset url ((new_stats url)\<lparr>ss_error := Some e\<rparr>) sources)
     | (m, Inr (t, from_cache, fetched_at)) \<Rightarrow>
         let scratch = parse_source m t url;
             produced = produced_rules scratch;
             previous = (case dget (rule_counts m) url of None \<Rightarrow> 0 | Some n \<Rightarrow> n);
             stats = (new_stats url)\<lparr>ss_updated_at := fetched_at, ss_from_cache := from_cache\<rparr>
         in
         if has_collapsed m url produced previous then
           (case cached_text m url of
              None \<Rightarrow>
                (m, result, dset url ((new_stats url)\<lparr>ss_rejected := Some (produced, previous),
                                                      ss_rules := previous\<rparr>) sources)
            | Some cached \<Rightarrow>
                let scratch = parse_source m cached url in
                (m, merge_result result scratch,
                 dset url (stats\<lparr>ss_rejected := Some (produced, previous),
                                 ss_rules := produced_rules scratch\<rparr>) sources))
         else
           (m\<lparr>rule_counts := dset url produced (rule_counts m)\<rparr>, merge_result result scratch,
            dset url (stats\<lparr>ss_rules := produced\<rparr>) sources))"

definition extra_domain :: "(str \<Rightarrow> str option) \<Rightarrow> str \<Rightarrow> str" where
  "extra_domain idna e = normalise idna (if prefix ''*.'' e then drop 2 e else e)"

definition add_extra :: "(str \<Rightarrow> str option) \<Rightarrow> str \<Rightarrow> domain_set \<Rightarrow> domain_set" where
  "add_extra idna e s =
     (if extra_domain idna e = [] then s else add_suffix (extra_domain idna e) ''config'' s)"

definition load_lists ::
  "manager \<Rightarrow> world \<Rightarrow> str list \<Rightarrow> str list \<Rightarrow> str list \<Rightarrow> str list \<Rightarrow> bool \<Rightarrow> time \<Rightarrow> manager" where
  "load_lists m w urls extra_block extra_allow extra_regex refresh max_age =
     (let (m', result, sources) = fold (load_source w refresh max_age) urls (m, empty_result, []);
          rx = po_rx (mopts m'); idna = po_idna (mopts m')
      in m'\<lparr>m_block := fold (\<lambda>p. add_regex rx p ''config'') extra_regex
                        (fold (add_extra idna) extra_block (pr_block result)),
            m_allow := fold (add_extra idna) extra_allow (pr_allow result),
            m_sources := sources, last_update := clock w\<rparr>)"

section \<open>Reading\<close>

lemma read_source_keeps [simp]:
  "mopts (fst (read_source m w url r a)) = mopts m"
  "collapse_threshold (fst (read_source m w url r a)) = collapse_threshold m"
  "rule_counts (fst (read_source m w url r a)) = rule_counts m"
  by (auto simp: read_source_def split: cached_copy.split download.split option.split)

text \<open>After a successful read the cached copy cannot be one that raises.\<close>

lemma read_source_copy:
  assumes "is_remote url" and "read_source m w url r a = (m', Inr x)"
  shows "copies m' url \<noteq> BrokenCopy e"
  using assms
  by (auto simp: read_source_def split: cached_copy.splits download.splits if_splits)

lemma load_source_opts: "load_source w r a url (m, res, ss) = (m', res', ss') \<Longrightarrow> mopts m' = mopts m"
proof -
  assume *: "load_source w r a url (m, res, ss) = (m', res', ss')"
  obtain m1 x where x: "read_source m w url r a = (m1, x)" by (cases "read_source m w url r a")
  then have "mopts m1 = mopts m" using read_source_keeps(1) [of m w url r a] by simp
  then show ?thesis using * x
    by (auto simp: load_source_def Let_def split: sum.splits if_splits option.splits)
qed

text \<open>A source leaves the result alone or merges what it parses to.\<close>

lemma load_source_result:
  assumes "load_source w r a url (m, res, ss) = (m', res', ss')"
  shows "res' = res \<or> (\<exists>t. res' = merge_result res (parse_rules (mopts m) t url empty_result))"
proof -
  obtain m1 x where x: "read_source m w url r a = (m1, x)" by (cases "read_source m w url r a")
  then have "mopts m1 = mopts m" using read_source_keeps(1) [of m w url r a] by simp
  then show ?thesis using assms x
    by (auto simp: load_source_def Let_def parse_source_def split: sum.splits if_splits option.splits)
qed

text \<open>Hence what every merge keeps holds of the compiled result.\<close>

lemma load_all_sources:
  assumes "fold (load_source w r a) urls (m, res, ss) = (m', res', ss')"
    and "P res"
    and "\<And>x t url. P x \<Longrightarrow> P (merge_result x (parse_rules (mopts m) t url empty_result))"
  shows "P res' \<and> mopts m' = mopts m"
  using assms
proof (induction urls arbitrary: m res ss)
  case (Cons u us)
  obtain m1 r1 s1 where s: "load_source w r a u (m, res, ss) = (m1, r1, s1)"
    by (cases "load_source w r a u (m, res, ss)")
  have o: "mopts m1 = mopts m" by (rule load_source_opts [OF s])
  have "P r1" using load_source_result [OF s] Cons.prems(2,3) by auto
  from Cons.IH [OF _ this] Cons.prems(1,3) s o show ?case by simp
qed simp

section \<open>What the compiled sets match\<close>

lemma add_extra_fold:
  "fold (add_extra idna) es s
     = fold (\<lambda>d. add_suffix d ''config'') (filter (\<lambda>d. d \<noteq> []) (map (extra_domain idna) es)) s"
  by (induction es arbitrary: s) (auto simp: add_extra_def)

lemma extra_hit:
  "match rx (fold (add_extra idna) es s) n \<noteq> None
     \<longleftrightarrow> match rx s n \<noteq> None \<or> (\<exists>e \<in> set es. is_under (canon n) (extra_domain idna e))"
  unfolding add_extra_fold ds.hit_fold by (auto simp: is_under_def)

lemma add_regex_mono: "match rx s n \<noteq> None \<Longrightarrow> match rx (add_regex rx' p src s) n \<noteq> None"
  by (auto simp: match_iff covers_def add_regex_def split: option.split)

lemma regex_fold_mono:
  "match rx s n \<noteq> None \<Longrightarrow> match rx (fold (\<lambda>p. add_regex rx' p src) ps s) n \<noteq> None"
  by (induction ps arbitrary: s) (simp_all add: add_regex_mono del: not_None_eq)

lemma merge_hit: "match rx (merge_set a b) n \<noteq> None \<longleftrightarrow> match rx a n \<noteq> None \<or> match rx b n \<noteq> None"
  by (simp add: match_iff covers_merge)

lemma load_lists_parts:
  assumes "fold (load_source w r a) urls (m, empty_result, []) = (m', res, ss)"
  shows "m_allow (load_lists m w urls eb ea er r a) = fold (add_extra (po_idna (mopts m))) ea (pr_allow res)"
    and "m_block (load_lists m w urls eb ea er r a)
      = fold (\<lambda>p. add_regex (po_rx (mopts m)) p ''config'') er
          (fold (add_extra (po_idna (mopts m))) eb (pr_block res))"
    and "mopts (load_lists m w urls eb ea er r a) = mopts m"
  using load_all_sources [OF assms, of "\<lambda>_. True"] assms by (simp_all add: load_lists_def Let_def)

text \<open>Without trust, no downloaded text reaches the allow list, nor the patterns.\<close>

lemma untrusted_result:
  assumes "fold (load_source w r a) urls (m, empty_result, []) = (m', res, ss)"
  shows "(\<not> trust_allow_rules (mopts m) \<longrightarrow> pr_allow res = empty_set)
    \<and> (\<not> trust_regex_rules (mopts m) \<longrightarrow> ds_regex (pr_block res) = [])"
proof -
  let ?P = "\<lambda>x. (\<not> trust_allow_rules (mopts m) \<longrightarrow> pr_allow x = empty_set)
    \<and> (\<not> trust_regex_rules (mopts m) \<longrightarrow> ds_regex (pr_block x) = [])"
  have "?P (merge_result x (parse_rules (mopts m) t url empty_result))" if "?P x" for x t url
    using parse_rules_keeps [of "mopts m" empty_result t url] that
    by (auto simp: parse_keeps_def merge_result_def merge_set_def empty_result_def empty_set_def
        dupdate_def)
  moreover have "?P empty_result" by (simp add: empty_result_def empty_set_def)
  ultimately show ?thesis using load_all_sources [OF assms, of ?P] by blast
qed

lemma result_grows:
  assumes "fold (load_source w r a) urls (m, res, ss) = (m', res', ss')"
    and "match rx (pr_block res) n \<noteq> None"
  shows "match rx (pr_block res') n \<noteq> None"
proof -
  have "match rx (pr_block (merge_result x y)) n \<noteq> None" if "match rx (pr_block x) n \<noteq> None" for x y
    using that by (simp add: merge_result_def merge_hit del: not_None_eq)
  from load_all_sources [OF assms(1), of "\<lambda>x. match rx (pr_block x) n \<noteq> None", OF assms(2) this]
  show ?thesis by blast
qed

section \<open>Properties\<close>

text \<open>whatever the network and the disk do, after a load every local allow rule allows its domain
  and everything beneath it, every local block rule blocks them, and, when downloaded exception
  rules are not trusted, nothing else is allowed at all.\<close>

theorem local_rules_always_apply:
  fixes m :: manager
  defines "idna \<equiv> po_idna (mopts m)"
  shows "let m' = load_lists m w urls extra_block extra_allow extra_regex refresh max_age in
     (\<forall>e \<in> set extra_block. is_under (canon n) (extra_domain idna e) \<longrightarrow> is_blocked m' n \<noteq> None)
     \<and> (\<forall>e \<in> set extra_allow. is_under (canon n) (extra_domain idna e) \<longrightarrow> is_allowed m' n \<noteq> None)
     \<and> (\<not> trust_allow_rules (mopts m) \<longrightarrow> is_allowed m' n \<noteq> None \<longrightarrow>
          (\<exists>e \<in> set extra_allow. is_under (canon n) (extra_domain idna e)))"
proof -
  obtain m1 res ss where f: "fold (load_source w refresh max_age) urls (m, empty_result, []) = (m1, res, ss)"
    by (cases "fold (load_source w refresh max_age) urls (m, empty_result, [])")
  note p = load_lists_parts [OF f, of extra_block extra_allow extra_regex]
  have "is_blocked (load_lists m w urls extra_block extra_allow extra_regex refresh max_age) n \<noteq> None"
    if "e \<in> set extra_block" "is_under (canon n) (extra_domain idna e)" for e
    unfolding is_blocked_def p by (rule regex_fold_mono) (use that extra_hit idna_def in blast)
  moreover have "is_allowed (load_lists m w urls extra_block extra_allow extra_regex refresh max_age) n \<noteq> None
      \<longleftrightarrow> match (po_rx (mopts m)) (pr_allow res) n \<noteq> None
        \<or> (\<exists>e \<in> set extra_allow. is_under (canon n) (extra_domain idna e))"
    unfolding is_allowed_def p extra_hit idna_def ..
  moreover have "\<not> trust_allow_rules (mopts m) \<longrightarrow> match (po_rx (mopts m)) (pr_allow res) n = None"
    using untrusted_result [OF f] by auto
  ultimately show ?thesis by (auto simp: Let_def)
qed

text \<open>a source that fails does not take the others down: whatever the other sources do, the rules a
  readable, accepted source parses to are in force after the load.\<close>

theorem good_source_in_force:
  assumes "fold (load_source w refresh max_age) before (m, empty_result, []) = (m1, res1, ss1)"
    and "read_source m1 w url refresh max_age = (m2, Inr (body, from_cache, at_time))"
    and "\<not> has_collapsed m2 url (produced_rules (parse_source m2 body url))
           (case dget (rule_counts m2) url of None \<Rightarrow> 0 | Some k \<Rightarrow> k)"
    and "match (po_rx (mopts m)) (pr_block (parse_rules (mopts m) body url empty_result)) n \<noteq> None"
  shows "is_blocked (load_lists m w (before @ url # others) extra_block extra_allow extra_regex
      refresh max_age) n \<noteq> None"
proof -
  have o: "mopts m1 = mopts m" using load_all_sources [OF assms(1), of "\<lambda>_. True"] by simp
  then have o2: "mopts m2 = mopts m" using read_source_keeps(1) [of m1 w url refresh max_age] assms(2) by simp
  obtain m3 res3 ss3 where s: "load_source w refresh max_age url (m1, res1, ss1) = (m3, res3, ss3)"
    by (cases "load_source w refresh max_age url (m1, res1, ss1)")
  have "res3 = merge_result res1 (parse_rules (mopts m) body url empty_result)"
    using s assms(2,3) o2 by (auto simp: load_source_def parse_source_def Let_def)
  then have hit: "match (po_rx (mopts m)) (pr_block res3) n \<noteq> None"
    using assms(4) by (simp add: merge_result_def merge_hit del: not_None_eq)
  obtain m4 res4 ss4 where rest: "fold (load_source w refresh max_age) others (m3, res3, ss3) = (m4, res4, ss4)"
    by (cases "fold (load_source w refresh max_age) others (m3, res3, ss3)")
  have "fold (load_source w refresh max_age) (before @ url # others) (m, empty_result, []) = (m4, res4, ss4)"
    using assms(1) s rest by simp
  note p = load_lists_parts [OF this, of extra_block extra_allow extra_regex]
  have "match (po_rx (mopts m)) (fold (add_extra (po_idna (mopts m))) extra_block (pr_block res4)) n \<noteq> None"
    using result_grows [OF rest hit] extra_hit by blast
  then show ?thesis unfolding is_blocked_def p by (rule regex_fold_mono)
qed

text \<open>the guard against a collapsed update does not do what it says: a downloaded text that lost
  most of its rules has already replaced the cached copy when the previous rules are read back
  from it, so the rules put in force are those of the refused text.\<close>

theorem collapse_guard_uses_refused_text:
  assumes "is_remote url" and "refresh"
    and "\<forall>e. copies m url \<noteq> BrokenCopy e"
    and "\<forall>v. download_of w url v = Body new (vs v)"
    and "has_collapsed m url (produced_rules (parse_source m new url))
           (case dget (rule_counts m) url of None \<Rightarrow> 0 | Some k \<Rightarrow> k)"
  shows "fst (snd (load_source w refresh max_age url (m, result, sources)))
    = merge_result result (parse_source m new url)"
proof -
  have "\<exists>v. read_source m w url refresh max_age
      = (m\<lparr>mvalidators := v, copies := (copies m)(url := Copy new (clock w))\<rparr>, Inr (new, False, clock w))"
    using assms(1-4) by (cases "copies m url") (auto simp: read_source_def fresh_enough_def)
  then obtain v where "read_source m w url refresh max_age
      = (m\<lparr>mvalidators := v, copies := (copies m)(url := Copy new (clock w))\<rparr>, Inr (new, False, clock w))" ..
  with assms(5) show ?thesis
    by (simp add: load_source_def Let_def has_collapsed_def parse_source_def cached_text_def)
qed

section \<open>Witnesses\<close>

definition sample_opts :: parse_opts where
  "sample_opts = \<lparr>hosts_match_subdomains = True, trust_allow_rules = False,
     trust_regex_rules = False, po_rx = \<lambda>_. None, po_idna = \<lambda>_. None\<rparr>"

definition sample_manager :: "(str, nat) dict \<Rightarrow> manager" where
  "sample_manager counts = \<lparr>copies = \<lambda>_. NoCopy, mvalidators = [], rule_counts = counts, mopts = sample_opts,
     collapse_threshold = 1 / 2, m_block = empty_set, m_allow = empty_set, m_sources = [],
     last_update = 0\<rparr>"

definition sample_world :: "str \<Rightarrow> world" where
  "sample_world body = \<lparr>download_of = \<lambda>_ _. Body body [], local_file = \<lambda>_. Inl ValueError, clock = 5\<rparr>"

lemma sample_parse: "parse_rules sample_opts ''ads.example'' ''http://l'' empty_result
    = \<lparr>pr_block = \<lparr>ds_exact = [], ds_suffix = [(''ads.example'', ''http://l'')], ds_regex = []\<rparr>,
       pr_allow = empty_set, lines_read = 1, lines_skipped = 0, allow_rules_ignored = 0, regexes_refused = 0\<rparr>"
  by code_simp

lemma sample_remote: "is_remote ''http://l''" by code_simp

theorem good_source_in_force_witness:
  "is_blocked (load_lists (sample_manager []) (sample_world ''ads.example'') [''http://l''] [] [] [] True 0)
     ''x.Ads.example.'' \<noteq> None"
proof -
  let ?m = "sample_manager []" and ?w = "sample_world ''ads.example''"
  have f: "fold (load_source ?w True 0) [] (?m, empty_result, []) = (?m, empty_result, [])" by simp
  have r: "read_source ?m ?w ''http://l'' True 0
      = (?m\<lparr>mvalidators := [(''http://l'', [])], copies := (copies ?m)(''http://l'' := Copy ''ads.example'' 5)\<rparr>,
         Inr (''ads.example'', False, 5))"
    by (simp add: read_source_def sample_remote) (simp add: sample_manager_def sample_world_def)
  have "canon ''x.Ads.example.'' = ''x.ads.example''" by code_simp
  moreover have "suffix ''.ads.example'' ''x.ads.example''" by code_simp
  ultimately have "match (po_rx (mopts ?m)) (pr_block (parse_rules (mopts ?m) ''ads.example'' ''http://l'' empty_result))
      ''x.Ads.example.'' \<noteq> None"
    by (simp add: sample_manager_def sample_parse match_iff covers_def is_under_def del: not_None_eq)
  from good_source_in_force [OF f r _ this, of "[]" "[]" "[]" "[]"] show ?thesis
    by (simp add: sample_manager_def has_collapsed_def del: not_None_eq)
qed

theorem collapse_guard_uses_refused_text_witness:
  "fst (snd (load_source (sample_world ''ads.example'') True 0 ''http://l''
      (sample_manager [(''http://l'', 5000)], empty_result, [])))
    = merge_result empty_result (parse_source (sample_manager []) ''ads.example'' ''http://l'')"
proof -
  let ?m = "sample_manager [(''http://l'', 5000)]"
  have "parse_source ?m ''ads.example'' ''http://l'' = parse_rules sample_opts ''ads.example'' ''http://l'' empty_result"
    by (simp add: parse_source_def sample_manager_def)
  then have c: "has_collapsed ?m ''http://l'' (produced_rules (parse_source ?m ''ads.example'' ''http://l''))
      (case dget (rule_counts ?m) ''http://l'' of None \<Rightarrow> 0 | Some k \<Rightarrow> k)"
    by (simp add: sample_parse has_collapsed_def sample_remote produced_rules_def ds_len_def empty_set_def)
       (simp add: sample_manager_def)
  have d: "\<forall>v. download_of (sample_world ''ads.example'') ''http://l'' v = Body ''ads.example'' []"
    and n: "\<forall>e. copies ?m ''http://l'' \<noteq> BrokenCopy e"
    by (simp_all add: sample_world_def sample_manager_def)
  have "parse_source ?m = parse_source (sample_manager [])"
    by (simp add: parse_source_def sample_manager_def fun_eq_iff)
  with collapse_guard_uses_refused_text [OF sample_remote TrueI n d c, of 0 empty_result "[]"]
  show ?thesis by simp
qed

theorem local_rules_always_apply_witness:
  "is_blocked (load_lists (sample_manager []) (sample_world []) [] [''*.ads.example''] [] [] True 0)
     ''x.ads.example'' \<noteq> None"
proof -
  have "is_under (canon ''x.ads.example'') (extra_domain (po_idna (mopts (sample_manager []))) ''*.ads.example'')"
    by code_simp
  with local_rules_always_apply [of "sample_manager []" "sample_world []" "[]" "[''*.ads.example'']" "[]" "[]" True 0
      "''x.ads.example''"] show ?thesis by (simp add: Let_def del: not_None_eq)
qed

end
