(* ===== verification/Compat.thy ===== *)
theory Compat
  imports Blocklist
begin

text \<open>
  The services and devices that must keep working, \<open>symbivpn/compat.py\<close>: the two tables as the
  source has them, and the guard compiled from them, which is consulted ahead of every block
  list.  The guard is a rule set in the sense of the locale of the block-list theory.
\<close>

section \<open>Tables\<close>

record essential_service =
  es_key :: str
  es_title :: str
  es_why :: str
  es_domains :: "str list"

record device_profile =
  dp_key :: str
  dp_title :: str
  dp_note :: str
  dp_domains :: "str list"

definition svc_time :: essential_service where
  "svc_time = \<lparr>es_key = ''time'', es_title = ''Network time (NTP)'',
     es_why = ''A device with the wrong clock rejects every TLS certificate as not yet valid or expired, so nothing on it works and it gives no indication why.'',
     es_domains = [
     ''pool.ntp.org'', ''ntp.org'', ''time.apple.com'', ''time-ios.apple.com'',
     ''time.euro.apple.com'', ''time.windows.com'', ''time.google.com'', ''time1.google.com'',
     ''time2.google.com'', ''time3.google.com'', ''time4.google.com'', ''time.android.com'',
     ''android.pool.ntp.org'', ''time.nist.gov'', ''time.cloudflare.com'', ''ntp.ubuntu.com'',
     ''ntp.msn.com'', ''time.samsungcloudsolution.com'', ''ntp.fritz.box'', ''time.sonos.com'']\<rparr>"

definition svc_certificates :: essential_service where
  "svc_certificates = \<lparr>es_key = ''certificates'', es_title = ''Certificate status (OCSP and CRL)'',
     es_why = ''Checked during TLS handshakes. Blocked, handshakes either fail outright or stall for seconds each, which people experience as the network being slow rather than filtered.'',
     es_domains = [
     ''ocsp.digicert.com'', ''crl.digicert.com'', ''cacerts.digicert.com'', ''ocsp.sectigo.com'',
     ''crl.sectigo.com'', ''ocsp.comodoca.com'', ''crl.comodoca.com'', ''ocsp.usertrust.com'',
     ''crl.usertrust.com'', ''o.lencr.org'', ''r3.o.lencr.org'', ''e5.o.lencr.org'',
     ''x1.c.lencr.org'', ''e6.c.lencr.org'', ''ocsp.pki.goog'', ''pki.goog'', ''c.pki.goog'',
     ''crl.pki.goog'', ''ocsp.apple.com'', ''crl.apple.com'', ''valid.apple.com'',
     ''certs.apple.com'', ''certificatestatus.apple.com'', ''ocsp.godaddy.com'',
     ''crl.godaddy.com'', ''ocsp.globalsign.com'', ''crl.globalsign.com'', ''ocsp.entrust.net'',
     ''crl.entrust.net'', ''isrg.trustid.ocsp.identrust.com'', ''status.rapidssl.com'',
     ''status.geotrust.com'', ''ctldl.windowsupdate.com'', ''crl.microsoft.com'',
     ''www.microsoft.com'']\<rparr>"

definition svc_connectivity :: essential_service where
  "svc_connectivity = \<lparr>es_key = ''connectivity'', es_title = ''Connectivity and captive-portal checks'',
     es_why = ''Every operating system probes a known URL to decide whether the network works. A failed probe makes the device show a warning, refuse to stay connected, or fall back to mobile data.'',
     es_domains = [
     ''captive.apple.com'', ''www.apple.com'', ''gsp1.apple.com'', ''gsp-ssl.ls.apple.com'',
     ''gspe1-ssl.ls.apple.com'', ''connectivitycheck.gstatic.com'',
     ''connectivitycheck.android.com'', ''clients3.google.com'', ''clients4.google.com'',
     ''www.gstatic.com'', ''android.clients.google.com'', ''play.googleapis.com'',
     ''msftconnecttest.com'', ''www.msftconnecttest.com'', ''ipv6.msftconnecttest.com'',
     ''msftncsi.com'', ''www.msftncsi.com'', ''dns.msftncsi.com'', ''detectportal.firefox.com'',
     ''nmcheck.gnome.org'', ''network-test.debian.org'', ''connectivity-check.ubuntu.com'',
     ''networkcheck.kde.org'', ''fireoscaptiveportal.com'', ''spectrum.s3.amazonaws.com'',
     ''connectivitycheck.samsungdm.com'']\<rparr>"

definition svc_push :: essential_service where
  "svc_push = \<lparr>es_key = ''push'', es_title = ''Push notifications'',
     es_why = ''Phones lose messages and alerts when these are blocked, and the network gets the blame. They carry notification delivery, not advertising.'',
     es_domains = [
     ''push.apple.com'', ''courier.push.apple.com'', ''mtalk.google.com'', ''mtalk4.google.com'',
     ''alt1-mtalk.google.com'', ''alt2-mtalk.google.com'', ''alt3-mtalk.google.com'',
     ''alt4-mtalk.google.com'', ''alt5-mtalk.google.com'', ''alt6-mtalk.google.com'',
     ''alt7-mtalk.google.com'', ''alt8-mtalk.google.com'', ''fcm.googleapis.com'',
     ''android.apis.google.com'', ''notify.windows.com'', ''wns.windows.com'']\<rparr>"

definition svc_activation :: essential_service where
  "svc_activation = \<lparr>es_key = ''activation'', es_title = ''Device setup and activation'',
     es_why = ''A device that cannot reach these during setup cannot be set up at all -- and a factory-reset phone on a filtered network is a miserable way to discover that.'',
     es_domains = [
     ''albert.apple.com'', ''static.ips.apple.com'', ''setup.icloud.com'', ''gs.apple.com'',
     ''humb.apple.com'', ''tbsc.apple.com'', ''sq-device.apple.com'', ''iprofiles.apple.com'',
     ''gdmf.apple.com'', ''mesu.apple.com'', ''appldnld.apple.com'', ''updates.cdn-apple.com'',
     ''swscan.apple.com'', ''swcdn.apple.com'', ''swdist.apple.com'',
     ''activation.sls.microsoft.com'', ''login.live.com'', ''account.live.com'',
     ''go.microsoft.com'']\<rparr>"

definition svc_dns_infrastructure :: essential_service where
  "svc_dns_infrastructure = \<lparr>es_key = ''dns-infrastructure'', es_title = ''DNS and PKI infrastructure'',
     es_why = ''Blocking these breaks name resolution and software updates generally.'',
     es_domains = [
     ''root-servers.net'', ''iana.org'', ''arin.net'', ''ripe.net'', ''windowsupdate.com'',
     ''update.microsoft.com'', ''deb.debian.org'', ''security.debian.org'',
     ''archive.ubuntu.com'', ''security.ubuntu.com'']\<rparr>"

definition svc_security_software :: essential_service where
  "svc_security_software = \<lparr>es_key = ''security-software'', es_title = ''Antivirus and endpoint security'',
     es_why = ''Security software fetches new signatures constantly and asks a cloud service about files and sites it has not seen before. Block that and it does not announce itself as blocked -- it keeps running with definitions that quietly stop being current, and a reputation lookup that fails open. An ad blocker that leaves the antivirus stale has made the machine less safe, not more, which is the opposite of the point.'',
     es_domains = [
     ''mcafee.com'', ''nai.com'', ''trellix.com'', ''mcafee.ws'', ''norton.com'',
     ''symantec.com'', ''nortonlifelock.com'', ''symantecliveupdate.com'',
     ''liveupdate.symantecliveupdate.com'', ''wdcp.microsoft.com'', ''wdcpalt.microsoft.com'',
     ''wd.microsoft.com'', ''smartscreen.microsoft.com'', ''urs.microsoft.com'',
     ''definitionupdates.microsoft.com'', ''bitdefender.com'', ''bitdefender.net'',
     ''kaspersky.com'', ''kaspersky-labs.com'', ''kasperskylabs.com'', ''eset.com'', ''eset.eu'',
     ''avast.com'', ''avcdn.net'', ''avg.com'', ''ff.avast.com'', ''malwarebytes.com'',
     ''mwbsys.com'', ''trendmicro.com'', ''sophos.com'', ''sophosxl.net'', ''sophosupd.com'',
     ''f-secure.com'', ''withsecure.com'', ''webroot.com'', ''webrootcloudav.com'',
     ''avira.com'', ''avira-update.com'', ''drweb.com'', ''gdatasoftware.com'',
     ''pandasecurity.com'', ''watchguard.com'', ''clamav.net'', ''crowdstrike.com'',
     ''sentinelone.net'']\<rparr>"

definition ESSENTIAL_SERVICES :: "essential_service list" where
  "ESSENTIAL_SERVICES = [
     svc_time, svc_certificates, svc_connectivity, svc_push, svc_activation,
     svc_dns_infrastructure, svc_security_software]"

definition dev_apple :: device_profile where
  "dev_apple = \<lparr>dp_key = ''apple'', dp_title = ''iPhone, iPad, Mac, Apple TV, HomePod'',
     dp_note = (''Sync, FaceTime, iMessage and AirPlay. Apple'' @ [CHR 0x27] @ ''s ad and analytics hosts are not included.''),
     dp_domains = [
     ''icloud.com'', ''icloud-content.com'', ''cdn-apple.com'', ''apple-cloudkit.com'',
     ''me.com'', ''aaplimg.com'', ''courier.push.apple.com'', ''init.itunes.apple.com'',
     ''facetime.apple.com'', ''imessage.apple.com'', ''cl1.apple.com'', ''cl2.apple.com'',
     ''cl3.apple.com'', ''cl4.apple.com'', ''cl5.apple.com'']\<rparr>"

definition dev_android :: device_profile where
  "dev_android = \<lparr>dp_key = ''android'', dp_title = ''Android phones and tablets'',
     dp_note = ''Play Store, sync and notifications. Ad and measurement hosts are not included.'',
     dp_domains = [
     ''googleapis.com'', ''gvt1.com'', ''gvt2.com'', ''android.googleapis.com'',
     ''play.googleapis.com'', ''clients1.google.com'', ''clients2.google.com'']\<rparr>"

definition dev_windows :: device_profile where
  "dev_windows = \<lparr>dp_key = ''windows'', dp_title = ''Windows PCs'',
     dp_note = ''Updates, activation and Store. Telemetry hosts are not included.'',
     dp_domains = [
     ''windowsupdate.com'', ''delivery.mp.microsoft.com'', ''tlu.dl.delivery.mp.microsoft.com'',
     ''download.windowsupdate.com'', ''login.microsoftonline.com'', ''officecdn.microsoft.com'']\<rparr>"

definition dev_smart_tv :: device_profile where
  "dev_smart_tv = \<lparr>dp_key = ''smart-tv'', dp_title = ''Smart TVs (Samsung, LG, Sony, Vizio, Roku, Fire TV)'',
     dp_note = ''Firmware, app stores and playback. Each of these platforms also runs heavy ad and viewing-habit collection, which stays blocked.'',
     dp_domains = [
     ''samsungcloudsolution.com'', ''samsungqbe.com'', ''samsungotn.net'', ''lgtvsdp.com'',
     ''lgtvcommon.com'', ''lgsmartad-cdn.lgeapi.com'', ''sonyentertainmentnetwork.com'',
     ''sony.net'', ''roku.com'', ''rokutime.com'', ''roku-cdn.com'', ''amazonvideo.com'',
     ''aiv-cdn.net'', ''atv-ps.amazon.com'', ''vizio-atv.tv'']\<rparr>"

definition dev_console :: device_profile where
  "dev_console = \<lparr>dp_key = ''console'', dp_title = ''PlayStation, Xbox and Nintendo Switch'',
     dp_note = ''Online play, updates and store access.'',
     dp_domains = [
     ''playstation.net'', ''playstation.com'', ''sonyentertainmentnetwork.com'',
     ''np.community.playstation.net'', ''xboxlive.com'', ''xbox.com'', ''xboxservices.com'',
     ''nintendo.net'', ''nintendo.com'', ''nintendowifi.net'', ''cdn.nintendo.net'',
     ''srv.nintendo.net'']\<rparr>"

definition dev_voice_assistant :: device_profile where
  "dev_voice_assistant = \<lparr>dp_key = ''voice-assistant'', dp_title = ''Alexa and Google Home'',
     dp_note = ''Voice services and device control.'',
     dp_domains = [
     ''amazonalexa.com'', ''alexa.amazon.com'', ''avs-alexa-na.amazon.com'',
     ''device-metrics-us.amazon.com'', ''clients4.google.com'', ''googlezip.net'',
     ''home.google.com'', ''assistant.google.com'']\<rparr>"

definition dev_printer :: device_profile where
  "dev_printer = \<lparr>dp_key = ''printer'', dp_title = ''Network printers and scanners'',
     dp_note = ''Cloud printing, firmware and supply-level reporting.'',
     dp_domains = [
     ''hpeprint.com'', ''hpconnected.com'', ''hp.com'', ''canon.com'', ''bjnp.canon'',
     ''epson.com'', ''epsonconnect.com'', ''brother.com'', ''brothercloud.com'']\<rparr>"

definition dev_smart_home :: device_profile where
  "dev_smart_home = \<lparr>dp_key = ''smart-home'', dp_title = ''Smart plugs, bulbs, cameras and speakers'',
     dp_note = ''Vendor control planes. Most of these devices only work at all while they can reach their vendor, which is a fact about the devices, not about the filter.'',
     dp_domains = [
     ''tuyaus.com'', ''tuyaeu.com'', ''tuyacn.com'', ''tuya.com'', ''meethue.com'',
     ''hue.philips.com'', ''sonos.com'', ''sonos.radio'', ''nest.com'', ''home.nest.com'',
     ''dropcam.com'', ''ring.com'', ''a2z.com'', ''wyze.com'', ''wyzecam.com'', ''shelly.cloud'',
     ''shelly.cloud.allterco.com'', ''tplinkcloud.com'', ''tplinkra.com'']\<rparr>"

definition dev_streaming :: device_profile where
  "dev_streaming = \<lparr>dp_key = ''streaming'', dp_title = ''Chromecast, Apple TV, Fire Stick'',
     dp_note = ''Casting and playback. Ad delivery within the apps is not covered by DNS filtering either way.'',
     dp_domains = [
     ''googlecast.com'', ''gstatic.com'', ''googlevideo.com'', ''nflxvideo.net'', ''nflxso.net'',
     ''netflix.com'', ''spotify.com'', ''scdn.co'', ''spotifycdn.com'', ''ttvnw.net'',
     ''jtvnw.net'']\<rparr>"

definition DEVICE_PROFILES :: "device_profile list" where
  "DEVICE_PROFILES = [
     dev_apple, dev_android, dev_windows, dev_smart_tv, dev_console, dev_voice_assistant,
     dev_printer, dev_smart_home, dev_streaming]"

definition PROFILE_KEYS :: "str list" where "PROFILE_KEYS = map dp_key DEVICE_PROFILES"

definition ESSENTIAL_KEYS :: "str list" where "ESSENTIAL_KEYS = map es_key ESSENTIAL_SERVICES"

section \<open>Operations\<close>

text \<open>Sets of keys are lists; only membership is used.\<close>

definition essential_domains :: "str list \<Rightarrow> str list" where
  "essential_domains exclude =
     concat (map es_domains (filter (\<lambda>s. es_key s \<notin> set exclude) ESSENTIAL_SERVICES))"

definition profile_domains :: "str list \<Rightarrow> str list" where
  "profile_domains keys =
     (let wanted = (if ''all'' \<in> set keys then PROFILE_KEYS else keys)
      in concat (map dp_domains (filter (\<lambda>p. dp_key p \<in> set wanted) DEVICE_PROFILES)))"

record guard =
  g_enabled :: bool
  g_exclude :: "str list"
  g_profiles :: "str list"
  g_rules :: domain_set
  g_service_of :: "(str, str) dict"

definition setdefault :: "'k \<Rightarrow> 'v \<Rightarrow> ('k, 'v) dict \<Rightarrow> ('k, 'v) dict" where
  "setdefault k v d = (case dget d k of None \<Rightarrow> dset k v d | Some _ \<Rightarrow> d)"

text \<open>The rules in the order the constructor adds them, each with its source.\<close>

definition active_services :: "str list \<Rightarrow> essential_service list" where
  "active_services exclude = filter (\<lambda>s. es_key s \<notin> set exclude) ESSENTIAL_SERVICES"

definition active_profiles :: "str list \<Rightarrow> device_profile list" where
  "active_profiles profiles =
     filter (\<lambda>p. dp_key p \<in> set profiles \<or> ''all'' \<in> set profiles) DEVICE_PROFILES"

text \<open>\<open>lstrip("*.")\<close> strips both characters.\<close>

definition clean_extra :: "str \<Rightarrow> str" where
  "clean_extra d = lower (lstrip (\<lambda>c. c = CHR ''*'' \<or> c = CHR ''.'') (strip_ws d))"

definition service_rules :: "str list \<Rightarrow> (str \<times> str) list" where
  "service_rules exclude = concat (map (\<lambda>s. map (\<lambda>d. (d, ''essential:'' @ es_key s)) (es_domains s))
     (active_services exclude))"

definition profile_rules :: "str list \<Rightarrow> (str \<times> str) list" where
  "profile_rules profiles = concat (map (\<lambda>p. map (\<lambda>d. (d, ''device:'' @ dp_key p)) (dp_domains p))
     (active_profiles profiles))"

definition extra_rules :: "str list \<Rightarrow> (str \<times> str) list" where
  "extra_rules extra = map (\<lambda>d. (d, ''compat:config'')) (filter (\<lambda>d. d \<noteq> []) (map clean_extra extra))"

definition new_guard :: "bool \<Rightarrow> str list \<Rightarrow> str list \<Rightarrow> str list \<Rightarrow> guard" where
  "new_guard enabled exclude profiles extra =
     \<lparr>g_enabled = enabled, g_exclude = exclude, g_profiles = profiles,
      g_rules = (if \<not> enabled then empty_set
                 else fold (\<lambda>(d, src). add_suffix d src)
                        (service_rules exclude @ profile_rules profiles @ extra_rules extra) empty_set),
      g_service_of = (if \<not> enabled then []
                 else fold (\<lambda>p m. fold (\<lambda>d. setdefault d (''device:'' @ dp_key p)) (dp_domains p) m)
                        (active_profiles profiles)
                        (fold (\<lambda>s m. fold (\<lambda>d. dset d (es_key s)) (es_domains s) m)
                          (active_services exclude) []))\<rparr>"

definition guard_len :: "guard \<Rightarrow> nat" where "guard_len g = ds_len (g_rules g)"

definition guard_match :: "regex_engine \<Rightarrow> guard \<Rightarrow> str \<Rightarrow> rule_match option" where
  "guard_match rx g name = (if \<not> g_enabled g then None else match rx (g_rules g) name)"

definition explain :: "regex_engine \<Rightarrow> guard \<Rightarrow> str \<Rightarrow> essential_service option" where
  "explain rx g name =
     (case guard_match rx g name of
        None \<Rightarrow> None
      | Some hit \<Rightarrow>
          if \<not> prefix ''essential:'' (m_source hit) then None
          else List.find (\<lambda>s. es_key s = after '':'' (m_source hit)) ESSENTIAL_SERVICES)"

section \<open>What the guard protects\<close>

lemma add_rules_hit:
  "match rx (fold (\<lambda>(d, src). add_suffix d src) rs s) n \<noteq> None
     \<longleftrightarrow> match rx s n \<noteq> None \<or> (\<exists>r \<in> set rs. is_under (canon n) (fst r))"
proof (induction rs arbitrary: s)
  case (Cons r rs)
  have "match rx (add_suffix (fst r) (snd r) s) n \<noteq> None \<longleftrightarrow> match rx s n \<noteq> None \<or> is_under (canon n) (fst r)"
    by (rule ds.hit_add)
  with Cons.IH [of "add_suffix (fst r) (snd r) s"] show ?case
    by (simp add: case_prod_beta disj_assoc del: not_None_eq)
qed simp

definition protected_domains :: "str list \<Rightarrow> str list \<Rightarrow> str list \<Rightarrow> str list" where
  "protected_domains exclude profiles extra =
     essential_domains exclude @ profile_domains profiles @ filter (\<lambda>d. d \<noteq> []) (map clean_extra extra)"

lemma tagged_domains:
  "fst ` set (concat (map (\<lambda>x. map (\<lambda>d. (d, f x)) (g x)) xs)) = set (concat (map g xs))"
  by (induction xs) (auto simp: image_Un image_image)

lemma active_profiles_wanted:
  "active_profiles profiles
     = filter (\<lambda>p. dp_key p \<in> set (if ''all'' \<in> set profiles then PROFILE_KEYS else profiles)) DEVICE_PROFILES"
  unfolding active_profiles_def PROFILE_KEYS_def by (rule filter_cong) auto

lemma rules_domains:
  "fst ` set (service_rules exclude) = set (essential_domains exclude)"
  "fst ` set (profile_rules profiles) = set (profile_domains profiles)"
  "fst ` set (extra_rules extra) = set (filter (\<lambda>d. d \<noteq> []) (map clean_extra extra))"
  unfolding service_rules_def profile_rules_def essential_domains_def profile_domains_def Let_def
    active_services_def active_profiles_wanted extra_rules_def
  by (simp_all only: tagged_domains) (simp add: image_image)

text \<open>an enabled guard protects a name exactly when the name equals or ends in a dot and a domain
  of a service that is not excluded, of a profile that is selected (all of them for \<open>all\<close>), or of
  the extra list; a disabled guard protects nothing.\<close>

theorem guard_protects_exactly:
  "guard_match rx (new_guard enabled exclude profiles extra) name \<noteq> None \<longleftrightarrow>
     enabled \<and> (\<exists>d \<in> set (protected_domains exclude profiles extra). is_under (canon name) d)"
proof -
  let ?rs = "service_rules exclude @ profile_rules profiles @ extra_rules extra"
  have "fst ` set ?rs = set (protected_domains exclude profiles extra)"
    by (simp only: set_append image_Un rules_domains protected_domains_def)
  then have "(\<exists>r \<in> set ?rs. is_under (canon name) (fst r))
      \<longleftrightarrow> (\<exists>d \<in> set (protected_domains exclude profiles extra). is_under (canon name) d)"
    by (metis (no_types, lifting) image_iff)
  then show ?thesis
    unfolding guard_match_def new_guard_def guard.simps
    by (cases enabled) (simp_all only: add_rules_hit match_empty simp_thms if_True if_False)
qed

text \<open>The clocks keep working: with the default configuration an NTP pool name is protected.\<close>

theorem guard_protects_exactly_witness:
  "guard_match (\<lambda>_. None) (new_guard True [] [] []) ''0.Pool.ntp.org.'' \<noteq> None"
proof -
  have "''pool.ntp.org'' \<in> set (protected_domains [] [] [])"
    by (simp add: protected_domains_def essential_domains_def ESSENTIAL_SERVICES_def svc_time_def)
  moreover have "is_under (canon ''0.Pool.ntp.org.'') ''pool.ntp.org''" by code_simp
  ultimately show ?thesis unfolding guard_protects_exactly by blast
qed

end
