(* ===== verification/Policy.thy ===== *)
theory Policy
  imports Blocklist IpAddr "HOL-Library.Char_ord" "HOL-Library.List_Lexorder" "HOL-Library.Product_Lexorder"
begin

text \<open>
  Groups, schedules, categories and safe search, \<open>symbivpn/policy.py\<close>: which group a client belongs
  to and what is decided for a name before the shared block lists are consulted.  A moment is a
  weekday (0 is Monday) and the microseconds since midnight; \<open>fnmatch\<close> and the regular-expression
  engine are parameters.  The group rule sets are instances of the rule-set locale.
\<close>

section \<open>Tables\<close>

definition CATEGORIES :: "(str, str list) dict" where
  "CATEGORIES = [
     (''social'', [
       ''facebook.com'', ''fb.com'', ''fbcdn.net'', ''messenger.com'', ''instagram.com'',
       ''cdninstagram.com'', ''tiktok.com'', ''tiktokv.com'', ''tiktokcdn.com'', ''musical.ly'',
       ''snapchat.com'', ''sc-cdn.net'', ''twitter.com'', ''x.com'', ''t.co'', ''twimg.com'',
       ''reddit.com'', ''redd.it'', ''redditmedia.com'', ''discord.com'', ''discordapp.com'',
       ''discord.gg'', ''tumblr.com'', ''pinterest.com'', ''threads.net'']),
     (''video'', [
       ''youtube.com'', ''youtu.be'', ''ytimg.com'', ''googlevideo.com'', ''netflix.com'',
       ''nflxvideo.net'', ''nflximg.net'', ''twitch.tv'', ''ttvnw.net'', ''hulu.com'',
       ''disneyplus.com'', ''primevideo.com'']),
     (''gaming'', [
       ''roblox.com'', ''rbxcdn.com'', ''epicgames.com'', ''fortnite.com'', ''steampowered.com'',
       ''steamcommunity.com'', ''minecraft.net'', ''mojang.com'', ''playstation.com'',
       ''xboxlive.com'', ''nintendo.net'']),
     (''adult'', [
       ''pornhub.com'', ''xvideos.com'', ''xhamster.com'', ''redtube.com'', ''youporn.com'',
       ''onlyfans.com'', ''stripchat.com'', ''chaturbate.com'']),
     (''gambling'', [
       ''bet365.com'', ''draftkings.com'', ''fanduel.com'', ''pokerstars.com'', ''bovada.lv'',
       ''stake.com'']),
     (''news'', [
       ''cnn.com'', ''bbc.co.uk'', ''nytimes.com'', ''foxnews.com'', ''theguardian.com'',
       ''reuters.com'']),
     (''shopping'', [
       ''amazon.com'', ''ebay.com'', ''aliexpress.com'', ''temu.com'', ''shein.com'',
       ''etsy.com'', ''walmart.com'']),
     (''telemetry'', [
       ''telemetry.microsoft.com'', ''vortex.data.microsoft.com'',
       ''settings-win.data.microsoft.com'', ''watson.telemetry.microsoft.com'',
       ''metrics.apple.com'', ''smoot.apple.com'', ''app-measurement.com'',
       ''firebase-settings.crashlytics.com'', ''device-metrics-us.amazon.com''])]"

definition SAFE_SEARCH_REWRITES :: "(str, str) dict" where
  "SAFE_SEARCH_REWRITES = [
     (''www.google.com'', ''forcesafesearch.google.com''),
     (''google.com'', ''forcesafesearch.google.com''),
     (''www.bing.com'', ''strict.bing.com''),
     (''bing.com'', ''strict.bing.com''),
     (''duckduckgo.com'', ''safe.duckduckgo.com''),
     (''www.duckduckgo.com'', ''safe.duckduckgo.com''),
     (''www.youtube.com'', ''restrictmoderate.youtube.com''),
     (''youtube.com'', ''restrictmoderate.youtube.com''),
     (''m.youtube.com'', ''restrictmoderate.youtube.com''),
     (''youtubei.googleapis.com'', ''restrictmoderate.youtube.com''),
     (''www.pixiv.net'', ''safe.pixiv.net'')]"

definition YOUTUBE_STRICT :: str where "YOUTUBE_STRICT = ''restrict.youtube.com''"
definition YOUTUBE_MODERATE :: str where "YOUTUBE_MODERATE = ''restrictmoderate.youtube.com''"

section \<open>Decisions\<close>

datatype action = Allow | Block | Rewrite

record decision =
  d_action :: action
  d_reason :: str
  d_rule :: str
  d_target :: str

definition mk_decision :: "action \<Rightarrow> str \<Rightarrow> str \<Rightarrow> str \<Rightarrow> decision" where
  "mk_decision a reason rule target =
     \<lparr>d_action = a, d_reason = reason, d_rule = rule, d_target = target\<rparr>"

definition blocked :: "decision \<Rightarrow> bool" where "blocked d = (d_action d = Block)"

definition ALLOW :: decision where "ALLOW = mk_decision Allow [] [] []"

section \<open>Schedules\<close>

record moment =
  weekday :: nat
  time_of_day :: nat

record schedule =
  sc_name :: str
  sc_start :: nat
  sc_end :: nat
  sc_days :: "nat list"
  sc_block_categories :: "str list"
  sc_block_all :: bool

definition active_at :: "schedule \<Rightarrow> moment \<Rightarrow> bool" where
  "active_at s m =
     (if sc_days s \<noteq> [] \<and> weekday m \<notin> set (sc_days s) then False
      else let now = time_of_day m in
        if sc_start s \<le> sc_end s then sc_start s \<le> now \<and> now < sc_end s
        else sc_start s \<le> now \<or> now < sc_end s)"

definition clock_time :: "int \<Rightarrow> int \<Rightarrow> nat res" where
  "clock_time h m =
     (if 0 \<le> h \<and> h \<le> 23 \<and> 0 \<le> m \<and> m \<le> 59 then Inr (nat ((h * 60 + m) * 60000000))
      else Inl ValueError)"

definition parse_clock :: "str \<Rightarrow> nat res" where
  "parse_clock value =
     (let (hour, minute) = partition_at CHR '':'' value in
      case (py_int_text hour, if minute = [] then Some 0 else py_int_text minute) of
        (Some h, Some m) \<Rightarrow> clock_time h m
      | _ \<Rightarrow> Inl ValueError)"

definition DAY_NAMES :: "str list" where
  "DAY_NAMES = [''mon'', ''tue'', ''wed'', ''thu'', ''fri'', ''sat'', ''sun'']"

datatype day_spec = DayNumber int | DayName str

fun index_of :: "'a \<Rightarrow> 'a list \<Rightarrow> nat option" where
  "index_of x [] = None"
| "index_of x (y # ys) = (if x = y then Some 0 else map_option Suc (index_of x ys))"

fun parse_day :: "day_spec \<Rightarrow> nat res" where
  "parse_day (DayNumber i) = Inr (nat (i mod 7))"
| "parse_day (DayName s) =
     (case index_of (take 3 (lower (strip_ws s))) DAY_NAMES of None \<Rightarrow> Inl ValueError | Some i \<Rightarrow> Inr i)"

record schedule_spec =
  sp_start :: "str option"
  sp_end :: "str option"
  sp_days :: "day_spec list"
  sp_block_categories :: "str list"
  sp_block_all :: bool

definition schedule_parse :: "str \<Rightarrow> schedule_spec \<Rightarrow> schedule res" where
  "schedule_parse name spec =
     rbind (parse_clock (case sp_start spec of None \<Rightarrow> ''00:00'' | Some s \<Rightarrow> s)) (\<lambda>start.
     rbind (parse_clock (case sp_end spec of None \<Rightarrow> ''00:00'' | Some s \<Rightarrow> s)) (\<lambda>end_time.
     rbind (rmap parse_day (sp_days spec)) (\<lambda>days.
       Inr \<lparr>sc_name = name, sc_start = start, sc_end = end_time, sc_days = days,
            sc_block_categories = sp_block_categories spec, sc_block_all = sp_block_all spec\<rparr>)))"

section \<open>Groups\<close>

record group =
  gr_name :: str
  filtering :: bool
  block_categories :: "str list"
  gr_allow :: "str list"
  gr_block :: "str list"
  schedules :: "schedule list"
  safe_search :: bool
  youtube_restrict :: str
  default_deny :: bool
  allow_set :: domain_set
  block_set :: domain_set
  category_set :: domain_set

definition add_entry :: "regex_engine \<Rightarrow> str \<Rightarrow> str \<Rightarrow> domain_set \<Rightarrow> domain_set" where
  "add_entry rx source entry s =
     (let entry = lower (strip_ws entry) in
      if entry = [] then s
      else if prefix ''/'' entry \<and> suffix ''/'' entry \<and> 2 < length entry
        then add_regex rx (butlast (tl entry)) source s
      else if prefix ''*.'' entry then add_suffix (drop 2 entry) source s
      else add_suffix entry source s)"

definition domain_set_of :: "regex_engine \<Rightarrow> str list \<Rightarrow> str \<Rightarrow> domain_set" where
  "domain_set_of rx es source = fold (add_entry rx source) es empty_set"

definition add_category :: "str \<Rightarrow> domain_set \<Rightarrow> domain_set" where
  "add_category category s =
     (case dget CATEGORIES category of
        None \<Rightarrow> s
      | Some domains \<Rightarrow> fold (\<lambda>d. add_suffix d (''category:'' @ category)) domains s)"

definition category_set_of :: "str list \<Rightarrow> domain_set" where
  "category_set_of categories = fold add_category categories empty_set"

text \<open>\<open>__post_init__\<close> and \<open>refresh\<close>.\<close>

definition refresh_group :: "regex_engine \<Rightarrow> group \<Rightarrow> group" where
  "refresh_group rx g =
     g\<lparr>allow_set := domain_set_of rx (gr_allow g) (''group:'' @ gr_name g),
       block_set := domain_set_of rx (gr_block g) (''group:'' @ gr_name g),
       category_set := category_set_of (block_categories g)\<rparr>"

definition new_group :: "regex_engine \<Rightarrow> str \<Rightarrow> group" where
  "new_group rx name = refresh_group rx \<lparr>gr_name = name, filtering = True, block_categories = [],
     gr_allow = [], gr_block = [], schedules = [], safe_search = False, youtube_restrict = [],
     default_deny = False, allow_set = empty_set, block_set = empty_set, category_set = empty_set\<rparr>"

record group_spec =
  gs_filtering :: "bool option"
  gs_block_categories :: "str list"
  gs_allow :: "str list"
  gs_block :: "str list"
  gs_schedules :: "(str \<times> schedule_spec) list"
  gs_safe_search :: bool
  gs_youtube_restrict :: str
  gs_default_deny :: bool

definition build_group :: "regex_engine \<Rightarrow> str \<Rightarrow> group_spec \<Rightarrow> group res" where
  "build_group rx name e =
     rbind (rmap (\<lambda>(n, s). schedule_parse n s) (gs_schedules e)) (\<lambda>scheds.
       Inr (refresh_group rx \<lparr>gr_name = name,
         filtering = (case gs_filtering e of None \<Rightarrow> True | Some b \<Rightarrow> b),
         block_categories = gs_block_categories e, gr_allow = gs_allow e, gr_block = gs_block e,
         schedules = scheds, safe_search = gs_safe_search e,
         youtube_restrict = gs_youtube_restrict e, default_deny = gs_default_deny e,
         allow_set = empty_set, block_set = empty_set, category_set = empty_set\<rparr>))"

definition build_groups :: "regex_engine \<Rightarrow> (str \<times> group_spec) list \<Rightarrow> (str, group) dict res" where
  "build_groups rx spec =
     rbind (rmap (\<lambda>(name, e). rbind (build_group rx name e) (\<lambda>g. Inr (name, g))) spec) (\<lambda>gs.
       let groups = fold (\<lambda>(n, g). dset n g) gs [] in
       Inr (case dget groups ''default'' of
              None \<Rightarrow> dset ''default'' (new_group rx ''default'') groups
            | Some _ \<Rightarrow> groups))"

section \<open>Devices\<close>

record device =
  dev_identifier :: str
  dev_group :: str

record policy =
  groups :: "(str, group) dict"
  default_group :: str
  devices :: "device list"
  address_hints :: "(str, str \<times> str) dict"
  networks :: "(network \<times> str) list"
  exact_clients :: "(str, str) dict"
  mac_clients :: "(str, str) dict"
  hostname_globs :: "(str \<times> str) list"

definition is_mac :: "str \<Rightarrow> bool" where
  "is_mac s =
     (let ps = split_on CHR '':'' s in
      length ps = 6 \<and> list_all (\<lambda>p. length p = 2 \<and>
        list_all (\<lambda>c. is_dec_digit c \<or> 97 \<le> code_pt c \<and> code_pt c \<le> 102) p) ps)"

definition compile_device :: "device \<Rightarrow> policy \<Rightarrow> policy" where
  "compile_device d p =
     (let ident = lower (strip_ws (dev_identifier d)) in
      if ident = [] then p
      else if is_mac ident then p\<lparr>mac_clients := dset ident (dev_group d) (mac_clients p)\<rparr>
      else case (if CHR ''/'' \<in> set ident then ip_network ident else None) of
        Some n \<Rightarrow> p\<lparr>networks := networks p @ [(n, dev_group d)]\<rparr>
      | None \<Rightarrow>
          if ip_address ident \<noteq> None
          then p\<lparr>exact_clients := dset ident (dev_group d) (exact_clients p)\<rparr>
          else p\<lparr>hostname_globs := hostname_globs p @ [(ident, dev_group d)]\<rparr>)"

definition compile_devices :: "policy \<Rightarrow> policy" where
  "compile_devices p = fold compile_device (devices p)
     (p\<lparr>networks := [], exact_clients := [], mac_clients := [], hostname_globs := []\<rparr>)"

definition set_devices :: "policy \<Rightarrow> device list \<Rightarrow> policy" where
  "set_devices p ds = compile_devices (p\<lparr>devices := ds\<rparr>)"

definition new_policy :: "regex_engine \<Rightarrow> (str, group) dict \<Rightarrow> device list \<Rightarrow> str \<Rightarrow> policy" where
  "new_policy rx gs ds dflt =
     (let gs = (if gs = [] then [(''default'', new_group rx ''default'')] else gs);
          gs = (case dget gs dflt of None \<Rightarrow> dset dflt (new_group rx dflt) gs | Some _ \<Rightarrow> gs)
      in compile_devices \<lparr>groups = gs, default_group = dflt, devices = ds, address_hints = [],
           networks = [], exact_clients = [], mac_clients = [], hostname_globs = []\<rparr>)"

definition note_client :: "policy \<Rightarrow> str \<Rightarrow> str \<Rightarrow> str \<Rightarrow> policy" where
  "note_client p addr mac hostname =
     (if addr = [] then p
      else p\<lparr>address_hints := dset addr (lower mac, lower hostname) (address_hints p)\<rparr>)"

definition hinted_group :: "(str \<Rightarrow> str \<Rightarrow> bool) \<Rightarrow> policy \<Rightarrow> str \<Rightarrow> str option" where
  "hinted_group fnmatch p addr =
     (let (mac, hostname) = (case dget (address_hints p) addr of None \<Rightarrow> ([], []) | Some h \<Rightarrow> h);
          by_mac = (if mac = [] then None else dget (mac_clients p) mac)
      in case by_mac of
           Some g \<Rightarrow> Some g
         | None \<Rightarrow>
             if hostname = [] then None
             else map_option snd (List.find (\<lambda>(pattern, _). fnmatch hostname pattern) (hostname_globs p)))"

text \<open>\<open>max\<close> over (prefix length, group name) pairs: the longest prefix, then the greatest name.\<close>

definition network_group :: "policy \<Rightarrow> str \<Rightarrow> str option" where
  "network_group p addr =
     (case ip_address addr of
        None \<Rightarrow> None
      | Some a \<Rightarrow>
          let matches = map (\<lambda>(n, g). (prefixlen n, g)) (filter (\<lambda>(n, g). in_net a n) (networks p)) in
          if matches = [] then None else Some (snd (Max (set matches))))"

definition group_name_for :: "(str \<Rightarrow> str \<Rightarrow> bool) \<Rightarrow> policy \<Rightarrow> str \<Rightarrow> str option" where
  "group_name_for fnmatch p client =
     (let addr = lower client in
      case dget (exact_clients p) addr of
        Some g \<Rightarrow> Some g
      | None \<Rightarrow> (case hinted_group fnmatch p addr of Some g \<Rightarrow> Some g | None \<Rightarrow> network_group p addr))"

text \<open>\<open>groups[default_group]\<close> raises a \<open>KeyError\<close> when missing; the constructor puts it there, and
  \<^const>\<open>None\<close> stands for that case.\<close>

definition group_for :: "(str \<Rightarrow> str \<Rightarrow> bool) \<Rightarrow> policy \<Rightarrow> str \<Rightarrow> group option" where
  "group_for fnmatch p client =
     (let name = (case group_name_for fnmatch p client of
                    None \<Rightarrow> default_group p | Some g \<Rightarrow> if g = [] then default_group p else g)
      in case dget (groups p) name of Some g \<Rightarrow> Some g | None \<Rightarrow> dget (groups p) (default_group p))"

section \<open>Evaluation\<close>

definition country_google :: "str \<Rightarrow> bool" where
  "country_google name =
     (let n = (if prefix ''www.'' name then drop 4 name else name); r = drop 7 n
      in prefix ''google.'' n \<and> 2 \<le> length r \<and> length r \<le> 6
         \<and> list_all (\<lambda>c. 97 \<le> code_pt c \<and> code_pt c \<le> 122 \<or> c = CHR ''.'') r)"

definition safe_search_target :: "str \<Rightarrow> group \<Rightarrow> str" where
  "safe_search_target name g =
     (if \<not> safe_search g \<and> youtube_restrict g = [] then []
      else if youtube_restrict g \<noteq> [] \<and>
          (find_sub ''youtube.com'' name \<noteq> None \<or> find_sub ''youtubei'' name \<noteq> None) then
        (if name = YOUTUBE_STRICT \<or> name = YOUTUBE_MODERATE then []
         else if youtube_restrict g = ''strict'' then YOUTUBE_STRICT else YOUTUBE_MODERATE)
      else if \<not> safe_search g then []
      else case dget SAFE_SEARCH_REWRITES name of
          Some t \<Rightarrow>
            if t \<noteq> [] \<and> t \<noteq> name then t
            else if country_google name then ''forcesafesearch.google.com'' else []
        | None \<Rightarrow> if country_google name then ''forcesafesearch.google.com'' else [])"

fun scheduled_block :: "regex_engine \<Rightarrow> schedule list \<Rightarrow> moment \<Rightarrow> str \<Rightarrow> decision option" where
  "scheduled_block rx [] m name = None"
| "scheduled_block rx (s # ss) m name =
     (if \<not> active_at s m then scheduled_block rx ss m name
      else if sc_block_all s then Some (mk_decision Block (''schedule:'' @ sc_name s) ''all traffic'' [])
      else case match rx (category_set_of (sc_block_categories s)) name of
        Some hit \<Rightarrow> Some (mk_decision Block (''schedule:'' @ sc_name s) (m_rule hit) [])
      | None \<Rightarrow> scheduled_block rx ss m name)"

definition decide :: "regex_engine \<Rightarrow> group \<Rightarrow> moment \<Rightarrow> str \<Rightarrow> decision" where
  "decide rx g m name =
     (let name = canon name in
      case match rx (allow_set g) name of
        Some hit \<Rightarrow> mk_decision Allow ''group allowlist'' (m_rule hit) []
      | None \<Rightarrow>
      (case match rx (block_set g) name of
        Some hit \<Rightarrow> mk_decision Block ''group blocklist'' (m_rule hit) []
      | None \<Rightarrow>
      (case match rx (category_set g) name of
        Some hit \<Rightarrow> mk_decision Block ''category'' (m_rule hit) []
      | None \<Rightarrow>
      (case scheduled_block rx (schedules g) m name of
        Some d \<Rightarrow> d
      | None \<Rightarrow>
          if default_deny g then mk_decision Block ''default deny'' ''not in the group allowlist'' []
          else let rewrite = safe_search_target name g in
            if rewrite \<noteq> [] then mk_decision Rewrite ''safe search'' name rewrite else ALLOW))))"

definition evaluate ::
  "regex_engine \<Rightarrow> (str \<Rightarrow> str \<Rightarrow> bool) \<Rightarrow> policy \<Rightarrow> str \<Rightarrow> str \<Rightarrow> moment \<Rightarrow> (decision \<times> group) option" where
  "evaluate rx fnmatch p name client m =
     map_option (\<lambda>g. (decide rx g m name, g)) (group_for fnmatch p client)"

section \<open>Rule sets of a group\<close>

definition entry_domain :: "str \<Rightarrow> str" where
  "entry_domain e = (let t = lower (strip_ws e) in if prefix ''*.'' t then drop 2 t else t)"

definition plain_entry :: "str \<Rightarrow> bool" where
  "plain_entry e = (let t = lower (strip_ws e) in \<not> (prefix ''/'' t \<and> suffix ''/'' t \<and> 2 < length t))"

lemma match_add_regex: "match rx s n \<noteq> None \<Longrightarrow> match rx (add_regex rx p src s) n \<noteq> None"
  by (auto simp: match_iff covers_def add_regex_def split: option.split)

lemma add_entry_mono: "match rx s n \<noteq> None \<Longrightarrow> match rx (add_entry rx src e s) n \<noteq> None"
  using ds.hit_add match_add_regex unfolding add_entry_def Let_def by (simp del: not_None_eq)

lemma add_entry_hit:
  "plain_entry e \<Longrightarrow> is_under (canon n) (entry_domain e) \<Longrightarrow> match rx (add_entry rx src e s) n \<noteq> None"
  by (auto simp: add_entry_def plain_entry_def entry_domain_def Let_def ds.hit_add is_under_def
      simp del: not_None_eq split: if_splits)

lemma fold_entry_mono: "match rx s n \<noteq> None \<Longrightarrow> match rx (fold (add_entry rx src) es s) n \<noteq> None"
  by (induction es arbitrary: s) (simp_all add: add_entry_mono del: not_None_eq)

lemma domain_set_hit:
  assumes "e \<in> set es" and "plain_entry e" and "is_under (canon n) (entry_domain e)"
  shows "match rx (domain_set_of rx es src) n \<noteq> None"
proof -
  obtain xs ys where es: "es = xs @ e # ys" using assms(1) by (meson split_list)
  show ?thesis
    unfolding domain_set_of_def es fold_append fold.simps comp_def
    by (rule fold_entry_mono [OF add_entry_hit [OF assms(2,3)]])
qed

lemma match_canon [simp]: "match rx s (canon n) = match rx s n"
  by (simp add: match_def)

section \<open>Scheduled blocks\<close>

lemma scheduled_block_blocks: "scheduled_block rx ss m n = Some d \<Longrightarrow> d_action d = Block"
  by (induction ss) (auto simp: mk_decision_def split: if_splits option.splits)

lemma scheduled_block_all:
  "s \<in> set ss \<Longrightarrow> active_at s m \<Longrightarrow> sc_block_all s \<Longrightarrow> scheduled_block rx ss m n \<noteq> None"
  by (induction ss) (auto split: option.splits)

lemma decide_blocked_or_allowed:
  assumes "match rx (allow_set g) name = None"
    and "scheduled_block rx (schedules g) m (canon name) \<noteq> None \<or> default_deny g"
  shows "d_action (decide rx g m name) = Block"
  using assms scheduled_block_blocks
  by (auto simp: decide_def Let_def mk_decision_def split: option.split)

section \<open>Devices\<close>

lemma compile_device_groups [simp]:
  "groups (compile_device d p) = groups p" "default_group (compile_device d p) = default_group p"
  "address_hints (compile_device d p) = address_hints p"
  by (simp_all add: compile_device_def Let_def split: option.split)

lemma compile_fold_groups [simp]:
  "groups (fold compile_device ds p) = groups p" "default_group (fold compile_device ds p) = default_group p"
  "address_hints (fold compile_device ds p) = address_hints p"
  by (induction ds arbitrary: p) simp_all

lemma compile_groups [simp]:
  "groups (compile_devices p) = groups p" "default_group (compile_devices p) = default_group p"
  "address_hints (compile_devices p) = address_hints p"
  by (simp_all add: compile_devices_def)

datatype policy_op = SetDevices "device list" | NoteClient str str str

fun policy_step :: "policy_op \<Rightarrow> policy \<Rightarrow> policy" where
  "policy_step (SetDevices ds) p = set_devices p ds"
| "policy_step (NoteClient a m h) p = note_client p a m h"

lemma policy_step_groups [simp]:
  "groups (policy_step op p) = groups p" "default_group (policy_step op p) = default_group p"
  by (cases op; simp add: set_devices_def note_client_def)+

lemma policy_run_groups [simp]:
  "groups (fold policy_step ops p) = groups p" "default_group (fold policy_step ops p) = default_group p"
  by (induction ops arbitrary: p) simp_all

section \<open>Properties\<close>

text \<open>a name at or under a plain or wildcard entry of its group's allow list is allowed at every
  moment, whatever the group blocks, schedules or denies.\<close>

theorem allowlist_wins:
  assumes "e \<in> set (gr_allow g)" and "plain_entry e" and "is_under (canon name) (entry_domain e)"
  shows "d_action (decide rx (refresh_group rx g) m name) = Allow"
proof -
  have "match rx (allow_set (refresh_group rx g)) name \<noteq> None"
    using domain_set_hit [OF assms] by (simp add: refresh_group_def del: not_None_eq)
  then show ?thesis by (auto simp: decide_def Let_def mk_decision_def)
qed

text \<open>while a block-everything schedule is open, and always in a default-deny group, a name is
  allowed exactly when the group's allow list matches it, and everything else is blocked: no
  safe-search rewrite gets around it.\<close>

theorem lockdown:
  assumes "(\<exists>s \<in> set (schedules g). active_at s m \<and> sc_block_all s) \<or> default_deny g"
  shows "d_action (decide rx g m name) = (if match rx (allow_set g) name = None then Block else Allow)"
proof (cases "match rx (allow_set g) name")
  case None
  have "scheduled_block rx (schedules g) m (canon name) \<noteq> None \<or> default_deny g"
    using assms scheduled_block_all by metis
  from decide_blocked_or_allowed [OF None this] None show ?thesis by simp
qed (auto simp: decide_def Let_def mk_decision_def)

text \<open>safe search never loops: the name a query is rewritten to is itself not rewritten.\<close>

theorem safe_search_stable:
  assumes "safe_search_target name g = t" and "t \<noteq> []"
  shows "safe_search_target t g = []"
proof -
  let ?targets = "[''forcesafesearch.google.com'', ''strict.bing.com'', ''safe.duckduckgo.com'',
    YOUTUBE_MODERATE, ''safe.pixiv.net'', YOUTUBE_STRICT]"
  have d: "x \<in> set ?targets" if "dget SAFE_SEARCH_REWRITES name = Some x" for x
  proof -
    have "x \<in> snd ` set SAFE_SEARCH_REWRITES" using map_of_SomeD [OF that] by force
    moreover have "snd ` set SAFE_SEARCH_REWRITES \<subseteq> set ?targets"
      by (simp add: SAFE_SEARCH_REWRITES_def YOUTUBE_MODERATE_def)
    ultimately show ?thesis by blast
  qed
  have t: "t \<in> set ?targets"
    using assms d by (auto simp: safe_search_target_def split: if_splits option.splits)
  have "list_all (\<lambda>x. dget SAFE_SEARCH_REWRITES x = None \<and> \<not> country_google x
      \<and> (x = YOUTUBE_STRICT \<or> x = YOUTUBE_MODERATE
         \<or> find_sub ''youtube.com'' x = None \<and> find_sub ''youtubei'' x = None)) ?targets"
    by code_simp
  with t have "dget SAFE_SEARCH_REWRITES t = None" "\<not> country_google t"
    "t = YOUTUBE_STRICT \<or> t = YOUTUBE_MODERATE
       \<or> find_sub ''youtube.com'' t = None \<and> find_sub ''youtubei'' t = None"
    by (auto simp: list_all_iff)
  then show ?thesis by (auto simp: safe_search_target_def)
qed

text \<open>a window and its complement partition the day: when start and end differ, an every-day
  schedule is active exactly when the schedule with start and end exchanged is not, so a window that
  wraps past midnight leaves no gap and no overlap.\<close>

theorem schedule_complement:
  assumes "sc_days s = []" and "sc_start s \<noteq> sc_end s"
  shows "active_at s m \<longleftrightarrow> \<not> active_at (s\<lparr>sc_start := sc_end s, sc_end := sc_start s\<rparr>) m"
  using assms by (auto simp: active_at_def Let_def)

text \<open>an address that no exact, MAC or host-name rule claims belongs to the group of a most
  specific network that contains it.\<close>

theorem most_specific_network_wins:
  assumes "dget (exact_clients p) (lower client) = None" and "hinted_group fnmatch p (lower client) = None"
    and "ip_address (lower client) = Some a" and "(n, g) \<in> set (networks p)" and "in_net a n"
  shows "\<exists>n' g'. (n', g') \<in> set (networks p) \<and> in_net a n' \<and> group_name_for fnmatch p client = Some g'
    \<and> (\<forall>(k, h) \<in> set (networks p). in_net a k \<longrightarrow> prefixlen k \<le> prefixlen n')"
proof -
  let ?M = "map (\<lambda>(n, g). (prefixlen n, g)) (filter (\<lambda>(n, g). in_net a n) (networks p))"
  have fin: "finite (set ?M)" and ne: "set ?M \<noteq> {}" using assms(4,5) by auto
  have "Max (set ?M) \<in> set ?M" by (rule Max_in [OF fin ne])
  then obtain n' g' where m: "Max (set ?M) = (prefixlen n', g')" "(n', g') \<in> set (networks p)" "in_net a n'"
    by auto
  have "prefixlen k \<le> prefixlen n'" if "(k, h) \<in> set (networks p)" "in_net a k" for k h
  proof -
    have mem: "(prefixlen k, h) \<in> set ?M" using that by force
    have "(prefixlen k, h) \<le> (prefixlen n', g')" using Max_ge [OF fin mem] unfolding m(1) .
    then show ?thesis by (auto simp: less_eq_prod_def)
  qed
  moreover have "group_name_for fnmatch p client = Some g'"
  proof -
    have "?M \<noteq> []" using ne by (simp only: set_empty simp_thms)
    then have "network_group p (lower client) = Some g'"
      using assms(3) m(1) unfolding network_group_def Let_def by (simp only: option.case if_False snd_conv)
    with assms(1,2) show ?thesis by (simp add: group_name_for_def)
  qed
  ultimately show ?thesis using m(2,3) by blast
qed

text \<open>every client always has a group: after any sequence of device changes and address notes, the
  lookup of the group never fails and evaluation gives a decision.\<close>

theorem every_client_has_a_group:
  "evaluate rx fnmatch (fold policy_step ops (new_policy rx gs ds dflt)) name client m \<noteq> None"
proof -
  let ?p = "fold policy_step ops (new_policy rx gs ds dflt)"
  have "dget (groups ?p) (default_group ?p) \<noteq> None"
    by (simp add: new_policy_def Let_def split: option.split)
  then show ?thesis by (auto simp: evaluate_def group_for_def Let_def split: option.split)
qed

text \<open>
  A window that wraps past midnight and is limited to some days is judged by the day of the moment,
  not of its opening: a Friday 22:00 to 07:00 window is closed on Saturday at 01:00 and open on
  Friday at 01:00.
\<close>

lemma overnight_window_ends_at_midnight:
  assumes "sc_days s = [4]" and "sc_start s = 22 * 3600000000" and "sc_end s = 7 * 3600000000"
  shows "\<not> active_at s \<lparr>weekday = 5, time_of_day = 3600000000\<rparr>"
    and "active_at s \<lparr>weekday = 4, time_of_day = 3600000000\<rparr>"
  using assms by (simp_all add: active_at_def)

section \<open>Witnesses\<close>

definition no_regex :: regex_engine where "no_regex = (\<lambda>_. None)"

definition kids :: group where
  "kids = (new_group no_regex ''kids'')\<lparr>gr_allow := [''*.School.example''], default_deny := True, safe_search := True\<rparr>"

theorem allowlist_wins_witness:
  "d_action (decide no_regex (refresh_group no_regex kids) \<lparr>weekday = 0, time_of_day = 0\<rparr> ''www.school.example.'') = Allow"
proof (rule allowlist_wins)
  show "''*.School.example'' \<in> set (gr_allow kids)" by (simp add: kids_def)
  show "plain_entry ''*.School.example''" by code_simp
  show "is_under (canon ''www.school.example.'') (entry_domain ''*.School.example'')" by code_simp
qed

theorem lockdown_witness:
  "d_action (decide no_regex kids \<lparr>weekday = 0, time_of_day = 0\<rparr> ''www.google.com'') = Block"
proof -
  have "match no_regex (allow_set kids) ''www.google.com'' = None"
    by (simp add: kids_def new_group_def refresh_group_def domain_set_of_def)
  with lockdown [of kids "\<lparr>weekday = 0, time_of_day = 0\<rparr>" no_regex "''www.google.com''"] show ?thesis
    by (simp add: kids_def)
qed

theorem safe_search_stable_witness: "safe_search_target YOUTUBE_MODERATE kids = []"
proof (rule safe_search_stable)
  show "safe_search_target ''m.youtube.com'' kids = YOUTUBE_MODERATE"
    by (simp add: safe_search_target_def kids_def new_group_def refresh_group_def
        SAFE_SEARCH_REWRITES_def YOUTUBE_MODERATE_def)
qed (simp add: YOUTUBE_MODERATE_def)

theorem schedule_complement_witness:
  "active_at \<lparr>sc_name = ''night'', sc_start = 22, sc_end = 7, sc_days = [], sc_block_categories = [],
      sc_block_all = True\<rparr> \<lparr>weekday = 3, time_of_day = 23\<rparr>"
  using schedule_complement [of "\<lparr>sc_name = ''night'', sc_start = 22, sc_end = 7, sc_days = [],
      sc_block_categories = [], sc_block_all = True\<rparr>" "\<lparr>weekday = 3, time_of_day = 23\<rparr>"]
  by (simp add: active_at_def)

definition two_nets :: policy where
  "two_nets = \<lparr>groups = [], default_group = ''default'', devices = [], address_hints = [],
     networks = [(\<lparr>net_base = V4 0x0A000000, prefixlen = 8\<rparr>, ''lan''),
                 (\<lparr>net_base = V4 0x0A000100, prefixlen = 24\<rparr>, ''lab'')],
     exact_clients = [], mac_clients = [], hostname_globs = []\<rparr>"

theorem most_specific_network_wins_witness:
  "\<exists>n'. (n', ''lab'') \<in> set (networks two_nets)
    \<and> group_name_for (\<lambda>_ _. False) two_nets ''10.0.1.9'' = Some ''lab''"
proof -
  have o: "parse_octet ''10'' = Some 10" "parse_octet ''0'' = Some 0" "parse_octet ''1'' = Some 1"
    "parse_octet ''9'' = Some 9" by code_simp+
  have l: "lower ''10.0.1.9'' = ''10.0.1.9''" by code_simp
  have "split_on CHR ''.'' ''10.0.1.9'' = [''10'', ''0'', ''1'', ''9'']" by simp
  with o have a: "ip_address ''10.0.1.9'' = Some (V4 0x0A000109)"
    by (simp add: ip_address_def parse_v4_def)
  have i: "in_net (V4 0x0A000109) \<lparr>net_base = V4 0x0A000100, prefixlen = 24\<rparr>"
    by (simp add: in_net_def host_bits_def)
  have "\<exists>n' g'. (n', g') \<in> set (networks two_nets) \<and> in_net (V4 0x0A000109) n'
      \<and> group_name_for (\<lambda>_ _. False) two_nets ''10.0.1.9'' = Some g'
      \<and> (\<forall>(k, h) \<in> set (networks two_nets). in_net (V4 0x0A000109) k \<longrightarrow> prefixlen k \<le> prefixlen n')"
    by (rule most_specific_network_wins [OF _ _ _ _ i, of _ _ _ "''lab''"])
       (simp_all add: l a del: lower_simps, simp_all add: two_nets_def hinted_group_def)
  with i show ?thesis by (auto simp: two_nets_def)
qed

end
