(* ===== verification/Engine.thy ===== *)
theory Engine
  imports SingleFlight BlocklistLoad Compat Policy
begin

text \<open>
  The filtering resolver, \<open>symbivpn/engine.py\<close>: one query in, one decision and one answer out.  The
  state holds what \<open>FilterEngine\<close> holds, with two traces added: the questions put to upstream and
  the lines of the query log.  An environment gives what the engine does not compute: the clocks,
  the upstream pool, and whether this thread leads or follows a lookup in flight (the protocol
  itself is in the single-flight theory).
\<close>

section \<open>State\<close>

definition CANARY_DOMAIN :: str where "CANARY_DOMAIN = ''use-application-dns.net''"
definition MAX_PREFETCH_THREADS :: nat where "MAX_PREFETCH_THREADS = 8"

definition LOCAL_ZONES :: "str list" where
  "LOCAL_ZONES = [''local'', ''localhost'', ''home.arpa'', ''internal'', ''lan'', ''intranet'',
     ''invalid'', ''test'', ''onion'', ''in-addr.arpa'', ''ip6.arpa'']"

definition PRIVATE_V4 :: "network list" where
  "PRIVATE_V4 = [\<lparr>net_base = v4_of 0 0 0 0, prefixlen = 8\<rparr>, \<lparr>net_base = v4_of 10 0 0 0, prefixlen = 8\<rparr>,
     \<lparr>net_base = v4_of 127 0 0 0, prefixlen = 8\<rparr>, \<lparr>net_base = v4_of 169 254 0 0, prefixlen = 16\<rparr>,
     \<lparr>net_base = v4_of 172 16 0 0, prefixlen = 12\<rparr>, \<lparr>net_base = v4_of 192 168 0 0, prefixlen = 16\<rparr>]"

definition PRIVATE_V6 :: "network list" where
  "PRIVATE_V6 = [\<lparr>net_base = V6 1, prefixlen = 128\<rparr>,
     \<lparr>net_base = V6 (0xfc00 * 2 ^ 112), prefixlen = 7\<rparr>,
     \<lparr>net_base = V6 (0xfe80 * 2 ^ 112), prefixlen = 10\<rparr>]"

record engine_config =
  block_mode :: str
  block_ttl :: int
  uncloak_cnames :: bool
  rebinding_protection :: bool
  rebinding_allow :: "str list"
  handle_local_zones :: bool
  local_suffix :: str
  refuse_any :: bool
  serve_stale :: bool
  dnssec_passthrough :: bool

definition default_engine_config :: engine_config where
  "default_engine_config = \<lparr>block_mode = ''zero'', block_ttl = 60, uncloak_cnames = True,
     rebinding_protection = True, rebinding_allow = [], handle_local_zones = True,
     local_suffix = ''symbivpn.lan'', refuse_any = True, serve_stale = True,
     dnssec_passthrough = True\<rparr>"

record log_line =
  lg_client :: str
  lg_name :: str
  lg_qtype :: str
  lg_action :: str
  lg_reason :: str
  lg_rule :: str
  lg_cached :: bool
  lg_group :: str

text \<open>A question put to upstream: name, type, class, DNSSEC wanted, checking disabled.\<close>

type_synonym upstream_question = "str \<times> u16 \<times> u16 \<times> bool \<times> bool"

record engine =
  lists :: manager
  compat_guard :: guard
  policies :: policy
  cache :: dns_cache
  econf :: engine_config
  local_names :: "(str, str) dict"
  clustered :: bool
  shared_answers :: "(cache_key \<times> bytes) list"
  free_slots :: nat
  refreshes :: "cache_key list"
  log_queries :: bool
  asked :: "upstream_question list"
  qlog :: "log_line list"

datatype flight_role = Leads | Follows "bytes option"

record env =
  now_at :: time
  moment_at :: moment
  resolve :: "upstream_question \<Rightarrow> bytes res"
  role :: flight_role
  engine_rx :: regex_engine
  engine_fnmatch :: "str \<Rightarrow> str \<Rightarrow> bool"

section \<open>Local names\<close>

definition set_local_names :: "engine \<Rightarrow> (str, str) dict \<Rightarrow> engine" where
  "set_local_names s mapping =
     s\<lparr>local_names := fold (\<lambda>(name, address). dset (canon name) address)
                       (filter (\<lambda>(name, _). name \<noteq> []) mapping) []\<rparr>"

text \<open>An address that is the empty string counts as none.\<close>

definition local_lookup :: "engine \<Rightarrow> str \<Rightarrow> str option" where
  "local_lookup s name =
     (let suf = CHR ''.'' # local_suffix (econf s);
          bare = (if suffix suf name then take (length name - length suf) name else name);
          first = (case dget (local_names s) bare of Some [] \<Rightarrow> None | r \<Rightarrow> r)
      in case first of
           Some a \<Rightarrow> Some a
         | None \<Rightarrow> (case dget (local_names s) name of Some [] \<Rightarrow> None | r \<Rightarrow> r))"

section \<open>Upstream and cache\<close>

definition ask :: "env \<Rightarrow> engine \<Rightarrow> upstream_question \<Rightarrow> engine \<times> bytes res" where
  "ask v s q = (s\<lparr>asked := asked s @ [q]\<rparr>, resolve v q)"

text \<open>The prefetch callback: without a free slot the refresh is dropped, otherwise a thread starts.\<close>

definition schedule_prefetch :: "engine \<Rightarrow> cache_key \<Rightarrow> engine" where
  "schedule_prefetch s key =
     (if free_slots s = 0 then s\<lparr>cache := finish_refresh (cache s) key\<rparr>
      else s\<lparr>free_slots := free_slots s - 1, refreshes := refreshes s @ [key]\<rparr>)"

text \<open>What that thread does when it runs.\<close>

definition run_refresh :: "env \<Rightarrow> engine \<Rightarrow> cache_key \<Rightarrow> engine" where
  "run_refresh v s key =
     (let (s, r) = ask v s (ck_name key, ck_qtype key, ck_qclass key, ck_dnssec key, False);
          c = (case r of Inl _ \<Rightarrow> cache s | Inr w \<Rightarrow> fst (cache_put (cache s) (now_at v) key w None))
      in s\<lparr>cache := finish_refresh c key, free_slots := free_slots s + 1,
           refreshes := remove1 key (refreshes s)\<rparr>)"

definition lookup_cache :: "env \<Rightarrow> engine \<Rightarrow> cache_key \<Rightarrow> bool \<Rightarrow> engine \<times> lookup option res" where
  "lookup_cache v s key st =
     (let (c, prefetch, r) = cache_get (cache s) (now_at v) key st;
          s = s\<lparr>cache := c\<rparr>
      in (case prefetch of None \<Rightarrow> s | Some k \<Rightarrow> schedule_prefetch s k, r))"

definition store_cache :: "env \<Rightarrow> engine \<Rightarrow> cache_key \<Rightarrow> bytes \<Rightarrow> engine" where
  "store_cache v s key w = s\<lparr>cache := fst (cache_put (cache s) (now_at v) key w None)\<rparr>"

definition share :: "engine \<Rightarrow> cache_key \<Rightarrow> bytes \<Rightarrow> engine" where
  "share s key w =
     (if clustered s then s\<lparr>shared_answers := shared_answers s @ [(key, w)]\<rparr> else s)"

text \<open>The stale answer a failed leader falls back to, and a follower without a shared answer.\<close>

definition from_cache :: "env \<Rightarrow> engine \<Rightarrow> cache_key \<Rightarrow> bool \<Rightarrow> engine \<times> (bytes option \<times> bool) res" where
  "from_cache v s key st =
     (let (s, r) = lookup_cache v s key st in
      (s, rbind r (\<lambda>h. Inr (case h of None \<Rightarrow> (None, False) | Some l \<Rightarrow> (Some (l_wire l), True)))))"

text \<open>\<open>_resolve\<close>: the response, if any, and whether it came from the cache or another thread.\<close>

definition resolve_key ::
  "env \<Rightarrow> engine \<Rightarrow> cache_key \<Rightarrow> bool \<Rightarrow> engine \<times> (bytes option \<times> bool) res" where
  "resolve_key v s key cd =
     (let q = (\<lambda>cd. (ck_name key, ck_qtype key, ck_qclass key, ck_dnssec key, cd)) in
      if cd then
        (let (s, r) = ask v s (q True) in
         case r of
           Inr w \<Rightarrow> (s, Inr (Some w, False))
         | Inl e \<Rightarrow> (s, if e = ResolutionError then Inr (None, False) else Inl e))
      else case role v of
        Follows (Some w) \<Rightarrow> (s, Inr (Some w, True))
      | Follows None \<Rightarrow> from_cache v s key (serve_stale (econf s))
      | Leads \<Rightarrow>
          (let (s, r) = ask v s (q False) in
           case r of
             Inl e \<Rightarrow>
               if e \<noteq> ResolutionError then (s, Inl e)
               else if serve_stale (econf s) then from_cache v s key True
               else (s, Inr (None, False))
           | Inr w \<Rightarrow> (share (store_cache v s key w) key w, Inr (Some w, False))))"

section \<open>Answers\<close>

definition block_answer :: "engine_config \<Rightarrow> bytes \<Rightarrow> question \<Rightarrow> bytes res" where
  "block_answer conf query q =
     (if block_mode conf = ''nxdomain'' then build_error_response query RCODE_NXDOMAIN
      else if block_mode conf = ''refused'' then build_error_response query RCODE_REFUSED
      else if qtype q = TYPE_A then build_address_response query TYPE_A (Some (V4 0)) (block_ttl conf)
      else if qtype q = TYPE_AAAA
        then build_address_response query TYPE_AAAA (Some (V6 0)) (block_ttl conf)
      else build_address_response query (qtype q) None (block_ttl conf))"

text \<open>\<open>_rewrite\<close>; \<^const>\<open>None\<close> means carry on as if there were no rewrite.\<close>

definition rewrite_answer :: "bytes \<Rightarrow> question \<Rightarrow> ipaddr list \<Rightarrow> bytes option res" where
  "rewrite_answer query q addresses =
     (let wanted = (if qtype q = TYPE_AAAA then 6 else 4) in
      rbind (build_address_response query (qtype q)
               (List.find (\<lambda>a. ip_version a = wanted) addresses) 300) (\<lambda>w. Inr (Some w)))"

definition rewrite ::
  "env \<Rightarrow> engine \<Rightarrow> bytes \<Rightarrow> question \<Rightarrow> str \<Rightarrow> engine \<times> bytes option res" where
  "rewrite v s query q target =
     (if qtype q \<notin> {TYPE_A, TYPE_AAAA} then (s, Inr None)
      else
        let key = \<lparr>ck_name = target, ck_qtype = qtype q, ck_qclass = qclass q, ck_dnssec = False\<rparr>;
            (s, r) = lookup_cache v s key False in
        case r of
          Inl e \<Rightarrow> (s, Inl e)
        | Inr (Some l) \<Rightarrow> (s, rbind (answer_addresses (l_wire l)) (rewrite_answer query q))
        | Inr None \<Rightarrow>
            (let (s, u) = ask v s (target, qtype q, qclass q, False, False) in
             case u of
               Inl e \<Rightarrow> (s, if e = ResolutionError then Inr None else Inl e)
             | Inr w \<Rightarrow> (store_cache v s key w, rbind (answer_addresses w) (rewrite_answer query q))))"

definition is_nibble :: "str \<Rightarrow> bool" where
  "is_nibble l = (length l = 1 \<and> list_all (\<lambda>c. is_dec_digit c \<or> 97 \<le> code_pt c \<and> code_pt c \<le> 102) l)"

definition is_private_reverse :: "str \<Rightarrow> bool" where
  "is_private_reverse name =
     (if suffix ''.ip6.arpa'' name then
        let nibbles = rev (split_on CHR ''.'' (removesuffix ''.ip6.arpa'' name)) in
        if nibbles = [] \<or> 32 < length nibbles then False
        else if \<not> list_all is_nibble nibbles then False
        else case parse_digits 16 0 (concat nibbles @ replicate (32 - length nibbles) CHR ''0'') of
          None \<Rightarrow> False
        | Some n \<Rightarrow> list_ex (in_net (V6 n)) PRIVATE_V6
      else
        case those (map py_int_text (rev (split_on CHR ''.'' (removesuffix ''.in-addr.arpa'' name)))) of
          None \<Rightarrow> False
        | Some octets \<Rightarrow>
            if octets = [] then False
            else let padded = take 4 (octets @ replicate (4 - length octets) 0) in
              if list_all (\<lambda>b. 0 \<le> b \<and> b \<le> 255) padded
              then list_ex (in_net (V4 (nat (foldl (\<lambda>a b. a * 256 + b) 0 padded)))) PRIVATE_V4
              else False)"

text \<open>The loop over the local zones: the first zone the name falls in decides.\<close>

fun local_zone :: "str list \<Rightarrow> str \<Rightarrow> bool option" where
  "local_zone [] name = None"
| "local_zone (zone # zs) name =
     (let labels = split_on CHR ''.'' name; zl = split_on CHR ''.'' zone in
      if drop (length labels - length zl) labels = zl
      then (if zone \<in> {''in-addr.arpa'', ''ip6.arpa''} \<and> \<not> is_private_reverse name
            then Some False else Some True)
      else local_zone zs name)"

definition answer_locally :: "engine \<Rightarrow> bytes \<Rightarrow> question \<Rightarrow> bytes option res" where
  "answer_locally s query q =
     (if \<not> handle_local_zones (econf s) then Inr None
      else case (local_lookup s (qname q), qtype q = TYPE_A, qtype q = TYPE_AAAA) of
        (Some address, True, _) \<Rightarrow>
          (case ip_address address of
             None \<Rightarrow> Inl ValueError
           | Some a \<Rightarrow> rbind (build_address_response query TYPE_A (Some a) 60) (\<lambda>w. Inr (Some w)))
      | (Some address, False, True) \<Rightarrow>
          rbind (build_address_response query TYPE_AAAA None 60) (\<lambda>w. Inr (Some w))
      | _ \<Rightarrow>
          (case local_zone LOCAL_ZONES (qname q) of
             Some True \<Rightarrow> rbind (build_error_response query RCODE_NXDOMAIN) (\<lambda>w. Inr (Some w))
           | _ \<Rightarrow> Inr None))"

fun cloaked :: "manager \<Rightarrow> str list \<Rightarrow> decision option" where
  "cloaked m [] = None"
| "cloaked m (target # ts) =
     (if is_allowed m target \<noteq> None then None
      else case is_blocked m target of
        Some hit \<Rightarrow>
          Some (mk_decision Block ''CNAME cloaking'' (target @ '' ('' @ m_rule hit @ '')'') [])
      | None \<Rightarrow> cloaked m ts)"

definition cname_block :: "engine \<Rightarrow> bytes \<Rightarrow> decision option" where
  "cname_block s response =
     (case cname_chain response of Inl _ \<Rightarrow> None | Inr targets \<Rightarrow> cloaked (lists s) targets)"

definition in_zone :: "str \<Rightarrow> str \<Rightarrow> bool" where
  "in_zone name zone = (name = zone \<or> suffix (CHR ''.'' # zone) name)"

definition private_address :: "ipaddr \<Rightarrow> bool" where
  "private_address a = list_ex (in_net a) (if ip_version a = 6 then PRIVATE_V6 else PRIVATE_V4)"

definition rebinding_block :: "engine_config \<Rightarrow> str \<Rightarrow> bytes \<Rightarrow> decision option" where
  "rebinding_block conf name response =
     (if list_ex (in_zone name) LOCAL_ZONES then None
      else if list_ex (\<lambda>z. in_zone name (canon z)) (rebinding_allow conf) then None
      else case answer_addresses response of
        Inl _ \<Rightarrow> None
      | Inr addresses \<Rightarrow>
          map_option (\<lambda>a. mk_decision Block ''DNS rebinding'' (name @ '' resolved to '' @ ip_str a) [])
            (List.find private_address addresses))"

text \<open>
  \<open>_prepare_reply\<close>: the client's transaction ID and, where the lengths agree, its question bytes.
\<close>

definition prepare_reply :: "bytes \<Rightarrow> bytes \<Rightarrow> bytes res" where
  "prepare_reply response query =
     rbind (parse_header query) (\<lambda>h.
     rbind (set_message_id response (msg_id h)) (\<lambda>reply.
       case (parse_questions query, parse_questions reply) of
         (Inr (_, qe), Inr (_, re)) \<Rightarrow>
           let original = slice HEADER_LEN qe query; current = slice HEADER_LEN re reply in
           Inr (if original \<noteq> current \<and> length original = length current
                then take HEADER_LEN reply @ original @ drop re reply else reply)
       | (Inl e, _) \<Rightarrow> if e = DNSFormatError then Inr reply else Inl e
       | (_, Inl e) \<Rightarrow> if e = DNSFormatError then Inr reply else Inl e))"

section \<open>Handling a query\<close>

text \<open>\<open>finish\<close>: the answer is built first, so an exception there leaves no line in the log.\<close>

definition finish ::
  "engine \<Rightarrow> str \<Rightarrow> question \<Rightarrow> bytes res \<Rightarrow> str \<Rightarrow> decision \<Rightarrow> str \<Rightarrow> bool \<Rightarrow> engine \<times> bytes option res" where
  "finish s client q response act d grp cached =
     (case response of
        Inl e \<Rightarrow> (s, Inl e)
      | Inr w \<Rightarrow>
          (s\<lparr>qlog := qlog s @ [\<lparr>lg_client = client, lg_name = (if log_queries s then qname q else []),
               lg_qtype = type_name (qtype q), lg_action = act, lg_reason = d_reason d,
               lg_rule = d_rule d, lg_cached = cached, lg_group = grp\<rparr>]\<rparr>, Inr (Some w)))"

text \<open>Answering from the cache or upstream, with the checks on the way back.\<close>

definition answer_key ::
  "env \<Rightarrow> engine \<Rightarrow> bytes \<Rightarrow> str \<Rightarrow> header \<Rightarrow> question \<Rightarrow> group \<Rightarrow> bool \<Rightarrow> engine \<times> bytes option res" where
  "answer_key v s query client h q g protected =
     (let name = qname q;
          key = \<lparr>ck_name = name, ck_qtype = qtype q, ck_qclass = qclass q,
                 ck_dnssec = (dnssec_passthrough (econf s) \<and> wants_dnssec query)\<rparr>;
          (s, r) = lookup_cache v s key False
      in case r of
           Inl e \<Rightarrow> (s, Inl e)
         | Inr (Some l) \<Rightarrow>
             finish s client q (prepare_reply (l_wire l) query) ''allow''
               (mk_decision Allow ''cache'' [] []) (gr_name g) True
         | Inr None \<Rightarrow>
             (let (s, r) = resolve_key v s key (flags h AND 0x0010 \<noteq> 0) in
              case r of
                Inl e \<Rightarrow> (s, Inl e)
              | Inr (None, _) \<Rightarrow>
                  finish s client q (build_error_response query RCODE_SERVFAIL) ''error''
                    (mk_decision Allow ''upstream failure'' [] []) (gr_name g) False
              | Inr (Some response, cached) \<Rightarrow>
                  (case (if filtering g \<and> uncloak_cnames (econf s) \<and> \<not> protected
                         then cname_block s response else None) of
                     Some hidden \<Rightarrow>
                       finish s client q (block_answer (econf s) query q) ''block'' hidden (gr_name g) False
                   | None \<Rightarrow>
                     (case (if rebinding_protection (econf s)
                            then rebinding_block (econf s) name response else None) of
                        Some rebinding \<Rightarrow>
                          finish s client q (build_error_response query RCODE_NXDOMAIN) ''block''
                            rebinding (gr_name g) False
                      | None \<Rightarrow>
                          finish s client q (prepare_reply response query) ''allow''
                            (mk_decision Allow [] [] []) (gr_name g) cached))))"

text \<open>After the block decisions: rewrite, local answer, or \<^const>\<open>answer_key\<close>.\<close>

definition answer_allowed ::
  "env \<Rightarrow> engine \<Rightarrow> bytes \<Rightarrow> str \<Rightarrow> header \<Rightarrow> question \<Rightarrow> decision \<Rightarrow> group \<Rightarrow> bool
     \<Rightarrow> engine \<times> bytes option res" where
  "answer_allowed v s query client h q d g protected =
     (let (s, r) = (if d_action d = Rewrite then rewrite v s query q (d_target d) else (s, Inr None)) in
      case r of
        Inl e \<Rightarrow> (s, Inl e)
      | Inr (Some response) \<Rightarrow> finish s client q (Inr response) ''rewrite'' d (gr_name g) False
      | Inr None \<Rightarrow>
          (case answer_locally s query q of
             Inl e \<Rightarrow> (s, Inl e)
           | Inr (Some response) \<Rightarrow>
               finish s client q (Inr response) ''local'' (mk_decision Allow ''local zone'' [] [])
                 (gr_name g) True
           | Inr None \<Rightarrow> answer_key v s query client h q g protected))"

text \<open>An essential service, as opposed to a device profile or an extra rule, overrides policy.\<close>

definition protects :: "rule_match option \<Rightarrow> bool" where
  "protects hit = (case hit of None \<Rightarrow> False | Some m \<Rightarrow> prefix ''essential:'' (m_source m))"

definition list_block :: "engine \<Rightarrow> str \<Rightarrow> rule_match option \<Rightarrow> rule_match option" where
  "list_block s name essential =
     (if is_allowed (lists s) name \<noteq> None \<or> essential \<noteq> None then None else is_blocked (lists s) name)"

definition decide_and_answer ::
  "env \<Rightarrow> engine \<Rightarrow> bytes \<Rightarrow> str \<Rightarrow> header \<Rightarrow> question \<Rightarrow> decision \<Rightarrow> group \<Rightarrow> engine \<times> bytes option res" where
  "decide_and_answer v s query client h q d g =
     (let essential = guard_match (engine_rx v) (compat_guard s) (qname q);
          protected = protects essential
      in if blocked d \<and> \<not> protected then
           finish s client q (block_answer (econf s) query q) ''block'' d (gr_name g) False
         else if protected then
           answer_allowed v s query client h q
             (mk_decision Allow ''essential service'' (case essential of None \<Rightarrow> [] | Some m \<Rightarrow> m_rule m) [])
             g True
         else case (if filtering g \<and> d_action d = Allow then list_block s (qname q) essential else None) of
             Some hit \<Rightarrow>
               finish s client q (block_answer (econf s) query q) ''block''
                 (mk_decision Block ''blocklist'' (m_rule hit) []) (gr_name g) False
           | None \<Rightarrow> answer_allowed v s query client h q d g False)"

definition in_canary :: "str \<Rightarrow> bool" where
  "in_canary name = (name = CANARY_DOMAIN \<or> suffix (CHR ''.'' # CANARY_DOMAIN) name)"

text \<open>The group lookup cannot fail (see the policy theory); \<^const>\<open>None\<close> would be a \<open>KeyError\<close>.\<close>

definition handle_question ::
  "env \<Rightarrow> engine \<Rightarrow> bytes \<Rightarrow> str \<Rightarrow> header \<Rightarrow> question \<Rightarrow> engine \<times> bytes option res" where
  "handle_question v s query client h q =
     (if qclass q \<noteq> CLASS_IN then
        finish s client q (build_error_response query RCODE_REFUSED) ''error''
          (mk_decision Block ''unsupported class'' [] []) ''default'' False
      else if refuse_any (econf s) \<and> qtype q = TYPE_ANY then
        finish s client q (build_error_response query RCODE_REFUSED) ''error''
          (mk_decision Block ''ANY refused'' [] []) ''default'' False
      else if in_canary (qname q) then
        finish s client q (build_error_response query RCODE_NXDOMAIN) ''block''
          (mk_decision Block ''DoH canary'' CANARY_DOMAIN []) ''default'' False
      else case evaluate (engine_rx v) (engine_fnmatch v) (policies s) (qname q) client (moment_at v) of
          None \<Rightarrow> (s, Inl IndexError)
        | Some (d, g) \<Rightarrow> decide_and_answer v s query client h q d g)"

definition silent_on_format_error :: "bytes res \<Rightarrow> bytes option res" where
  "silent_on_format_error r =
     (case r of Inr w \<Rightarrow> Inr (Some w) | Inl e \<Rightarrow> if e = DNSFormatError then Inr None else Inl e)"

text \<open>\<^const>\<open>None\<close> stays silent; an \<^const>\<open>Inl\<close> is an exception out of \<open>handle\<close>.\<close>

definition handle :: "env \<Rightarrow> engine \<Rightarrow> bytes \<Rightarrow> str \<Rightarrow> engine \<times> bytes option res" where
  "handle v s query client =
     (case parse_header query of
        Inl e \<Rightarrow> (s, if e = DNSFormatError then Inr None else Inl e)
      | Inr h \<Rightarrow>
          if is_response h then (s, Inr None)
          else if opcode h \<noteq> 0 then
            (s, silent_on_format_error (build_error_response query RCODE_NOTIMP))
          else case first_question query of
            Inl e \<Rightarrow> (s, if e = DNSFormatError
                        then rbind (build_error_response query RCODE_FORMERR) (\<lambda>w. Inr (Some w))
                        else Inl e)
          | Inr None \<Rightarrow> (s, rbind (build_error_response query RCODE_FORMERR) (\<lambda>w. Inr (Some w)))
          | Inr (Some q) \<Rightarrow> handle_question v s query client h q)"

section \<open>Explaining a decision\<close>

record check_result =
  cr_group :: str
  cr_action :: str
  cr_reason :: str
  cr_rule :: str
  cr_source :: str

definition action_name :: "action \<Rightarrow> str" where
  "action_name a = (case a of Allow \<Rightarrow> ''allow'' | Block \<Rightarrow> ''block'' | Rewrite \<Rightarrow> ''rewrite'')"

definition check :: "env \<Rightarrow> engine \<Rightarrow> str \<Rightarrow> str \<Rightarrow> check_result option" where
  "check v s raw client =
     (let name = canon raw in
      case evaluate (engine_rx v) (engine_fnmatch v) (policies s) name client (moment_at v) of
        None \<Rightarrow> None
      | Some (d, g) \<Rightarrow>
          let result = \<lparr>cr_group = gr_name g, cr_action = action_name (d_action d), cr_reason = d_reason d,
                         cr_rule = d_rule d, cr_source = []\<rparr>;
              essential = guard_match (engine_rx v) (compat_guard s) name
          in Some (case explain (engine_rx v) (compat_guard s) name of
               Some service \<Rightarrow>
                 result\<lparr>cr_action := ''allow'', cr_reason := ''essential service'',
                   cr_rule := (case essential of None \<Rightarrow> [] | Some m \<Rightarrow> m_rule m),
                   cr_source := es_title service\<rparr>
             | None \<Rightarrow>
                 if d_action d = Allow \<and> filtering g then
                   (case (case is_allowed (lists s) name of None \<Rightarrow> essential | Some m \<Rightarrow> Some m) of
                      Some m \<Rightarrow> result\<lparr>cr_action := ''allow'', cr_reason := ''allowlist'',
                                     cr_rule := m_rule m, cr_source := m_source m\<rparr>
                    | None \<Rightarrow>
                        (case is_blocked (lists s) name of
                           Some m \<Rightarrow> result\<lparr>cr_action := ''block'', cr_reason := ''blocklist'',
                                          cr_rule := m_rule m, cr_source := m_source m\<rparr>
                         | None \<Rightarrow> result))
                 else if \<not> filtering g then
                   result\<lparr>cr_reason := (if d_reason d = [] then ''filtering is disabled for this group''
                                       else d_reason d)\<rparr>
                 else result))"

section \<open>Frame facts\<close>

lemma finish_keeps [simp]:
  "cache (fst (finish s c q r a d g b)) = cache s" "asked (fst (finish s c q r a d g b)) = asked s"
  "refreshes (fst (finish s c q r a d g b)) = refreshes s"
  "free_slots (fst (finish s c q r a d g b)) = free_slots s"
  by (simp_all add: finish_def split: sum.split)

lemma finish_result: "snd (finish s c q r a d g b) = (case r of Inl e \<Rightarrow> Inl e | Inr w \<Rightarrow> Inr (Some w))"
  by (simp add: finish_def split: sum.split)

lemma finish_reply: "snd (finish s c q r a d g b) = Inr (Some w) \<longleftrightarrow> r = Inr w"
  by (cases r) (simp_all add: finish_result)

lemma schedule_keeps [simp]:
  "asked (schedule_prefetch s k) = asked s" "lists (schedule_prefetch s k) = lists s"
  "econf (schedule_prefetch s k) = econf s" "policies (schedule_prefetch s k) = policies s"
  by (simp_all add: schedule_prefetch_def)

lemma lookup_keeps [simp]:
  "asked (fst (lookup_cache v s k st)) = asked s" "lists (fst (lookup_cache v s k st)) = lists s"
  "econf (fst (lookup_cache v s k st)) = econf s" "policies (fst (lookup_cache v s k st)) = policies s"
  by (simp_all add: lookup_cache_def Let_def case_prod_beta split: option.split)

section \<open>The state invariant\<close>

text \<open>
  The cache invariant; the eight refresh slots are free or taken by a pending refresh; and an entry
  marked as being refreshed has a pending refresh, so no entry stays marked for ever.
\<close>

definition marked :: "dns_cache \<Rightarrow> cache_key \<Rightarrow> bool" where
  "marked c k = (case dget (entries c) k of None \<Rightarrow> False | Some e \<Rightarrow> refreshing e)"

definition engine_inv :: "engine \<Rightarrow> bool" where
  "engine_inv s = (cache_inv (cache s) \<and> free_slots s + length (refreshes s) = MAX_PREFETCH_THREADS
     \<and> (\<forall>k. marked (cache s) k \<longrightarrow> k \<in> set (refreshes s)))"

lemma marked_finish: "marked (finish_refresh c key) k \<longleftrightarrow> marked c k \<and> k \<noteq> key"
  by (auto simp: marked_def finish_refresh_def split: option.split)

lemma marked_put:
  assumes "cache_inv c" and "marked (fst (cache_put c now key w rc)) k"
  shows "marked c k"
proof (cases "put_ttl (cconf c) w rc")
  case (Some r)
  obtain t rc' where r: "r = (t, rc')" by (cases r)
  show ?thesis
  proof (cases "0 < t")
    case True
    note E = put_entries [OF Some [unfolded r] True, of now key]
    have d: "dict_ok (entries c)" by (rule cache_invD(1) [OF assms(1)])
    from assms(2) obtain e where e: "dget (entries (fst (cache_put c now key w rc))) k = Some e" "refreshing e"
      by (auto simp: marked_def split: option.splits)
    let ?d = "move_to_end key (dset key \<lparr>wire = w, stored_at = now, expires_at = now + of_int t,
        e_ttl = t, e_rcode = rc', hits = 0, refreshing = False\<rparr> (entries c))"
    have "(k, e) \<in> set ?d" using dget_in [OF e(1)] unfolding E(1) by (rule in_set_dropD)
    then have "dget ?d k = Some e" using d by (simp only: dget_iff move_to_end_ok dict_ok_simps)
    with d e(2) show ?thesis by (auto simp: marked_def split: if_splits)
  qed (use assms Some r in \<open>simp add: cache_put_def\<close>)
qed (use assms in \<open>simp add: cache_put_def\<close>)

lemma marked_get:
  assumes "dict_ok (entries c)" and "marked (fst (cache_get c now key st)) k"
    and "cache_get c now key st = (c', pf, r)" and "ok r"
  shows "marked c k \<or> pf = Some k"
proof (cases "k = key")
  case True
  show ?thesis
  proof (rule ccontr)
    assume n: "\<not> ?thesis"
    from assms(2) obtain e' where e': "dget (entries (fst (cache_get c now key st))) key = Some e'" "refreshing e'"
      by (auto simp: marked_def True split: option.splits)
    then obtain e where e: "dget (entries c) key = Some e"
      using get_entry_after [OF assms(1), of now key st key] by (auto split: option.splits)
    from n e have ne: "\<not> refreshing e" by (simp add: marked_def True)
    let ?f = "now < expires_at e"
    have "snd (hit_entry c now e ?f)"
      using e' e ne get_entry_after [OF assms(1), of now key st key]
      by (auto simp: hit_entry_def Let_def split: if_splits)
    moreover have "?f \<or> \<not> expires_at e + of_int (serve_stale_for (cconf c)) \<le> now \<and> st"
      using e' e ne get_entry_after [OF assms(1), of now key st key] by (auto split: if_splits)
    ultimately have "fst (snd (cache_get c now key st)) = Some key"
      using e assms(3,4) by (auto simp: cache_get_def Let_def split: sum.splits)
    with n assms(3) True show False by simp
  qed
next
  case False
  then show ?thesis using assms(2) get_entry_after [OF assms(1), of now key st k]
    by (simp add: marked_def)
qed

lemma engine_inv_lookup: "engine_inv s \<Longrightarrow> engine_inv (fst (lookup_cache v s k st))"
proof -
  assume inv: "engine_inv s"
  then have c: "cache_inv (cache s)" and slots: "free_slots s + length (refreshes s) = MAX_PREFETCH_THREADS"
    and m: "\<And>k. marked (cache s) k \<Longrightarrow> k \<in> set (refreshes s)" by (auto simp: engine_inv_def)
  obtain c' pf r where g: "cache_get (cache s) (now_at v) k st = (c', pf, r)"
    by (cases "cache_get (cache s) (now_at v) k st")
  have c': "cache_inv c'" using cache_inv_get [OF c, of "now_at v" k st] g by simp
  have "ok r" using get_never_raises [OF c, of "now_at v" k st] g by simp
  from marked_get [OF cache_invD(1) [OF c] _ g this] g
  have m': "marked c' j \<Longrightarrow> marked (cache s) j \<or> pf = Some j" for j by simp
  show ?thesis
  proof (cases pf)
    case None
    with c' slots m m' show ?thesis by (auto simp: lookup_cache_def g engine_inv_def)
  next
    case (Some j)
    show ?thesis
    proof (cases "free_slots s = 0")
      case True
      with c' slots m m' Some show ?thesis
        by (auto simp: lookup_cache_def g engine_inv_def schedule_prefetch_def marked_finish cache_inv_finish)
    next
      case False
      with c' slots m m' Some show ?thesis
        by (auto simp: lookup_cache_def g engine_inv_def schedule_prefetch_def)
    qed
  qed
qed

lemma engine_inv_cong:
  "engine_inv s \<Longrightarrow> cache s' = cache s \<Longrightarrow> free_slots s' = free_slots s \<Longrightarrow> refreshes s' = refreshes s
   \<Longrightarrow> engine_inv s'"
  by (simp add: engine_inv_def)

lemma engine_inv_store: "engine_inv s \<Longrightarrow> engine_inv (store_cache v s k w)"
  by (auto simp: engine_inv_def store_cache_def cache_inv_put dest: marked_put)

lemma engine_inv_ask: "engine_inv s \<Longrightarrow> engine_inv (fst (ask v s q))"
  by (auto simp: ask_def elim: engine_inv_cong)

lemma engine_inv_share: "engine_inv s \<Longrightarrow> engine_inv (share s k w)"
  by (auto simp: share_def elim: engine_inv_cong)

lemma engine_inv_finish: "engine_inv s \<Longrightarrow> engine_inv (fst (finish s c q r a d g b))"
  by (erule engine_inv_cong) simp_all

lemma engine_inv_from_cache: "engine_inv s \<Longrightarrow> engine_inv (fst (from_cache v s k st))"
  using engine_inv_lookup [of s v k st] by (simp add: from_cache_def case_prod_beta)

lemma engine_inv_resolve: "engine_inv s \<Longrightarrow> engine_inv (fst (resolve_key v s k cd))"
  by (auto simp: resolve_key_def Let_def case_prod_beta engine_inv_ask engine_inv_share engine_inv_store
      engine_inv_from_cache split: sum.split flight_role.split option.split)

lemma engine_inv_rewrite: "engine_inv s \<Longrightarrow> engine_inv (fst (rewrite v s query q t))"
  by (auto simp: rewrite_def Let_def case_prod_beta engine_inv_ask engine_inv_store engine_inv_lookup
      split: sum.split option.split)

lemma engine_inv_answer_key: "engine_inv s \<Longrightarrow> engine_inv (fst (answer_key v s query c h q g p))"
  by (auto simp: answer_key_def Let_def case_prod_beta engine_inv_finish engine_inv_resolve engine_inv_lookup
      split: sum.split option.split)

lemma engine_inv_allowed: "engine_inv s \<Longrightarrow> engine_inv (fst (answer_allowed v s query c h q d g p))"
  by (auto simp: answer_allowed_def Let_def case_prod_beta engine_inv_finish engine_inv_rewrite
      engine_inv_answer_key split: sum.split option.split)

lemma engine_inv_handle: "engine_inv s \<Longrightarrow> engine_inv (fst (handle v s query c))"
  by (auto simp: handle_def handle_question_def decide_and_answer_def Let_def engine_inv_finish
      engine_inv_allowed split: sum.split option.split)

lemma engine_inv_refresh:
  assumes "engine_inv s" and "key \<in> set (refreshes s)"
  shows "engine_inv (run_refresh v s key)"
proof -
  from assms have c: "cache_inv (cache s)"
    and slots: "free_slots s + length (refreshes s) = MAX_PREFETCH_THREADS"
    and m: "\<And>k. marked (cache s) k \<Longrightarrow> k \<in> set (refreshes s)" by (auto simp: engine_inv_def)
  have len: "0 < length (refreshes s)" using assms(2) by (cases "refreshes s") auto
  from this have slots': "Suc (free_slots s + (length (refreshes s) - Suc 0)) = MAX_PREFETCH_THREADS"
    using slots by linarith
  have "k \<in> set (remove1 key (refreshes s))" if "marked (cache s) k" "k \<noteq> key" for k
    using m [OF that(1)] that(2) by (simp add: in_set_remove1)
  with c slots' assms(2) marked_put [OF c] show ?thesis
    by (auto simp: engine_inv_def run_refresh_def ask_def marked_finish cache_inv_finish cache_inv_put
        length_remove1 split: sum.split)
qed

section \<open>The transaction ID of every reply\<close>

lemma pack_unpack_H: "2 \<le> length xs \<Longrightarrow> pack_H (unpack_H xs 0) = take 2 xs"
  by (cases xs; cases "tl xs") (auto simp: unpack_H_def pack_join_H)

lemma header_id: "parse_header query = Inr h \<Longrightarrow> pack_H (msg_id h) = take 2 query"
  by (auto simp: parse_header_def HEADER_LEN_def pack_unpack_H split: if_splits)

lemma skeleton_id:
  assumes "response_skeleton query rc an = Inr (out, question, additional)"
  shows "take 2 out = take 2 query \<and> length out = 12"
proof -
  from assms obtain h qs e where h: "parse_header query = Inr h" "parse_questions query = Inr (qs, e)"
    by (auto simp: response_skeleton_def res_simps)
  have "2 \<le> length query" using h(1) by (auto simp: parse_header_def HEADER_LEN_def split: if_splits)
  with skeleton_Inr [OF assms h] header_id [OF h(1)] show ?thesis
    by (auto simp: pack_header_def min_def)
qed

lemma error_response_id: "build_error_response query rc = Inr w \<Longrightarrow> take 2 w = take 2 query"
  by (auto simp: build_error_response_def res_simps dest!: skeleton_id)

lemma address_response_id: "build_address_response query qt a t = Inr w \<Longrightarrow> take 2 w = take 2 query"
  by (auto simp: build_address_response_def res_simps dest!: skeleton_id split: option.splits)

lemma block_answer_id: "block_answer conf query q = Inr w \<Longrightarrow> take 2 w = take 2 query"
  by (auto simp: block_answer_def error_response_id address_response_id split: if_splits)

lemma prepare_reply_id:
  assumes "prepare_reply response query = Inr w"
  shows "take 2 w = take 2 query"
proof -
  from assms obtain h reply where h: "parse_header query = Inr h"
    and r: "set_message_id response (msg_id h) = Inr reply"
    by (auto simp: prepare_reply_def res_simps)
  have "w = reply \<or> (\<exists>t. w = take HEADER_LEN reply @ t)"
    using assms h r
    by (cases "parse_questions query"; cases "parse_questions reply")
       (auto simp: prepare_reply_def Let_def split: if_splits)
  note w = this
  have lq: "2 \<le> length query" using h by (auto simp: parse_header_def HEADER_LEN_def split: if_splits)
  have "take 2 reply = take 2 query" using r header_id [OF h] lq
    by (auto simp: set_message_id_def split: if_splits)
  moreover have "2 \<le> length reply" using r by (auto simp: set_message_id_def split: if_splits)
  ultimately show ?thesis using w lq by (auto simp: HEADER_LEN_def min_def)
qed

lemma finish_id:
  "snd (finish s c q r a d g b) = Inr (Some w) \<Longrightarrow> (\<And>x. r = Inr x \<Longrightarrow> take 2 x = take 2 query)
   \<Longrightarrow> take 2 w = take 2 query"
  by (auto simp: finish_reply)

lemma rewrite_id: "snd (rewrite v s query q t) = Inr (Some w) \<Longrightarrow> take 2 w = take 2 query"
  by (auto simp: rewrite_def Let_def case_prod_beta res_simps rewrite_answer_def address_response_id
      split: if_splits sum.splits option.splits)

lemma locally_id: "answer_locally s query q = Inr (Some w) \<Longrightarrow> take 2 w = take 2 query"
  by (auto simp: answer_locally_def res_simps address_response_id error_response_id
      split: if_splits option.splits bool.splits prod.splits)

lemma answer_key_id: "snd (answer_key v s query c h q g p) = Inr (Some w) \<Longrightarrow> take 2 w = take 2 query"
  by (auto simp: answer_key_def Let_def case_prod_beta finish_reply error_response_id block_answer_id
      prepare_reply_id split: sum.splits option.splits)

lemma answer_allowed_id:
  "snd (answer_allowed v s query c h q d g p) = Inr (Some w) \<Longrightarrow> take 2 w = take 2 query"
  by (auto simp: answer_allowed_def Let_def case_prod_beta finish_reply rewrite_id locally_id answer_key_id
      split: sum.splits option.splits if_splits)

lemma handle_question_id:
  "snd (handle_question v s query c h q) = Inr (Some w) \<Longrightarrow> take 2 w = take 2 query"
  by (auto simp: handle_question_def decide_and_answer_def Let_def finish_reply error_response_id
      block_answer_id answer_allowed_id split: option.splits if_splits)

section \<open>What reaches upstream\<close>

text \<open>The query goes down the filtering path: a question of class IN, not an ANY query that is refused,
  not the canary name, from a client of group \<open>g\<close> for which policy decides \<open>d\<close>.\<close>

definition filtered_query :: "env \<Rightarrow> engine \<Rightarrow> bytes \<Rightarrow> str \<Rightarrow> header \<Rightarrow> question \<Rightarrow> decision \<Rightarrow> group \<Rightarrow> bool" where
  "filtered_query v s query client h q d g =
     (parse_header query = Inr h \<and> \<not> is_response h \<and> opcode h = 0 \<and> first_question query = Inr (Some q)
      \<and> qclass q = CLASS_IN \<and> \<not> (refuse_any (econf s) \<and> qtype q = TYPE_ANY) \<and> \<not> in_canary (qname q)
      \<and> evaluate (engine_rx v) (engine_fnmatch v) (policies s) (qname q) client (moment_at v) = Some (d, g))"

lemma handle_filtered:
  "filtered_query v s query client h q d g \<Longrightarrow> handle v s query client = decide_and_answer v s query client h q d g"
  by (auto simp: filtered_query_def handle_def handle_question_def)

definition essential_hit :: "env \<Rightarrow> engine \<Rightarrow> str \<Rightarrow> rule_match option" where
  "essential_hit v s name = guard_match (engine_rx v) (compat_guard s) name"

text \<open>Policy blocks the name, or the shared lists do in a filtering group, and it is not essential.\<close>

definition must_block :: "env \<Rightarrow> engine \<Rightarrow> str \<Rightarrow> decision \<Rightarrow> group \<Rightarrow> bool" where
  "must_block v s name d g =
     (\<not> protects (essential_hit v s name) \<and>
      (blocked d \<or> filtering g \<and> d_action d = Allow \<and> essential_hit v s name = None
         \<and> is_allowed (lists s) name = None \<and> is_blocked (lists s) name \<noteq> None))"

lemma blocked_path:
  assumes "filtered_query v s query client h q d g" and "must_block v s (qname q) d g"
  shows "\<exists>d'. handle v s query client
    = finish s client q (block_answer (econf s) query q) ''block'' d' (gr_name g) False"
  using assms
  by (auto simp: handle_filtered decide_and_answer_def must_block_def essential_hit_def list_block_def
      Let_def blocked_def)

section \<open>Properties\<close>

datatype engine_op = Handle env bytes str | Refresh env nat

fun engine_step :: "engine_op \<Rightarrow> engine \<Rightarrow> engine" where
  "engine_step (Handle v query client) s = fst (handle v s query client)"
| "engine_step (Refresh v i) s =
     (if i < length (refreshes s) then run_refresh v s (refreshes s ! i) else s)"


text \<open>every reply carries the transaction ID of the query it answers, on every path, and a message
  that is itself a response, or too short to be a query, is never answered.\<close>

theorem reply_matches_query:
  assumes "snd (handle v s query client) = Inr (Some w)"
  shows "take 2 w = take 2 query \<and> (\<exists>h. parse_header query = Inr h \<and> \<not> is_response h)"
proof -
  from assms obtain h where h: "parse_header query = Inr h" "\<not> is_response h"
    by (auto simp: handle_def split: sum.splits if_splits)
  with assms show ?thesis
    by (auto simp: handle_def silent_on_format_error_def res_simps handle_question_id error_response_id
        split: sum.splits if_splits option.splits)
qed

text \<open>C2: a name that policy or the block lists block, and that is not an essential service, never
  reaches upstream: nothing is asked, the cache is not touched, and the answer is the configured
  block answer.\<close>

theorem blocked_stays_inside:
  assumes "filtered_query v s query client h q d g" and "must_block v s (qname q) d g"
  shows "asked (fst (handle v s query client)) = asked s \<and> cache (fst (handle v s query client)) = cache s
    \<and> snd (handle v s query client)
        = (case block_answer (econf s) query q of Inl e \<Rightarrow> Inl e | Inr w \<Rightarrow> Inr (Some w))"
  using blocked_path [OF assms] by (auto simp: finish_result)

lemma lookup_miss:
  assumes "dget (entries (cache s)) key = None"
  shows "lookup_cache v s key False
    = (s\<lparr>cache := (cache s)\<lparr>stats := (stats (cache s))\<lparr>s_misses := s_misses (stats (cache s)) + 1\<rparr>\<rparr>\<rparr>,
       Inr None)"
  using assms by (simp add: lookup_cache_def cache_get_def)

lemma cache_put_stats: "snd (cache_put (c\<lparr>stats := x\<rparr>) n k w r) = snd (cache_put c n k w r)"
  by (simp add: cache_put_def Let_def split: option.split prod.split)

text \<open>A fresh answer that is stored and looked up at the same moment comes back unchanged.\<close>

lemma lookup_after_store:
  assumes "cache_inv (cache s)" and "0 < max_entries (cconf (cache s))"
    and "0 < snd (cache_put (cache s) (now_at v) key w None)"
  shows "\<exists>l. snd (lookup_cache v (s\<lparr>cache := fst (cache_put (cache s) (now_at v) key w None)\<rparr>) key False)
      = Inr (Some l) \<and> l_wire l = w"
proof -
  obtain t rc' where p: "put_ttl (cconf (cache s)) w None = Some (t, rc')" and t: "0 < t"
    using assms(3) by (auto simp: cache_put_def Let_def split: option.splits if_splits)
  note d = put_dget [OF assms(1) p t assms(2), of "now_at v" key]
  have "snd (snd (cache_get (fst (cache_put (cache s) (now_at v) key w None)) (now_at v) key False))
      = Inr (Some \<lparr>l_wire = w, stale = False, age = 0\<rparr>)"
    using d t by (simp add: cache_get_def py_int_def with_ttls_reduced_def)
  then show ?thesis by (simp add: lookup_cache_def case_prod_beta Let_def)
qed

text \<open>The key a question is looked up under, and one whole miss on the leading thread.\<close>

definition query_key :: "engine \<Rightarrow> bytes \<Rightarrow> question \<Rightarrow> cache_key" where
  "query_key s query q = \<lparr>ck_name = qname q, ck_qtype = qtype q, ck_qclass = qclass q,
     ck_dnssec = (dnssec_passthrough (econf s) \<and> wants_dnssec query)\<rparr>"

definition fresh_answer :: "env \<Rightarrow> engine \<Rightarrow> bytes \<Rightarrow> header \<Rightarrow> question \<Rightarrow> bytes \<Rightarrow> bool" where
  "fresh_answer v s query h q w =
     (let key = query_key s query q in
      dget (entries (cache s)) key = None \<and> flags h AND 0x0010 = 0 \<and> role v = Leads
      \<and> resolve v (ck_name key, ck_qtype key, ck_qclass key, ck_dnssec key, False) = Inr w)"

definition after_fresh :: "env \<Rightarrow> engine \<Rightarrow> bytes \<Rightarrow> question \<Rightarrow> bytes \<Rightarrow> engine" where
  "after_fresh v s query q w =
     (let key = query_key s query q;
          s1 = s\<lparr>cache := (cache s)\<lparr>stats := (stats (cache s))\<lparr>s_misses := s_misses (stats (cache s)) + 1\<rparr>\<rparr>,
                 asked := asked s @ [(ck_name key, ck_qtype key, ck_qclass key, ck_dnssec key, False)]\<rparr>
      in share (store_cache v s1 key w) key w)"

lemma share_keeps [simp]:
  "cache (share s k w) = cache s" "econf (share s k w) = econf s" "lists (share s k w) = lists s"
  by (simp_all add: share_def)

lemma store_keeps [simp]:
  "econf (store_cache v s k w) = econf s" "lists (store_cache v s k w) = lists s"
  by (simp_all add: store_cache_def)

lemma answer_key_fresh:
  assumes "fresh_answer v s query h q w"
  defines "s' \<equiv> after_fresh v s query q w"
  shows "answer_key v s query client h q g protected =
    (case (if filtering g \<and> uncloak_cnames (econf s) \<and> \<not> protected then cname_block s w else None) of
       Some hidden \<Rightarrow> finish s' client q (block_answer (econf s) query q) ''block'' hidden (gr_name g) False
     | None \<Rightarrow>
       (case (if rebinding_protection (econf s) then rebinding_block (econf s) (qname q) w else None) of
          Some rebinding \<Rightarrow>
            finish s' client q (build_error_response query RCODE_NXDOMAIN) ''block'' rebinding (gr_name g) False
        | None \<Rightarrow>
            finish s' client q (prepare_reply w query) ''allow'' (mk_decision Allow [] [] []) (gr_name g) False))"
proof -
  let ?k = "query_key s query q"
  let ?s1 = "s\<lparr>cache := (cache s)\<lparr>stats := (stats (cache s))\<lparr>s_misses := s_misses (stats (cache s)) + 1\<rparr>\<rparr>\<rparr>"
  have k: "\<lparr>ck_name = qname q, ck_qtype = qtype q, ck_qclass = qclass q,
      ck_dnssec = (dnssec_passthrough (econf s) \<and> wants_dnssec query)\<rparr> = ?k"
    by (simp add: query_key_def)
  have m: "lookup_cache v s ?k False = (?s1, Inr None)"
    using lookup_miss [of s ?k v] assms(1) by (simp add: fresh_answer_def Let_def)
  have r: "resolve_key v ?s1 ?k False = (s', Inr (Some w, False))"
    using assms(1) by (simp add: resolve_key_def fresh_answer_def ask_def s'_def after_fresh_def Let_def)
  have f: "flags h AND 0x0010 = 0" using assms(1) by (simp add: fresh_answer_def Let_def)
  have c: "cname_block s' w = cname_block s w" "econf s' = econf s"
    by (simp_all add: cname_block_def s'_def after_fresh_def Let_def split: sum.split)
  show ?thesis
    unfolding answer_key_def Let_def k m prod.case sum.case option.case f r
    by (simp only: simp_thms if_False r prod.case sum.case option.case c)
qed

section \<open>Properties of answers\<close>


text \<open>that inspection is skipped for the cached copy: the answer refused as cloaked has already been
  stored, and asking again at once returns it to the client.\<close>

theorem refused_answer_served_from_cache:
  fixes client :: str
  assumes "fresh_answer v s query h q w" and "cache_inv (cache s)" and "0 < max_entries (cconf (cache s))"
    and "0 < snd (cache_put (cache s) (now_at v) (query_key s query q) w None)"
    and "filtering g" and "uncloak_cnames (econf s)" and "cname_block s w = Some hidden"
  defines "s1 \<equiv> fst (answer_key v s query client h q g False)"
  shows "snd (answer_key v s query client h q g False)
      = (case block_answer (econf s) query q of Inl e \<Rightarrow> Inl e | Inr b \<Rightarrow> Inr (Some b))
    \<and> snd (answer_key v s1 query client h q g False)
      = (case prepare_reply w query of Inl e \<Rightarrow> Inl e | Inr b \<Rightarrow> Inr (Some b))"
proof
  let ?k = "query_key s query q"
  have first: "answer_key v s query client h q g False
      = finish (after_fresh v s query q w) client q (block_answer (econf s) query q) ''block'' hidden (gr_name g) False"
    using assms(5-7) by (simp add: answer_key_fresh [OF assms(1)])
  then show "snd (answer_key v s query client h q g False)
      = (case block_answer (econf s) query q of Inl e \<Rightarrow> Inl e | Inr b \<Rightarrow> Inr (Some b))"
    by (simp add: finish_result)
  define c where "c = (cache s)\<lparr>stats := (stats (cache s))\<lparr>s_misses := s_misses (stats (cache s)) + 1\<rparr>\<rparr>"
  have c: "cache_inv c" "0 < max_entries (cconf c)" "0 < snd (cache_put c (now_at v) ?k w None)"
    using assms(2-4) by (simp_all add: c_def cache_inv_def cache_put_stats)
  have s1: "cache s1 = fst (cache_put c (now_at v) ?k w None)" "econf s1 = econf s"
    using first by (simp_all add: s1_def c_def after_fresh_def store_cache_def Let_def finish_def split: sum.split)
  then have k: "query_key s1 query q = ?k" by (simp add: query_key_def)
  have "cache (s1\<lparr>cache := c\<rparr>) = c" by simp
  with lookup_after_store [of "s1\<lparr>cache := c\<rparr>" v ?k w] c s1 obtain l
    where l: "snd (lookup_cache v s1 ?k False) = Inr (Some l)" "l_wire l = w"
    by (auto simp: lookup_cache_def Let_def case_prod_beta)
  then show "snd (answer_key v s1 query client h q g False)
      = (case prepare_reply w query of Inl e \<Rightarrow> Inl e | Inr b \<Rightarrow> Inr (Some b))"
    using k by (cases "lookup_cache v s1 ?k False")
      (simp add: answer_key_def query_key_def finish_result)
qed

text \<open>a query whose question section cannot be parsed is not answered with FORMERR: building that
  answer parses the question again, so the exception leaves \<open>handle\<close>.\<close>

theorem unparseable_question_raises:
  assumes "parse_header query = Inr h" and "\<not> is_response h" and "opcode h = 0"
    and "first_question query = Inl DNSFormatError"
  shows "handle v s query client = (s, Inl DNSFormatError)"
proof -
  have e: "parse_questions query = Inl DNSFormatError"
    using assms(4) by (cases "parse_questions query") (auto simp: first_question_def)
  with assms show ?thesis
    by (simp add: handle_def build_error_response_def response_skeleton_def)
qed

text \<open>Replacing the lists and the policies commutes with everything after the decision.\<close>

definition with_rules :: "manager \<Rightarrow> policy \<Rightarrow> engine \<Rightarrow> engine" where
  "with_rules m p s = s\<lparr>lists := m, policies := p\<rparr>"

lemma with_rules_keeps [simp]:
  "econf (with_rules m p s) = econf s" "cache (with_rules m p s) = cache s"
  "local_names (with_rules m p s) = local_names s" "clustered (with_rules m p s) = clustered s"
  "free_slots (with_rules m p s) = free_slots s" "refreshes (with_rules m p s) = refreshes s"
  "asked (with_rules m p s) = asked s" "compat_guard (with_rules m p s) = compat_guard s"
  by (simp_all add: with_rules_def)

lemma lookup_with_rules:
  "lookup_cache v (with_rules m p s) k st = apfst (with_rules m p) (lookup_cache v s k st)"
  by (simp add: lookup_cache_def schedule_prefetch_def with_rules_def Let_def case_prod_beta apfst_def
      map_prod_def split: option.split)

lemma ask_with_rules: "ask v (with_rules m p s) q = apfst (with_rules m p) (ask v s q)"
  by (simp add: ask_def with_rules_def)

lemma store_with_rules: "store_cache v (with_rules m p s) k w = with_rules m p (store_cache v s k w)"
  by (simp add: store_cache_def with_rules_def)

lemma share_with_rules: "share (with_rules m p s) k w = with_rules m p (share s k w)"
  by (simp add: share_def with_rules_def)

lemma from_cache_with_rules:
  "from_cache v (with_rules m p s) k st = apfst (with_rules m p) (from_cache v s k st)"
  by (simp add: from_cache_def lookup_with_rules case_prod_beta)

lemma resolve_with_rules:
  "resolve_key v (with_rules m p s) k cd = apfst (with_rules m p) (resolve_key v s k cd)"
  by (simp add: resolve_key_def ask_with_rules from_cache_with_rules share_with_rules store_with_rules Let_def
      case_prod_beta split: sum.split flight_role.split option.split)

lemma answer_key_with_rules:
  "snd (answer_key v (with_rules m p s) query c h q g True) = snd (answer_key v s query c h q g' True)"
  by (simp add: answer_key_def lookup_with_rules resolve_with_rules Let_def case_prod_beta finish_result
      split: sum.split option.split)

lemma answer_allowed_with_rules:
  "snd (answer_allowed v (with_rules m p s) query c h q (mk_decision Allow r l t) g True)
     = snd (answer_allowed v s query c h q (mk_decision Allow r l t) g' True)"
proof -
  have "answer_locally (with_rules m p s) query q = answer_locally s query q"
  proof -
    have "local_lookup (with_rules m p s) n = local_lookup s n" for n
      by (simp only: local_lookup_def with_rules_keeps)
    then show ?thesis by (simp only: answer_locally_def with_rules_keeps)
  qed
  then show ?thesis
    using answer_key_with_rules [of v m p s query c h q g g']
    by (simp add: answer_allowed_def mk_decision_def finish_result split: sum.split option.split)
qed

text \<open>what is essential cannot be taken away: for an essential name the reply does not depend on
  the block lists, nor on which group, schedule or decision policy comes to.\<close>

theorem essential_reply_independent:
  assumes "protects (essential_hit v s (qname q))"
    and "filtered_query v s query client h q d g"
    and "filtered_query v (s\<lparr>lists := m, policies := p\<rparr>) query client h q d' g'"
  shows "snd (handle v s query client) = snd (handle v (s\<lparr>lists := m, policies := p\<rparr>) query client)"
proof -
  have e: "protects (guard_match (engine_rx v) (compat_guard s) (qname q))"
    using assms(1) by (simp add: essential_hit_def)
  have "handle v s query client = decide_and_answer v s query client h q d g"
    by (rule handle_filtered [OF assms(2)])
  moreover have "handle v (with_rules m p s) query client = decide_and_answer v (with_rules m p s) query client h q d' g'"
    using handle_filtered [OF assms(3)] by (simp add: with_rules_def)
  ultimately show ?thesis
    using e answer_allowed_with_rules [of v m p s query client h q _ _ _ g' g]
    by (simp add: decide_and_answer_def Let_def with_rules_def [symmetric])
qed

text \<open>names of the local zones stay inside: for an allowed name under one of them, a reverse name
  only if it is of a private range, nothing is asked upstream and the answer is local.\<close>

theorem local_zones_stay_inside:
  assumes "handle_local_zones (econf s)" and "local_zone LOCAL_ZONES (qname q) = Some True"
    and "d_action d \<noteq> Rewrite"
  shows "asked (fst (answer_allowed v s query client h q d g protected)) = asked s
    \<and> (local_lookup s (qname q) = None \<longrightarrow>
        snd (answer_allowed v s query client h q d g protected)
          = (case build_error_response query RCODE_NXDOMAIN of Inl e \<Rightarrow> Inl e | Inr w \<Rightarrow> Inr (Some w)))"
proof -
  have n: "answer_locally s query q \<noteq> Inr None"
    using assms(1,2)
    by (auto simp: answer_locally_def res_simps split: option.splits bool.splits prod.splits)
  have "local_lookup s (qname q) = None \<Longrightarrow>
      answer_locally s query q = rbind (build_error_response query RCODE_NXDOMAIN) (\<lambda>w. Inr (Some w))"
    using assms(1,2) by (simp add: answer_locally_def)
  with n assms(3) show ?thesis
    by (cases "build_error_response query RCODE_NXDOMAIN"; cases "answer_locally s query q")
       (auto simp: answer_allowed_def finish_result split: option.split)
qed

section \<open>Witnesses\<close>

definition sample_engine :: engine where
  "sample_engine = \<lparr>lists = (sample_manager [])\<lparr>m_block := add_suffix ''t.co'' ''l'' empty_set\<rparr>,
     compat_guard = \<lparr>g_enabled = True, g_exclude = [], g_profiles = [],
       g_rules = add_suffix ''a.co'' ''essential:time'' empty_set, g_service_of = []\<rparr>,
     policies = new_policy no_regex [] [] ''default'', cache = new_cache default_cache_config True,
     econf = default_engine_config, local_names = [], clustered = False, shared_answers = [],
     free_slots = 8, refreshes = [], log_queries = True, asked = [], qlog = []\<rparr>"

definition plain_engine :: engine where
  "plain_engine = sample_engine\<lparr>compat_guard := new_guard False [] [] []\<rparr>"

definition sample_env :: "bytes \<Rightarrow> env" where
  "sample_env w = \<lparr>now_at = 1000, moment_at = \<lparr>weekday = 0, time_of_day = 0\<rparr>, resolve = \<lambda>_. Inr w,
     role = Leads, engine_rx = no_regex, engine_fnmatch = \<lambda>_ _. False\<rparr>"

definition sample_question :: question where
  "sample_question = \<lparr>qname = ''a.co'', qtype = 1, qclass = 1\<rparr>"

definition sample_group :: group where "sample_group = new_group no_regex ''default''"

text \<open>The answer that \<open>a.co\<close> is an alias of the tracker \<open>t.co\<close>.\<close>

definition cloaked_response :: bytes where
  "cloaked_response =
     [0, 7, 0x81, 0x80, 0, 1, 0, 1, 0, 0, 0, 0, 1, 97, 2, 99, 111, 0, 0, 1, 0, 1,
      0xC0, 12, 0, 5, 0, 1, 0, 0, 1, 44, 0, 6, 1, 116, 2, 99, 111, 0]"

lemma sample_header_bits: "is_response sample_query_header = False" "opcode sample_query_header = 0"
    "flags sample_query_header AND 0x0010 = 0"
  by code_simp+

lemma sample_evaluates:
  "evaluate no_regex f (new_policy no_regex [] [] ''default'') n c m = Some (ALLOW, sample_group)"
proof -
  have s: "allow_set sample_group = empty_set" "block_set sample_group = empty_set"
    "category_set sample_group = empty_set" "schedules sample_group = []" "default_deny sample_group = False"
    "safe_search sample_group = False" "youtube_restrict sample_group = []"
    by (simp_all add: sample_group_def new_group_def refresh_group_def domain_set_of_def category_set_of_def)
  have "decide no_regex sample_group m n = ALLOW"
    by (simp add: decide_def s safe_search_target_def)
  moreover have "group_for f (new_policy no_regex [] [] ''default'') c = Some sample_group"
    by (simp add: group_for_def group_name_for_def hinted_group_def network_group_def new_policy_def
        compile_devices_def sample_group_def split: option.split)
  ultimately show ?thesis by (simp add: evaluate_def)
qed

lemma sample_filtered:
  assumes "policies s = new_policy no_regex [] [] ''default''" and "econf s = default_engine_config"
  shows "filtered_query (sample_env w) s sample_query c sample_query_header sample_question ALLOW sample_group"
proof -
  have "first_question sample_query = Inr (Some sample_question)"
    by (simp add: first_question_def sample_query_parse sample_question_def)
  moreover have "\<not> in_canary ''a.co''" by code_simp
  ultimately show ?thesis
    using assms sample_evaluates
    by (simp add: filtered_query_def sample_query_parse sample_header_bits sample_env_def
        sample_question_def CLASS_IN_def TYPE_ANY_def)
qed

lemma sample_engine_inv: "engine_inv plain_engine"
  using cache_inv_new [of default_cache_config True]
  by (simp add: engine_inv_def plain_engine_def sample_engine_def MAX_PREFETCH_THREADS_def marked_def new_cache_def)


lemma sample_block_answer:
  "\<exists>w. block_answer default_engine_config sample_query sample_question = Inr w"
proof -
  have "ok (build_address_response sample_query TYPE_A (Some (V4 0)) 60)"
    using skeleton_ok [of sample_query RCODE_NOERROR 1]
    by (cases "response_skeleton sample_query RCODE_NOERROR 1")
       (auto simp: sample_query_parse build_address_response_def pack_ttl_def)
  then obtain w where "build_address_response sample_query TYPE_A (Some (V4 0)) 60 = Inr w"
    by (cases "build_address_response sample_query TYPE_A (Some (V4 0)) 60") auto
  then show ?thesis
    by (simp add: block_answer_def default_engine_config_def sample_question_def TYPE_A_def)
qed

text \<open>With \<open>a.co\<close> itself on the block list, and no guard.\<close>

definition blocking_engine :: engine where
  "blocking_engine = plain_engine\<lparr>lists := (sample_manager [])\<lparr>m_block := add_suffix ''co'' ''l'' empty_set\<rparr>\<rparr>"

lemma co_covered: "match no_regex (add_suffix ''co'' ''l'' empty_set) ''a.co'' \<noteq> None"
  by (simp add: ds.hit_add is_under_def del: not_None_eq) code_simp

lemma blocking_must_block: "must_block (sample_env w) blocking_engine ''a.co'' ALLOW sample_group"
proof -
  have n: "no_regex = po_rx sample_opts" by (simp add: no_regex_def sample_opts_def)
  show ?thesis
    using co_covered
    by (simp add: must_block_def essential_hit_def blocking_engine_def plain_engine_def guard_match_def
        new_guard_def protects_def ALLOW_def mk_decision_def sample_group_def new_group_def refresh_group_def
        is_allowed_def is_blocked_def sample_manager_def n del: not_None_eq)
qed

theorem blocked_stays_inside_witness:
  "asked (fst (handle (sample_env []) blocking_engine sample_query ''c'')) = []
    \<and> (\<exists>w. snd (handle (sample_env []) blocking_engine sample_query ''c'') = Inr (Some w))"
proof -
  have f: "filtered_query (sample_env []) blocking_engine sample_query ''c'' sample_query_header
      sample_question ALLOW sample_group"
    by (rule sample_filtered) (simp_all add: blocking_engine_def plain_engine_def sample_engine_def)
  have b: "must_block (sample_env []) blocking_engine (qname sample_question) ALLOW sample_group"
    using blocking_must_block by (simp add: sample_question_def)
  from blocked_stays_inside [OF f b] sample_block_answer show ?thesis
    by (auto simp: blocking_engine_def plain_engine_def sample_engine_def)
qed

theorem reply_matches_query_witness:
  "\<exists>w. snd (handle (sample_env []) blocking_engine sample_query ''c'') = Inr (Some w)
    \<and> take 2 w = [0x12, 0x34]"
proof -
  have f: "filtered_query (sample_env []) blocking_engine sample_query ''c'' sample_query_header
      sample_question ALLOW sample_group"
    by (rule sample_filtered) (simp_all add: blocking_engine_def plain_engine_def sample_engine_def)
  have b: "must_block (sample_env []) blocking_engine (qname sample_question) ALLOW sample_group"
    using blocking_must_block by (simp add: sample_question_def)
  from blocked_path [OF f b] sample_block_answer
  obtain w where w: "snd (handle (sample_env []) blocking_engine sample_query ''c'') = Inr (Some w)"
    by (auto simp: finish_result blocking_engine_def plain_engine_def sample_engine_def)
  from reply_matches_query [OF w] w show ?thesis by (simp add: sample_query_def)
qed

lemma no_edns_dnssec: "wants_dnssec sample_query = False"
  by code_simp

lemma sample_query_key: "query_key plain_engine sample_query sample_question = \<lparr>ck_name = ''a.co'', ck_qtype = 1,
    ck_qclass = 1, ck_dnssec = False\<rparr>"
  by (simp add: query_key_def no_edns_dnssec sample_question_def)

lemma cloaked_fresh: "fresh_answer (sample_env cloaked_response) plain_engine sample_query sample_query_header
    sample_question cloaked_response"
  by (simp add: fresh_answer_def Let_def sample_query_key sample_env_def sample_header_bits)
     (simp add: plain_engine_def sample_engine_def new_cache_def)

lemma cloaked_header: "parse_header cloaked_response = Inr \<lparr>msg_id = 7, flags = 0x8180, qdcount = 1, ancount = 1,
    nscount = 0, arcount = 0\<rparr>"
  by code_simp

lemma cloaked_records: "iter_records cloaked_response = ([\<lparr>rname = ''a.co'', rtype = 5, rclass = 1, ttl = 300,
    rdata = [1, 116, 2, 99, 111, 0], ttl_offset = 28\<rparr>], None)"
  by code_simp

lemma cloaked_chain: "cname_chain cloaked_response = Inr [''t.co'']"
  by code_simp

lemma cloaked_blocked: "\<exists>d. cname_block plain_engine cloaked_response = Some d"
proof -
  have "match (\<lambda>_. None) (add_suffix ''t.co'' ''l'' empty_set) ''t.co'' \<noteq> None"
    by (simp add: ds.hit_add is_under_def del: not_None_eq) code_simp
  then show ?thesis
    by (auto simp: cname_block_def cloaked_chain plain_engine_def sample_engine_def is_allowed_def is_blocked_def
        sample_manager_def sample_opts_def)
qed


lemma cloaked_put:
  "0 < snd (cache_put (cache plain_engine) 1000 (query_key plain_engine sample_query sample_question) cloaked_response None)"
proof -
  have "put_ttl default_cache_config cloaked_response None = Some (300, 0)"
    by (simp add: put_ttl_def cloaked_header sample_flags message_ttl_def all_records_def cloaked_records
        live_ttls_def RCODE_NOERROR_def TYPE_OPT_def default_cache_config_def clamp_def)
  then show ?thesis
    by (simp add: cache_put_def plain_engine_def sample_engine_def new_cache_def)
qed

theorem refused_answer_served_from_cache_witness:
  "\<exists>s1 w. s1 = fst (answer_key (sample_env cloaked_response) plain_engine sample_query ''c'' sample_query_header
        sample_question sample_group False)
    \<and> snd (answer_key (sample_env cloaked_response) s1 sample_query ''c'' sample_query_header sample_question
        sample_group False) = Inr (Some w)
    \<and> cname_chain w = Inr [''t.co'']"
proof -
  obtain d where d: "cname_block plain_engine cloaked_response = Some d" using cloaked_blocked by blast
  have c: "cache_inv (cache plain_engine)" "0 < max_entries (cconf (cache plain_engine))"
    "filtering sample_group" "uncloak_cnames (econf plain_engine)" "now_at (sample_env cloaked_response) = 1000"
    using cache_inv_new [of default_cache_config True]
    by (simp_all add: sample_group_def new_group_def refresh_group_def plain_engine_def sample_engine_def
        default_engine_config_def new_cache_def default_cache_config_def sample_env_def)
  have put: "0 < snd (cache_put (cache plain_engine) (now_at (sample_env cloaked_response))
      (query_key plain_engine sample_query sample_question) cloaked_response None)"
    using cloaked_put by (simp add: c(5))
  have "prepare_reply cloaked_response sample_query = Inr ([0x12, 0x34] @ drop 2 cloaked_response)"
    by code_simp
  moreover have "cname_chain ([0x12, 0x34] @ drop 2 cloaked_response) = Inr [''t.co'']" by code_simp
  ultimately show ?thesis
    using refused_answer_served_from_cache [OF cloaked_fresh c(1,2) put c(3,4) d, of "''c''"] by simp
qed

theorem unparseable_question_raises_witness:
  "handle (sample_env []) plain_engine [0, 1, 1, 0, 0, 1, 0, 0, 0, 0, 0, 0, 0xC0] ''c'' = (plain_engine, Inl DNSFormatError)"
proof -
  have h: "parse_header [0, 1, 1, 0, 0, 1, 0, 0, 0, 0, 0, 0, 0xC0] = Inr \<lparr>msg_id = 1, flags = 0x0100, qdcount = 1,
      ancount = 0, nscount = 0, arcount = 0\<rparr>" by code_simp
  have q: "first_question [0, 1, 1, 0, 0, 1, 0, 0, 0, 0, 0, 0, 0xC0] = Inl DNSFormatError" by code_simp
  show ?thesis by (rule unparseable_question_raises [OF h _ _ q]) code_simp+
qed

text \<open>The name is essential in \<^const>\<open>sample_engine\<close>; the same reply with no lists and with lists.\<close>

theorem essential_reply_independent_witness:
  "snd (handle (sample_env []) sample_engine sample_query ''c'')
     = snd (handle (sample_env []) (sample_engine\<lparr>lists := lists blocking_engine,
         policies := policies blocking_engine\<rparr>) sample_query ''c'')"
proof -
  have "match no_regex (add_suffix ''a.co'' ''essential:time'' empty_set) ''a.co''
      = Some \<lparr>m_rule = ''*.a.co'', m_source = ''essential:time''\<rparr>"
    by code_simp
  then have p: "protects (essential_hit (sample_env []) sample_engine (qname sample_question))"
    by (simp add: essential_hit_def sample_engine_def sample_env_def guard_match_def protects_def sample_question_def)
  have f: "filtered_query (sample_env []) sample_engine sample_query ''c'' sample_query_header
      sample_question ALLOW sample_group"
    by (rule sample_filtered) (simp_all add: sample_engine_def)
  have g: "filtered_query (sample_env []) (sample_engine\<lparr>lists := lists blocking_engine,
      policies := policies blocking_engine\<rparr>) sample_query ''c'' sample_query_header sample_question ALLOW sample_group"
    by (rule sample_filtered) (simp_all add: sample_engine_def blocking_engine_def plain_engine_def)
  show ?thesis by (rule essential_reply_independent [OF p f g])
qed

theorem local_zones_stay_inside_witness:
  "asked (fst (answer_allowed (sample_env []) plain_engine sample_query ''c'' sample_query_header
      \<lparr>qname = ''printer.lan'', qtype = 1, qclass = 1\<rparr> ALLOW sample_group False)) = []"
proof -
  have "local_zone LOCAL_ZONES ''printer.lan'' = Some True" by code_simp
  then have z: "local_zone LOCAL_ZONES (qname \<lparr>qname = ''printer.lan'', qtype = 1, qclass = 1\<rparr>) = Some True" by simp
  have "handle_local_zones (econf plain_engine)" "d_action ALLOW \<noteq> Rewrite" "asked plain_engine = []"
    by (simp_all add: plain_engine_def sample_engine_def default_engine_config_def ALLOW_def mk_decision_def)
  with local_zones_stay_inside [OF _ z, of plain_engine ALLOW "sample_env []" sample_query "''c''" sample_query_header
      sample_group False] show ?thesis by simp
qed

end
