(* ===== verification/CacheFile.thy ===== *)
theory CacheFile
  imports Cache
begin

text \<open>
  The cache file, \<open>symbivpn/cache.py\<close> (\<open>DNSCache.save\<close> and \<open>DNSCache.load\<close>): a magic, a count and
  one packed row per entry.  The float, string and gzip codecs of the standard library are
  parameters; file reads and writes are outcomes.
\<close>

section \<open>Writing\<close>

record codec =
  enc_d :: "time \<Rightarrow> bytes"
  dec_d :: "bytes \<Rightarrow> time"
  enc_s :: "str \<Rightarrow> bytes"
  dec_s :: "bytes \<Rightarrow> str option"

definition cache_magic :: bytes where
  "cache_magic = [0x57, 0x47, 0x44, 0x43, 0x33]"

definition save_row :: "codec \<Rightarrow> cache_key \<Rightarrow> cache_entry \<Rightarrow> bytes res" where
  "save_row cd key e =
     (let name = enc_s cd (ck_name key) in
      if e_ttl e < 0 \<or> 2 ^ 32 \<le> e_ttl e \<or> 2 ^ 32 \<le> hits e then Inl StructError
      else Inr (pack_H (of_nat (length name)) @ name @ pack_H (ck_qtype key) @ pack_H (ck_qclass key)
        @ [if ck_dnssec key then 1 else 0] @ enc_d cd (stored_at e) @ enc_d cd (expires_at e)
        @ pack_I (of_int (e_ttl e)) @ pack_I (of_nat (hits e)) @ pack_H (of_nat (length (wire e)))
        @ wire e))"

definition savable :: "codec \<Rightarrow> time \<Rightarrow> cache_key \<times> cache_entry \<Rightarrow> bool" where
  "savable cd now p = (now < expires_at (snd p)
     \<and> \<not> (0xFFFF < length (enc_s cd (ck_name (fst p))) \<or> 0xFFFF < length (wire (snd p))))"

fun save_rows :: "codec \<Rightarrow> time \<Rightarrow> (cache_key \<times> cache_entry) list \<Rightarrow> (nat \<times> bytes) res" where
  "save_rows cd now [] = Inr (0, [])"
| "save_rows cd now ((key, e) # es) =
     (if \<not> savable cd now (key, e) then save_rows cd now es
      else rbind (save_row cd key e) (\<lambda>r.
           rbind (save_rows cd now es) (\<lambda>(n, body). Inr (Suc n, r @ body))))"

definition cache_file :: "codec \<Rightarrow> dns_cache \<Rightarrow> time \<Rightarrow> (nat \<times> bytes) res" where
  "cache_file cd c now =
     rbind (save_rows cd now (entries c)) (\<lambda>(saved, body).
       if 2 ^ 32 \<le> saved then Inl StructError
       else Inr (saved, cache_magic @ pack_I (of_nat saved) @ body))"

text \<open>What is written, if anything, and the number reported.\<close>

definition save :: "codec \<Rightarrow> (bytes \<Rightarrow> bytes) \<Rightarrow> dns_cache \<Rightarrow> time \<Rightarrow> bool \<Rightarrow> bool \<Rightarrow> (bytes option \<times> nat) res" where
  "save cd compress c now has_path io_ok =
     (if \<not> has_path then Inr (None, 0)
      else rbind (cache_file cd c now) (\<lambda>(saved, out).
        Inr (if io_ok then (Some (compress out), saved) else (None, 0))))"

section \<open>Reading\<close>

definition load_row :: "codec \<Rightarrow> bytes \<Rightarrow> nat \<Rightarrow> (cache_key \<times> cache_entry \<times> nat) res" where
  "load_row cd raw off =
     (if length raw < off + 2 then Inl StructError
      else let name_len = unat (unpack_H raw off); off1 = off + 2 in
      if length raw < off1 + name_len then Inl IndexError
      else case dec_s cd (slice off1 (off1 + name_len) raw) of None \<Rightarrow> Inl UnicodeDecodeError
      | Some name \<Rightarrow>
        let off2 = off1 + name_len in
        if length raw < off2 + 5 then Inl StructError
        else let off3 = off2 + 5 in
        if length raw < off3 + 26 then Inl StructError
        else let wire_len = unat (unpack_H raw (off3 + 24)); off4 = off3 + 26 in
        if length raw < off4 + wire_len then Inl IndexError
        else Inr (\<lparr>ck_name = name, ck_qtype = unpack_H raw off2, ck_qclass = unpack_H raw (off2 + 2),
                   ck_dnssec = (raw ! (off2 + 4) \<noteq> 0)\<rparr>,
                  \<lparr>wire = slice off4 (off4 + wire_len) raw,
                   stored_at = dec_d cd (slice off3 (off3 + 8) raw),
                   expires_at = dec_d cd (slice (off3 + 8) (off3 + 16) raw),
                   e_ttl = uint (unpack_I raw (off3 + 16)), e_rcode = 0,
                   hits = unat (unpack_I raw (off3 + 20)), refreshing = False\<rparr>,
                  off4 + wire_len))"

text \<open>The loop: the entries so far, the number restored, and the exception that stopped it.\<close>

fun load_rows :: "codec \<Rightarrow> time \<Rightarrow> bytes \<Rightarrow> nat \<Rightarrow> nat \<Rightarrow> (cache_key, cache_entry) dict \<Rightarrow> nat
    \<Rightarrow> (cache_key, cache_entry) dict \<times> nat \<times> err option" where
  "load_rows cd now raw 0 off d n = (d, n, None)"
| "load_rows cd now raw (Suc count) off d n =
     (case load_row cd raw off of
        Inl x \<Rightarrow> (d, n, Some x)
      | Inr (key, e, off') \<Rightarrow>
          if expires_at e \<le> now then load_rows cd now raw count off' d n
          else case message_ttl (wire e) 0 of
            Inl x \<Rightarrow> (d, n, Some x)
          | Inr _ \<Rightarrow>
              (case parse_header (wire e) of
                 Inl x \<Rightarrow> (d, n, Some x)
               | Inr h \<Rightarrow> load_rows cd now raw count off' (dset key (e\<lparr>e_rcode := rcode h\<rparr>) d) (Suc n)))"

text \<open>The exceptions that count as a corrupt file.\<close>

definition corrupt_file :: "err \<Rightarrow> bool" where
  "corrupt_file x = (x \<in> {StructError, IndexError, UnicodeDecodeError, DNSFormatError})"

text \<open>Reading and decompressing the file: missing, or an \<open>OSError\<close> or \<open>BadGzipFile\<close>, which are
  handled, or an exception \<open>gzip.decompress\<close> raises beside these, or the contents.\<close>

datatype file_read = NoFile | Unreadable | Raises err | Contents bytes

definition load :: "codec \<Rightarrow> dns_cache \<Rightarrow> time \<Rightarrow> file_read \<Rightarrow> dns_cache \<times> nat res" where
  "load cd c now file =
     (case file of
        NoFile \<Rightarrow> (c, Inr 0)
      | Unreadable \<Rightarrow> (c, Inr 0)
      | Raises x \<Rightarrow> (c, Inl x)
      | Contents raw \<Rightarrow>
          if take 5 raw \<noteq> cache_magic then (c, Inr 0)
          else if length raw < 9 then (c, Inr 0)
          else case load_rows cd now raw (unat (unpack_I raw 5)) 9 (entries c) 0 of
            (d, n, None) \<Rightarrow> (evict_if_needed (c\<lparr>entries := d\<rparr>), Inr n)
          | (d, n, Some x) \<Rightarrow> (c\<lparr>entries := d\<rparr>, if corrupt_file x then Inr n else Inl x))"

section \<open>What reading can raise\<close>

lemma read_loop_err: "read_loop data c t j en ls = Inl x \<Longrightarrow> x = DNSFormatError"
proof (induction data c t j en ls rule: read_loop.induct)
  case (1 data c t j en ls)
  let ?p = "unat (unpack_H data c AND 0x3FFF)"
  let ?en = "case en of None \<Rightarrow> Some (c + 2) | Some x \<Rightarrow> Some x"
  let ?n = "unat (data ! c)"
  consider (e) "length data \<le> c" | (ptr) "c < length data" "data ! c AND 0xC0 = 0xC0"
    | (nul) "c < length data" "data ! c = 0"
    | (lab) "c < length data" "data ! c AND 0xC0 = 0" "data ! c \<noteq> 0"
    | (bad) "c < length data" "data ! c AND 0xC0 \<noteq> 0xC0" "data ! c AND 0xC0 \<noteq> 0"
    by force
  then show ?case
  proof cases
    case ptr
    show ?thesis
    proof (cases "c + 1 < length data \<and> ?p < c \<and> j < 64")
      case True
      have "read_loop data ?p t (j + 1) ?en ls = Inl x"
        using "1.prems" unfolding read_loop_ptr [OF ptr] if_P [OF True] .
      then show ?thesis by (intro "1.IH"(1) [OF _ refl ptr(2) _ refl refl]) (use True ptr in auto)
    next
      case False
      show ?thesis using "1.prems" unfolding read_loop_ptr [OF ptr] if_not_P [OF False] by simp
    qed
  next
    case lab
    show ?thesis
    proof (cases "c + 1 + ?n \<le> length data \<and> t + ?n + 1 \<le> 255")
      case True
      have "read_loop data (c + 1 + ?n) (t + ?n + 1) j en
          (ls @ [lower (map latin1 (slice (c + 1) (c + 1 + ?n) data))]) = Inl x"
        using "1.prems" unfolding read_loop_lab [OF lab] if_P [OF True] .
      then show ?thesis by (intro "1.IH"(2)) (use True lab in \<open>auto simp: MAX_NAME_LEN_def\<close>)
    next
      case False
      show ?thesis using "1.prems" unfolding read_loop_lab [OF lab] if_not_P [OF False] by simp
    qed
  qed (use "1.prems" in \<open>simp_all add: read_loop_end read_loop_nul read_loop_bad\<close>)
qed

lemma read_name_err: "read_name data i = Inl x \<Longrightarrow> x = DNSFormatError"
  by (auto simp: read_name_def res_simps dest: read_loop_err)

lemma parse_header_err: "parse_header data = Inl x \<Longrightarrow> x = DNSFormatError"
  by (auto simp: parse_header_def split: if_splits)

lemma questions_loop_err: "questions_loop data n i = Inl x \<Longrightarrow> x = DNSFormatError"
  by (induction n arbitrary: i) (auto simp: res_simps split: if_splits prod.splits dest: read_name_err)

lemma records_loop_err: "records_loop data n i = (rs, Some x) \<Longrightarrow> x = DNSFormatError"
proof (induction n arbitrary: i rs)
  case (Suc n)
  show ?case
  proof (cases "read_name data i")
    case (Inl y)
    then show ?thesis using Suc.prems read_name_err by auto
  next
    case (Inr p)
    then show ?thesis using Suc
      by (cases p) (auto simp: Let_def split: if_splits prod.splits)
  qed
qed simp

lemma all_records_err: "all_records data = Inl x \<Longrightarrow> x = DNSFormatError"
  by (auto simp: all_records_def iter_records_def parse_questions_def res_simps
      split: prod.splits option.splits sum.splits
      dest: records_loop_err parse_header_err questions_loop_err)

lemma message_ttl_err: "message_ttl data n = Inl x \<Longrightarrow> x = DNSFormatError"
  by (auto simp: message_ttl_def res_simps dest: all_records_err)

lemma load_row_err: "load_row cd raw off = Inl x \<Longrightarrow> corrupt_file x"
  by (auto simp: load_row_def corrupt_file_def Let_def split: if_splits option.splits)

lemma load_rows_err: "load_rows cd now raw n off d k = (d', k', Some x) \<Longrightarrow> corrupt_file x"
proof (induction cd now raw n off d k rule: load_rows.induct)
  case (2 cd now raw count off d n)
  then show ?case
    by (auto split: sum.splits prod.splits if_splits dest: load_row_err message_ttl_err parse_header_err
        simp: corrupt_file_def)
qed simp

lemma stored_parses:
  "message_ttl w n = Inr t \<Longrightarrow> parse_header w = Inr h \<Longrightarrow> parses w"
  by (cases "all_records w") (simp_all add: message_ttl_def parses_def)

lemma load_rows_keep:
  "load_rows cd now raw n off d k = (d', k', x) \<Longrightarrow> dict_ok d \<Longrightarrow> \<forall>p \<in> set d. P p
   \<Longrightarrow> \<forall>key e. parses (wire e) \<and> now < expires_at e \<longrightarrow> P (key, e)
   \<Longrightarrow> dict_ok d' \<and> (\<forall>p \<in> set d'. P p)"
proof (induction cd now raw n off d k rule: load_rows.induct)
  case (2 cd now raw count off d n)
  show ?case
  proof (cases "load_row cd raw off")
    case (Inr p)
    obtain key e off' where p: "p = (key, e, off')" by (cases p)
    have new: "\<forall>p \<in> set (dset key (e\<lparr>e_rcode := r\<rparr>) d). P p" if "parses (wire e)" "now < expires_at e" for r
      using "2.prems"(3,4) that by (auto dest!: set_dset)
    show ?thesis
    proof (cases "expires_at e \<le> now")
      case True
      have run: "load_rows cd now raw count off' d n = (d', k', x)"
        using "2.prems"(1) Inr True by (simp add: p)
      show ?thesis by (rule "2.IH"(1) [OF Inr p [symmetric] refl True run "2.prems"(2,3,4)])
    next
      case False
      show ?thesis
      proof (cases "message_ttl (wire e) 0")
        case (Inr t)
        show ?thesis
        proof (cases "parse_header (wire e)")
          case (Inr h)
          note w = stored_parses [OF \<open>message_ttl (wire e) 0 = Inr t\<close> Inr]
          have run: "load_rows cd now raw count off' (dset key (e\<lparr>e_rcode := rcode h\<rparr>) d) (Suc n) = (d', k', x)"
            using "2.prems"(1) \<open>load_row cd raw off = Inr p\<close> False Inr \<open>message_ttl (wire e) 0 = Inr t\<close>
            by (simp add: p)
          show ?thesis
            by (rule "2.IH"(2) [OF \<open>load_row cd raw off = Inr p\<close> p [symmetric] refl False
                  \<open>message_ttl (wire e) 0 = Inr t\<close> Inr run _ new [OF w]]) (use "2.prems"(2,4) False in auto)
        qed (use "2.prems" Inr False \<open>load_row cd raw off = Inr p\<close> p in simp)
      qed (use "2.prems" False Inr p in simp)
    qed
  qed (use "2.prems" in simp)
qed auto

section \<open>Round trip\<close>

text \<open>The codecs decode what they encode, for one entry.\<close>

definition entry_codes :: "codec \<Rightarrow> cache_key \<times> cache_entry \<Rightarrow> bool" where
  "entry_codes cd p =
     (dec_s cd (enc_s cd (ck_name (fst p))) = Some (ck_name (fst p))
      \<and> (\<forall>t \<in> {stored_at (snd p), expires_at (snd p)}.
           length (enc_d cd t) = 8 \<and> dec_d cd (enc_d cd t) = t))"

text \<open>An entry as it comes back: not being refreshed, its status read from the message.\<close>

definition reloaded :: "cache_entry \<Rightarrow> cache_entry" where
  "reloaded e = e\<lparr>refreshing := False,
     e_rcode := (case parse_header (wire e) of Inl _ \<Rightarrow> e_rcode e | Inr h \<Rightarrow> rcode h)\<rparr>"

lemma unpack_H_at: "i = length pre \<Longrightarrow> unpack_H (pre @ pack_H w @ post) i = w"
  by simp

lemma nth_at: "i = length pre \<Longrightarrow> (pre @ x # post) ! i = x"
  by simp

lemma unat_len [simp]: "n \<le> 65535 \<Longrightarrow> unat (of_nat n :: u16) = n"
  by (simp add: unat_of_nat)

lemma hits_u32 [simp]: "n < 4294967296 \<Longrightarrow> unat (of_nat n :: u32) = n"
  by (simp add: unat_of_nat)

lemma ttl_u32 [simp]: "0 \<le> t \<Longrightarrow> t < 4294967296 \<Longrightarrow> uint (of_int t :: u32) = t"
  by (simp add: uint_word_of_int)

lemma load_row_save_row:
  assumes row: "save_row cd key e = Inr r" and c: "entry_codes cd (key, e)"
    and fits: "length (enc_s cd (ck_name key)) \<le> 65535" "length (wire e) \<le> 65535"
  shows "load_row cd (pre @ r @ post) (length pre)
    = Inr (key, e\<lparr>refreshing := False, e_rcode := 0\<rparr>, length pre + length r)"
proof -
  let ?nm = "enc_s cd (ck_name key)"
  let ?flag = "[if ck_dnssec key then 1 else 0 :: byte]"
  let ?s = "enc_d cd (stored_at e)" and ?x = "enc_d cd (expires_at e)"
  let ?H1 = "pack_H (of_nat (length ?nm))" and ?H4 = "pack_H (of_nat (length (wire e)))"
  let ?T = "pack_I (of_int (e_ttl e))" and ?N = "pack_I (of_nat (hits e))"
  have r: "r = ?H1 @ ?nm @ pack_H (ck_qtype key) @ pack_H (ck_qclass key) @ ?flag @ ?s @ ?x @ ?T @ ?N
      @ ?H4 @ wire e"
    and b: "0 \<le> e_ttl e" "e_ttl e < 4294967296" "hits e < 4294967296"
    using row by (auto simp: save_row_def Let_def split: if_splits)
  let ?raw = "pre @ r @ post"
  have l: "length ?s = 8" "length ?x = 8" "dec_d cd ?s = stored_at e" "dec_d cd ?x = expires_at e"
    "dec_s cd ?nm = Some (ck_name key)" using c by (simp_all add: entry_codes_def)
  let ?o = "length pre" and ?n = "length ?nm" and ?w = "length (wire e)"
  have len: "length r = ?n + 33 + ?w" by (simp add: r l)
  have 1: "unat (unpack_H ?raw ?o) = ?n" using fits by (simp add: r)
  have 2: "slice (?o + 2) (?o + 2 + ?n) ?raw = ?nm"
    using slice_append_mid [of "?o + 2" "pre @ ?H1" _ ?nm] by (simp add: r)
  have 3: "unpack_H ?raw (?o + 2 + ?n) = ck_qtype key"
    using unpack_H_at [of "?o + 2 + ?n" "pre @ ?H1 @ ?nm" "ck_qtype key"] by (simp add: r)
  have 4: "unpack_H ?raw (?o + 2 + ?n + 2) = ck_qclass key"
    using unpack_H_at [of "?o + 2 + ?n + 2" "pre @ ?H1 @ ?nm @ pack_H (ck_qtype key)" "ck_qclass key"]
    by (simp add: r)
  have 5: "?raw ! (?o + 2 + ?n + 4) = (if ck_dnssec key then 1 else 0)"
    using nth_at [of "?o + 2 + ?n + 4" "pre @ ?H1 @ ?nm @ pack_H (ck_qtype key) @ pack_H (ck_qclass key)"
        "if ck_dnssec key then 1 else 0"] by (simp add: r split del: if_split)
  have 6: "slice (?o + 2 + ?n + 5) (?o + 2 + ?n + 5 + 8) ?raw = ?s"
    using slice_append_mid [of "?o + 2 + ?n + 5"
        "pre @ ?H1 @ ?nm @ pack_H (ck_qtype key) @ pack_H (ck_qclass key) @ ?flag" _ ?s]
    by (simp add: r l)
  have 7: "slice (?o + 2 + ?n + 5 + 8) (?o + 2 + ?n + 5 + 16) ?raw = ?x"
    using slice_append_mid [of "?o + 2 + ?n + 5 + 8"
        "pre @ ?H1 @ ?nm @ pack_H (ck_qtype key) @ pack_H (ck_qclass key) @ ?flag @ ?s" _ ?x]
    by (simp add: r l)
  have 8: "uint (unpack_I ?raw (?o + 2 + ?n + 5 + 16)) = e_ttl e"
    using unpack_pack_I [of "?o + 2 + ?n + 5 + 16"
        "pre @ ?H1 @ ?nm @ pack_H (ck_qtype key) @ pack_H (ck_qclass key) @ ?flag @ ?s @ ?x" "of_int (e_ttl e)"]
      b by (simp add: r l)
  have 9: "unat (unpack_I ?raw (?o + 2 + ?n + 5 + 20)) = hits e"
    using unpack_pack_I [of "?o + 2 + ?n + 5 + 20"
        "pre @ ?H1 @ ?nm @ pack_H (ck_qtype key) @ pack_H (ck_qclass key) @ ?flag @ ?s @ ?x @ ?T" "of_nat (hits e)"]
      b by (simp add: r l)
  have 10: "unat (unpack_H ?raw (?o + 2 + ?n + 5 + 24)) = ?w"
    using unpack_H_at [of "?o + 2 + ?n + 5 + 24"
        "pre @ ?H1 @ ?nm @ pack_H (ck_qtype key) @ pack_H (ck_qclass key) @ ?flag @ ?s @ ?x @ ?T @ ?N"
        "of_nat ?w"] fits by (simp add: r l)
  have 11: "slice (?o + 2 + ?n + 5 + 26) (?o + 2 + ?n + 5 + 26 + ?w) ?raw = wire e"
    using slice_append_mid [of "?o + 2 + ?n + 5 + 26"
        "pre @ ?H1 @ ?nm @ pack_H (ck_qtype key) @ pack_H (ck_qclass key) @ ?flag @ ?s @ ?x @ ?T @ ?N @ ?H4"
        _ "wire e"] by (simp add: r l)
  have L: "length ?raw = ?o + ?n + 33 + ?w + length post" by (simp add: len)
  show ?thesis
    unfolding load_row_def Let_def 1 2 3 4 5 6 7 8 9 10 11 l L
    by (simp add: len)
qed

lemma parsesD: "parses w \<Longrightarrow> \<exists>t h. message_ttl w 0 = Inr t \<and> parse_header w = Inr h"
  by (cases "all_records w"; cases "parse_header w") (simp_all add: message_ttl_def parses_def)

abbreviation reload :: "cache_key \<times> cache_entry \<Rightarrow> cache_key \<times> cache_entry" where
  "reload p \<equiv> (fst p, reloaded (snd p))"

definition restorable :: "codec \<Rightarrow> time \<Rightarrow> time \<Rightarrow> cache_key \<times> cache_entry \<Rightarrow> bool" where
  "restorable cd saved_at now p = (savable cd saved_at p \<and> now < expires_at (snd p))"

lemma load_rows_save_rows:
  assumes "save_rows cd t es = Inr (n, body)"
    and "\<forall>p \<in> set es. savable cd t p \<longrightarrow> entry_codes cd p \<and> parses (wire (snd p))"
  shows "load_rows cd now (pre @ body @ post) (n + m) (length pre) d k
    = load_rows cd now (pre @ body @ post) m (length pre + length body)
        (fold (\<lambda>(key, e). dset key e) (map reload (filter (restorable cd t now) es)) d)
        (k + length (filter (restorable cd t now) es))"
  using assms
proof (induction es arbitrary: n body pre d k)
  case (Cons p es)
  obtain key e where p: "p = (key, e)" by (cases p)
  show ?case
  proof (cases "savable cd t (key, e)")
    case False
    with Cons show ?thesis by (simp add: p restorable_def)
  next
    case True
    obtain r n' body' where r: "save_row cd key e = Inr r" and rest: "save_rows cd t es = Inr (n', body')"
      and nb: "n = Suc n'" "body = r @ body'"
      using Cons.prems(1) True by (auto simp: p rbind_Inr_iff)
    have ok: "entry_codes cd (key, e)" "parses (wire e)" using Cons.prems(2) True by (simp_all add: p)
    have row: "load_row cd (pre @ r @ body' @ post) (length pre)
        = Inr (key, e\<lparr>refreshing := False, e_rcode := 0\<rparr>, length pre + length r)"
      using load_row_save_row [OF r ok(1), of pre "body' @ post"] True by (simp add: savable_def)
    obtain tt h where w: "message_ttl (wire e) 0 = Inr tt" "parse_header (wire e) = Inr h"
      using parsesD [OF ok(2)] by auto
    have e: "e\<lparr>refreshing := False, e_rcode := 0, e_rcode := rcode h\<rparr> = reloaded e"
      by (simp add: reloaded_def w)
    note IH = Cons.IH [OF rest, of "pre @ r"]
    show ?thesis using Cons.prems(2) True w e IH
      by (simp add: p nb row restorable_def add.assoc)
  qed
qed (simp)

lemma evict_nothing: "length (entries c) \<le> max_entries (cconf c) \<Longrightarrow> evict_if_needed c = c"
  by (simp add: evict_if_needed_def evict_loop.simps)

lemma fold_dset_fresh:
  "dict_ok (d @ es) \<Longrightarrow> fold (\<lambda>(k, v). dset k v) es d = d @ es"
proof (induction es arbitrary: d)
  case (Cons p es)
  obtain k v where p: "p = (k, v)" by (cases p)
  have "k \<notin> set (dkeys d)" using Cons.prems by (auto simp: dict_ok_def p)
  then have "dset k v d = d @ [(k, v)]" by (induction d) auto
  with Cons.IH [of "d @ [(k, v)]"] Cons.prems show ?case by (simp add: p)
qed simp

text \<open>
  C35: Restarting keeps the cache: what a save writes, read back into an empty cache of at least
  the same size at any later time, restores exactly the entries that were saved and have not expired,
  in their order, with the message, times, lifetime and hit count each had.
\<close>

theorem save_load_round_trip:
  assumes inv: "cache_inv c"
    and codes: "\<forall>p \<in> set (entries c). savable cd t p \<longrightarrow> entry_codes cd p"
    and saved: "save cd compress c t True True = Inr (Some out, n)"
    and gzip: "\<And>raw. decompress (compress raw) = raw"
    and empty: "entries c' = []" and room: "max_entries (cconf c) \<le> max_entries (cconf c')"
  shows "load cd c' now (Contents (decompress out))
     = (c'\<lparr>entries := map reload (filter (restorable cd t now) (entries c))\<rparr>,
        Inr (length (filter (restorable cd t now) (entries c))))"
proof -
  let ?es = "filter (restorable cd t now) (entries c)"
  obtain body raw where rows: "save_rows cd t (entries c) = Inr (n, body)" and inflated: "decompress out = raw"
    and raw: "raw = cache_magic @ pack_I (of_nat n) @ body" and n: "n < 2 ^ 32"
    using saved gzip by (auto simp: save_def cache_file_def rbind_Inr_iff split: if_splits)
  have ok: "\<forall>p \<in> set (entries c). savable cd t p \<longrightarrow> entry_codes cd p \<and> parses (wire (snd p))"
    using codes cache_invD(3) [OF inv] by (metis prod.collapse)
  have m: "length cache_magic = 5" by (simp add: cache_magic_def)
  have count: "unat (unpack_I raw 5) = n"
    using unpack_pack_I [of 5 cache_magic "of_nat n" body] n by (simp add: raw m)
  have "load_rows cd now raw n 9 [] 0
      = (fold (\<lambda>(key, e). dset key e) (map reload ?es) [], length ?es, None)"
    using load_rows_save_rows [OF rows ok, of now "cache_magic @ pack_I (of_nat n)" "[]" 0 "[]" 0]
    by (simp add: raw m)
  moreover have "dict_ok (map reload ?es)"
    using dict_ok_simps(4) [OF cache_invD(1) [OF inv], of "restorable cd t now"]
    by (simp add: dict_ok_def comp_def)
  moreover have "length ?es \<le> max_entries (cconf c')"
    using cache_invD(2) [OF inv] room by (meson le_trans length_filter_le)
  ultimately have rows': "load_rows cd now raw n 9 [] 0 = (map reload ?es, length ?es, None)"
      and fit: "length ?es \<le> max_entries (cconf c')"
    using fold_dset_fresh [of "[]" "map reload ?es"] by simp_all
  show ?thesis
    using rows' fit count inflated empty raw m
    by (simp add: load_def evict_nothing)
qed


text \<open>
  Whatever a cache file holds, reading it raises nothing: the count is reported, the keys stay
  distinct, and every entry that was not there before is still live and holds a message that can
  be served, so that no later lookup fails on it.
\<close>

theorem load_tolerates_corruption:
  assumes "cache_inv c"
  shows "\<exists>c' n. load cd c now (Contents raw) = (c', Inr n) \<and> dict_ok (entries c')
    \<and> (\<forall>p \<in> set (entries c'). parses (wire (snd p)) \<and> (p \<in> set (entries c) \<or> now < expires_at (snd p)))"
proof -
  let ?P = "\<lambda>p. parses (wire (snd p)) \<and> (p \<in> set (entries c) \<or> now < expires_at (snd p))"
  obtain d n x where run: "load_rows cd now raw (unat (unpack_I raw 5)) 9 (entries c) 0 = (d, n, x)"
    by (metis prod_cases3)
  have old: "\<forall>p \<in> set (entries c). ?P p" using cache_invD(3) [OF assms] by (metis prod.collapse)
  have new: "dict_ok d" "\<forall>p \<in> set d. ?P p"
    using load_rows_keep [OF run cache_invD(1) [OF assms] old] by auto
  have "dict_ok (drop k d)" "\<forall>p \<in> set (drop k d). ?P p" for k
    using new set_drop_subset [of k d] by (auto simp: dict_ok_def drop_map [symmetric])
  with new old cache_invD(1) [OF assms] run load_rows_err [of cd now raw _ 9 "entries c" 0 d n]
  show ?thesis by (auto simp: load_def split: option.split)
qed

section \<open>Witnesses\<close>

definition sample_codec :: codec where
  "sample_codec = \<lparr>enc_d = (\<lambda>t. if t = 1000 then [0, 0, 0, 0, 0, 0, 0, 0] else [1, 1, 1, 1, 1, 1, 1, 1]),
     dec_d = (\<lambda>b. if hd b = 0 then 1000 else 1300),
     enc_s = map (\<lambda>c. of_nat (of_char c)), dec_s = (\<lambda>b. Some (map (\<lambda>w. char_of (unat w)) b))\<rparr>"

lemma sample_codes: "entry_codes sample_codec (sample_key, sample_entry)"
proof -
  have "char_of (unat (of_nat (of_char CHR ''a'') :: byte)) = CHR ''a''" by code_simp
  then show ?thesis
    by (simp add: entry_codes_def sample_codec_def sample_key_def sample_entry_def del: of_nat_of_char)
qed

lemma sample_savable: "savable sample_codec 1000 (sample_key, sample_entry)"
  by (simp add: savable_def sample_codec_def sample_key_def sample_entry_def sample_response_def)

lemma sample_file: "\<exists>body. save_rows sample_codec 1000 [(sample_key, sample_entry)] = Inr (1, body)"
  using sample_savable by (simp add: save_row_def Let_def sample_entry_def)

theorem save_load_round_trip_witness:
  "\<exists>out. save sample_codec id sample_cache 1000 True True = Inr (Some out, 1)
     \<and> load sample_codec (new_cache default_cache_config True) 1100 (Contents (id out))
       = (new_cache default_cache_config True\<lparr>entries := [reload (sample_key, sample_entry)]\<rparr>, Inr 1)"
proof -
  obtain out where out: "save sample_codec id sample_cache 1000 True True = Inr (Some out, 1)"
    using sample_file by (auto simp: save_def cache_file_def sample_cache_def)
  have live: "filter (restorable sample_codec 1000 1100) (entries sample_cache) = [(sample_key, sample_entry)]"
    using sample_savable by (simp add: sample_cache_def restorable_def sample_entry_def)
  show ?thesis
    using out save_load_round_trip [OF sample_inv _ out, of id "new_cache default_cache_config True" 1100]
      sample_codes live by (simp add: sample_cache_def new_cache_def)
qed

theorem load_tolerates_corruption_witness:
  "\<exists>c' n. load sample_codec sample_cache 1100 (Contents (cache_magic @ [0, 0, 0, 9, 1])) = (c', Inr n)
    \<and> dict_ok (entries c')
    \<and> (\<forall>p \<in> set (entries c').
          parses (wire (snd p)) \<and> (p \<in> set (entries sample_cache) \<or> 1100 < expires_at (snd p)))"
  by (rule load_tolerates_corruption [OF sample_inv])

text \<open>
  A file cut short leaves more entries than the limit allows: the exception skips the eviction at
  the end of the loop.  Here a cache of one entry at most, holding one, reads a file of two rows
  whose second is missing.
\<close>

lemma load_corrupt_exceeds_bound:
  "\<exists>c raw. cache_inv c \<and> max_entries (cconf c) = 1
     \<and> length (entries (fst (load sample_codec c 1100 (Contents raw)))) = 2"
proof -
  let ?k = "sample_key\<lparr>ck_name := ''b''\<rparr>"
  let ?c = "sample_cache\<lparr>cconf := default_cache_config\<lparr>max_entries := 1\<rparr>, entries := [(?k, sample_entry)]\<rparr>"
  obtain body where b: "save_rows sample_codec 1000 [(sample_key, sample_entry)] = Inr (1, body)"
    using sample_file by auto
  let ?raw = "cache_magic @ pack_I (of_nat 2) @ body"
  have inv: "cache_inv ?c" using sample_parses by (auto simp: cache_inv_def sample_entry_def dict_ok_def)
  have m: "length cache_magic = 5" by (simp add: cache_magic_def)
  have count: "unat (unpack_I ?raw 5) = 2"
    using unpack_pack_I [of 5 cache_magic "of_nat 2" body] by (simp add: m)
  have live: "filter (restorable sample_codec 1000 1100) [(sample_key, sample_entry)] = [(sample_key, sample_entry)]"
    using sample_savable by (simp add: restorable_def sample_entry_def)
  have "\<forall>p \<in> set [(sample_key, sample_entry)]. savable sample_codec 1000 p \<longrightarrow>
      entry_codes sample_codec p \<and> parses (wire (snd p))"
    using sample_codes sample_parses by (simp add: sample_entry_def)
  note run = load_rows_save_rows [OF b this, of 1100 "cache_magic @ pack_I (of_nat 2)" "[]" 1 "entries ?c" 0]
  have rest: "load_row sample_codec ?raw (9 + length body) = Inl StructError"
    by (simp add: load_row_def m)
  have "load_rows sample_codec 1100 ?raw 2 9 (entries ?c) 0
      = load_rows sample_codec 1100 ?raw 1 (9 + length body)
          [(?k, sample_entry), (sample_key, reloaded sample_entry)] 1"
    using run live by (simp add: m sample_key_def numeral_2_eq_2 del: load_rows.simps)
  with rest have "load_rows sample_codec 1100 ?raw 2 9 (entries ?c) 0
      = ([(?k, sample_entry), (sample_key, reloaded sample_entry)], 1, Some StructError)"
    by simp
  then have "length (entries (fst (load sample_codec ?c 1100 (Contents ?raw)))) = 2"
    using count by (simp add: load_def m)
  with inv show ?thesis by (intro exI [of _ ?c] exI [of _ ?raw]) simp
qed

end
