(* ===== verification/CacheStore.thy ===== *)
theory CacheStore
  imports Cache
begin

text \<open>
  What the cache promises, stated without its order, its counters and its limit: a store that maps a key
  to the last answer that was accepted for it, when, and for how long.  The cache may forget, but what
  it answers is what the store holds; and while its limit is not reached it forgets nothing that is live.
\<close>

section \<open>The abstract store\<close>

type_synonym store = "cache_key \<Rightarrow> (bytes \<times> time \<times> int) option"

fun store_step :: "cache_config \<Rightarrow> store \<Rightarrow> cache_op \<Rightarrow> store" where
  "store_step conf s (Put now key w rc) =
     (case put_ttl conf w rc of None \<Rightarrow> s | Some (t, _) \<Rightarrow> if t \<le> 0 then s else s(key \<mapsto> (w, now, t)))"
| "store_step conf s (Invalidate None) = Map.empty"
| "store_step conf s (Invalidate (Some n)) = (\<lambda>k. if ck_name k = canon n then None else s k)"
| "store_step conf s _ = s"

definition store_run :: "cache_config \<Rightarrow> cache_op list \<Rightarrow> store" where
  "store_run conf ops = foldl (store_step conf) Map.empty ops"

text \<open>The lookup the store allows: live, or stale when that is asked for and within its window.\<close>

definition store_answer :: "cache_config \<Rightarrow> store \<Rightarrow> time \<Rightarrow> cache_key \<Rightarrow> bool \<Rightarrow> lookup \<Rightarrow> bool" where
  "store_answer conf s now key st l =
     (case s key of None \<Rightarrow> False
      | Some (w, t0, t) \<Rightarrow>
          age l = py_int (now - t0) \<and> (stale l \<longleftrightarrow> t0 + of_int t \<le> now)
          \<and> (if stale l then st \<and> now < t0 + of_int t + of_int (serve_stale_for conf) \<and> l_wire l = rewrite_all_ttls w 30
             else with_ttls_reduced w (age l) = Inr (l_wire l)))"

section \<open>The simulation\<close>

definition view :: "cache_entry \<Rightarrow> bytes \<times> time \<times> int" where
  "view e = (wire e, stored_at e, e_ttl e)"

definition holds :: "dns_cache \<Rightarrow> store \<Rightarrow> bool" where
  "holds c s \<longleftrightarrow> dict_ok (entries c) \<and>
     (\<forall>k e. dget (entries c) k = Some e \<longrightarrow> s k = Some (view e) \<and> expires_at e = stored_at e + of_int (e_ttl e))"

lemma holdsD:
  assumes "holds c s"
  shows "dict_ok (entries c)" "dget (entries c) k = Some e \<Longrightarrow> s k = Some (view e)"
    "dget (entries c) k = Some e \<Longrightarrow> expires_at e = stored_at e + of_int (e_ttl e)"
  using assms by (auto simp: holds_def)

lemma holds_sub:
  assumes "holds c s" "dict_ok (entries c')"
    and "\<And>k e'. dget (entries c') k = Some e' \<Longrightarrow>
       \<exists>e. dget (entries c) k = Some e \<and> view e' = view e \<and> expires_at e' = expires_at e"
  shows "holds c' s"
  using assms unfolding holds_def by (metis view_def prod.inject)

lemma get_entries:
  assumes "dict_ok (entries c)"
  shows "dget (entries (fst (cache_get c now key st))) k = dget (entries c) k
     \<or> k = key \<and> (\<exists>e. dget (entries c) key = Some e \<and>
         (dget (entries (fst (cache_get c now key st))) k = None \<and> expires_at e \<le> now
          \<or> (\<exists>e'. dget (entries (fst (cache_get c now key st))) k = Some e' \<and> view e' = view e \<and> expires_at e' = expires_at e)))"
proof (cases "dget (entries c) key")
  case None
  then show ?thesis by (simp add: cache_get_def)
next
  case (Some e)
  let ?fresh = "now < expires_at e"
  consider (gone) "\<not> ?fresh" "expires_at e + of_int (serve_stale_for (cconf c)) \<le> now"
    | (kept) "\<not> ?fresh" "\<not> expires_at e + of_int (serve_stale_for (cconf c)) \<le> now" "\<not> st"
    | (hit) "?fresh \<or> \<not> expires_at e + of_int (serve_stale_for (cconf c)) \<le> now \<and> st"
    by blast
  then show ?thesis
  proof cases
    case gone
    then have "entries (fst (cache_get c now key st)) = ddel key (entries c)" by (simp add: cache_get_def Some Let_def)
    then show ?thesis using gone(1) Some assms by (cases "k = key") auto
  next
    case kept
    then show ?thesis by (simp add: cache_get_def Some Let_def)
  next
    case hit
    then have "entries (fst (cache_get c now key st)) = dset key (fst (hit_entry c now e ?fresh)) (move_to_end key (entries c))"
      using get_hit [OF Some hit] by (simp add: cache_touch_def case_prod_beta)
    moreover have "view (fst (hit_entry c now e ?fresh)) = view e" "expires_at (fst (hit_entry c now e ?fresh)) = expires_at e"
      by (simp_all add: hit_entry_def view_def Let_def)
    ultimately show ?thesis using assms Some by (cases "k = key") auto
  qed
qed

lemma dict_ok_step:
  assumes "dict_ok (entries c)"
  shows "dict_ok (entries (cache_step c op))"
proof (cases op)
  case (Put now key w rc)
  then show ?thesis using assms
    by (auto simp: cache_put_def Let_def split: option.splits)
next
  case (Invalidate name)
  then show ?thesis using assms by (cases name) (auto simp: invalidate_def Let_def dict_ok_def [of "[]"] pydict.inv_fold_remove)
qed (use assms in \<open>auto simp: dict_ok_get finish_refresh_def split: option.splits\<close>)

lemma fold_ddel_get: "dict_ok d \<Longrightarrow> dget (fold ddel ks d) k = (if k \<in> set ks then None else dget d k)"
  by (induction ks arbitrary: d) auto

lemma put_get:
  assumes "dict_ok (entries c)" "put_ttl (cconf c) w rc = Some (t, rc')" "0 < t"
    "dget (entries (fst (cache_put c now key w rc))) k = Some e"
  shows "if k = key then view e = (w, now, t) \<and> expires_at e = now + of_int t else dget (entries c) k = Some e"
proof -
  let ?e = "\<lparr>wire = w, stored_at = now, expires_at = now + of_int t, e_ttl = t, e_rcode = rc', hits = 0, refreshing = False\<rparr>"
  let ?d = "move_to_end key (dset key ?e (entries c))"
  note E = put_entries [OF assms(2,3), of now key]
  have ok: "dict_ok ?d" using assms(1) by simp
  have "(k, e) \<in> set ?d" using assms(4) unfolding E(1) by (meson dget_in in_set_dropD)
  then have "dget ?d k = Some e" using ok by (simp add: dget_iff)
  then show ?thesis using assms(1) by (auto simp: view_def split: if_splits)
qed

lemma holds_step:
  assumes "holds c s"
  shows "holds (cache_step c op) (store_step (cconf c) s op)"
proof -
  note D = holdsD [OF assms]
  have ok: "dict_ok (entries (cache_step c op))" by (rule dict_ok_step [OF D(1)])
  show ?thesis
  proof (cases op)
    case (Get now key st)
    have "holds (cache_step c op) s"
    proof (rule holds_sub [OF assms ok])
      fix k e' assume "dget (entries (cache_step c op)) k = Some e'"
      then show "\<exists>e. dget (entries c) k = Some e \<and> view e' = view e \<and> expires_at e' = expires_at e"
        using get_entries [OF D(1), of now key st k] unfolding Get cache_step.simps
        by (metis option.distinct(1) option.inject)
    qed
    then show ?thesis by (simp add: Get)
  next
    case (Put now key w rc)
    show ?thesis
    proof (cases "\<exists>t rc'. put_ttl (cconf c) w rc = Some (t, rc') \<and> 0 < t")
      case True
      then obtain t rc' where t: "put_ttl (cconf c) w rc = Some (t, rc')" "0 < t" by blast
      have s: "store_step (cconf c) s op = s(key \<mapsto> (w, now, t))" using t by (simp add: Put)
      show ?thesis unfolding holds_def s
      proof (intro conjI allI impI)
        show "dict_ok (entries (cache_step c op))" by (rule ok)
        fix k e assume "dget (entries (cache_step c op)) k = Some e"
        then have "if k = key then view e = (w, now, t) \<and> expires_at e = now + of_int t else dget (entries c) k = Some e"
          using put_get [OF D(1) t] unfolding Put by simp
        then show "(s(key \<mapsto> (w, now, t))) k = Some (view e)" "expires_at e = stored_at e + of_int (e_ttl e)"
          using D(2,3) by (auto simp: view_def split: if_splits)
      qed
    next
      case False
      then show ?thesis using assms by (auto simp: Put cache_put_def split: option.splits)
    qed
  next
    case (Finish key)
    have "holds (cache_step c op) s"
    proof (rule holds_sub [OF assms ok])
      fix k e' assume "dget (entries (cache_step c op)) k = Some e'"
      then show "\<exists>e. dget (entries c) k = Some e \<and> view e' = view e \<and> expires_at e' = expires_at e"
        using D(1) by (auto simp: Finish finish_refresh_def view_def split: option.splits if_splits)
    qed
    then show ?thesis by (simp add: Finish)
  next
    case (Invalidate name)
    show ?thesis
    proof (cases name)
      case None
      then show ?thesis by (simp add: Invalidate holds_def invalidate_def dict_ok_def)
    next
      case (Some n)
      have in_keys: "k \<in> set (dkeys (entries c))" if "dget (entries c) k = Some e" for k e
        using that by (metis dget_in fst_conv image_eqI list.set_map)
      show ?thesis unfolding holds_def
      proof (intro conjI allI impI)
        show "dict_ok (entries (cache_step c op))" by (rule ok)
        fix k e assume "dget (entries (cache_step c op)) k = Some e"
        then have "dget (entries c) k = Some e \<and> ck_name k \<noteq> canon n"
          using D(1) in_keys by (auto simp: Invalidate Some invalidate_def Let_def fold_ddel_get split: if_splits)
        then show "store_step (cconf c) s op k = Some (view e)" "expires_at e = stored_at e + of_int (e_ttl e)"
          using D(2,3) by (auto simp: Invalidate Some)
      qed
    qed
  qed
qed

lemma step_config [simp]: "cconf (cache_step c op) = cconf c"
  by (cases op) (auto simp: cache_put_def finish_refresh_def invalidate_def Let_def split: option.splits)

lemma holds_run: "holds c s \<Longrightarrow> holds (foldl cache_step c ops) (foldl (store_step (cconf c)) s ops)"
proof (induction ops arbitrary: c s)
  case (Cons op ops)
  show ?case using Cons.IH [OF holds_step [OF Cons.prems, of op]] by simp
qed simp

lemma holds_new: "holds (new_cache conf pf) Map.empty"
  by (simp add: holds_def new_cache_def dict_ok_def)

lemma holds_answer:
  assumes "holds c s" "snd (snd (cache_get c now key st)) = Inr (Some l)"
  shows "store_answer (cconf c) s now key st l"
proof -
  obtain e where e: "dget (entries c) key = Some e" "age l = py_int (now - stored_at e)" "stale l \<longleftrightarrow> \<not> now < expires_at e"
    "now < expires_at e \<or> st \<and> now < expires_at e + of_int (serve_stale_for (cconf c))"
    "now < expires_at e \<longrightarrow> with_ttls_reduced (wire e) (age l) = Inr (l_wire l)"
    "\<not> now < expires_at e \<longrightarrow> l_wire l = rewrite_all_ttls (wire e) 30"
    by (rule get_result [OF assms(2)])
  then show ?thesis using holdsD(2,3) [OF assms(1) e(1)] by (auto simp: store_answer_def view_def)
qed

section \<open>Nothing live is forgotten below the limit\<close>

fun op_time :: "cache_op \<Rightarrow> time \<Rightarrow> time" where
  "op_time (Get now _ _) t = now"
| "op_time (Put now _ _ _) t = now"
| "op_time _ t = t"

text \<open>The readings of the clock along a run do not go back.\<close>

fun timely :: "time \<Rightarrow> cache_op list \<Rightarrow> bool" where
  "timely t [] = True"
| "timely t (op # ops) = (t \<le> op_time op t \<and> timely (op_time op t) ops)"

fun final_time :: "time \<Rightarrow> cache_op list \<Rightarrow> time" where
  "final_time t [] = t"
| "final_time t (op # ops) = final_time (op_time op t) ops"

fun is_put :: "cache_op \<Rightarrow> bool" where
  "is_put (Put _ _ _ _) = True"
| "is_put _ = False"

definition keeps :: "time \<Rightarrow> dns_cache \<Rightarrow> store \<Rightarrow> bool" where
  "keeps t c s \<longleftrightarrow> (\<forall>k w t0 l. s k = Some (w, t0, l) \<and> t < t0 + of_int l \<longrightarrow> dget (entries c) k \<noteq> None)"

lemma length_step:
  assumes "dict_ok (entries c)"
  shows "length (entries (cache_step c op)) \<le> length (entries c) + (if is_put op then 1 else 0)"
proof (cases op)
  case (Get now key st)
  show ?thesis
  proof (cases "dget (entries c) key")
    case (Some e)
    show ?thesis using assms Some unfolding Get
      by (auto simp: cache_get_def Let_def cache_touch_def case_prod_beta length_dset_present length_ddel split: sum.splits)
  qed (simp add: Get cache_get_def)
next
  case (Put now key w rc)
  show ?thesis
  proof (cases "\<exists>t rc'. put_ttl (cconf c) w rc = Some (t, rc') \<and> 0 < t")
    case True
    then obtain l rc' where l: "put_ttl (cconf c) w rc = Some (l, rc')" "0 < l" by blast
    let ?e = "\<lparr>wire = w, stored_at = now, expires_at = now + of_int l, e_ttl = l, e_rcode = rc', hits = 0, refreshing = False\<rparr>"
    have "length (dset key ?e (entries c)) \<le> Suc (length (entries c))" using assms by (rule pydict.entries_store_le)
    then show ?thesis using assms unfolding Put by (simp add: put_entries(1) [OF l])
  qed (auto simp: Put cache_put_def split: option.splits)
next
  case (Finish key)
  then show ?thesis using assms by (auto simp: finish_refresh_def length_dset_present split: option.splits)
next
  case (Invalidate name)
  then show ?thesis using assms pydict.entries_fold_remove_le [of "entries c"]
    by (cases name) (auto simp: invalidate_def Let_def)
qed

lemma keeps_step:
  assumes "holds c s" "keeps t c s" "t \<le> op_time op t" "is_put op \<longrightarrow> length (entries c) < max_entries (cconf c)"
  shows "keeps (op_time op t) (cache_step c op) (store_step (cconf c) s op)"
proof -
  note D = holdsD [OF assms(1)]
  have old: "dget (entries c) k \<noteq> None" if "s k = Some (w, t0, l)" "op_time op t < t0 + of_int l" for k w t0 l
    using assms(2,3) that unfolding keeps_def by (meson le_less_trans)
  show ?thesis
  proof (cases op)
    case (Get now key st)
    show ?thesis unfolding keeps_def Get
    proof (intro allI impI, elim conjE)
      fix k w t0 l assume k: "store_step (cconf c) s (Get now key st) k = Some (w, t0, l)" "op_time (Get now key st) t < t0 + of_int l"
      then obtain e where e: "dget (entries c) k = Some e" using old [of k w t0 l] unfolding Get by auto
      then have "expires_at e = t0 + of_int l" using D(2,3) [OF e] k(1) by (simp add: view_def)
      then have "\<not> expires_at e \<le> now" using k(2) by simp
      then show "dget (entries (cache_step c (Get now key st))) k \<noteq> None"
        using get_entries [OF D(1), of now key st k] e by auto
    qed
  next
    case (Put now key w rc)
    show ?thesis
    proof (cases "\<exists>t rc'. put_ttl (cconf c) w rc = Some (t, rc') \<and> 0 < t")
      case True
      then obtain l rc' where l: "put_ttl (cconf c) w rc = Some (l, rc')" "0 < l" by blast
      let ?e = "\<lparr>wire = w, stored_at = now, expires_at = now + of_int l, e_ttl = l, e_rcode = rc', hits = 0, refreshing = False\<rparr>"
      have "length (move_to_end key (dset key ?e (entries c))) \<le> max_entries (cconf c)"
        using assms(4) D(1) pydict.entries_store_le [of "entries c" key ?e] by (simp add: Put)
      then have "dget (entries (cache_step c op)) k = (if k = key then Some ?e else dget (entries c) k)" for k
        using put_entries(1) [OF l, of now key] D(1) by (simp add: Put)
      then show ?thesis using old l unfolding keeps_def by (auto simp: Put split: if_splits)
    next
      case False
      then show ?thesis using old unfolding keeps_def by (auto simp: Put cache_put_def split: option.splits)
    qed
  next
    case (Finish key)
    then show ?thesis using old D(1) unfolding keeps_def by (auto simp: finish_refresh_def split: option.splits)
  next
    case (Invalidate name)
    show ?thesis
    proof (cases name)
      case None
      then show ?thesis by (simp add: Invalidate keeps_def)
    next
      case (Some n)
      then show ?thesis using old D(1) unfolding keeps_def
        by (auto simp: Invalidate invalidate_def Let_def fold_ddel_get split: if_splits)
    qed
  qed
qed

lemma keeps_run:
  assumes "holds c s" "keeps t c s" "timely t ops" "length (entries c) + length (filter is_put ops) \<le> max_entries (cconf c)"
  shows "keeps (final_time t ops) (foldl cache_step c ops) (foldl (store_step (cconf c)) s ops)"
  using assms
proof (induction ops arbitrary: c s t)
  case (Cons op ops)
  let ?c = "cache_step c op" and ?s = "store_step (cconf c) s op"
  have "keeps (op_time op t) ?c ?s"
    using Cons.prems by (intro keeps_step) (auto split: if_splits)
  moreover have "length (entries ?c) + length (filter is_put ops) \<le> max_entries (cconf ?c)"
    using Cons.prems(4) length_step [OF holdsD(1) [OF Cons.prems(1)], of op] by (auto split: if_splits)
  ultimately show ?case using Cons.IH [OF holds_step [OF Cons.prems(1)], of "op_time op t" op] Cons.prems(3) by simp
qed simp

lemma kept_answer:
  assumes "timely t ops" "length (filter is_put ops) \<le> max_entries conf" "store_run conf ops key = Some (w, t0, l)"
    "final_time t ops \<le> now" "now < t0 + of_int l"
  shows "\<exists>a. snd (snd (cache_get (cache_run (new_cache conf pf) ops) now key st)) = Inr (Some a)"
proof -
  let ?c = "cache_run (new_cache conf pf) ops"
  have e0: "cconf (new_cache conf pf) = conf" "entries (new_cache conf pf) = []" by (simp_all add: new_cache_def)
  have k0: "keeps t (new_cache conf pf) Map.empty" by (simp add: keeps_def)
  have h: "holds ?c (store_run conf ops)"
    using holds_run [OF holds_new [of conf pf], of ops] e0 by (simp add: cache_run_def store_run_def)
  have "keeps (final_time t ops) ?c (store_run conf ops)"
    using keeps_run [OF holds_new [of conf pf] k0 assms(1)] assms(2) e0 by (simp add: cache_run_def store_run_def)
  then obtain e where e: "dget (entries ?c) key = Some e"
    using assms(3-5) unfolding keeps_def by (metis le_less_trans not_Some_eq)
  have "now < expires_at e" using holdsD(2,3) [OF h e] assms(3,5) by (simp add: view_def)
  moreover have "cache_inv ?c" by (rule cache_inv_run [OF cache_inv_new])
  from get_never_raises [OF this, of now key st] have "ok (snd (snd (cache_get ?c now key st)))" .
  ultimately show ?thesis using e by (auto simp: cache_get_def Let_def split: sum.splits)
qed

section \<open>The two directions\<close>

text \<open>C7: After any run of operations from the empty cache, what a lookup answers is what the abstract store of
  last accepted answers allows: that answer, aged by the time it was stored for, live unless a stale one
  was asked for, and never past its window.
\<close>

theorem cache_refines_store:
  assumes "snd (snd (cache_get (cache_run (new_cache conf pf) ops) now key st)) = Inr (Some l)"
  shows "store_answer conf (store_run conf ops) now key st l"
proof -
  have "holds (cache_run (new_cache conf pf) ops) (store_run conf ops)"
    using holds_run [OF holds_new [of conf pf], of ops] by (simp add: cache_run_def store_run_def new_cache_def)
  moreover have "cconf (cache_run (new_cache conf pf) ops) = conf"
    by (induction ops rule: rev_induct) (simp_all add: cache_run_def new_cache_def)
  ultimately show ?thesis using holds_answer assms by metis
qed

text \<open>As long as no more answers were put than the cache has room for, and the clock does not go back, every
  answer the abstract store still holds live is answered.
\<close>

theorem nothing_live_forgotten:
  assumes "timely t ops" "length (filter is_put ops) \<le> max_entries conf" "store_run conf ops key = Some (w, t0, l)"
    "final_time t ops \<le> now" "now < t0 + of_int l"
  shows "\<exists>a. snd (snd (cache_get (cache_run (new_cache conf pf) ops) now key st)) = Inr (Some a)"
  by (rule kept_answer [OF assms])

lemma sample_store: "store_run default_cache_config [Put 0 sample_key sample_response None] sample_key = Some (sample_response, 0, 300)"
  by (simp add: store_run_def sample_put_ttl)

theorem nothing_live_forgotten_witness:
  "store_run default_cache_config [Put 0 sample_key sample_response None] sample_key = Some (sample_response, 0, 300)
   \<and> (\<exists>a. snd (snd (cache_get (cache_run (new_cache default_cache_config False) [Put 0 sample_key sample_response None])
        100 sample_key False)) = Inr (Some a))"
  using sample_store nothing_live_forgotten [OF _ _ sample_store, of 0 100 False False] by (simp add: default_cache_config_def)

theorem cache_refines_store_witness:
  "\<exists>a. snd (snd (cache_get (cache_run (new_cache default_cache_config False) [Put 0 sample_key sample_response None])
        100 sample_key False)) = Inr (Some a)
     \<and> store_answer default_cache_config (store_run default_cache_config [Put 0 sample_key sample_response None]) 100 sample_key False a"
proof -
  obtain a where a: "snd (snd (cache_get (cache_run (new_cache default_cache_config False) [Put 0 sample_key sample_response None])
        100 sample_key False)) = Inr (Some a)"
    using kept_answer [OF _ _ sample_store, of 0 100 False False] by (auto simp: default_cache_config_def)
  from cache_refines_store [OF this] a show ?thesis by blast
qed

end
