(* ===== verification/Inet.thy ===== *)
theory Inet
  imports IpAddr
begin

text \<open>
  The address conversions of the standard \<open>socket\<close> module: \<open>inet_aton\<close>, which takes one to four
  numbers in decimal, octal or hexadecimal, the last filling the bytes that remain, and
  \<open>inet_ntoa\<close>.  An address in its canonical text form reads back.
\<close>

section \<open>Reading and writing\<close>

definition is_c_space :: "char \<Rightarrow> bool" where
  "is_c_space c = (code_pt c = 32 \<or> 9 \<le> code_pt c \<and> code_pt c \<le> 13)"

text \<open>\<open>strtoul\<close> with base 0 on a whole part that has to start with a digit.\<close>

definition c_number :: "str \<Rightarrow> nat option" where
  "c_number s =
     (if s = [] \<or> \<not> is_dec_digit (hd s) then None
      else if hd s \<noteq> CHR ''0'' then parse_digits 10 0 s
      else if 2 < length s \<and> s ! 1 \<in> {CHR ''x'', CHR ''X''} then parse_digits 16 0 (drop 2 s)
      else parse_digits 8 0 s)"

definition inet_parts :: "nat list \<Rightarrow> nat option" where
  "inet_parts ns =
     (if ns = [] \<or> 4 < length ns then None
      else if list_all (\<lambda>n. n \<le> 255) (butlast ns) \<and> last ns < 256 ^ (5 - length ns)
      then Some (foldl (\<lambda>a n. a * 256 + n) 0 (butlast ns) * 256 ^ (5 - length ns) + last ns)
      else None)"

text \<open>Only white space may follow the numbers, and anything may follow that.\<close>

definition inet_aton :: "str \<Rightarrow> bytes res" where
  "inet_aton s =
     (if CHR 0x00 \<in> set s then Inl ValueError
      else case those (map c_number (split_on CHR ''.'' (takeWhile (\<lambda>c. \<not> is_c_space c) s))) of
        None \<Rightarrow> Inl OSError
      | Some ns \<Rightarrow> (case inet_parts ns of None \<Rightarrow> Inl OSError | Some n \<Rightarrow> Inr (be_bytes 4 n)))"

definition inet_ntoa :: "bytes \<Rightarrow> str" where
  "inet_ntoa raw = ip_str4 (be_value raw)"

text \<open>\<open>bytes.hex()\<close>.\<close>

definition hex2 :: "byte \<Rightarrow> str" where
  "hex2 b = [digit_char (unat b div 16), digit_char (unat b mod 16)]"

definition hex_text :: "bytes \<Rightarrow> str" where "hex_text bs = concat (map hex2 bs)"

section \<open>Numbers without leading zeros\<close>

lemma digits_hd: "1 < b \<Longrightarrow> n \<noteq> 0 \<Longrightarrow> hd (digits b n) \<noteq> 0"
proof (induction b n rule: digits.induct)
  case (1 b n)
  have ne: "digits b (n div b) \<noteq> []" by (subst digits.simps) simp
  show ?case
  proof (cases "n < b")
    case False
    then have "n div b \<noteq> 0" using 1(2) by (simp add: div_eq_0_iff)
    then show ?thesis using 1 False ne by (subst digits.simps) simp
  qed (use 1 in \<open>subst digits.simps, simp\<close>)
qed

lemma digits_ne [simp]: "digits b n \<noteq> []"
  by (subst digits.simps) simp

lemma code_digit_char: "d < 10 \<Longrightarrow> code_pt (digit_char d) = 48 + d"
  by (simp add: digit_char_def)

lemma dec_chars: "c \<in> set (dec n) \<Longrightarrow> 48 \<le> code_pt c \<and> code_pt c \<le> 57"
  using digits_lt [of 10 _ n] by (fastforce simp: dec_def code_digit_char)

lemma dec_ne [simp]: "dec n \<noteq> []"
  by (simp add: dec_def)

lemma code_hd_dec: "code_pt (hd (dec n)) = 48 + hd (digits 10 n)"
  using digits_lt [of 10 "hd (digits 10 n)" n] by (simp add: dec_def hd_map code_digit_char)

lemma c_number_dec [simp]: "c_number (dec n) = Some n"
proof -
  have d: "is_dec_digit (hd (dec n))"
    using dec_chars [of "hd (dec n)" n] by (simp add: is_dec_digit_def)
  have p: "parse_digits 10 0 (dec n) = Some n" by (simp add: dec_def parse_digits_digits)
  show ?thesis
  proof (cases "n = 0")
    case True
    have "c_number (dec 0) = Some 0" by code_simp
    then show ?thesis by (simp add: True)
  next
    case False
    then have "code_pt (hd (dec n)) \<noteq> 48" using digits_hd [of 10 n] by (simp add: code_hd_dec)
    then have "hd (dec n) \<noteq> CHR ''0''" by (auto simp: code_pt_def)
    then show ?thesis using d p by (simp add: c_number_def)
  qed
qed

lemma digit_chars:
  "digit_char 0 = CHR ''0''"
  "digit_char (Suc 0) = CHR ''1''"
  "digit_char 2 = CHR ''2''"
  "digit_char 3 = CHR ''3''"
  "digit_char 4 = CHR ''4''"
  "digit_char 5 = CHR ''5''"
  "digit_char 6 = CHR ''6''"
  "digit_char 7 = CHR ''7''"
  "digit_char 8 = CHR ''8''"
  "digit_char 9 = CHR ''9''"
  by code_simp+

section \<open>Canonical text reads back\<close>

lemma dec_clean: "CHR ''.'' \<notin> set (dec n)" "CHR 0x00 \<notin> set (dec n)" "c \<in> set (dec n) \<Longrightarrow> \<not> is_c_space c"
  using dec_chars [of _ n] by (fastforce simp: is_c_space_def code_pt_def)+

lemma those_Some [simp]: "those (map (\<lambda>x. Some (f x)) xs) = Some (map f xs)"
  by (induction xs) simp_all

lemma join_set: "c \<in> set (join sep xs) \<Longrightarrow> c \<in> set sep \<or> (\<exists>x \<in> set xs. c \<in> set x)"
  by (induction sep xs rule: join.induct) auto

lemma be_bytes_fold:
  "n < 256 ^ k \<Longrightarrow> foldl (\<lambda>a b. a * 256 + b) 0 (map unat (be_bytes k n)) = n"
  using be_value_be_bytes [of n k] by (simp add: be_value_def foldl_map)

lemma list_4: "length xs = 4 \<Longrightarrow> \<exists>a b c d. xs = [a, b, c, d]"
  by (auto simp add: length_Suc_conv numeral_eq_Suc)

lemma be_bytes_4: "\<exists>a b c d. be_bytes 4 n = [a, b, c, d]"
  by (rule list_4) simp

lemma ip_str4_parts:
  assumes "be_bytes 4 n = [a, b, c, d]"
  shows "ip_str4 n = join ''.'' [dec (unat a), dec (unat b), dec (unat c), dec (unat d)]"
  by (simp only: ip_str4.simps assms list.map)

lemma ip_str4_chars: "x \<in> set (ip_str4 n) \<Longrightarrow> \<not> is_c_space x \<and> x \<noteq> CHR 0x00"
proof -
  assume "x \<in> set (ip_str4 n)"
  then have "x = CHR ''.'' \<or> (\<exists>m. x \<in> set (dec m))"
    by (auto simp only: ip_str4.simps set_map list.set dest!: join_set)
  then show "\<not> is_c_space x \<and> x \<noteq> CHR 0x00"
    using dec_clean(2,3) by (auto simp: is_c_space_def code_pt_def)
qed

lemma inet_parts_4:
  "a \<le> 255 \<Longrightarrow> b \<le> 255 \<Longrightarrow> c \<le> 255 \<Longrightarrow> d \<le> 255 \<Longrightarrow>
   inet_parts [a, b, c, d] = Some (((a * 256 + b) * 256 + c) * 256 + d)"
  by (simp add: inet_parts_def)

lemma inet_aton_canonical [simp]:
  assumes "n < 2 ^ 32"
  shows "inet_aton (ip_str4 n) = Inr (be_bytes 4 n)"
proof -
  obtain a b c d where w: "be_bytes 4 n = [a, b, c, d]" using be_bytes_4 by blast
  have lt: "unat x \<le> 255" for x :: byte using unsigned_less [of x, where ?'a = nat] by simp
  have v: "((unat a * 256 + unat b) * 256 + unat c) * 256 + unat d = n"
    using be_bytes_fold [of n 4] assms unfolding w by simp
  have parts: "split_on CHR ''.'' (ip_str4 n) = [dec (unat a), dec (unat b), dec (unat c), dec (unat d)]"
    unfolding ip_str4_parts [OF w] by (rule split_on_join) (auto simp: dec_clean)
  have t: "takeWhile (\<lambda>c. \<not> is_c_space c) (ip_str4 n) = ip_str4 n" and z: "CHR 0x00 \<notin> set (ip_str4 n)"
    using ip_str4_chars by (auto simp only: takeWhile_eq_all_conv)
  have "those (map c_number (split_on CHR ''.'' (ip_str4 n))) = Some [unat a, unat b, unat c, unat d]"
    unfolding parts by simp
  moreover note inet_parts_4 [OF lt lt lt lt, of a b c d, unfolded v]
  ultimately show ?thesis
    unfolding inet_aton_def t using z by (simp del: ip_str4.simps be_bytes.simps)
qed

lemma be_bytes_be_value: "be_bytes (length bs) (be_value bs) = bs"
proof (induction bs rule: rev_induct)
  case (snoc x xs)
  have "unat x < 256" using unsigned_less [of x, where ?'a = nat] by simp
  then have "(be_value xs * 256 + unat x) div 256 = be_value xs" "(be_value xs * 256 + unat x) mod 256 = unat x"
    by simp_all
  with snoc show ?case by (simp add: be_value_snoc)
qed simp

lemma inet_aton_quad:
  "inet_aton (join ''.'' [dec (unat a), dec (unat b), dec (unat c), dec (unat d)]) = Inr [a, b, c, d]"
proof -
  have w: "be_bytes 4 (be_value [a, b, c, d]) = [a, b, c, d]"
    using be_bytes_be_value [of "[a, b, c, d]"] by (simp add: numeral_eq_Suc del: be_bytes.simps)
  have "be_value [a, b, c, d] < 2 ^ 32" using be_value_lt [of "[a, b, c, d]"] by simp
  then show ?thesis using inet_aton_canonical [of "be_value [a, b, c, d]"]
    unfolding ip_str4_parts [OF w] w by blast
qed

lemma inet_ntoa_quad:
  "length raw = 4 \<Longrightarrow> inet_aton (inet_ntoa raw) = Inr raw"
  using be_bytes_be_value [of raw] be_value_lt [of raw] inet_aton_canonical [of "be_value raw"]
  by (simp add: inet_ntoa_def del: ip_str4.simps be_bytes.simps)

end
