(* ===== verification/DhcpPacket.thy ===== *)
theory DhcpPacket
  imports Inet
begin

text \<open>
  DHCP packets, \<open>symbivpn/gateway/dhcp.py\<close>: the options a client is given, parsing a request,
  building a reply, and the IPv4 and UDP headers around it.  A lease is here as well, since a
  reply is built from one.
\<close>

section \<open>Data\<close>

definition SERVER_PORT :: u16 where "SERVER_PORT = 67"
definition CLIENT_PORT :: u16 where "CLIENT_PORT = 68"
definition OFFER_HOLD_SECONDS :: int where "OFFER_HOLD_SECONDS = 60"
definition MAGIC_COOKIE :: bytes where "MAGIC_COOKIE = [0x63, 0x82, 0x53, 0x63]"

definition DISCOVER :: byte where "DISCOVER = 1"
definition OFFER :: byte where "OFFER = 2"
definition REQUEST :: byte where "REQUEST = 3"
definition ACK :: byte where "ACK = 5"
definition NAK :: byte where "NAK = 6"
definition RELEASE :: byte where "RELEASE = 7"
definition INFORM :: byte where "INFORM = 8"

definition OPT_SUBNET_MASK :: byte where "OPT_SUBNET_MASK = 1"
definition OPT_ROUTER :: byte where "OPT_ROUTER = 3"
definition OPT_DNS :: byte where "OPT_DNS = 6"
definition OPT_HOSTNAME :: byte where "OPT_HOSTNAME = 12"
definition OPT_DOMAIN_NAME :: byte where "OPT_DOMAIN_NAME = 15"
definition OPT_MTU :: byte where "OPT_MTU = 26"
definition OPT_BROADCAST :: byte where "OPT_BROADCAST = 28"
definition OPT_NTP :: byte where "OPT_NTP = 42"
definition OPT_REQUESTED_IP :: byte where "OPT_REQUESTED_IP = 50"
definition OPT_LEASE_TIME :: byte where "OPT_LEASE_TIME = 51"
definition OPT_MESSAGE_TYPE :: byte where "OPT_MESSAGE_TYPE = 53"
definition OPT_SERVER_ID :: byte where "OPT_SERVER_ID = 54"
definition OPT_PARAM_REQUEST :: byte where "OPT_PARAM_REQUEST = 55"
definition OPT_RENEWAL_TIME :: byte where "OPT_RENEWAL_TIME = 58"
definition OPT_REBINDING_TIME :: byte where "OPT_REBINDING_TIME = 59"
definition OPT_VENDOR_CLASS :: byte where "OPT_VENDOR_CLASS = 60"
definition OPT_CLIENT_ID :: byte where "OPT_CLIENT_ID = 61"
definition OPT_DOMAIN_SEARCH :: byte where "OPT_DOMAIN_SEARCH = 119"
definition OPT_CLASSLESS_ROUTES :: byte where "OPT_CLASSLESS_ROUTES = 121"
definition OPT_END :: byte where "OPT_END = 255"

lemmas option_codes = OPT_SUBNET_MASK_def OPT_ROUTER_def OPT_DNS_def OPT_HOSTNAME_def
  OPT_DOMAIN_NAME_def OPT_MTU_def OPT_BROADCAST_def OPT_NTP_def OPT_REQUESTED_IP_def
  OPT_LEASE_TIME_def OPT_MESSAGE_TYPE_def OPT_SERVER_ID_def OPT_PARAM_REQUEST_def
  OPT_RENEWAL_TIME_def OPT_REBINDING_TIME_def OPT_VENDOR_CLASS_def OPT_CLIENT_ID_def
  OPT_DOMAIN_SEARCH_def OPT_CLASSLESS_ROUTES_def OPT_END_def

lemmas message_types = DISCOVER_def OFFER_def REQUEST_def ACK_def NAK_def RELEASE_def INFORM_def

record lease =
  ls_ip :: str
  ls_mac :: str
  ls_hostname :: str
  ls_expires_at :: time
  ls_last_seen :: time
  ls_vendor :: str

definition lease_active :: "time \<Rightarrow> lease \<Rightarrow> bool" where
  "lease_active now l = (now < ls_expires_at l)"

text \<open>The subnet is an IPv4 network; the interface name and the lease file are used by I/O only.\<close>

record dhcp_config =
  subnet :: network
  server_ip :: str
  dns_servers :: "str list"
  lease_seconds :: int
  dc_domain :: str
  ntp_servers :: "str list"
  dc_mtu :: int
  static_routes :: "(str \<times> str) list"
  first_offset :: nat
  last_offset :: nat

record request =
  rq_op :: byte
  rq_htype :: byte
  rq_mac :: str
  rq_xid :: bytes
  rq_flags :: u16
  rq_ciaddr :: bytes
  rq_giaddr :: bytes
  rq_chaddr :: bytes
  rq_options :: "(byte, bytes) dict"

section \<open>Parsing a packet\<close>

definition ip_from_bytes :: "bytes \<Rightarrow> str" where
  "ip_from_bytes raw = (if 4 \<le> length raw then inet_ntoa (take 4 raw) else ''0.0.0.0'')"

definition option_of :: "request \<Rightarrow> byte \<Rightarrow> bytes option" where
  "option_of rq code = dget (rq_options rq) code"

text \<open>The loop over the options, on what is left of the payload; repeated options concatenate.\<close>

function parse_options :: "bytes \<Rightarrow> (byte, bytes) dict \<Rightarrow> (byte, bytes) dict" where
  "parse_options [] d = d"
| "parse_options (code # rest) d =
     (if code = OPT_END then d
      else if code = 0 then parse_options rest d
      else case rest of
        [] \<Rightarrow> d
      | len # rest' \<Rightarrow>
          parse_options (drop (unat len) rest')
            (dset code ((case dget d code of None \<Rightarrow> [] | Some v \<Rightarrow> v) @ take (unat len) rest') d))"
  by pat_completeness auto
termination
  by (relation "measure (\<lambda>(xs, _). length xs)") auto

definition parse_packet :: "bytes \<Rightarrow> request option" where
  "parse_packet payload =
     (if length payload < 240 \<or> slice 236 240 payload \<noteq> MAGIC_COOKIE then None
      else
        let chaddr = slice 28 44 payload in
        Some \<lparr>rq_op = payload ! 0, rq_htype = payload ! 1,
              rq_mac = join '':'' (map hex2 (take (max (unat (payload ! 2)) 6) chaddr)),
              rq_xid = slice 4 8 payload, rq_flags = unpack_H payload 10,
              rq_ciaddr = slice 12 16 payload, rq_giaddr = slice 24 28 payload,
              rq_chaddr = chaddr, rq_options = parse_options (drop 240 payload) []\<rparr>)"

section \<open>Options\<close>

definition dhcp_option :: "byte \<Rightarrow> bytes \<Rightarrow> bytes res" where
  "dhcp_option code v =
     (if 255 < length v then Inl ValueError else Inr (code # of_nat (length v) # v))"

text \<open>\<open>struct.pack("!I", n)\<close> and \<open>("!H", n)\<close> on an integer.\<close>

definition pack_I_int :: "int \<Rightarrow> bytes res" where
  "pack_I_int n = (if 0 \<le> n \<and> n < 2 ^ 32 then Inr (pack_I (of_int n)) else Inl StructError)"

definition pack_H_int :: "int \<Rightarrow> bytes res" where
  "pack_H_int n = (if 0 \<le> n \<and> n < 2 ^ 16 then Inr (pack_H (of_int n)) else Inl StructError)"

definition is_ipv4 :: "str \<Rightarrow> bool" where
  "is_ipv4 address = (case ip_address address of Some (V4 _) \<Rightarrow> True | _ \<Rightarrow> False)"

definition ascii_ignore :: "str \<Rightarrow> bytes" where
  "ascii_ignore s = map (\<lambda>c. of_nat (code_pt c)) (filter is_ascii s)"

definition search_label :: "str \<Rightarrow> bytes" where
  "search_label label =
     (let raw = take 63 (ascii_ignore label) in if raw = [] then [] else of_nat (length raw) # raw)"

definition encode_domain_search :: "str list \<Rightarrow> bytes" where
  "encode_domain_search domains =
     (let out = concat (map (\<lambda>d. concat (map search_label (split_on CHR ''.'' (strip_dots d))) @ [0]) domains)
      in if length out \<le> 255 then out else [])"

text \<open>
  One route appended to the output.  An \<open>OSError\<close> of \<open>inet_aton\<close> is no \<open>ValueError\<close> and would
  leave the loop; after a \<open>ValueError\<close> the bytes already appended stay.
\<close>

definition add_route :: "bytes \<Rightarrow> str \<times> str \<Rightarrow> bytes res" where
  "add_route out route =
     (case ip_network (fst route) of
        None \<Rightarrow> Inr out
      | Some n \<Rightarrow>
          if ip_version (net_base n) \<noteq> 4 \<or> \<not> is_ipv4 (snd route) then Inr out
          else
            let significant = (prefixlen n + 7) div 8;
                out = out @ [of_nat (prefixlen n)] @ take significant (packed (net_base n))
            in case inet_aton (snd route) of
                 Inr g \<Rightarrow> Inr (out @ g)
               | Inl e \<Rightarrow> if e = ValueError then Inr out else Inl e)"

fun add_routes :: "bytes \<Rightarrow> (str \<times> str) list \<Rightarrow> bytes res" where
  "add_routes out [] = Inr out"
| "add_routes out (r # rs) = rbind (add_route out r) (\<lambda>out. add_routes out rs)"

definition encode_classless_routes :: "(str \<times> str) list \<Rightarrow> bytes res" where
  "encode_classless_routes routes =
     rbind (add_routes [] routes) (\<lambda>out. Inr (if length out \<le> 255 then out else []))"

definition netmask_value :: "network \<Rightarrow> nat" where
  "netmask_value n = 2 ^ 32 - 2 ^ (32 - prefixlen n)"

definition broadcast_value :: "network \<Rightarrow> nat" where
  "broadcast_value n = ip_value (net_base n) + 2 ^ (32 - prefixlen n) - 1"

text \<open>Byte strings put together in order; the first exception wins.\<close>

fun rconcat :: "bytes res list \<Rightarrow> bytes res" where
  "rconcat [] = Inr []"
| "rconcat (r # rs) = rbind r (\<lambda>x. rbind (rconcat rs) (\<lambda>y. Inr (x @ y)))"

definition opt :: "byte \<Rightarrow> bytes res \<Rightarrow> bytes res" where
  "opt code v = rbind v (dhcp_option code)"

definition opt_when :: "bool \<Rightarrow> byte \<Rightarrow> bytes res \<Rightarrow> bytes res" where
  "opt_when c code v = (if c then opt code v else Inr [])"

definition opt_nonempty :: "bool \<Rightarrow> byte \<Rightarrow> bytes res \<Rightarrow> bytes res" where
  "opt_nonempty c code v =
     (if c then rbind v (\<lambda>x. if x = [] then Inr [] else dhcp_option code x) else Inr [])"

definition wanted :: "request \<Rightarrow> byte \<Rightarrow> bool" where
  "wanted rq code =
     (case option_of rq OPT_PARAM_REQUEST of
        None \<Rightarrow> True | Some codes \<Rightarrow> code \<in> set codes \<or> codes = [])"

definition resolvers :: "dhcp_config \<Rightarrow> str list" where
  "resolvers conf = (if dns_servers conf = [] then [server_ip conf] else dns_servers conf)"

text \<open>The options in the order they are written, with their codes.\<close>

definition option_list :: "dhcp_config \<Rightarrow> request \<Rightarrow> bytes \<Rightarrow> bytes \<Rightarrow> bytes \<Rightarrow> (byte \<times> bytes res) list" where
  "option_list conf rq nmask broadcast server =
     [(OPT_LEASE_TIME, opt OPT_LEASE_TIME (pack_I_int (lease_seconds conf))),
      (OPT_RENEWAL_TIME, opt OPT_RENEWAL_TIME (pack_I_int (lease_seconds conf div 2))),
      (OPT_REBINDING_TIME, opt OPT_REBINDING_TIME (pack_I_int (lease_seconds conf * 7 div 8))),
      (OPT_SUBNET_MASK, opt OPT_SUBNET_MASK (Inr nmask)),
      (OPT_ROUTER, opt OPT_ROUTER (Inr server)),
      (OPT_DNS, opt OPT_DNS (rconcat (map inet_aton (resolvers conf)))),
      (OPT_BROADCAST, opt_when (wanted rq OPT_BROADCAST) OPT_BROADCAST (Inr broadcast)),
      (OPT_DOMAIN_NAME, opt_when (dc_domain conf \<noteq> [] \<and> wanted rq OPT_DOMAIN_NAME) OPT_DOMAIN_NAME
         (Inr (ascii_ignore (dc_domain conf)))),
      (OPT_NTP, opt_nonempty True OPT_NTP
         (rconcat (map inet_aton (filter is_ipv4 (ntp_servers conf))))),
      (OPT_MTU, opt_when (dc_mtu conf \<noteq> 0 \<and> wanted rq OPT_MTU) OPT_MTU
         (pack_H_int (max 576 (min (dc_mtu conf) 1500)))),
      (OPT_DOMAIN_SEARCH, opt_nonempty (dc_domain conf \<noteq> [] \<and> wanted rq OPT_DOMAIN_SEARCH)
         OPT_DOMAIN_SEARCH (Inr (encode_domain_search [dc_domain conf]))),
      (OPT_CLASSLESS_ROUTES, opt_nonempty (static_routes conf \<noteq> [] \<and> wanted rq OPT_CLASSLESS_ROUTES)
         OPT_CLASSLESS_ROUTES (encode_classless_routes (static_routes conf)))]"

definition configuration_options :: "dhcp_config \<Rightarrow> request \<Rightarrow> bytes res" where
  "configuration_options conf rq =
     rbind (inet_aton (ip_str4 (netmask_value (subnet conf)))) (\<lambda>nmask.
     rbind (inet_aton (ip_str4 (broadcast_value (subnet conf)))) (\<lambda>broadcast.
     rbind (inet_aton (server_ip conf)) (\<lambda>server.
       rconcat (map snd (option_list conf rq nmask broadcast server)))))"

section \<open>The reply\<close>

definition reply_head :: "request \<Rightarrow> bytes \<Rightarrow> bytes \<Rightarrow> bytes" where
  "reply_head rq yiaddr server =
     [2, 1, 6, 0] @ rq_xid rq @ pack_H 0 @ pack_H (rq_flags rq) @ replicate 4 0 @ yiaddr @ server
       @ rq_giaddr rq @ rq_chaddr rq @ replicate 64 0 @ replicate 128 0 @ MAGIC_COOKIE"

definition pad_reply :: "bytes \<Rightarrow> bytes" where
  "pad_reply packet = (if length packet < 300 then packet @ replicate (300 - length packet) 0 else packet)"

definition build_reply :: "dhcp_config \<Rightarrow> request \<Rightarrow> byte \<Rightarrow> lease option \<Rightarrow> bool \<Rightarrow> bytes res" where
  "build_reply conf rq mtype ls include_address =
     rbind (case ls of Some l \<Rightarrow> if include_address then inet_aton (ls_ip l) else Inr (replicate 4 0)
            | None \<Rightarrow> Inr (replicate 4 0)) (\<lambda>yiaddr.
     rbind (inet_aton (server_ip conf)) (\<lambda>server.
     rbind (rconcat
        [dhcp_option OPT_MESSAGE_TYPE [mtype], dhcp_option OPT_SERVER_ID server,
         if mtype \<noteq> NAK then configuration_options conf rq else Inr []]) (\<lambda>options.
       Inr (pad_reply (reply_head rq yiaddr server @ options @ [OPT_END])))))"

text \<open>Where a reply goes: through a relay, back to a renewing client, or to everyone.\<close>

definition destination :: "request \<Rightarrow> str \<times> u16" where
  "destination rq =
     (let giaddr = ip_from_bytes (rq_giaddr rq); ciaddr = ip_from_bytes (rq_ciaddr rq) in
      if giaddr \<noteq> ''0.0.0.0'' then (giaddr, SERVER_PORT)
      else if ciaddr \<noteq> ''0.0.0.0'' \<and> rq_flags rq AND 0x8000 = 0 then (ciaddr, CLIENT_PORT)
      else (''255.255.255.255'', CLIENT_PORT))"

section \<open>Frames\<close>

fun word_sum :: "bytes \<Rightarrow> nat" where
  "word_sum (a # b # r) = (unat a * 256 + unat b) + word_sum r"
| "word_sum _ = 0"

text \<open>\<open>while total >> 16\<close>.\<close>

function fold_carry :: "nat \<Rightarrow> nat" where
  "fold_carry t = (if t div 65536 = 0 then t else fold_carry (t mod 65536 + t div 65536))"
  by pat_completeness auto
termination
proof (relation "measure id", simp)
  fix t :: nat assume "t div 65536 \<noteq> 0"
  then have "t div 65536 < t div 65536 * 65536" by simp
  then show "(t mod 65536 + t div 65536, t) \<in> measure id"
    using mult_div_mod_eq [of 65536 t] by (simp only: in_measure id_apply)
qed

declare fold_carry.simps [simp del]

definition even_bytes :: "bytes \<Rightarrow> bytes" where
  "even_bytes data = (if odd (length data) then data @ [0] else data)"

definition checksum :: "bytes \<Rightarrow> u16" where
  "checksum data = NOT (of_nat (fold_carry (word_sum (even_bytes data))))"

definition udp_header :: "u16 \<Rightarrow> u16 \<Rightarrow> bytes \<Rightarrow> u16 \<Rightarrow> bytes" where
  "udp_header sport dport len csum = pack_H sport @ pack_H dport @ len @ pack_H csum"

definition ip_header :: "bytes \<Rightarrow> bytes \<Rightarrow> bytes \<Rightarrow> bytes \<Rightarrow> bytes" where
  "ip_header total_len csum src dst =
     [0x45, 0x10] @ total_len @ pack_H 0 @ pack_H 0 @ [64, 17] @ csum @ src @ dst"

definition pseudo_header :: "bytes \<Rightarrow> bytes \<Rightarrow> bytes \<Rightarrow> bytes" where
  "pseudo_header src dst len = src @ dst @ [0, 17] @ len"

definition build_reply_frame :: "bytes \<Rightarrow> str \<Rightarrow> str \<Rightarrow> u16 \<Rightarrow> u16 \<Rightarrow> bytes res" where
  "build_reply_frame payload source_ip destination_ip sport dport =
     rbind (inet_aton source_ip) (\<lambda>src.
     rbind (inet_aton destination_ip) (\<lambda>dst.
     rbind (pack_H_int (8 + int (length payload))) (\<lambda>len.
       let csum = checksum (pseudo_header src dst len @ udp_header sport dport len 0 @ payload);
           udp = udp_header sport dport len (if csum = 0 then 0xFFFF else csum)
       in rbind (pack_H_int (20 + (8 + int (length payload)))) (\<lambda>total_len.
            let header = ip_header total_len (pack_H 0) src dst;
                header = take 10 header @ pack_H (checksum header) @ drop 12 header
            in Inr (header @ udp @ payload)))))"

definition BROADCAST_MAC :: bytes where "BROADCAST_MAC = replicate 6 0xFF"

definition destination_mac :: "bytes \<Rightarrow> bytes" where
  "destination_mac reply =
     (if length reply < 28 + 6 then BROADCAST_MAC
      else if unpack_H reply 10 AND 0x8000 \<noteq> 0 then BROADCAST_MAC
      else let mac = slice 28 34 reply in if list_ex (\<lambda>b. b \<noteq> 0) mac then mac else BROADCAST_MAC)"

text \<open>
  \<open>RawReplySender.send\<close>: the frames written, each with its outcome, and whether one got out.  The
  outcome of writing a frame is a parameter; without a packet socket nothing is written.
\<close>

fun send_frames :: "(bytes \<Rightarrow> bool) \<Rightarrow> bytes \<Rightarrow> str \<Rightarrow> str list \<Rightarrow> (bytes \<times> bytes) list res" where
  "send_frames out reply dst [] = Inr []"
| "send_frames out reply dst (src # srcs) =
     rbind (build_reply_frame reply src dst SERVER_PORT CLIENT_PORT) (\<lambda>f.
     rbind (send_frames out reply dst srcs) (\<lambda>fs. Inr ((destination_mac reply, f) # fs)))"

definition raw_sources :: "str \<Rightarrow> str \<Rightarrow> str list" where
  "raw_sources src dst =
     (if dst = ''255.255.255.255'' \<and> src \<noteq> ''0.0.0.0'' then [src, ''0.0.0.0''] else [src])"

definition raw_send ::
  "bool \<Rightarrow> (bytes \<Rightarrow> bool) \<Rightarrow> bytes \<Rightarrow> str \<Rightarrow> str \<Rightarrow> ((bytes \<times> bytes) list \<times> bool) res" where
  "raw_send available out reply src dst =
     (if \<not> available then Inr ([], False)
      else rbind (send_frames out reply dst (raw_sources src dst)) (\<lambda>fs.
        Inr (fs, list_ex (\<lambda>(_, f). out f) fs)))"

section \<open>One's-complement checksums\<close>

lemma fold_carry_lt: "fold_carry t < 65536"
proof (induction t rule: fold_carry.induct)
  case (1 t)
  then show ?case by (subst fold_carry.simps) (simp add: div_eq_0_iff)
qed

lemma fold_carry_mod: "fold_carry t mod 65535 = t mod 65535"
proof (induction t rule: fold_carry.induct)
  case (1 t)
  show ?case
  proof (cases "t div 65536 = 0")
    case False
    have "t mod 65535 = (t mod 65536 + t div 65536 * 65536) mod 65535" by simp
    also have "\<dots> = (t mod 65536 + t div 65536) mod 65535"
      using mod_mult_self1 [of "t mod 65536 + t div 65536" "t div 65536" 65535] by (simp add: algebra_simps)
    finally show ?thesis using 1 [OF False] False by (subst fold_carry.simps) simp
  qed (subst fold_carry.simps, simp)
qed

lemma fold_carry_0_iff: "fold_carry t = 0 \<longleftrightarrow> t = 0"
proof (induction t rule: fold_carry.induct)
  case (1 t)
  show ?case
  proof (cases "t div 65536 = 0")
    case False
    then have "t mod 65536 + t div 65536 \<noteq> 0" "t \<noteq> 0" by auto
    then show ?thesis using 1 [OF False] False by (subst fold_carry.simps) simp
  qed (subst fold_carry.simps, simp)
qed

lemma unat_checksum: "unat (checksum data) = 65535 - fold_carry (word_sum (even_bytes data))"
proof -
  let ?t = "fold_carry (word_sum (even_bytes data))"
  have "NOT x = 0xFFFF - x" for x :: u16 by (simp add: not_eq_complement)
  moreover have "x \<le> 0xFFFF" for x :: u16
    using unsigned_less [of x, where ?'a = nat] by (simp add: word_le_nat_alt)
  ultimately have "unat (NOT x) = 65535 - unat x" for x :: u16 by (simp add: unat_sub)
  then show ?thesis using fold_carry_lt by (simp add: checksum_def unat_of_nat)
qed

lemma checksum_0_iff:
  "checksum data = 0 \<longleftrightarrow> word_sum (even_bytes data) \<noteq> 0 \<and> word_sum (even_bytes data) mod 65535 = 0"
proof -
  let ?s = "word_sum (even_bytes data)"
  have "checksum data = 0 \<longleftrightarrow> 65535 - fold_carry ?s = 0"
    unfolding unat_checksum [symmetric] by (simp add: unat_eq_0)
  also have "\<dots> \<longleftrightarrow> fold_carry ?s \<noteq> 0 \<and> fold_carry ?s mod 65535 = 0"
    using fold_carry_lt [of ?s] mod_less [of "fold_carry ?s" 65535] by (cases "fold_carry ?s = 65535") auto
  finally show ?thesis by (simp add: fold_carry_0_iff fold_carry_mod)
qed

lemma word_sum_append: "even (length a) \<Longrightarrow> word_sum (a @ b) = word_sum a + word_sum b"
  by (induction a rule: word_sum.induct) auto

lemma word_sum_pack_H: "word_sum (pack_H c) = unat c"
proof -
  have "unat (drop_bit 8 c) = unat c div 256"
    by (subst unat_drop_bit_eq) (simp add: drop_bit_eq_div)
  then have "unat (ucast (drop_bit 8 c) :: byte) = unat c div 256"
    using unsigned_less [of c, where ?'a = nat]
    by (simp add: unsigned_ucast_eq take_bit_eq_mod)
  moreover have "unat (ucast c :: byte) = unat c mod 256" by (simp add: unsigned_ucast_eq take_bit_eq_mod)
  ultimately show ?thesis by (simp add: pack_H_def)
qed

lemma even_bytes_append: "even (length a) \<Longrightarrow> even_bytes (a @ b) = a @ even_bytes b"
  by (simp add: even_bytes_def)

text \<open>
  Putting the checksum of a message with a zero field into that field makes the whole sum to zero,
  which is how a receiver checks it; a zero may be sent as all ones.
\<close>

lemma checksum_filled:
  assumes a: "even (length a)" and "c = checksum (a @ pack_H 0 @ b) \<or>
    checksum (a @ pack_H 0 @ b) = 0 \<and> c = 0xFFFF"
  shows "checksum (a @ pack_H c @ b) = 0"
proof -
  let ?s = "word_sum (a @ even_bytes b)"
  have s: "word_sum (even_bytes (a @ pack_H c @ b)) = ?s + unat c" for c
    using a by (simp add: even_bytes_append word_sum_append word_sum_pack_H)
  have z: "unat (checksum (a @ pack_H 0 @ b)) = 65535 - fold_carry ?s"
    unfolding unat_checksum s by simp
  show ?thesis unfolding checksum_0_iff s
  proof (cases "c = checksum (a @ pack_H 0 @ b)")
    case True
    have "(?s + (65535 - fold_carry ?s)) mod 65535 = (fold_carry ?s + (65535 - fold_carry ?s)) mod 65535"
      by (metis fold_carry_mod mod_add_left_eq)
    with fold_carry_lt [of ?s] fold_carry_0_iff [of ?s] z True
    show "?s + unat c \<noteq> 0 \<and> (?s + unat c) mod 65535 = 0" by auto
  next
    case False
    with assms(2) have "checksum (a @ pack_H 0 @ b) = 0" "unat c = 65535" by auto
    then show "?s + unat c \<noteq> 0 \<and> (?s + unat c) mod 65535 = 0"
      unfolding checksum_0_iff s by simp
  qed
qed

lemma length_inet_aton: "inet_aton s = Inr b \<Longrightarrow> length b = 4"
  by (auto simp: inet_aton_def split: if_splits option.splits)

lemma unat_of_nat_u16: "m < 65536 \<Longrightarrow> unat (of_nat m :: u16) = m"
  by (simp add: unat_of_nat)

text \<open>
  C27: a reply frame is a well-formed IPv4 packet.  Both checksums verify as a receiver checks them,
  the UDP one over the pseudo header and never sent as zero, the payload follows the 28 bytes of
  headers untouched, and the lengths in the headers are those of the packet.
\<close>

theorem reply_frame_verifies:
  assumes "build_reply_frame payload source_ip destination_ip sport dport = Inr f"
  shows "\<exists>src dst. inet_aton source_ip = Inr src \<and> inet_aton destination_ip = Inr dst
    \<and> checksum (take 20 f) = 0
    \<and> checksum (pseudo_header src dst (slice 24 26 f) @ drop 20 f) = 0
    \<and> unpack_H f 26 \<noteq> 0 \<and> drop 28 f = payload
    \<and> unat (unpack_H f 2) = length f \<and> unat (unpack_H f 24) = 8 + length payload"
proof -
  let ?n = "8 + length payload"
  obtain src dst where a: "inet_aton source_ip = Inr src" "inet_aton destination_ip = Inr dst"
    and n: "20 + ?n < 65536"
    and f: "f = (let len = pack_H (of_nat ?n); tl = pack_H (of_nat (20 + ?n));
        csum = checksum (pseudo_header src dst len @ udp_header sport dport len 0 @ payload);
        h = ip_header tl (pack_H 0) src dst
      in (take 10 h @ pack_H (checksum h) @ drop 12 h)
         @ udp_header sport dport len (if csum = 0 then 0xFFFF else csum) @ payload)"
    using assms by (auto simp: build_reply_frame_def pack_H_int_def rbind_Inr_iff Let_def split: if_splits)
  define tl where "tl = (of_nat (20 + ?n) :: u16)"
  define len where "len = (of_nat ?n :: u16)"
  define c1 where "c1 = checksum (ip_header (pack_H tl) (pack_H 0) src dst)"
  define c0 where "c0 = checksum (pseudo_header src dst (pack_H len) @ udp_header sport dport (pack_H len) 0 @ payload)"
  define c2 where "c2 = (if c0 = 0 then 0xFFFF else c0)"
  let ?pre = "[0x45, 0x10] @ pack_H tl @ pack_H 0 @ pack_H 0 @ [64, 17]"
  let ?ports = "pack_H sport @ pack_H dport @ pack_H len"
  have f: "f = (?pre @ pack_H c1 @ src @ dst) @ ?ports @ pack_H c2 @ payload"
    unfolding f c2_def c0_def c1_def len_def tl_def Let_def by (simp add: ip_header_def udp_header_def)
  have l: "length src = 4" "length dst = 4" using a by (auto dest: length_inet_aton)
  have 1: "checksum (?pre @ pack_H c1 @ src @ dst) = 0"
    by (rule checksum_filled) (simp_all add: c1_def ip_header_def)
  have 2: "checksum ((pseudo_header src dst (pack_H len) @ ?ports) @ pack_H c2 @ payload) = 0"
    by (rule checksum_filled) (auto simp: l c2_def c0_def udp_header_def pseudo_header_def)
  have n': "unat tl = 20 + ?n" "unat len = ?n" using n unat_of_nat_u16 by (simp_all only: tl_def len_def)
  have "slice 24 26 f = pack_H len" by (simp add: f l slice_def)
  moreover have "drop 20 f = ?ports @ pack_H c2 @ payload" "take 20 f = ?pre @ pack_H c1 @ src @ dst"
    "drop 28 f = payload" "length f = 20 + ?n"
    by (simp_all add: f l)
  moreover have "unpack_H f 2 = tl" "unpack_H f 24 = len" "unpack_H f 26 = c2"
    using unpack_pack_H [of 2 "[0x45, 0x10]" tl] unpack_pack_H [of 24 "(?pre @ pack_H c1 @ src @ dst) @ pack_H sport @ pack_H dport" len]
      unpack_pack_H [of 26 "(?pre @ pack_H c1 @ src @ dst) @ ?ports" c2] by (simp_all add: f l)
  moreover have "c2 \<noteq> 0" by (simp add: c2_def)
  ultimately show ?thesis using a 1 2 n' by (intro exI [of _ src] exI [of _ dst]) simp
qed

lemma sample_addresses: "inet_aton ''10.0.0.1'' = Inr [10, 0, 0, 1]"
    "inet_aton ''255.255.255.255'' = Inr [255, 255, 255, 255]"
  using inet_aton_quad [of 10 0 0 1] inet_aton_quad [of 255 255 255 255]
  by (simp_all add: dec_def digits.simps digit_chars)

theorem reply_frame_verifies_witness:
  "\<exists>f. build_reply_frame [1, 2, 3] ''10.0.0.1'' ''255.255.255.255'' SERVER_PORT CLIENT_PORT = Inr f
     \<and> checksum (take 20 f) = 0 \<and> drop 28 f = [1, 2, 3]"
proof -
  obtain f where f: "build_reply_frame [1, 2, 3] ''10.0.0.1'' ''255.255.255.255'' SERVER_PORT CLIENT_PORT = Inr f"
    by (simp add: build_reply_frame_def sample_addresses pack_H_int_def Let_def)
  with reply_frame_verifies [OF f] show ?thesis by auto
qed

section \<open>Options read back\<close>

text \<open>Encoded options one after another, an empty string where an option is left out.\<close>

definition enc_option :: "byte \<Rightarrow> bytes \<Rightarrow> bytes" where
  "enc_option code v = code # of_nat (length v) # v"

definition piece :: "byte \<Rightarrow> bytes \<Rightarrow> bool" where
  "piece code y = (y = [] \<or> (\<exists>v. length v \<le> 255 \<and> y = enc_option code v))"

fun add_pieces :: "(byte \<times> bytes) list \<Rightarrow> (byte, bytes) dict \<Rightarrow> (byte, bytes) dict" where
  "add_pieces [] d = d"
| "add_pieces ((code, y) # ps) d = add_pieces ps (if y = [] then d else dset code (drop 2 y) d)"

lemma parse_option:
  assumes "code \<noteq> 0" "code \<noteq> OPT_END" "length v \<le> 255" "dget d code = None"
  shows "parse_options (enc_option code v @ rest) d = parse_options rest (dset code v d)"
proof -
  have "unat (of_nat (length v) :: byte) = length v" using assms(3) by (simp add: unat_of_nat)
  then show ?thesis using assms by (simp add: enc_option_def)
qed

lemma parse_pieces:
  assumes "\<forall>(code, y) \<in> set ps. code \<noteq> 0 \<and> code \<noteq> OPT_END \<and> piece code y"
    and "distinct (map fst ps)" and "\<forall>code \<in> fst ` set ps. dget d code = None"
  shows "parse_options (concat (map snd ps) @ rest) d = parse_options rest (add_pieces ps d)"
  using assms
proof (induction ps arbitrary: d)
  case (Cons p ps)
  obtain code y where p: "p = (code, y)" by (cases p)
  show ?case
  proof (cases "y = []")
    case True
    then show ?thesis using Cons by (simp add: p)
  next
    case False
    then obtain v where v: "length v \<le> 255" "y = enc_option code v" using Cons.prems(1) by (auto simp: p piece_def)
    have d: "dget (dset code v d) c = None" if "c \<in> fst ` set ps" for c
      using Cons.prems(2,3) that by (auto simp: p image_iff)
    have "parse_options (enc_option code v @ concat (map snd ps) @ rest) d
        = parse_options (concat (map snd ps) @ rest) (dset code v d)"
      using Cons.prems by (intro parse_option v) (auto simp: p)
    then show ?thesis using Cons.IH [of "dset code v d"] Cons.prems(1,2) d
      by (simp add: p v enc_option_def)
  qed
qed simp

lemma dget_add_pieces:
  assumes "distinct (map fst ps)"
  shows "dget (add_pieces ps d) c =
    (case dget ps c of Some y \<Rightarrow> if y = [] then dget d c else Some (drop 2 y) | None \<Rightarrow> dget d c)"
  using assms
proof (induction ps arbitrary: d)
  case (Cons p ps)
  obtain code y where p: "p = (code, y)" by (cases p)
  have "dget ps code = None" using Cons.prems by (simp add: dget_None_iff p)
  with Cons show ?case by (auto simp: p split: option.split)
qed simp

lemma opt_Inr: "opt code v = Inr y \<longleftrightarrow> (\<exists>x. v = Inr x \<and> length x \<le> 255 \<and> y = enc_option code x)"
proof
  assume "opt code v = Inr y"
  then show "\<exists>x. v = Inr x \<and> length x \<le> 255 \<and> y = enc_option code x"
    by (auto simp: opt_def rbind_Inr_iff dhcp_option_def enc_option_def split: if_splits)
qed (auto simp: opt_def dhcp_option_def enc_option_def)

lemma opt_piece: "opt code v = Inr y \<Longrightarrow> piece code y"
  "opt_when c code v = Inr y \<Longrightarrow> piece code y" "opt_nonempty c code v = Inr y \<Longrightarrow> piece code y"
  by (auto simp: opt_Inr piece_def opt_when_def opt_nonempty_def rbind_Inr_iff dhcp_option_def enc_option_def
      split: if_splits)

lemma rconcat_Inr: "rconcat rs = Inr x \<longleftrightarrow> (\<exists>ys. rs = map Inr ys \<and> x = concat ys)"
proof (induction rs arbitrary: x)
  case (Cons r rs)
  show ?case by (auto simp: rbind_Inr_iff Cons.IH Cons_eq_map_conv)
qed auto


lemma option_list_codes:
  "map fst (option_list conf rq nmask broadcast server) =
     [OPT_LEASE_TIME, OPT_RENEWAL_TIME, OPT_REBINDING_TIME, OPT_SUBNET_MASK, OPT_ROUTER, OPT_DNS,
      OPT_BROADCAST, OPT_DOMAIN_NAME, OPT_NTP, OPT_MTU, OPT_DOMAIN_SEARCH, OPT_CLASSLESS_ROUTES]"
  by (simp add: option_list_def)

lemma option_list_distinct:
  "distinct (OPT_MESSAGE_TYPE # OPT_SERVER_ID # map fst (option_list conf rq nmask broadcast server))"
  unfolding option_list_codes by (simp add: option_codes)

lemma option_list_piece:
  "(code, Inr y) \<in> set (option_list conf rq nmask broadcast server) \<Longrightarrow>
     code \<noteq> 0 \<and> code \<noteq> OPT_END \<and> piece code y"
  by (auto simp: option_list_def dest!: opt_piece [OF sym]) (simp_all add: option_codes)

text \<open>The values behind a list of fallible ones that all succeed.\<close>

lemma pieces_of:
  assumes "map snd ps = map Inr ys"
  shows "\<exists>qs. ps = map (\<lambda>(c, y). (c, Inr y)) qs \<and> map snd qs = ys \<and> map fst qs = map fst ps"
  using assms
proof (induction ps arbitrary: ys)
  case (Cons p ps)
  obtain c r where p: "p = (c, r)" by (cases p)
  obtain y ys' where ys: "ys = y # ys'" "r = Inr y" "map snd ps = map Inr ys'"
    using Cons.prems by (cases ys) (auto simp: p)
  obtain qs where "ps = map (\<lambda>(c, y). (c, Inr y)) qs \<and> map snd qs = ys' \<and> map fst qs = map fst ps"
    using Cons.IH [OF ys(3)] by blast
  then show ?case by (intro exI [of _ "(c, y) # qs"]) (auto simp: p ys)
qed simp

lemma configuration_pieces:
  assumes "configuration_options conf rq = Inr x"
  shows "\<exists>nmask broadcast server qs.
    inet_aton (ip_str4 (netmask_value (subnet conf))) = Inr nmask \<and> inet_aton (server_ip conf) = Inr server
    \<and> option_list conf rq nmask broadcast server = map (\<lambda>(c, y). (c, Inr y)) qs \<and> x = concat (map snd qs)"
proof -
  obtain nmask broadcast server where m: "inet_aton (ip_str4 (netmask_value (subnet conf))) = Inr nmask"
      "inet_aton (server_ip conf) = Inr server"
    and r: "rconcat (map snd (option_list conf rq nmask broadcast server)) = Inr x"
    using assms by (auto simp: configuration_options_def rbind_Inr_iff)
  from r obtain ys where ys: "map snd (option_list conf rq nmask broadcast server) = map Inr ys" "x = concat ys"
    by (auto simp: rconcat_Inr)
  with m pieces_of [OF ys(1)] show ?thesis by metis
qed

section \<open>What a reply says\<close>

definition rq_ok :: "request \<Rightarrow> bool" where
  "rq_ok rq = (length (rq_xid rq) = 4 \<and> length (rq_giaddr rq) = 4 \<and> length (rq_chaddr rq) = 16)"

lemma parse_packet_ok: "parse_packet payload = Some rq \<Longrightarrow> rq_ok rq"
  by (auto simp: parse_packet_def rq_ok_def Let_def length_slice split: if_splits)

lemma parse_options_end: "parse_options (OPT_END # pad) d = d"
  by simp

lemma enc_option_parts: "drop 2 (enc_option code v) = v" "enc_option code v \<noteq> []"
  by (simp_all add: enc_option_def)

lemma dhcp_option_Inr: "dhcp_option code v = Inr y \<longleftrightarrow> length v \<le> 255 \<and> y = enc_option code v"
  by (auto simp: dhcp_option_def enc_option_def)

lemma parse_reply_head:
  assumes "rq_ok rq" "length yiaddr = 4" "length server = 4"
  shows "\<exists>mac. parse_packet (reply_head rq yiaddr server @ rest) = Some \<lparr>rq_op = 2, rq_htype = 1, rq_mac = mac,
      rq_xid = rq_xid rq, rq_flags = rq_flags rq, rq_ciaddr = replicate 4 0, rq_giaddr = rq_giaddr rq,
      rq_chaddr = rq_chaddr rq, rq_options = parse_options rest []\<rparr>"
    and "slice 16 20 (reply_head rq yiaddr server @ rest) = yiaddr"
proof -
  let ?d = "reply_head rq yiaddr server @ rest"
  have l: "length (rq_xid rq) = 4" "length (rq_giaddr rq) = 4" "length (rq_chaddr rq) = 16"
    using assms(1) by (simp_all add: rq_ok_def)
  have c: "slice 236 240 ?d = MAGIC_COOKIE" "slice 4 8 ?d = rq_xid rq" "slice 24 28 ?d = rq_giaddr rq"
    "slice 12 16 ?d = replicate 4 0" "slice 28 44 ?d = rq_chaddr rq"
    by (simp_all add: reply_head_def slice_def l assms(2,3) MAGIC_COOKIE_def)
  have f: "unpack_H ?d 10 = rq_flags rq"
    using unpack_pack_H [of 10 "[2, 1, 6, 0] @ rq_xid rq @ pack_H 0" "rq_flags rq"]
    by (simp add: reply_head_def l)
  have h: "240 \<le> length ?d" "?d ! 0 = 2" "?d ! 1 = 1" "drop 240 ?d = rest"
    by (simp_all add: reply_head_def l assms(2,3) MAGIC_COOKIE_def)
  show "\<exists>mac. parse_packet ?d = Some \<lparr>rq_op = 2, rq_htype = 1, rq_mac = mac,
      rq_xid = rq_xid rq, rq_flags = rq_flags rq, rq_ciaddr = replicate 4 0, rq_giaddr = rq_giaddr rq,
      rq_chaddr = rq_chaddr rq, rq_options = parse_options rest []\<rparr>"
    using h unfolding parse_packet_def Let_def c f by simp
  show "slice 16 20 ?d = yiaddr" by (simp add: reply_head_def slice_def l assms(2))
qed

lemma option_list_values:
  assumes "option_list conf rq nmask broadcast server = map (\<lambda>(c, y). (c, Inr y)) qs"
  shows "\<exists>lt dns. pack_I_int (lease_seconds conf) = Inr lt \<and> rconcat (map inet_aton (resolvers conf)) = Inr dns
    \<and> dget qs OPT_LEASE_TIME = Some (enc_option OPT_LEASE_TIME lt)
    \<and> dget qs OPT_SUBNET_MASK = Some (enc_option OPT_SUBNET_MASK nmask)
    \<and> dget qs OPT_ROUTER = Some (enc_option OPT_ROUTER server)
    \<and> dget qs OPT_DNS = Some (enc_option OPT_DNS dns)"
proof -
  have m: "dget (option_list conf rq nmask broadcast server) c = map_option Inr (dget qs c)" for c
    unfolding assms by (induction qs) auto
  have r: "\<exists>x. v = Inr x \<and> dget qs c = Some (enc_option c x)" if "map_option Inr (dget qs c) = Some (opt c v)" for c v
    using that by (auto simp: opt_Inr eq_commute [of "Inr _" "opt _ _"] map_option_eq_Some)
  have "map_option Inr (dget qs OPT_LEASE_TIME) = Some (opt OPT_LEASE_TIME (pack_I_int (lease_seconds conf)))"
    "map_option Inr (dget qs OPT_SUBNET_MASK) = Some (opt OPT_SUBNET_MASK (Inr nmask))"
    "map_option Inr (dget qs OPT_ROUTER) = Some (opt OPT_ROUTER (Inr server))"
    "map_option Inr (dget qs OPT_DNS) = Some (opt OPT_DNS (rconcat (map inet_aton (resolvers conf))))"
    unfolding m [symmetric] option_list_def by (simp_all add: option_codes)
  from this [THEN r] show ?thesis by auto
qed

lemma pieces_value:
  "distinct (map fst ps) \<Longrightarrow> dget ps c = Some (enc_option c v) \<Longrightarrow> dget (add_pieces ps []) c = Some v"
  by (simp add: dget_add_pieces enc_option_parts)

lemma reply_options:
  assumes "rconcat [dhcp_option OPT_MESSAGE_TYPE [mtype], dhcp_option OPT_SERVER_ID server,
      configuration_options conf rq] = Inr x" and "inet_aton (server_ip conf) = Inr server"
  shows "\<exists>qs lt dns nmask. parse_options (x @ OPT_END # pad) [] = qs
    \<and> pack_I_int (lease_seconds conf) = Inr lt \<and> rconcat (map inet_aton (resolvers conf)) = Inr dns
    \<and> inet_aton (ip_str4 (netmask_value (subnet conf))) = Inr nmask
    \<and> dget qs OPT_MESSAGE_TYPE = Some [mtype] \<and> dget qs OPT_SERVER_ID = Some server
    \<and> dget qs OPT_LEASE_TIME = Some lt \<and> dget qs OPT_SUBNET_MASK = Some nmask
    \<and> dget qs OPT_ROUTER = Some server \<and> dget qs OPT_DNS = Some dns"
proof -
  obtain z where z: "configuration_options conf rq = Inr z" and s: "length server \<le> 255"
    and x: "x = enc_option OPT_MESSAGE_TYPE [mtype] @ enc_option OPT_SERVER_ID server @ z"
    using assms(1) by (auto simp: rbind_Inr_iff dhcp_option_Inr)
  from configuration_pieces [OF z] assms(2)
  obtain nmask broadcast qs where q: "inet_aton (ip_str4 (netmask_value (subnet conf))) = Inr nmask"
      "option_list conf rq nmask broadcast server = map (\<lambda>(c, y). (c, Inr y)) qs" "z = concat (map snd qs)"
    by auto
  let ?ps = "(OPT_MESSAGE_TYPE, enc_option OPT_MESSAGE_TYPE [mtype])
    # (OPT_SERVER_ID, enc_option OPT_SERVER_ID server) # qs"
  have codes: "map fst qs = map fst (option_list conf rq nmask broadcast server)" unfolding q(2) by (induction qs) auto
  have d: "distinct (map fst ?ps)" using option_list_distinct codes by simp
  have q': "code \<noteq> 0 \<and> code \<noteq> OPT_END \<and> piece code y" if "(code, y) \<in> set qs" for code y
    by (rule option_list_piece [of code y conf rq nmask broadcast server], unfold q(2)) (use that in force)
  have "piece c (enc_option c v)" if "length v \<le> 255" for c v using that by (auto simp: piece_def)
  then have "\<forall>(code, y) \<in> set (take 2 ?ps). code \<noteq> 0 \<and> code \<noteq> OPT_END \<and> piece code y"
    using s by (simp add: option_codes)
  with q' have p: "\<forall>(code, y) \<in> set ?ps. code \<noteq> 0 \<and> code \<noteq> OPT_END \<and> piece code y" by simp blast
  have x': "x @ OPT_END # pad = concat (map snd ?ps) @ OPT_END # pad" by (simp add: x q(3))
  have run: "parse_options (x @ OPT_END # pad) [] = add_pieces ?ps []"
    unfolding x' by (subst parse_pieces [OF p d]) (simp_all del: add_pieces.simps)
  have tail: "dget ?ps c = dget qs c" if "c \<notin> {OPT_MESSAGE_TYPE, OPT_SERVER_ID}" for c using that by simp
  note v = pieces_value [OF d]
  obtain lt dns where vals: "pack_I_int (lease_seconds conf) = Inr lt" "rconcat (map inet_aton (resolvers conf)) = Inr dns"
    and e: "dget qs OPT_LEASE_TIME = Some (enc_option OPT_LEASE_TIME lt)"
      "dget qs OPT_SUBNET_MASK = Some (enc_option OPT_SUBNET_MASK nmask)"
      "dget qs OPT_ROUTER = Some (enc_option OPT_ROUTER server)"
      "dget qs OPT_DNS = Some (enc_option OPT_DNS dns)"
    using option_list_values [OF q(2)] by auto
  have "dget (add_pieces ?ps []) OPT_MESSAGE_TYPE = Some [mtype]" by (rule v) simp
  moreover have "dget (add_pieces ?ps []) OPT_SERVER_ID = Some server" by (rule v) (simp add: option_codes)
  moreover have "dget (add_pieces ?ps []) OPT_LEASE_TIME = Some lt"
    by (rule v, subst tail) (simp_all add: e(1), simp add: option_codes)
  moreover have "dget (add_pieces ?ps []) OPT_SUBNET_MASK = Some nmask"
    by (rule v, subst tail) (simp_all add: e(2), simp add: option_codes)
  moreover have "dget (add_pieces ?ps []) OPT_ROUTER = Some server"
    by (rule v, subst tail) (simp_all add: e(3), simp add: option_codes)
  moreover have "dget (add_pieces ?ps []) OPT_DNS = Some dns"
    by (rule v, subst tail) (simp_all add: e(4), simp add: option_codes)
  ultimately show ?thesis unfolding run using q(1) vals by blast
qed

lemma pad_reply_append: "\<exists>pad. pad_reply xs = xs @ pad \<and> 300 \<le> length (pad_reply xs)"
  by (auto simp: pad_reply_def)

lemma netmask_lt: "netmask_value n < 2 ^ 32"
  by (simp add: netmask_value_def)

text \<open>
  a reply tells its client what it must.  Whatever the request and the configuration, a reply
  that could be built and is not a refusal parses back, at 300 bytes or more, with the request's
  transaction, flags, relay and hardware address; the address leased sits in its field; and its
  options name this server as server and router, carry the netmask and the lease time, and list
  as DNS servers exactly the configured resolvers (this server when none is configured), requested or not.
\<close>

theorem reply_configures_client:
  assumes built: "build_reply conf rq mtype ls incl = Inr out" and "mtype \<noteq> NAK" and ok: "rq_ok rq"
  shows "\<exists>r server dns lt. parse_packet out = Some r \<and> 300 \<le> length out \<and> rq_op r = 2
    \<and> rq_xid r = rq_xid rq \<and> rq_flags r = rq_flags rq \<and> rq_giaddr r = rq_giaddr rq
    \<and> rq_chaddr r = rq_chaddr rq
    \<and> inet_aton (server_ip conf) = Inr server \<and> rconcat (map inet_aton (resolvers conf)) = Inr dns
    \<and> pack_I_int (lease_seconds conf) = Inr lt
    \<and> option_of r OPT_MESSAGE_TYPE = Some [mtype] \<and> option_of r OPT_SERVER_ID = Some server
    \<and> option_of r OPT_ROUTER = Some server \<and> option_of r OPT_DNS = Some dns
    \<and> option_of r OPT_LEASE_TIME = Some lt
    \<and> option_of r OPT_SUBNET_MASK = Some (be_bytes 4 (netmask_value (subnet conf)))
    \<and> (\<forall>l. ls = Some l \<and> incl \<longrightarrow> inet_aton (ls_ip l) = Inr (slice 16 20 out))"
proof -
  obtain yiaddr server x where y: "(case ls of Some l \<Rightarrow> if incl then inet_aton (ls_ip l) else Inr (replicate 4 0)
        | None \<Rightarrow> Inr (replicate 4 0)) = Inr yiaddr"
    and s: "inet_aton (server_ip conf) = Inr server"
    and x: "rconcat [dhcp_option OPT_MESSAGE_TYPE [mtype], dhcp_option OPT_SERVER_ID server,
        configuration_options conf rq] = Inr x"
    and o: "out = pad_reply (reply_head rq yiaddr server @ x @ [OPT_END])"
    using built \<open>mtype \<noteq> NAK\<close> unfolding build_reply_def rbind_Inr_iff by auto
  obtain pad where pad: "out = reply_head rq yiaddr server @ x @ OPT_END # pad" "300 \<le> length out"
    using pad_reply_append [of "reply_head rq yiaddr server @ x @ [OPT_END]"] unfolding o by auto
  have ly: "length yiaddr = 4" using y by (auto dest: length_inet_aton split: option.splits if_splits)
  note ls = length_inet_aton [OF s]
  obtain r where r: "parse_packet out = Some r" "rq_op r = 2" "rq_xid r = rq_xid rq" "rq_flags r = rq_flags rq"
      "rq_giaddr r = rq_giaddr rq" "rq_chaddr r = rq_chaddr rq"
    and rest: "rq_options r = parse_options (x @ OPT_END # pad) []"
    using parse_reply_head(1) [OF ok ly ls] unfolding pad(1) by (metis request.select_convs)
  have "slice 16 20 out = yiaddr" unfolding pad(1) by (rule parse_reply_head(2) [OF ok ly ls])
  then have yi: "\<forall>l. ls = Some l \<and> incl \<longrightarrow> inet_aton (ls_ip l) = Inr (slice 16 20 out)" using y by auto
  have m: "inet_aton (ip_str4 (netmask_value (subnet conf))) = Inr (be_bytes 4 (netmask_value (subnet conf)))"
    by (rule inet_aton_canonical [OF netmask_lt])
  from reply_options [OF x s, of pad, folded rest] obtain lt dns where
      v: "pack_I_int (lease_seconds conf) = Inr lt" "rconcat (map inet_aton (resolvers conf)) = Inr dns"
    and opts: "option_of r OPT_MESSAGE_TYPE = Some [mtype]" "option_of r OPT_SERVER_ID = Some server"
      "option_of r OPT_LEASE_TIME = Some lt"
      "option_of r OPT_SUBNET_MASK = Some (be_bytes 4 (netmask_value (subnet conf)))"
      "option_of r OPT_ROUTER = Some server" "option_of r OPT_DNS = Some dns"
    unfolding m option_of_def by auto
  show ?thesis
    by (intro exI [of _ r] exI [of _ server] exI [of _ dns] exI [of _ lt] conjI r pad(2) s v opts yi)
qed

definition sample_conf :: dhcp_config where
  "sample_conf = \<lparr>subnet = \<lparr>net_base = v4_of 10 0 0 0, prefixlen = 24\<rparr>, server_ip = ''10.0.0.1'',
     dns_servers = [], lease_seconds = 3600, dc_domain = [], ntp_servers = [], dc_mtu = 0,
     static_routes = [], first_offset = 10, last_offset = 200\<rparr>"

definition sample_rq :: request where
  "sample_rq = \<lparr>rq_op = 1, rq_htype = 1, rq_mac = ''m'', rq_xid = [1, 2, 3, 4], rq_flags = 0,
     rq_ciaddr = replicate 4 0, rq_giaddr = replicate 4 0, rq_chaddr = replicate 16 7, rq_options = []\<rparr>"

definition sample_lease :: lease where
  "sample_lease = \<lparr>ls_ip = ''10.0.0.1'', ls_mac = ''m'', ls_hostname = [], ls_expires_at = 0,
     ls_last_seen = 0, ls_vendor = []\<rparr>"


lemma sample_reply_built: "ok (build_reply sample_conf sample_rq ACK (Some sample_lease) True)"
proof -
  have b: "broadcast_value (subnet sample_conf) < 2 ^ 32"
    by (simp add: broadcast_value_def sample_conf_def v4_of_def)
  have "ok (configuration_options sample_conf sample_rq)"
    unfolding configuration_options_def inet_aton_canonical [OF netmask_lt] inet_aton_canonical [OF b]
    by (simp add: sample_conf_def sample_addresses option_list_def opt_def opt_when_def opt_nonempty_def
        pack_I_int_def dhcp_option_def resolvers_def)
  then show ?thesis
    by (auto simp: build_reply_def sample_lease_def sample_addresses dhcp_option_def sample_conf_def message_types ok_def
       split: sum.splits)
qed

theorem reply_configures_client_witness:
  "\<exists>out r. build_reply sample_conf sample_rq ACK (Some sample_lease) True = Inr out
     \<and> parse_packet out = Some r \<and> option_of r OPT_DNS = Some [10, 0, 0, 1]
     \<and> option_of r OPT_ROUTER = Some [10, 0, 0, 1]"
proof -
  obtain out where out: "build_reply sample_conf sample_rq ACK (Some sample_lease) True = Inr out"
    using sample_reply_built by (auto simp: ok_def split: sum.splits)
  have "rq_ok sample_rq" by (simp add: rq_ok_def sample_rq_def)
  from reply_configures_client [OF out _ this] obtain r server dns where
    "parse_packet out = Some r" "inet_aton (server_ip sample_conf) = Inr server"
    "rconcat (map inet_aton (resolvers sample_conf)) = Inr dns"
    "option_of r OPT_ROUTER = Some server" "option_of r OPT_DNS = Some dns"
    by (auto simp: message_types)
  then show ?thesis using out
    by (auto simp: sample_conf_def sample_addresses resolvers_def)
qed

section \<open>Classless routes\<close>

text \<open>The client's side of RFC 3442: width, significant bytes, gateway, until the end.\<close>

function decode_routes :: "bytes \<Rightarrow> (nat \<times> bytes \<times> bytes) list option" where
  "decode_routes [] = Some []"
| "decode_routes (w # rest) =
     (let plen = unat w; k = (plen + 7) div 8 in
      if 32 < plen \<or> length rest < k + 4 then None
      else map_option (\<lambda>rs. (plen, take k rest @ replicate (4 - k) 0, take 4 (drop k rest)) # rs)
             (decode_routes (drop (k + 4) rest)))"
  by pat_completeness auto
termination
  by (relation "measure length") auto

declare decode_routes.simps(2) [simp del]

text \<open>What a configured route means, if it is one the option can carry.\<close>

definition route_meaning :: "str \<times> str \<Rightarrow> (nat \<times> bytes \<times> bytes) option" where
  "route_meaning route =
     (case (ip_network (fst route), ip_address (snd route)) of
        (Some n, Some (V4 g)) \<Rightarrow>
          if ip_version (net_base n) = 4 then Some (prefixlen n, packed (net_base n), be_bytes 4 g) else None
      | _ \<Rightarrow> None)"

definition enc_route :: "nat \<times> bytes \<times> bytes \<Rightarrow> bytes" where
  "enc_route r = (case r of (plen, dst, gw) \<Rightarrow> of_nat plen # take ((plen + 7) div 8) dst @ gw)"

definition route_ok :: "nat \<times> bytes \<times> bytes \<Rightarrow> bool" where
  "route_ok r = (case r of (plen, dst, gw) \<Rightarrow>
     plen \<le> 32 \<and> length dst = 4 \<and> length gw = 4
     \<and> dst = take ((plen + 7) div 8) dst @ replicate (4 - (plen + 7) div 8) 0)"

lemma decode_enc_routes:
  "\<forall>r \<in> set rs. route_ok r \<Longrightarrow> decode_routes (concat (map enc_route rs)) = Some rs"
proof (induction rs)
  case (Cons r rs)
  obtain plen dst gw where r: "r = (plen, dst, gw)" by (cases r)
  let ?k = "(plen + 7) div 8"
  have o: "plen \<le> 32" "length dst = 4" "length gw = 4" "take ?k dst @ replicate (4 - ?k) 0 = dst"
    using Cons.prems by (auto simp: r route_ok_def)
  have k: "?k \<le> 4" using o(1) by simp
  have u: "unat (of_nat plen :: byte) = plen" using o(1) by (simp add: unat_of_nat)
  show ?case using Cons o k u
    by (simp add: r enc_route_def decode_routes.simps(2) Let_def)
qed simp

lemma parse_octet_number: "parse_octet s = Some n \<Longrightarrow> c_number s = Some n \<and> n \<le> 255"
proof -
  assume "parse_octet s = Some n"
  moreover have "char_digit CHR ''0'' = Some 0" by code_simp
  ultimately show ?thesis by (cases s) (auto simp: parse_octet_def c_number_def split: if_splits option.splits)
qed

lemma parse_octet_chars: "parse_octet s = Some n \<Longrightarrow> c \<in> set s \<Longrightarrow> is_dec_digit c"
  by (auto simp: parse_octet_def list_all_iff split: if_splits)

lemma inet_aton_parse_v4:
  assumes "parse_v4 s = Some n"
  shows "inet_aton s = Inr (be_bytes 4 n) \<and> n < 2 ^ 32"
proof -
  obtain a b c d where m: "map parse_octet (split_on CHR ''.'' s) = [Some a, Some b, Some c, Some d]"
    and n: "n = ((a * 256 + b) * 256 + c) * 256 + d"
    using assms by (auto simp: parse_v4_def split: list.splits option.splits)
  obtain p q r t where parts: "split_on CHR ''.'' s = [p, q, r, t]"
    and v: "parse_octet p = Some a" "parse_octet q = Some b" "parse_octet r = Some c" "parse_octet t = Some d"
    using m by auto
  note num = parse_octet_number [OF v(1)] parse_octet_number [OF v(2)] parse_octet_number [OF v(3)]
    parse_octet_number [OF v(4)]
  have "x = CHR ''.'' \<or> is_dec_digit x" if "x \<in> set s" for x
  proof -
    have "x \<in> set (join ''.'' [p, q, r, t])" using that join_split_on [of "CHR ''.''" s] by (simp only: parts)
    then show ?thesis using v [THEN parse_octet_chars] by auto
  qed
  then have clean: "\<not> is_c_space x \<and> x \<noteq> CHR 0x00" if "x \<in> set s" for x
    using that by (fastforce simp: is_c_space_def is_dec_digit_def code_pt_def)
  then have t: "takeWhile (\<lambda>c. \<not> is_c_space c) s = s" and z: "CHR 0x00 \<notin> set s"
    by (auto simp: takeWhile_eq_all_conv)
  have "those (map c_number (split_on CHR ''.'' s)) = Some [a, b, c, d]" unfolding parts using num by simp
  moreover have "inet_parts [a, b, c, d] = Some n" using num inet_parts_4 [of a b c d] n by simp
  ultimately show ?thesis unfolding inet_aton_def t using z num n by (simp del: be_bytes.simps)
qed

lemma ip_address_v4: "ip_address s = Some (V4 n) \<Longrightarrow> parse_v4 s = Some n"
  by (auto simp: ip_address_def split: option.splits)

lemma be_bytes_append:
  "be_bytes (j + k) n = be_bytes j (n div 256 ^ k) @ be_bytes k (n mod 256 ^ k)"
proof (induction k arbitrary: n)
  case (Suc k)
  have 1: "n div 256 ^ Suc k = n div 256 div 256 ^ k" by (simp add: div_mult2_eq)
  have m: "n mod 256 ^ Suc k = 256 * (n div 256 mod 256 ^ k) + n mod 256" by (simp add: mod_mult2_eq)
  have 2: "n mod 256 ^ Suc k div 256 = n div 256 mod 256 ^ k" "n mod 256 ^ Suc k mod 256 = n mod 256"
    unfolding m by simp_all
  show ?case using Suc.IH [of "n div 256"] unfolding add_Suc_right be_bytes.simps 1 2 by simp
qed simp

lemma be_bytes_0: "be_bytes k 0 = replicate k 0"
  by (induction k) (auto simp: replicate_append_same)

lemma masked_tail:
  assumes "plen \<le> 32" and "n mod 2 ^ (32 - plen) = 0"
  shows "packed (V4 n) = take ((plen + 7) div 8) (packed (V4 n)) @ replicate (4 - (plen + 7) div 8) 0"
proof -
  let ?k = "(plen + 7) div 8"
  have k: "?k \<le> 4" "plen \<le> 8 * ?k" using assms(1) by simp_all
  then have "8 * (4 - ?k) \<le> 32 - plen" by simp
  then have "(2::nat) ^ (8 * (4 - ?k)) dvd 2 ^ (32 - plen)" by (rule le_imp_power_dvd)
  then have z: "n mod 256 ^ (4 - ?k) = 0"
    using assms(2) by (simp add: power_mult mod_eq_0_iff_dvd) (metis dvd_trans mod_eq_0_iff_dvd assms(2))
  have e: "be_bytes 4 n = be_bytes ?k (n div 256 ^ (4 - ?k)) @ replicate (4 - ?k) 0"
    using be_bytes_append [of ?k "4 - ?k" n] k(1) unfolding z be_bytes_0 by (metis le_add_diff_inverse)
  show ?thesis unfolding packed.simps e using k(1) by simp
qed

lemma find_upt_lt: "List.find P [0..<n] = Some p \<Longrightarrow> p < n"
  by (auto simp: find_Some_iff)

lemma network_prefix_le: "network_prefix a s = Some n \<Longrightarrow> n \<le> ip_width a"
  by (cases a) (auto simp: network_prefix_def parse_prefix_def mask_prefix_def
      split: if_splits option.splits dest!: find_upt_lt)

lemma ip_network_v4:
  assumes "ip_network s = Some n" "ip_version (net_base n) = 4"
  shows "prefixlen n \<le> 32 \<and> (\<exists>b. net_base n = V4 b \<and> b mod 2 ^ (32 - prefixlen n) = 0)"
proof -
  consider a x where "ip_address a = Some x" "n = \<lparr>net_base = x, prefixlen = ip_width x\<rparr>"
    | x p m where "network_prefix x p = Some m" "n = \<lparr>net_base = mask_host x m, prefixlen = m\<rparr>"
    using assms(1) by (auto simp: ip_network_def split: list.splits option.splits)
  then show ?thesis
  proof cases
    case 1
    then show ?thesis using assms(2) by (cases x) simp_all
  next
    case 2
    then show ?thesis using assms(2) network_prefix_le [OF 2(1)]
      by (cases x) (auto simp: mask_host_def host_bits_def Let_def)
  qed
qed

lemma route_meaning_ok:
  assumes "route_meaning route = Some r"
  shows "route_ok r"
proof -
  obtain n g where n: "ip_network (fst route) = Some n" "ip_version (net_base n) = 4"
    and r: "r = (prefixlen n, packed (net_base n), be_bytes 4 g)"
    using assms by (auto simp: route_meaning_def split: option.splits ipaddr.splits if_splits)
  obtain b where b: "prefixlen n \<le> 32" "net_base n = V4 b" "b mod 2 ^ (32 - prefixlen n) = 0"
    using ip_network_v4 [OF n] by auto
  show ?thesis using masked_tail [OF b(1,3)] b by (simp add: r route_ok_def del: be_bytes.simps)
qed

lemma add_route_meaning:
  "add_route out route = Inr (case route_meaning route of None \<Rightarrow> out | Some r \<Rightarrow> out @ enc_route r)"
proof (cases "ip_network (fst route)")
  case (Some n)
  show ?thesis
  proof (cases "ip_version (net_base n) = 4 \<and> is_ipv4 (snd route)")
    case True
    then obtain g where g: "ip_address (snd route) = Some (V4 g)"
      by (auto simp: is_ipv4_def split: option.splits ipaddr.splits)
    have "inet_aton (snd route) = Inr (be_bytes 4 g)"
      using inet_aton_parse_v4 [OF ip_address_v4 [OF g]] by simp
    then show ?thesis using Some True g
      by (simp add: add_route_def route_meaning_def enc_route_def Let_def del: be_bytes.simps packed.simps)
  next
    case False
    then show ?thesis using Some
      by (auto simp: add_route_def route_meaning_def is_ipv4_def split: option.splits ipaddr.splits)
  qed
qed (simp add: add_route_def route_meaning_def)

lemma add_routes_meaning:
  "add_routes out routes = Inr (out @ concat (map enc_route (List.map_filter route_meaning routes)))"
  by (induction routes arbitrary: out) (auto simp: add_route_meaning map_filter_simps split: option.split)

text \<open>
  clients read back the routes the administrator configured.  Encoding never raises; the bytes
  of the routes decode, by the client's rules, to exactly the IPv4 routes of the configuration, each
  with its prefix length, its masked destination and its gateway; and the option holds those bytes
  unless they exceed the 255 an option can carry, when it is left out.
\<close>

theorem classless_routes_round_trip:
  "\<exists>bs. encode_classless_routes routes = Inr (if length bs \<le> 255 then bs else [])
     \<and> decode_routes bs = Some (List.map_filter route_meaning routes)"
proof -
  have "route_ok r" if "r \<in> set (List.map_filter route_meaning routes)" for r
    using that route_meaning_ok by (auto simp: map_filter_def)
  then have "decode_routes (concat (map enc_route (List.map_filter route_meaning routes)))
      = Some (List.map_filter route_meaning routes)"
    by (intro decode_enc_routes) blast
  then show ?thesis unfolding encode_classless_routes_def add_routes_meaning by auto
qed

text \<open>A route of the documentation: 192.168.40.0/24 through 10.0.0.2.\<close>

end
