(* ===== verification/Dhcp.thy ===== *)
theory Dhcp
  imports DhcpPacket
begin

text \<open>
  The DHCP server, \<open>symbivpn/gateway/dhcp.py\<close> (\<open>DHCPServer\<close>): the lease table, what each message
  does to it, the reply and how it is sent.  The clock is one argument per packet; decoding a host
  name is a parameter; the lease file is not modelled.  Addresses are text, as in the code.
\<close>

type_synonym leases = "(str, lease) dict"

section \<open>Addresses\<close>

text \<open>\<open>subnet.hosts()\<close>: without the network and broadcast addresses, except in a /31 and a /32.\<close>

definition host_range :: "network \<Rightarrow> nat \<times> nat" where
  "host_range n =
     (let lo = ip_value (net_base n); hi = broadcast_value n in
      if 31 \<le> prefixlen n then (lo, hi) else (lo + 1, hi - 1))"

definition pool :: "dhcp_config \<Rightarrow> str list" where
  "pool conf =
     (let (lo, hi) = host_range (subnet conf)
      in map ip_str4 [lo + first_offset conf ..< min (lo + last_offset conf) (hi + 1)])"

definition in_pool :: "dhcp_config \<Rightarrow> str \<Rightarrow> bool" where
  "in_pool conf a = (case ip_address a of None \<Rightarrow> False | Some x \<Rightarrow> in_net x (subnet conf))"

definition taken :: "time \<Rightarrow> leases \<Rightarrow> str list" where
  "taken now ls = map ls_ip (filter (\<lambda>l. now < ls_expires_at l) (dvals ls))"

section \<open>The lease table\<close>

definition or_else :: "'a list \<Rightarrow> 'a list \<Rightarrow> 'a list" where
  "or_else a b = (if a = [] then b else a)"

definition new_lease :: "str \<Rightarrow> str \<Rightarrow> str \<Rightarrow> str \<Rightarrow> time \<Rightarrow> lease" where
  "new_lease mac address hostname vendor now =
     \<lparr>ls_ip = address, ls_mac = mac, ls_hostname = hostname,
      ls_expires_at = now + of_int OFFER_HOLD_SECONDS, ls_last_seen = now, ls_vendor = vendor\<rparr>"

definition reserve ::
  "str \<Rightarrow> str \<Rightarrow> str \<Rightarrow> str \<Rightarrow> str \<Rightarrow> time \<Rightarrow> leases \<Rightarrow> leases \<times> lease option" where
  "reserve key mac address hostname vendor now ls =
     (let l = new_lease mac address hostname vendor now in (dset key l ls, Some l))"

definition wanted_address :: "dhcp_config \<Rightarrow> time \<Rightarrow> leases \<Rightarrow> bytes option \<Rightarrow> str option" where
  "wanted_address conf now ls requested =
     (case requested of
        None \<Rightarrow> None
      | Some raw \<Rightarrow>
          let c = ip_from_bytes raw in
          if c \<notin> set (taken now ls) \<and> in_pool conf c then Some c else None)"

text \<open>The expired leases, the one that expired longest ago first.\<close>

definition expired :: "time \<Rightarrow> leases \<Rightarrow> (str \<times> lease) list" where
  "expired now ls = sort_key (\<lambda>p. ls_expires_at (snd p)) (filter (\<lambda>p. ls_expires_at (snd p) \<le> now) ls)"

definition allocate ::
  "dhcp_config \<Rightarrow> time \<Rightarrow> str \<Rightarrow> str \<Rightarrow> str \<Rightarrow> str \<Rightarrow> bytes option \<Rightarrow> leases \<Rightarrow> leases \<times> lease option" where
  "allocate conf now key mac hostname vendor requested ls =
     (case dget ls key of
        Some l \<Rightarrow>
          let l = l\<lparr>ls_hostname := or_else hostname (ls_hostname l), ls_vendor := or_else vendor (ls_vendor l),
                    ls_last_seen := now\<rparr>
          in (dset key l ls, Some l)
      | None \<Rightarrow>
          (case wanted_address conf now ls requested of
             Some a \<Rightarrow> reserve key mac a hostname vendor now ls
           | None \<Rightarrow>
               (case List.find (\<lambda>a. a \<notin> set (taken now ls)) (pool conf) of
                  Some a \<Rightarrow> reserve key mac a hostname vendor now ls
                | None \<Rightarrow>
                    (case expired now ls of
                       [] \<Rightarrow> (ls, None)
                     | (k, stale) # _ \<Rightarrow>
                         reserve key mac (ls_ip stale) hostname vendor now (ddel k ls)))))"

section \<open>Messages\<close>

datatype verdict =
    Silent
  | OfferIt lease
  | AckIt lease
  | NakIt
  | Inform lease

record client =
  cl_key :: str
  cl_mac :: str
  cl_hostname :: str
  cl_vendor :: str

definition strip_nul :: "str \<Rightarrow> str" where "strip_nul = strip (\<lambda>c. c = CHR 0x00)"

definition text_option :: "(bytes \<Rightarrow> str) \<Rightarrow> request \<Rightarrow> byte \<Rightarrow> str" where
  "text_option utf8 rq code = strip_nul (utf8 (case option_of rq code of None \<Rightarrow> [] | Some v \<Rightarrow> v))"

definition client_of :: "(bytes \<Rightarrow> str) \<Rightarrow> request \<Rightarrow> client" where
  "client_of utf8 rq =
     \<lparr>cl_key = (case option_of rq OPT_CLIENT_ID of
                 Some cid \<Rightarrow> if cid = [] then rq_mac rq else hex_text cid
               | None \<Rightarrow> rq_mac rq),
      cl_mac = rq_mac rq, cl_hostname = text_option utf8 rq OPT_HOSTNAME,
      cl_vendor = text_option utf8 rq OPT_VENDOR_CLASS\<rparr>"

definition allocate_for :: "dhcp_config \<Rightarrow> time \<Rightarrow> client \<Rightarrow> bytes option \<Rightarrow> leases \<Rightarrow> leases \<times> lease option" where
  "allocate_for conf now c = allocate conf now (cl_key c) (cl_mac c) (cl_hostname c) (cl_vendor c)"

text \<open>A request that names another server gives our offer up, if the lease is the client's own.\<close>

definition drop_offer :: "client \<Rightarrow> leases \<Rightarrow> leases" where
  "drop_offer c ls =
     (case dget ls (cl_key c) of
        Some l \<Rightarrow> if ls_mac l = cl_mac c then ddel (cl_key c) ls else ls
      | None \<Rightarrow> ls)"

definition other_server :: "dhcp_config \<Rightarrow> bytes option \<Rightarrow> bool" where
  "other_server conf server_id =
     (case server_id of None \<Rightarrow> False | Some sid \<Rightarrow> sid \<noteq> [] \<and> ip_from_bytes sid \<noteq> server_ip conf)"

definition refuses :: "bytes option \<Rightarrow> lease \<Rightarrow> bool" where
  "refuses requested l = (case requested of None \<Rightarrow> False | Some raw \<Rightarrow> ip_from_bytes raw \<noteq> ls_ip l)"

definition on_discover :: "dhcp_config \<Rightarrow> time \<Rightarrow> client \<Rightarrow> bytes option \<Rightarrow> leases \<Rightarrow> leases \<times> verdict" where
  "on_discover conf now c requested ls =
     (case allocate_for conf now c requested ls of
        (ls, None) \<Rightarrow> (ls, Silent) | (ls, Some l) \<Rightarrow> (ls, OfferIt l))"

definition on_request ::
  "dhcp_config \<Rightarrow> time \<Rightarrow> client \<Rightarrow> bytes option \<Rightarrow> bytes option \<Rightarrow> leases \<Rightarrow> leases \<times> verdict" where
  "on_request conf now c requested server_id ls =
     (if other_server conf server_id then (drop_offer c ls, Silent)
      else case allocate_for conf now c requested ls of
        (ls, None) \<Rightarrow> (ls, NakIt)
      | (ls, Some l) \<Rightarrow>
          if refuses requested l then (ls, NakIt)
          else
            let l = l\<lparr>ls_expires_at := now + of_int (lease_seconds conf), ls_last_seen := now\<rparr>
            in (dset (cl_key c) l ls, AckIt l))"

definition on_release :: "client \<Rightarrow> leases \<Rightarrow> leases" where
  "on_release c ls =
     (case dget ls (cl_key c) of
        None \<Rightarrow> ls | Some l \<Rightarrow> dset (cl_key c) (l\<lparr>ls_expires_at := 0\<rparr>) ls)"

definition inform_lease :: "client \<Rightarrow> request \<Rightarrow> lease" where
  "inform_lease c rq =
     \<lparr>ls_ip = ip_from_bytes (rq_ciaddr rq), ls_mac = cl_mac c, ls_hostname = cl_hostname c,
      ls_expires_at = 0, ls_last_seen = 0, ls_vendor = []\<rparr>"

definition decide_message :: "dhcp_config \<Rightarrow> time \<Rightarrow> client \<Rightarrow> byte \<Rightarrow> request \<Rightarrow> leases \<Rightarrow> leases \<times> verdict" where
  "decide_message conf now c mtype rq ls =
     (if mtype = DISCOVER then on_discover conf now c (option_of rq OPT_REQUESTED_IP) ls
      else if mtype = REQUEST then
        on_request conf now c (option_of rq OPT_REQUESTED_IP) (option_of rq OPT_SERVER_ID) ls
      else if mtype = RELEASE then (on_release c ls, Silent)
      else if mtype = INFORM then (ls, Inform (inform_lease c rq))
      else (ls, Silent))"

text \<open>The reply a verdict stands for, and where it goes.\<close>

fun reply_for :: "dhcp_config \<Rightarrow> request \<Rightarrow> verdict \<Rightarrow> (bytes \<times> str \<times> u16) option res" where
  "reply_for conf rq Silent = Inr None"
| "reply_for conf rq (OfferIt l) =
     rbind (build_reply conf rq OFFER (Some l) True) (\<lambda>w. Inr (Some (w, destination rq)))"
| "reply_for conf rq (AckIt l) =
     rbind (build_reply conf rq ACK (Some l) True) (\<lambda>w. Inr (Some (w, destination rq)))"
| "reply_for conf rq NakIt =
     rbind (build_reply conf rq NAK None True) (\<lambda>w. Inr (Some (w, destination rq)))"
| "reply_for conf rq (Inform l) =
     rbind (build_reply conf rq ACK (Some l) False) (\<lambda>w. Inr (Some (w, destination rq)))"

definition handle_dhcp ::
  "dhcp_config \<Rightarrow> (bytes \<Rightarrow> str) \<Rightarrow> time \<Rightarrow> leases \<Rightarrow> bytes \<Rightarrow> leases \<times> (bytes \<times> str \<times> u16) option res" where
  "handle_dhcp conf utf8 now ls payload =
     (case parse_packet payload of
        None \<Rightarrow> (ls, Inr None)
      | Some rq \<Rightarrow>
          if rq_op rq \<noteq> 1 then (ls, Inr None)
          else case option_of rq OPT_MESSAGE_TYPE of
            None \<Rightarrow> (ls, Inr None)
          | Some [] \<Rightarrow> (ls, Inr None)
          | Some (mtype # _) \<Rightarrow>
              let (ls, v) = decide_message conf now (client_of utf8 rq) mtype rq ls
              in (ls, reply_for conf rq v))"

section \<open>Sending\<close>

datatype sent = Frame bytes bytes | Datagram bytes str u16

text \<open>\<open>frame_ok\<close> is \<^const>\<open>None\<close> without a packet socket, else which frames the socket takes.\<close>

definition send_reply :: "dhcp_config \<Rightarrow> (bytes \<Rightarrow> bool) option \<Rightarrow> bytes \<Rightarrow> str \<Rightarrow> u16 \<Rightarrow> sent list res" where
  "send_reply conf frame_ok reply address port =
     (case frame_ok of
        Some f_ok \<Rightarrow>
          if port = CLIENT_PORT then
            rbind (raw_send True f_ok reply (server_ip conf) address) (\<lambda>(fs, done).
              let frames = map (\<lambda>(m, f). Frame m f) fs
              in Inr (if done then frames else frames @ [Datagram reply address port]))
          else Inr [Datagram reply address port]
      | None \<Rightarrow> Inr [Datagram reply address port])"

text \<open>One turn of the receive loop: an exception while handling a packet is logged and dropped.\<close>

definition serve_packet ::
  "dhcp_config \<Rightarrow> (bytes \<Rightarrow> str) \<Rightarrow> (bytes \<Rightarrow> bool) option \<Rightarrow> time \<Rightarrow> leases \<Rightarrow> bytes \<Rightarrow> leases \<times> sent list res" where
  "serve_packet conf utf8 frame_ok now ls payload =
     (case handle_dhcp conf utf8 now ls payload of
        (ls, Inr (Some (reply, address, port))) \<Rightarrow> (ls, send_reply conf frame_ok reply address port)
      | (ls, _) \<Rightarrow> (ls, Inr []))"

section \<open>Looking leases up\<close>

definition active_leases :: "time \<Rightarrow> leases \<Rightarrow> lease list" where
  "active_leases now ls = filter (lease_active now) (dvals ls)"

definition lease_for_ip :: "leases \<Rightarrow> str \<Rightarrow> lease option" where
  "lease_for_ip ls address = List.find (\<lambda>l. ls_ip l = address) (dvals ls)"

section \<open>Pool and subnet\<close>

text \<open>What \<open>IPv4Network\<close> guarantees of a network.\<close>

definition net_ok :: "network \<Rightarrow> bool" where
  "net_ok n = (case net_base n of
      V4 b \<Rightarrow> prefixlen n \<le> 32 \<and> b mod 2 ^ (32 - prefixlen n) = 0 \<and> b + 2 ^ (32 - prefixlen n) \<le> 2 ^ 32
    | V6 _ \<Rightarrow> False)"

lemma length_dec: "n \<le> 255 \<Longrightarrow> length (dec n) \<le> 3"
  by (simp add: dec_def digits.simps)

lemma parse_digits_dec: "parse_digits 10 0 (dec n) = Some n"
  by (simp add: dec_def parse_digits_digits)

lemma hd_dec_nonzero: "hd (dec n) = CHR ''0'' \<Longrightarrow> n = 0"
  using code_hd_dec [of n] digits_hd [of 10 n] by (auto simp: code_pt_def)

lemma parse_octet_dec: "n \<le> 255 \<Longrightarrow> parse_octet (dec n) = Some n"
  using length_dec [of n] dec_chars [of _ n] hd_dec_nonzero [of n] parse_digits_dec [of n]
  by (auto simp: parse_octet_def list_all_iff is_dec_digit_def dec_def digits.simps [of 10 0])

lemma ip_address_canonical: "n < 2 ^ 32 \<Longrightarrow> ip_address (ip_str4 n) = Some (V4 n)"
proof -
  assume n: "n < 2 ^ 32"
  obtain a b c d where w: "be_bytes 4 n = [a, b, c, d]" using be_bytes_4 by blast
  have lt: "unat x \<le> 255" for x :: byte using unsigned_less [of x, where ?'a = nat] by simp
  have v: "((unat a * 256 + unat b) * 256 + unat c) * 256 + unat d = n"
    using be_bytes_fold [of n 4] n unfolding w by simp
  have "split_on CHR ''.'' (ip_str4 n) = [dec (unat a), dec (unat b), dec (unat c), dec (unat d)]"
    unfolding ip_str4_parts [OF w] by (rule split_on_join) (auto simp: dec_clean)
  then have "map parse_octet (split_on CHR ''.'' (ip_str4 n)) = map Some [unat a, unat b, unat c, unat d]"
    by (simp add: parse_octet_dec lt)
  then show ?thesis by (simp add: ip_address_def parse_v4_def v [unfolded] del: ip_str4.simps) (use v in simp)
qed

lemma pool_in_pool:
  assumes "net_ok (subnet conf)" and "a \<in> set (pool conf)"
  shows "in_pool conf a"
proof -
  obtain b where b: "net_base (subnet conf) = V4 b" "prefixlen (subnet conf) \<le> 32"
      "b mod 2 ^ (32 - prefixlen (subnet conf)) = 0" "b + 2 ^ (32 - prefixlen (subnet conf)) \<le> 2 ^ 32"
    using assms(1) by (auto simp: net_ok_def split: ipaddr.splits)
  let ?h = "2 ^ (32 - prefixlen (subnet conf)) :: nat"
  obtain n where n: "a = ip_str4 n" "b \<le> n" "n < b + ?h"
    using assms(2) b(1) by (auto simp: pool_def host_range_def broadcast_value_def Let_def split: if_splits)
  obtain q where q: "b = q * ?h" using b(3) by (metis dvd_div_mult_self mod_0_imp_dvd)
  obtain r where r: "n = b + r" "r < ?h" using n(2,3) by (metis le_iff_add nat_add_left_cancel_less)
  have "n div ?h = q" "b div ?h = q" using r q by simp_all
  then show ?thesis using n b ip_address_canonical [of n]
    by (simp add: in_pool_def in_net_def host_bits_def del: ip_str4.simps)
qed

section \<open>Allocation\<close>

lemma takenD: "a \<in> set (taken now ls) \<Longrightarrow> \<exists>k l. (k, l) \<in> set ls \<and> now < ls_expires_at l \<and> ls_ip l = a"
  by (force simp: taken_def)

lemma wanted_address_Some:
  "wanted_address conf now ls requested = Some a \<Longrightarrow> a \<notin> set (taken now ls) \<and> in_pool conf a"
  by (auto simp: wanted_address_def Let_def split: option.splits if_splits)

text \<open>
  a client that joins while the pool has a free address is given one nobody holds.  The address
  is not in any unexpired lease, it lies in the subnet, it is the one asked for when that is free
  and in the subnet, the hold is the offer's, and no other lease is touched.
\<close>

theorem fresh_lease_is_free:
  assumes "net_ok (subnet conf)" and "dget ls key = None"
    and free: "\<exists>a \<in> set (pool conf). a \<notin> set (taken now ls)"
  shows "\<exists>l. allocate conf now key mac hostname vendor requested ls = (dset key l ls, Some l)
    \<and> ls_ip l \<notin> set (taken now ls) \<and> in_pool conf (ls_ip l) \<and> ls_mac l = mac
    \<and> ls_expires_at l = now + of_int OFFER_HOLD_SECONDS
    \<and> (case wanted_address conf now ls requested of None \<Rightarrow> ls_ip l \<in> set (pool conf) | Some a \<Rightarrow> ls_ip l = a)"
proof (cases "wanted_address conf now ls requested")
  case (Some a)
  then show ?thesis using wanted_address_Some [OF Some] assms(2)
    by (simp add: allocate_def reserve_def new_lease_def Let_def)
next
  case None
  obtain a where a: "List.find (\<lambda>a. a \<notin> set (taken now ls)) (pool conf) = Some a"
    using free by (metis find_None_iff not_Some_eq)
  then have "a \<in> set (pool conf)" "a \<notin> set (taken now ls)" by (auto simp: find_Some_iff)
  with None a pool_in_pool [OF assms(1)] assms(2) show ?thesis
    by (simp add: allocate_def reserve_def new_lease_def Let_def)
qed

lemma expired_first:
  "expired now ls = (k, stale) # rest \<Longrightarrow> (k, stale) \<in> set ls \<and> ls_expires_at stale \<le> now"
proof -
  assume "expired now ls = (k, stale) # rest"
  then have "(k, stale) \<in> set (expired now ls)" by simp
  then show ?thesis by (auto simp: expired_def)
qed

text \<open>
  what the code does when the pool is full.  The comment says it reclaims the address that expired
  longest ago; but an address of the pool whose lease had expired would have been found free, so the
  address handed out, if it is one of the pool, is always in another client's unexpired lease.
\<close>

theorem full_pool_gives_address_in_use:
  assumes ok: "dict_ok ls" and new: "dget ls key = None"
    and full: "\<forall>a \<in> set (pool conf). a \<in> set (taken now ls)"
    and none: "wanted_address conf now ls requested = None"
    and got: "allocate conf now key mac hostname vendor requested ls = (ls', Some l)"
    and pooled: "ls_ip l \<in> set (pool conf)"
  shows "\<exists>key' l'. key' \<noteq> key \<and> dget ls' key' = Some l' \<and> now < ls_expires_at l' \<and> ls_ip l' = ls_ip l
    \<and> dget ls' key = Some l \<and> now < ls_expires_at l"
proof -
  have "List.find (\<lambda>a. a \<notin> set (taken now ls)) (pool conf) = None" using full by (simp add: find_None_iff)
  with none new got obtain k stale rest where e: "expired now ls = (k, stale) # rest"
    and l: "l = new_lease mac (ls_ip stale) hostname vendor now" and ls': "ls' = dset key l (ddel k ls)"
    by (auto simp: allocate_def reserve_def Let_def split: list.splits)
  have "ls_ip stale \<in> set (taken now ls)" using full pooled l by (simp add: new_lease_def)
  then obtain key' l' where h: "(key', l') \<in> set ls" "now < ls_expires_at l'" "ls_ip l' = ls_ip stale"
    using takenD by blast
  have g: "dget ls key' = Some l'" using h(1) ok by (simp add: dget_iff)
  have "dget ls k = Some stale" "ls_expires_at stale \<le> now" using expired_first [OF e] ok by (auto simp: dget_iff)
  with g h(2) have "key' \<noteq> k" by auto
  moreover have "key' \<noteq> key" using g new by auto
  ultimately show ?thesis using g h l ls' by (auto simp: new_lease_def OFFER_HOLD_SECONDS_def)
qed

lemma allocate_existing:
  "dget ls key = Some l \<Longrightarrow> \<exists>l'. allocate conf now key mac hostname vendor requested ls = (dset key l' ls, Some l')
     \<and> ls_ip l' = ls_ip l \<and> ls_expires_at l' = ls_expires_at l \<and> ls_mac l' = ls_mac l"
  by (simp add: allocate_def Let_def)

text \<open>
  a client that comes back is given its old address, and the code does not ask who holds it now.
  If its lease had expired and the address went to another client, the request is acknowledged all
  the same, and two unexpired leases name one address.
\<close>

theorem renewal_ignores_new_holder:
  assumes old: "dget ls (cl_key c) = Some l" and key: "key' \<noteq> cl_key c"
    and holder: "dget ls key' = Some l'" "ls_ip l' = ls_ip l" "now < ls_expires_at l'"
    and req: "\<not> other_server conf server_id" "\<not> refuses requested l" and "0 < lease_seconds conf"
  shows "\<exists>ls2 l2. on_request conf now c requested server_id ls = (ls2, AckIt l2)
    \<and> dget ls2 (cl_key c) = Some l2 \<and> now < ls_expires_at l2
    \<and> dget ls2 key' = Some l' \<and> now < ls_expires_at l' \<and> ls_ip l2 = ls_ip l'"
proof -
  obtain l1 where a: "allocate_for conf now c requested ls = (dset (cl_key c) l1 ls, Some l1)" "ls_ip l1 = ls_ip l"
    using allocate_existing [OF old, of conf now "cl_mac c" "cl_hostname c" "cl_vendor c" requested]
    by (auto simp: allocate_for_def)
  have "\<not> refuses requested l1" using req(2) a(2) by (simp add: refuses_def split: option.splits)
  then show ?thesis using a req(1) key holder \<open>0 < lease_seconds conf\<close>
    by (simp add: on_request_def Let_def)
qed

text \<open>Releasing does not check whose lease it is, which refusing an offer does.\<close>

lemma release_ends_any_lease:
  "dget ls (cl_key c) = Some l \<Longrightarrow> ls_mac l \<noteq> cl_mac c \<Longrightarrow>
     dget (on_release c ls) (cl_key c) = Some (l\<lparr>ls_expires_at := 0\<rparr>) \<and> drop_offer c ls = ls"
  by (simp add: on_release_def drop_offer_def)

text \<open>The gateway's own address is leased to whoever asks for it, as are the subnet's two end addresses.\<close>

lemma server_address_leasable:
  assumes "inet_aton (server_ip conf) = Inr raw" "ip_from_bytes raw = server_ip conf" "in_pool conf (server_ip conf)"
    and "\<not> other_server conf sid"
  shows "\<exists>l. snd (on_request conf now c (Some raw) sid []) = AckIt l \<and> ls_ip l = server_ip conf"
  using assms by (simp add: on_request_def allocate_for_def allocate_def wanted_address_def taken_def reserve_def
      new_lease_def refuses_def Let_def)

section \<open>The lease table over time\<close>

definition hold_time :: "dhcp_config \<Rightarrow> time" where
  "hold_time conf = max (of_int OFFER_HOLD_SECONDS) (of_int (lease_seconds conf))"

definition lease_inv :: "dhcp_config \<Rightarrow> time \<Rightarrow> leases \<Rightarrow> bool" where
  "lease_inv conf t ls = (dict_ok ls \<and>
     (\<forall>(k, l) \<in> set ls. in_pool conf (ls_ip l) \<and> ls_expires_at l \<le> t + hold_time conf))"

lemma lease_inv_later: "lease_inv conf t ls \<Longrightarrow> t \<le> t' \<Longrightarrow> lease_inv conf t' ls"
  by (fastforce simp: lease_inv_def)

lemma lease_inv_set:
  "lease_inv conf t ls \<Longrightarrow> in_pool conf (ls_ip l) \<Longrightarrow> ls_expires_at l \<le> t + hold_time conf
   \<Longrightarrow> lease_inv conf t (dset key l ls)"
  unfolding lease_inv_def
proof (intro conjI ballI, goal_cases)
  case (2 p)
  have "p \<in> set ls \<or> p = (key, l)" using 2(4) by (induction ls) (auto split: if_splits)
  with 2 show ?case by auto
qed auto

lemma lease_inv_del: "lease_inv conf t ls \<Longrightarrow> lease_inv conf t (ddel key ls)"
  by (auto simp: lease_inv_def set_ddel)

lemma lease_inv_get:
  "lease_inv conf t ls \<Longrightarrow> dget ls key = Some l \<Longrightarrow>
     in_pool conf (ls_ip l) \<and> ls_expires_at l \<le> t + hold_time conf"
  using map_of_SomeD [of ls key l] by (auto simp: lease_inv_def)

lemma new_lease_hold [simp]:
  "ls_ip (new_lease m a h v t) = a" "ls_expires_at (new_lease m a h v t) \<le> t + hold_time conf"
  by (simp_all add: new_lease_def hold_time_def)

lemma lease_inv_allocate:
  assumes inv: "lease_inv conf t ls" and ok: "net_ok (subnet conf)"
    and a: "allocate conf t key mac h v requested ls = (ls', r)"
  shows "lease_inv conf t ls' \<and> (\<forall>l. r = Some l \<longrightarrow> in_pool conf (ls_ip l))"
proof (cases "dget ls key")
  case (Some l)
  then show ?thesis using a lease_inv_get [OF inv Some]
    by (auto simp: allocate_def Let_def intro!: lease_inv_set [OF inv])
next
  case None
  have r: ?thesis if "reserve key mac x h v t ls1 = (ls', r)" "in_pool conf x" "lease_inv conf t ls1" for x ls1
    using that by (auto simp: reserve_def Let_def intro!: lease_inv_set)
  show ?thesis
  proof (cases "wanted_address conf t ls requested")
    case (Some x)
    then show ?thesis using r [of x ls] a None wanted_address_Some [OF Some] inv by (simp add: allocate_def)
  next
    case w: None
    show ?thesis
    proof (cases "List.find (\<lambda>a. a \<notin> set (taken t ls)) (pool conf)")
      case (Some x)
      then have "in_pool conf x" using pool_in_pool [OF ok] by (auto simp: find_Some_iff)
      then show ?thesis using r [of x ls] a None w Some inv by (simp add: allocate_def)
    next
      case f: None
      show ?thesis
      proof (cases "expired t ls")
        case Nil
        then show ?thesis using a None w f inv by (simp add: allocate_def)
      next
        case (Cons p rest)
        obtain k stale where p: "p = (k, stale)" by (cases p)
        have "in_pool conf (ls_ip stale)" using expired_first [OF Cons [unfolded p]] inv
          by (auto simp: lease_inv_def)
        then show ?thesis
          using r [of "ls_ip stale" "ddel k ls"] a None w f Cons lease_inv_del [OF inv] by (simp add: allocate_def p)
      qed
    qed
  qed
qed

lemma lease_inv_decide:
  assumes inv: "lease_inv conf t ls" and ok: "net_ok (subnet conf)" and "0 \<le> t"
  shows "lease_inv conf t (fst (decide_message conf t c mtype rq ls))"
proof -
  have h: "0 \<le> hold_time conf" "of_int (lease_seconds conf) \<le> hold_time conf"
    by (simp_all add: hold_time_def OFFER_HOLD_SECONDS_def)
  have "lease_inv conf t (on_release c ls)" using inv lease_inv_get [OF inv] \<open>0 \<le> t\<close> h
    by (auto simp: on_release_def split: option.split intro!: lease_inv_set)
  moreover have "lease_inv conf t (drop_offer c ls)" using inv lease_inv_del
    by (auto simp: drop_offer_def split: option.split)
  moreover obtain ls1 r where a: "allocate_for conf t c (option_of rq OPT_REQUESTED_IP) ls = (ls1, r)"
    by (cases "allocate_for conf t c (option_of rq OPT_REQUESTED_IP) ls")
  moreover note lease_inv_allocate [OF inv ok a [unfolded allocate_for_def]]
  ultimately show ?thesis using inv h
    by (auto simp: decide_message_def on_discover_def on_request_def Let_def split: option.split
        intro!: lease_inv_set)
qed

definition dhcp_run :: "dhcp_config \<Rightarrow> (bytes \<Rightarrow> str) \<Rightarrow> (time \<times> bytes) list \<Rightarrow> leases \<Rightarrow> leases" where
  "dhcp_run conf utf8 packets ls = fold (\<lambda>(now, p) ls. fst (handle_dhcp conf utf8 now ls p)) packets ls"

lemma lease_inv_handle:
  "lease_inv conf t ls \<Longrightarrow> net_ok (subnet conf) \<Longrightarrow> 0 \<le> t \<Longrightarrow>
     lease_inv conf t (fst (handle_dhcp conf utf8 t ls p))"
  using lease_inv_decide
  by (auto simp: handle_dhcp_def Let_def split: option.split list.split prod.split) (metis fst_conv)

text \<open>
  C11: whatever packets arrive, in any order and with any contents, each client key has at most one
  lease, every lease is for an address of the subnet, and none outlives the longer of an offer's
  hold and the lease time.
\<close>

theorem lease_table_invariant:
  assumes "net_ok (subnet conf)" and "0 \<le> t" and "sorted (t # map fst packets)" and "lease_inv conf t ls"
  shows "lease_inv conf (last (t # map fst packets)) (dhcp_run conf utf8 packets ls)"
  using assms(2-)
proof (induction packets arbitrary: t ls)
  case (Cons p packets)
  obtain now w where p: "p = (now, w)" by (cases p)
  have "t \<le> now" "0 \<le> now" using Cons.prems by (auto simp: p)
  then have "lease_inv conf now (fst (handle_dhcp conf utf8 now ls w))"
    using lease_inv_handle [OF lease_inv_later [OF Cons.prems(3)] assms(1)] by simp
  from Cons.IH [OF \<open>0 \<le> now\<close> _ this] Cons.prems show ?case by (simp add: p dhcp_run_def)
qed (simp add: dhcp_run_def)

section \<open>Witnesses\<close>

lemma sample_net: "net_ok (subnet sample_conf)"
  by (simp add: net_ok_def sample_conf_def v4_of_def)

definition addr :: "byte \<Rightarrow> str" where "addr n = ip_str4 (0x0A000000 + unat n)"

lemma addr_parse: "ip_address (addr n) = Some (V4 (0x0A000000 + unat n))"
  unfolding addr_def using unsigned_less [of n, where ?'a = nat] by (intro ip_address_canonical) simp

lemma addr_in_pool: "in_pool sample_conf (addr n)"
  using unsigned_less [of n, where ?'a = nat]
  by (simp add: in_pool_def addr_parse in_net_def sample_conf_def v4_of_def host_bits_def)

lemma sample_pool: "set (pool sample_conf) = addr ` of_nat ` {11..<201}"
proof -
  have "pool sample_conf = map ip_str4 [0x0A000000 + 11 ..< 0x0A000000 + 201]"
    unfolding pool_def case_prod_beta Let_def
    by (rule arg_cong2 [of _ _ _ _ "\<lambda>a b. map ip_str4 [a ..< b]"])
      (simp_all add: host_range_def sample_conf_def broadcast_value_def v4_of_def)
  also have "set \<dots> = ip_str4 ` ((+) 0x0A000000 ` {11..<201})"
    by (simp only: set_map set_upt image_add_atLeastLessThan add.commute)
  also have "\<dots> = addr ` of_nat ` {11..<201}"
    unfolding addr_def image_image by (rule image_cong) (simp_all add: unat_of_nat del: ip_str4.simps)
  finally show ?thesis .
qed

theorem fresh_lease_is_free_witness:
  "\<exists>l. allocate sample_conf 5 ''k'' ''m'' [] [] None [] = ([(''k'', l)], Some l) \<and> ls_ip l \<in> set (pool sample_conf)"
proof -
  have "addr 11 \<in> set (pool sample_conf)" unfolding sample_pool by (auto intro!: image_eqI [of _ _ 11])
  with fresh_lease_is_free [OF sample_net, of "[]" "''k''" 5 "''m''" "[]" "[]" None] show ?thesis
    by (auto simp: taken_def wanted_address_def)
qed

text \<open>A pool of one address, held by one client; another whose lease on it expired is in the table.\<close>

definition tiny_conf :: dhcp_config where
  "tiny_conf = sample_conf\<lparr>first_offset := 10, last_offset := 11\<rparr>"

lemma tiny_pool: "pool tiny_conf = [addr 11]"
  by (simp add: tiny_conf_def pool_def host_range_def sample_conf_def broadcast_value_def v4_of_def addr_def
      del: ip_str4.simps)

definition held :: "byte \<Rightarrow> time \<Rightarrow> lease" where
  "held n t = \<lparr>ls_ip = addr n, ls_mac = ''m'', ls_hostname = [], ls_expires_at = t, ls_last_seen = 0, ls_vendor = []\<rparr>"

theorem full_pool_gives_address_in_use_witness:
  "\<exists>ls' l. allocate tiny_conf 100 ''c'' ''m'' [] [] None [(''a'', held 11 50), (''b'', held 11 500)] = (ls', Some l)
     \<and> dget ls' ''b'' = Some (held 11 500) \<and> ls_ip l = addr 11"
proof -
  let ?ls = "[(''a'', held 11 50), (''b'', held 11 500)]"
  have t: "taken 100 ?ls = [addr 11]" by (simp add: taken_def held_def)
  have w: "wanted_address tiny_conf 100 ?ls None = None" by (simp add: wanted_address_def)
  have e: "expired 100 ?ls = [(''a'', held 11 50)]" by (simp add: expired_def held_def)
  let ?l = "new_lease ''m'' (addr 11) [] [] 100"
  have a: "allocate tiny_conf 100 ''c'' ''m'' [] [] None ?ls = ([(''b'', held 11 500), (''c'', ?l)], Some ?l)"
    using t w e by (simp add: allocate_def tiny_pool reserve_def Let_def held_def)
  have "\<exists>key' l'. key' \<noteq> ''c'' \<and> dget [(''b'', held 11 500), (''c'', ?l)] key' = Some l' \<and> 100 < ls_expires_at l'
      \<and> ls_ip l' = ls_ip ?l \<and> dget [(''b'', held 11 500), (''c'', ?l)] ''c'' = Some ?l \<and> 100 < ls_expires_at ?l"
    by (rule full_pool_gives_address_in_use [OF _ _ _ w a])
      (simp_all add: dict_ok_def tiny_pool t)
  with a show ?thesis by auto
qed

text \<open>The table of the renewal property is reached from the empty one by two ordinary requests.\<close>

definition sample_client :: "str \<Rightarrow> client" where
  "sample_client k = \<lparr>cl_key = k, cl_mac = k, cl_hostname = [], cl_vendor = []\<rparr>"

definition addr_bytes :: "byte \<Rightarrow> bytes" where "addr_bytes n = be_bytes 4 (0x0A000000 + unat n)"

lemma addr_bytes_text: "ip_from_bytes (addr_bytes n) = addr n"
  using be_value_be_bytes [of "0x0A000000 + unat n" 4] unsigned_less [of n, where ?'a = nat]
  by (simp add: ip_from_bytes_def addr_bytes_def addr_def inet_ntoa_def del: ip_str4.simps be_bytes.simps)

lemma request_free:
  "dget ls k = None \<Longrightarrow> addr n \<notin> set (taken t ls) \<Longrightarrow>
   \<exists>l. on_request sample_conf t (sample_client k) (Some (addr_bytes n)) None ls = (dset k l ls, AckIt l)
     \<and> ls_ip l = addr n \<and> ls_expires_at l = t + 3600"
  using addr_in_pool [of n]
  by (simp add: on_request_def allocate_for_def allocate_def wanted_address_def addr_bytes_text reserve_def
      new_lease_def refuses_def other_server_def Let_def sample_client_def)
   (simp add: sample_conf_def)

theorem renewal_ignores_new_holder_witness:
  "\<exists>ls1 ls2 ls3 la lb la'. on_request sample_conf 0 (sample_client ''a'') (Some (addr_bytes 20)) None [] = (ls1, AckIt la)
     \<and> on_request sample_conf 4000 (sample_client ''b'') (Some (addr_bytes 20)) None ls1 = (ls2, AckIt lb)
     \<and> on_request sample_conf 4001 (sample_client ''a'') (Some (addr_bytes 20)) None ls2 = (ls3, AckIt la')
     \<and> ls_ip la' = ls_ip lb \<and> 4001 < ls_expires_at la' \<and> 4001 < ls_expires_at lb"
proof -
  obtain la where a: "on_request sample_conf 0 (sample_client ''a'') (Some (addr_bytes 20)) None [] = ([(''a'', la)], AckIt la)"
      "ls_ip la = addr 20" "ls_expires_at la = 3600"
    using request_free [of "[]" "''a''" 20 0] by (auto simp: taken_def)
  obtain lb where b: "on_request sample_conf 4000 (sample_client ''b'') (Some (addr_bytes 20)) None [(''a'', la)]
        = ([(''a'', la), (''b'', lb)], AckIt lb)" "ls_ip lb = addr 20" "ls_expires_at lb = 7600"
    using request_free [of "[(''a'', la)]" "''b''" 20 4000] a by (auto simp: taken_def)
  obtain ls3 la' where "on_request sample_conf 4001 (sample_client ''a'') (Some (addr_bytes 20)) None
      [(''a'', la), (''b'', lb)] = (ls3, AckIt la')" "4001 < ls_expires_at la'" "ls_ip la' = ls_ip lb"
    using renewal_ignores_new_holder [of "[(''a'', la), (''b'', lb)]" "sample_client ''a''" la "''b''" lb 4001
        sample_conf None "Some (addr_bytes 20)"] a b
    by (auto simp: sample_client_def other_server_def refuses_def addr_bytes_text sample_conf_def)
  with a b show ?thesis by auto
qed

theorem lease_table_invariant_witness:
  "lease_inv sample_conf 9 (dhcp_run sample_conf (\<lambda>_. []) [(3, []), (9, replicate 240 0)] [])"
  using lease_table_invariant [OF sample_net, of 0 "[(3, []), (9, replicate 240 0)]" "[]" "\<lambda>_. []"]
  by (simp add: lease_inv_def)

end
