(* ===== verification/AesGcm.thy ===== *)
theory AesGcm
  imports IpAddr
begin

text \<open>
  AES-256-GCM, \<open>symbivpn/aesgcm.py\<close>: the S-box as the module builds it, the key schedule, the block
  cipher, GHASH, counter mode, and sealing and opening with a tag.
\<close>

section \<open>The S-box\<close>

definition BLOCK :: nat where "BLOCK = 16"
definition KEY_BYTES :: nat where "KEY_BYTES = 32"
definition ROUNDS :: nat where "ROUNDS = 14"
definition NONCE_BYTES :: nat where "NONCE_BYTES = 12"
definition TAG_BYTES :: nat where "TAG_BYTES = 16"

definition xtime :: "byte \<Rightarrow> byte" where
  "xtime b = (if b AND 0x80 \<noteq> 0 then push_bit 1 b XOR 0x1B else push_bit 1 b)"

text \<open>The loop over the exponents: the antilog table, the log table and the running value.\<close>

fun log_tables :: "nat \<Rightarrow> nat list \<Rightarrow> byte list \<times> nat list \<times> byte \<Rightarrow> byte list \<times> nat list \<times> byte" where
  "log_tables e [] st = st"
| "log_tables e (_ # es) (antilog, logt, v) =
     log_tables (Suc e) es (antilog[e := v], logt[unat v := e], v XOR xtime v)"

definition sbox_tables :: "byte list \<times> nat list" where
  "sbox_tables =
     (let (antilog, logt, _) = log_tables 0 (replicate 255 0) (replicate 256 0, replicate 256 0, 1)
      in (antilog[255 := antilog ! 0], logt))"

definition rotl1 :: "byte \<Rightarrow> byte" where
  "rotl1 b = push_bit 1 b OR drop_bit 7 b"

definition affine :: "byte \<Rightarrow> byte" where
  "affine i =
     (let i1 = rotl1 i; i2 = rotl1 i1; i3 = rotl1 i2; i4 = rotl1 i3
      in (i XOR i1 XOR i2 XOR i3 XOR i4) XOR 0x63)"

definition sbox_entry :: "byte list \<Rightarrow> nat list \<Rightarrow> nat \<Rightarrow> byte" where
  "sbox_entry antilog logt b = affine (if b = 0 then 0 else antilog ! (255 - logt ! b))"

definition SBOX :: "byte list" where
  "SBOX = (let (antilog, logt) = sbox_tables in map (sbox_entry antilog logt) [0..<256])"

definition RCON :: "byte list" where
  "RCON = [0x01, 0x02, 0x04, 0x08, 0x10, 0x20, 0x40, 0x80, 0x1B, 0x36]"

definition sub_byte :: "byte \<Rightarrow> byte" where "sub_byte b = SBOX ! unat b"

section \<open>The key schedule\<close>

definition xor_bytes :: "bytes \<Rightarrow> bytes \<Rightarrow> bytes" where
  "xor_bytes a b = map2 (XOR) a b"

definition schedule_word :: "nat \<Rightarrow> bytes list \<Rightarrow> bytes" where
  "schedule_word index ws =
     (let w = ws ! (index - 1);
          w = (if index mod 8 = 0
               then (let s = map sub_byte (drop 1 w @ take 1 w) in s[0 := hd s XOR RCON ! (index div 8 - 1)])
               else if index mod 8 = 4 then map sub_byte w else w)
      in xor_bytes (ws ! (index - 8)) w)"

fun key_words :: "nat list \<Rightarrow> bytes list \<Rightarrow> bytes list" where
  "key_words [] ws = ws"
| "key_words (index # js) ws = key_words js (ws @ [schedule_word index ws])"

definition first_words :: "bytes \<Rightarrow> bytes list" where
  "first_words key = map (\<lambda>i. slice (4 * i) (4 * i + 4) key) [0..<8]"

definition all_words :: "bytes \<Rightarrow> bytes list" where
  "all_words key = key_words [8..<60] (first_words key)"

definition round_key :: "bytes \<Rightarrow> nat \<Rightarrow> bytes" where
  "round_key key r = concat (slice (4 * r) (4 * r + 4) (all_words key))"

definition expand_key :: "bytes \<Rightarrow> bytes list res" where
  "expand_key key =
     (if length key \<noteq> KEY_BYTES then Inl ValueError
      else Inr (map (round_key key) [0..<15]))"

section \<open>The block cipher\<close>

definition shift_rows :: "bytes \<Rightarrow> bytes" where
  "shift_rows s = map ((!) s) [0, 5, 10, 15, 4, 9, 14, 3, 8, 13, 2, 7, 12, 1, 6, 11]"

fun mix_columns :: "bytes \<Rightarrow> bytes" where
  "mix_columns (a0 # a1 # a2 # a3 # r) =
     (let t = a0 XOR a1 XOR a2 XOR a3
      in [a0 XOR t XOR xtime (a0 XOR a1), a1 XOR t XOR xtime (a1 XOR a2),
          a2 XOR t XOR xtime (a2 XOR a3), a3 XOR t XOR xtime (a3 XOR a0)] @ mix_columns r)"
| "mix_columns _ = []"

fun rounds :: "bytes list \<Rightarrow> bytes \<Rightarrow> bytes" where
  "rounds [] s = s"
| "rounds [k] s = xor_bytes (shift_rows (map sub_byte s)) k"
| "rounds (k # k' # ks) s = rounds (k' # ks) (xor_bytes (mix_columns (shift_rows (map sub_byte s))) k)"

text \<open>A short block makes the state short, and the first row shift indexes past its end.\<close>

definition encrypt_block :: "bytes list \<Rightarrow> bytes \<Rightarrow> bytes res" where
  "encrypt_block rks block =
     (let s = xor_bytes block (hd rks) in
      if length s < 16 then Inl IndexError else Inr (rounds (tl rks) s))"

section \<open>GHASH\<close>

definition from_block :: "bytes \<Rightarrow> 128 word" where
  "from_block bs = of_nat (be_value bs)"

definition to_block :: "128 word \<Rightarrow> bytes" where
  "to_block w = be_bytes 16 (unat w)"

text \<open>Multiplication by the subkey: bits from the top, the value halved and reduced at each.\<close>

definition times_x :: "128 word \<Rightarrow> 128 word" where
  "times_x v = (if v AND 1 \<noteq> 0 then drop_bit 1 v XOR push_bit 120 0xE1 else drop_bit 1 v)"

fun gf_loop :: "nat \<Rightarrow> 128 word \<Rightarrow> 128 word \<Rightarrow> 128 word \<Rightarrow> 128 word" where
  "gf_loop 0 h p v = p"
| "gf_loop (Suc k) h p v = gf_loop k h (if bit h k then p XOR v else p) (times_x v)"

definition gf_mult :: "128 word \<Rightarrow> 128 word \<Rightarrow> 128 word" where
  "gf_mult h v = gf_loop 128 h 0 v"

definition ljust :: "nat \<Rightarrow> bytes \<Rightarrow> bytes" where
  "ljust n bs = bs @ replicate (n - length bs) 0"

function ghash_loop :: "128 word \<Rightarrow> 128 word \<Rightarrow> bytes \<Rightarrow> 128 word" where
  "ghash_loop h acc data =
     (if data = [] then acc
      else ghash_loop h (gf_mult h (acc XOR from_block (ljust 16 (take 16 data)))) (drop 16 data))"
  by pat_completeness auto
termination
  by (relation "measure (\<lambda>(_, _, d). length d)") auto

declare ghash_loop.simps [simp del]

definition ghash :: "128 word \<Rightarrow> bytes \<Rightarrow> 128 word" where
  "ghash h data = ghash_loop h 0 data"

section \<open>Counter mode\<close>

definition to_bytes4 :: "nat \<Rightarrow> bytes res" where
  "to_bytes4 n = (if n < 2 ^ 32 then Inr (be_bytes 4 n) else Inl OverflowError)"

function gctr_loop :: "bytes list \<Rightarrow> bytes \<Rightarrow> nat \<Rightarrow> bytes \<Rightarrow> bytes res" where
  "gctr_loop rks pre n data =
     (if data = [] then Inr []
      else rbind (to_bytes4 n) (\<lambda>c.
           rbind (encrypt_block rks (pre @ c)) (\<lambda>keystream.
           rbind (gctr_loop rks pre ((n + 1) mod 2 ^ 32) (drop 16 data)) (\<lambda>out.
             Inr (xor_bytes (take 16 data) keystream @ out)))))"
  by pat_completeness auto
termination
  by (relation "measure (\<lambda>(_, _, _, d). length d)") auto

declare gctr_loop.simps [simp del]

definition gctr :: "bytes list \<Rightarrow> bytes \<Rightarrow> bytes \<Rightarrow> bytes res" where
  "gctr rks counter data = gctr_loop rks (take 12 counter) (be_value (drop 12 counter)) data"

section \<open>Sealing and opening\<close>

definition pad16 :: "bytes \<Rightarrow> bytes" where
  "pad16 bs = bs @ replicate ((16 - length bs mod 16) mod 16) 0"

definition lengths_block :: "bytes \<Rightarrow> bytes \<Rightarrow> bytes res" where
  "lengths_block aad ct =
     (if 2 ^ 64 \<le> 8 * length aad \<or> 2 ^ 64 \<le> 8 * length ct then Inl StructError
      else Inr (be_bytes 8 (8 * length aad) @ be_bytes 8 (8 * length ct)))"

text \<open>The tag of a ciphertext: GHASH of the padded inputs and their lengths, encrypted.\<close>

definition tag_of :: "bytes list \<Rightarrow> bytes \<Rightarrow> bytes \<Rightarrow> bytes \<Rightarrow> bytes res" where
  "tag_of rks nonce aad ct =
     rbind (encrypt_block rks (replicate 16 0)) (\<lambda>h.
     rbind (lengths_block aad ct) (\<lambda>lens.
       gctr rks (nonce @ [0, 0, 0, 1]) (to_block (ghash (from_block h) (pad16 aad @ pad16 ct @ lens)))))"

definition encrypt :: "bytes \<Rightarrow> bytes \<Rightarrow> bytes \<Rightarrow> bytes \<Rightarrow> (bytes \<times> bytes) res" where
  "encrypt key nonce plaintext aad =
     (if length nonce \<noteq> NONCE_BYTES then Inl ValueError
      else rbind (expand_key key) (\<lambda>rks.
           rbind (gctr rks (nonce @ [0, 0, 0, 2]) plaintext) (\<lambda>ct.
           rbind (tag_of rks nonce aad ct) (\<lambda>tag. Inr (ct, tag)))))"

definition decrypt :: "bytes \<Rightarrow> bytes \<Rightarrow> bytes \<Rightarrow> bytes \<Rightarrow> bytes \<Rightarrow> bytes res" where
  "decrypt key nonce ciphertext tag aad =
     (if length tag \<noteq> TAG_BYTES then Inl InvalidTag
      else rbind (expand_key key) (\<lambda>rks.
           rbind (tag_of rks nonce aad ciphertext) (\<lambda>expected.
             if expected \<noteq> tag then Inl InvalidTag
             else gctr rks (nonce @ [0, 0, 0, 2]) ciphertext)))"

section \<open>Shapes\<close>

lemma length_xor_bytes [simp]: "length (xor_bytes a b) = min (length a) (length b)"
  by (simp add: xor_bytes_def)

lemma xor_bytes_cancel: "length a \<le> length k \<Longrightarrow> xor_bytes (xor_bytes a k) k = a"
proof (induction a arbitrary: k)
  case (Cons x a)
  then show ?case by (cases k) (simp_all add: xor_bytes_def xor.assoc)
qed (simp add: xor_bytes_def)

definition rks_ok :: "bytes list \<Rightarrow> bool" where
  "rks_ok rks = (length rks = 15 \<and> (\<forall>k \<in> set rks. length k = 16))"

lemma length_schedule_word:
  assumes "\<forall>w \<in> set ws. length w = 4" "8 \<le> index" "index \<le> length ws"
  shows "length (schedule_word index ws) = 4"
proof -
  have "ws ! (index - 1) \<in> set ws" "ws ! (index - 8) \<in> set ws" using assms(2,3) by simp_all
  then have "length (ws ! (index - 1)) = 4" "length (ws ! (index - 8)) = 4" using assms(1) by blast+
  then show ?thesis by (simp add: schedule_word_def Let_def)
qed

lemma key_words_shape:
  "\<forall>w \<in> set ws. length w = 4 \<Longrightarrow> 8 \<le> length ws \<Longrightarrow> length ws = n \<Longrightarrow> n \<le> m \<Longrightarrow>
   length (key_words [n..<m] ws) = m \<and> (\<forall>w \<in> set (key_words [n..<m] ws). length w = 4)"
proof (induction "m - n" arbitrary: n ws)
  case (Suc k)
  then have "[n..<m] = n # [Suc n..<m]" by (simp add: upt_conv_Cons)
  moreover have "length (schedule_word n ws) = 4" using Suc.prems by (intro length_schedule_word) auto
  moreover have "length (key_words [Suc n..<m] (ws @ [schedule_word n ws])) = m
      \<and> (\<forall>w \<in> set (key_words [Suc n..<m] (ws @ [schedule_word n ws])). length w = 4)"
    by (rule Suc.hyps(1)) (use Suc.hyps(2) Suc.prems calculation(2) in auto)
  ultimately show ?case by simp
qed simp

lemma first_words_shape:
  "length key = 32 \<Longrightarrow> length (first_words key) = 8 \<and> (\<forall>w \<in> set (first_words key). length w = 4)"
  unfolding first_words_def by (auto simp: length_slice simp del: upt_rec_numeral)

lemma all_words_shape:
  assumes "length key = 32"
  shows "length (all_words key) = 60" "\<forall>w \<in> set (all_words key). length w = 4"
proof -
  have f: "length (first_words key) = 8" "\<forall>w \<in> set (first_words key). length w = 4"
    using first_words_shape [OF assms] by blast+
  note k = key_words_shape [OF f(2), of 8 60]
  have "length (all_words key) = 60 \<and> (\<forall>w \<in> set (all_words key). length w = 4)"
    unfolding all_words_def by (rule k) (use f(1) in simp_all)
  then show "length (all_words key) = 60" "\<forall>w \<in> set (all_words key). length w = 4" by blast+
qed

lemma length_concat_uniform: "\<forall>w \<in> set ws. length w = n \<Longrightarrow> length (concat ws) = n * length ws"
  by (induction ws) auto

lemma round_key_shape:
  assumes "length key = 32" "r < 15"
  shows "length (round_key key r) = 16"
proof -
  have "\<forall>w \<in> set (slice (4 * r) (4 * r + 4) (all_words key)). length w = 4"
    using all_words_shape(2) [OF assms(1)] by (auto simp: slice_def dest!: in_set_takeD in_set_dropD)
  from length_concat_uniform [OF this] show ?thesis
    using all_words_shape(1) [OF assms(1)] assms(2) by (simp add: round_key_def length_slice)
qed

lemma expand_key_shape:
  assumes "expand_key key = Inr rks"
  shows "rks_ok rks"
proof -
  have k: "length key = 32" and r: "rks = map (round_key key) [0..<15]"
    using assms unfolding expand_key_def KEY_BYTES_def by (simp_all del: upt_rec_numeral split: if_splits)
  show ?thesis unfolding rks_ok_def r using round_key_shape [OF k] by (simp del: upt_rec_numeral)
qed

lemma length_mix_columns: "length (mix_columns s) = 4 * (length s div 4)"
  by (induction s rule: mix_columns.induct) (auto simp: Let_def)

lemma length_rounds:
  "ks \<noteq> [] \<Longrightarrow> \<forall>k \<in> set ks. length k = 16 \<Longrightarrow> length (rounds ks s) = 16"
  by (induction ks s rule: rounds.induct) (auto simp: shift_rows_def length_mix_columns)

lemma encrypt_block_length: "rks_ok rks \<Longrightarrow> encrypt_block rks b = Inr k \<Longrightarrow> length k = 16"
  by (cases rks) (auto simp: encrypt_block_def rks_ok_def Let_def intro!: length_rounds split: if_splits)

lemma encrypt_block_total: "rks_ok rks \<Longrightarrow> 16 \<le> length b \<Longrightarrow> \<exists>k. encrypt_block rks b = Inr k"
  by (cases rks) (auto simp: encrypt_block_def rks_ok_def Let_def)

section \<open>Counter mode\<close>

text \<open>
  What sealing relies on: with valid keys and a block-sized counter the stream cipher answers, keeps
  the length, and undoes itself.
\<close>

locale counter_mode =
  fixes enc :: "'k \<Rightarrow> bytes \<Rightarrow> bytes \<Rightarrow> bytes res"
    and valid :: "'k \<Rightarrow> bool"
  assumes enc_total: "valid k \<Longrightarrow> length c = 16 \<Longrightarrow> \<exists>e. enc k c d = Inr e"
    and enc_length: "valid k \<Longrightarrow> enc k c d = Inr e \<Longrightarrow> length e = length d"
    and enc_undo: "valid k \<Longrightarrow> enc k c d = Inr e \<Longrightarrow> enc k c e = Inr d"
begin

lemma enc_inj: "valid k \<Longrightarrow> enc k c d = Inr e \<Longrightarrow> enc k c d' = Inr e \<Longrightarrow> d = d'"
  using enc_undo [of k c d e] enc_undo [of k c d' e] by simp

lemma enc_iff: "valid k \<Longrightarrow> enc k c d = Inr e \<longleftrightarrow> enc k c e = Inr d"
  using enc_undo by blast

end

lemma xor_block_split:
  assumes "length k = 16" "length out = length (drop 16 d)" "d \<noteq> []"
  shows "take 16 (xor_bytes (take 16 d) k @ out) = xor_bytes (take 16 d) k"
    and "drop 16 (xor_bytes (take 16 d) k @ out) = out"
    and "xor_bytes (take 16 d) k @ out \<noteq> []"
proof -
  have n: "length (xor_bytes (take 16 d) k) = min (length d) 16" by (simp add: assms(1))
  show "take 16 (xor_bytes (take 16 d) k @ out) = xor_bytes (take 16 d) k"
    "drop 16 (xor_bytes (take 16 d) k @ out) = out"
    using n assms(2) by (cases "16 \<le> length d"; simp)+
  show "xor_bytes (take 16 d) k @ out \<noteq> []" using n assms(3) by (metis Nil_is_append_conv length_0_conv min_def zero_neq_numeral)
qed

lemma gctr_loop_facts:
  assumes "rks_ok rks"
  shows "length pre = 12 \<Longrightarrow> n < 2 ^ 32 \<Longrightarrow> \<exists>e. gctr_loop rks pre n d = Inr e"
    and "gctr_loop rks pre n d = Inr e \<Longrightarrow> length e = length d \<and> gctr_loop rks pre n e = Inr d"
proof -
  show "\<exists>e. gctr_loop rks pre n d = Inr e" if "length pre = 12" "n < 2 ^ 32"
    using that
  proof (induction "length d" arbitrary: n d rule: less_induct)
    case less
    show ?case
    proof (cases "d = []")
      case False
      then obtain e where "gctr_loop rks pre ((n + 1) mod 2 ^ 32) (drop 16 d) = Inr e"
        using less.hyps [of "drop 16 d" "(n + 1) mod 2 ^ 32"] less.prems by auto
      moreover obtain k where "encrypt_block rks (pre @ be_bytes 4 n) = Inr k"
        using encrypt_block_total [OF assms, of "pre @ be_bytes 4 n"] less.prems by auto
      ultimately show ?thesis using less.prems False by (subst gctr_loop.simps) (simp add: to_bytes4_def del: be_bytes.simps)
    qed (subst gctr_loop.simps, simp)
  qed
  show "length e = length d \<and> gctr_loop rks pre n e = Inr d" if "gctr_loop rks pre n d = Inr e"
    using that
  proof (induction "length d" arbitrary: n d e rule: less_induct)
    case less
    show ?case
    proof (cases "d = []")
      case True
      then show ?thesis using less.prems by (subst (asm) gctr_loop.simps) (simp add: gctr_loop.simps)
    next
      case False
      then obtain c k out where c: "to_bytes4 n = Inr c" and k: "encrypt_block rks (pre @ c) = Inr k"
        and o: "gctr_loop rks pre ((n + 1) mod 2 ^ 32) (drop 16 d) = Inr out"
        and e: "e = xor_bytes (take 16 d) k @ out"
        using less.prems by (subst (asm) gctr_loop.simps) (auto simp: rbind_Inr_iff)
      have lk: "length k = 16" by (rule encrypt_block_length [OF assms k])
      have IH: "length out = length (drop 16 d)" "gctr_loop rks pre ((n + 1) mod 2 ^ 32) out = Inr (drop 16 d)"
        using less.hyps [OF _ o] False by simp_all
      have split: "take 16 e = xor_bytes (take 16 d) k" "drop 16 e = out" "e \<noteq> []"
        using xor_block_split [OF lk IH(1) False] by (simp_all add: e)
      then have "gctr_loop rks pre n e = Inr (xor_bytes (take 16 e) k @ drop 16 d)"
        using c k IH(2) by (subst gctr_loop.simps) simp
      moreover have "xor_bytes (take 16 e) k = take 16 d" unfolding split(1) by (rule xor_bytes_cancel) (simp add: lk)
      moreover have "length e = length d" using IH(1) lk by (simp add: e min_def)
      ultimately show ?thesis by simp
    qed
  qed
qed

interpretation ctr: counter_mode gctr rks_ok
proof unfold_locales
  fix rks c d e
  assume ok: "rks_ok rks"
  show "\<exists>e. gctr rks c d = Inr e" if "length c = 16"
  proof -
    have "be_value (drop 12 c) < 2 ^ 32" using be_value_lt [of "drop 12 c"] that by simp
    then show ?thesis unfolding gctr_def using that by (intro gctr_loop_facts(1) [OF ok]) simp
  qed
  show "length e = length d" if "gctr rks c d = Inr e"
    using gctr_loop_facts(2) [OF ok that [unfolded gctr_def]] by (rule conjunct1)
  show "gctr rks c e = Inr d" if "gctr rks c d = Inr e"
    unfolding gctr_def using gctr_loop_facts(2) [OF ok that [unfolded gctr_def]] by (rule conjunct2)
qed

section \<open>Sealing and opening\<close>

lemma encrypt_block_zero: "rks_ok rks \<Longrightarrow> \<exists>h. encrypt_block rks (replicate 16 0) = Inr h"
  by (rule encrypt_block_total) simp_all

lemma tag_of_length:
  "rks_ok rks \<Longrightarrow> tag_of rks nonce aad ct = Inr tag \<Longrightarrow> length tag = 16"
  unfolding tag_of_def rbind_Inr_iff to_block_def
  by (auto dest!: ctr.enc_length simp del: be_bytes.simps)

lemma tag_of_total:
  assumes "rks_ok rks" "length nonce = 12" "8 * length aad < 2 ^ 64" "8 * length ct < 2 ^ 64"
  shows "\<exists>tag. tag_of rks nonce aad ct = Inr tag"
proof -
  obtain h where "encrypt_block rks (replicate 16 0) = Inr h" using encrypt_block_zero [OF assms(1)] by blast
  moreover obtain lens where "lengths_block aad ct = Inr lens" using assms(3,4) by (simp add: lengths_block_def)
  moreover have "\<exists>t. gctr rks (nonce @ [0, 0, 0, 1]) d = Inr t" for d
    by (rule ctr.enc_total [OF assms(1)]) (simp add: assms(2))
  ultimately show ?thesis unfolding tag_of_def rbind_Inr_iff by blast
qed

lemma decrypt_encrypt_facts:
  assumes "encrypt key nonce pt aad = Inr (ct, tag)"
  shows "decrypt key nonce ct tag aad = Inr pt \<and> length ct = length pt \<and> length tag = TAG_BYTES"
proof -
  obtain rks where k: "expand_key key = Inr rks"
    and c: "gctr rks (nonce @ [0, 0, 0, 2]) pt = Inr ct" and t: "tag_of rks nonce aad ct = Inr tag"
    using assms unfolding encrypt_def by (auto simp: rbind_Inr_iff split: if_splits)
  note ok = expand_key_shape [OF k]
  have "length tag = TAG_BYTES" using tag_of_length [OF ok t] by (simp add: TAG_BYTES_def)
  moreover have "length ct = length pt" by (rule ctr.enc_length [OF ok c])
  moreover have "gctr rks (nonce @ [0, 0, 0, 2]) ct = Inr pt" by (rule ctr.enc_undo [OF ok c])
  ultimately show ?thesis by (simp add: decrypt_def k t)
qed

text \<open>
  C10: Opening what was sealed, with the same key, nonce and associated data, gives back the plaintext;
  the ciphertext has the plaintext's length and the tag sixteen bytes.
\<close>

theorem decrypt_undoes_encrypt:
  assumes "encrypt key nonce pt aad = Inr (ct, tag)"
  shows "decrypt key nonce ct tag aad = Inr pt \<and> length ct = length pt \<and> length tag = TAG_BYTES"
  using assms by (rule decrypt_encrypt_facts)

text \<open>
  A ciphertext opens under one tag only: with any other, whatever its length, the answer is
  \<open>InvalidTag\<close> and no plaintext.
\<close>

theorem forged_tag_refused:
  assumes "encrypt key nonce pt aad = Inr (ct, tag)" "tag' \<noteq> tag"
  shows "decrypt key nonce ct tag' aad = Inl InvalidTag"
proof -
  obtain rks where "expand_key key = Inr rks" "tag_of rks nonce aad ct = Inr tag"
    using assms(1) unfolding encrypt_def by (auto simp: rbind_Inr_iff split: if_splits)
  then show ?thesis using assms(2) by (auto simp: decrypt_def)
qed

lemma encrypt_total:
  assumes "length key = KEY_BYTES" "length nonce = NONCE_BYTES" "8 * length aad < 2 ^ 64" "8 * length pt < 2 ^ 64"
  shows "\<exists>r. encrypt key nonce pt aad = Inr r"
proof -
  note a = assms
  obtain rks where k: "expand_key key = Inr rks" using a unfolding expand_key_def by simp
  note ok = expand_key_shape [OF k]
  have n: "length nonce = 12" using a by (simp add: NONCE_BYTES_def)
  obtain ct where c: "gctr rks (nonce @ [0, 0, 0, 2]) pt = Inr ct"
    using ctr.enc_total [OF ok, of "nonce @ [0, 0, 0, 2]" pt] n by auto
  have "length ct = length pt" by (rule ctr.enc_length [OF ok c])
  then obtain tag where "tag_of rks nonce aad ct = Inr tag" using tag_of_total [OF ok n, of aad ct] a by auto
  then show ?thesis using k c n by (simp add: encrypt_def NONCE_BYTES_def)
qed

text \<open>
  Sealing fails only for the reasons the code gives: a key or nonce of the wrong length, or a text
  whose bit length does not fit the length block.
\<close>

theorem encrypt_defined:
  "(\<exists>r. encrypt key nonce pt aad = Inr r) \<longleftrightarrow>
     length key = KEY_BYTES \<and> length nonce = NONCE_BYTES \<and> 8 * length aad < 2 ^ 64 \<and> 8 * length pt < 2 ^ 64"
proof
  assume "\<exists>r. encrypt key nonce pt aad = Inr r"
  then obtain rks ct tag where n: "length nonce = NONCE_BYTES" and k: "expand_key key = Inr rks"
    and c: "gctr rks (nonce @ [0, 0, 0, 2]) pt = Inr ct" and t: "tag_of rks nonce aad ct = Inr tag"
    unfolding encrypt_def by (auto simp: rbind_Inr_iff split: if_splits)
  have "length ct = length pt" by (rule ctr.enc_length [OF expand_key_shape [OF k] c])
  then show "length key = KEY_BYTES \<and> length nonce = NONCE_BYTES \<and> 8 * length aad < 2 ^ 64 \<and> 8 * length pt < 2 ^ 64"
    using n k t by (auto simp: expand_key_def tag_of_def lengths_block_def rbind_Inr_iff split: if_splits)
qed (use encrypt_total in blast)

text \<open>Opening answers \<open>InvalidTag\<close> or a text for every block-sized nonce and key, and nothing else.\<close>

lemma decrypt_outcomes:
  assumes "length key = KEY_BYTES" "length nonce = NONCE_BYTES" "8 * length aad < 2 ^ 64" "8 * length ct < 2 ^ 64"
  shows "decrypt key nonce ct tag aad = Inl InvalidTag \<or> (\<exists>pt. decrypt key nonce ct tag aad = Inr pt \<and> length pt = length ct)"
proof -
  obtain rks where k: "expand_key key = Inr rks" using assms(1) unfolding expand_key_def by simp
  note ok = expand_key_shape [OF k]
  have n: "length nonce = 12" using assms(2) by (simp add: NONCE_BYTES_def)
  obtain e where e: "tag_of rks nonce aad ct = Inr e" using tag_of_total [OF ok n assms(3,4)] by blast
  obtain pt where p: "gctr rks (nonce @ [0, 0, 0, 2]) ct = Inr pt"
    using ctr.enc_total [OF ok, of "nonce @ [0, 0, 0, 2]" ct] n by auto
  have "length pt = length ct" by (rule ctr.enc_length [OF ok p])
  then show ?thesis by (simp add: decrypt_def k e p)
qed

lemma sample_sealed:
  obtains ct tag where "encrypt (replicate 32 7) (replicate 12 1) [1, 2, 3] [] = Inr (ct, tag)"
  using encrypt_total [of "replicate 32 7" "replicate 12 1" "[]" "[1, 2, 3]"]
  by (auto simp: KEY_BYTES_def NONCE_BYTES_def)

lemma decrypt_undoes_encrypt_witness:
  "\<exists>ct tag. encrypt (replicate 32 7) (replicate 12 1) [1, 2, 3] [] = Inr (ct, tag)
     \<and> decrypt (replicate 32 7) (replicate 12 1) ct tag [] = Inr [1, 2, 3]"
proof (rule sample_sealed)
  fix ct tag
  assume e: "encrypt (replicate 32 7) (replicate 12 1) [1, 2, 3] [] = Inr (ct, tag)"
  show ?thesis using e decrypt_undoes_encrypt [OF e] by blast
qed

lemma forged_tag_refused_witness:
  "\<exists>ct tag. encrypt (replicate 32 7) (replicate 12 1) [1, 2, 3] [] = Inr (ct, tag)
     \<and> decrypt (replicate 32 7) (replicate 12 1) ct (map NOT tag @ [0]) [] = Inl InvalidTag"
proof (rule sample_sealed)
  fix ct tag
  assume e: "encrypt (replicate 32 7) (replicate 12 1) [1, 2, 3] [] = Inr (ct, tag)"
  have "map NOT tag @ [0] \<noteq> tag" by (metis length_append_singleton length_map n_not_Suc_n)
  then show ?thesis using e forged_tag_refused [OF e] by blast
qed

end
