(* ===== verification/Auth.thy ===== *)
theory Auth
  imports Inet
begin

text \<open>
  Logging in to the dashboard, \<open>symbivpn/auth.py\<close>: password hashes, the limiter of failed attempts,
  the local admin token and the browser sessions.  scrypt, SHA-256, the utf-8 encoder and the
  random tokens are parameters; the clock is an argument; the token file is the text it holds.
\<close>

section \<open>Passwords\<close>

definition SCRYPT_PREFIX :: str where "SCRYPT_PREFIX = ''scrypt$''"
definition SCRYPT_KEY_BYTES :: nat where "SCRYPT_KEY_BYTES = 32"

text \<open>What the module takes from elsewhere: text to bytes, scrypt (password, salt, length), SHA-256.\<close>

record primitives =
  utf8 :: "str \<Rightarrow> bytes"
  scrypt :: "bytes \<Rightarrow> bytes \<Rightarrow> nat \<Rightarrow> bytes"
  sha256 :: "bytes \<Rightarrow> bytes"

text \<open>\<open>bytes.fromhex\<close>: pairs of digits, white space allowed between pairs.\<close>

fun from_hex :: "str \<Rightarrow> bytes option" where
  "from_hex [] = Some []"
| "from_hex (c # s) =
     (if is_c_space c then from_hex s
      else case s of
        [] \<Rightarrow> None
      | d # r \<Rightarrow>
          (case (char_digit c, char_digit d) of
             (Some a, Some b) \<Rightarrow> map_option (\<lambda>bs. of_nat (16 * a + b) # bs) (from_hex r)
           | _ \<Rightarrow> None))"

definition hash_password :: "primitives \<Rightarrow> bytes \<Rightarrow> str \<Rightarrow> str res" where
  "hash_password pr salt password =
     (if password = [] then Inl ValueError
      else Inr (SCRYPT_PREFIX @ hex_text salt @ ''$''
             @ hex_text (scrypt pr (utf8 pr password) salt SCRYPT_KEY_BYTES)))"

definition is_hashed :: "str \<Rightarrow> bool" where
  "is_hashed stored = (prefix SCRYPT_PREFIX stored \<and> length (filter (\<lambda>c. c = CHR ''$'') stored) = 2)"

definition verify_password :: "primitives \<Rightarrow> str \<Rightarrow> str \<Rightarrow> bool" where
  "verify_password pr supplied stored =
     (if stored = [] then False
      else if \<not> is_hashed stored then utf8 pr supplied = utf8 pr stored
      else case split_on CHR ''$'' stored of
        [_, salt_hex, expected_hex] \<Rightarrow>
          (case (from_hex salt_hex, from_hex expected_hex) of
             (Some salt, Some expected) \<Rightarrow>
               scrypt pr (utf8 pr supplied) salt (if expected = [] then SCRYPT_KEY_BYTES else length expected)
                 = expected
           | _ \<Rightarrow> False)
      | _ \<Rightarrow> False)"

section \<open>Failed attempts\<close>

definition MAX_TRACKED :: nat where "MAX_TRACKED = 4096"
definition SWEEP_INTERVAL :: time where "SWEEP_INTERVAL = 1"

record limiter =
  limit :: int
  window :: time
  lockout :: time
  failures :: "(str, time list) dict"
  locked :: "(str, time) dict"
  next_sweep :: time

definition new_limiter :: "int \<Rightarrow> time \<Rightarrow> time \<Rightarrow> limiter" where
  "new_limiter n w lo = \<lparr>limit = n, window = w, lockout = lo, failures = [], locked = [], next_sweep = 0\<rparr>"

definition over_capacity :: "limiter \<Rightarrow> bool" where
  "over_capacity s = (MAX_TRACKED < length (locked s) \<or> MAX_TRACKED < length (failures s))"

text \<open>Drop the keys with the smallest values until seven eighths of the ceiling are left.\<close>

definition trim :: "('v \<Rightarrow> time) \<Rightarrow> (str, 'v) dict \<Rightarrow> (str, 'v) dict" where
  "trim value d =
     (if MAX_TRACKED < length d
      then fold ddel (take (length d - MAX_TRACKED * 7 div 8) (map fst (sort_key (\<lambda>p. value (snd p)) d))) d
      else d)"

definition ended_locks :: "time \<Rightarrow> limiter \<Rightarrow> str list" where
  "ended_locks now s = map fst (filter (\<lambda>p. snd p \<le> now) (locked s))"

definition old_failures :: "time \<Rightarrow> time \<Rightarrow> (str, time list) dict \<Rightarrow> str list" where
  "old_failures now w d = map fst (filter (\<lambda>p. snd p = [] \<or> w \<le> now - last (snd p)) d)"

definition limiter_prune :: "time \<Rightarrow> limiter \<Rightarrow> limiter" where
  "limiter_prune now s =
     (if now < next_sweep s \<and> \<not> over_capacity s then s
      else
        let ended = ended_locks now s;
            fs = fold ddel ended (failures s)
        in s\<lparr>next_sweep := now + SWEEP_INTERVAL,
             locked := trim id (fold ddel ended (locked s)),
             failures := trim last (fold ddel (old_failures now (window s) fs) fs)\<rparr>)"

definition forget :: "str \<Rightarrow> limiter \<Rightarrow> limiter" where
  "forget c s = s\<lparr>failures := ddel c (failures s), locked := ddel c (locked s)\<rparr>"

definition locked_out :: "limiter \<Rightarrow> time \<Rightarrow> str \<Rightarrow> limiter \<times> time" where
  "locked_out s now c =
     (case dget (locked s) c of
        None \<Rightarrow> (s, 0)
      | Some until \<Rightarrow> if until \<le> now then (forget c s, 0) else (s, until - now))"

definition record_failure :: "limiter \<Rightarrow> time \<Rightarrow> str \<Rightarrow> limiter \<times> bool" where
  "record_failure s now c =
     (let attempts = filter (\<lambda>t. now - t < window s)
                       (case dget (failures s) c of None \<Rightarrow> [] | Some ts \<Rightarrow> ts) @ [now];
          s = s\<lparr>failures := dset c attempts (failures s)\<rparr>;
          is_locked = limit s \<le> int (length attempts);
          s = (if is_locked then s\<lparr>locked := dset c (now + lockout s) (locked s)\<rparr> else s)
      in (limiter_prune now s, is_locked))"

definition record_success :: "limiter \<Rightarrow> str \<Rightarrow> limiter" where
  "record_success s c = forget c s"

definition limiter_status :: "limiter \<Rightarrow> time \<Rightarrow> limiter \<times> nat \<times> nat" where
  "limiter_status s now =
     (let s = limiter_prune now (s\<lparr>next_sweep := 0\<rparr>) in (s, length (failures s), length (locked s)))"

section \<open>The admin token\<close>

text \<open>The file is absent or unreadable (\<^const>\<open>None\<close>), or text.\<close>

record admin_token =
  token_file :: "str option"
  token_value :: str

definition partition_nl :: "str \<Rightarrow> str \<times> str" where
  "partition_nl s =
     (takeWhile (\<lambda>c. c \<noteq> CHR 0x0A) s, drop 1 (dropWhile (\<lambda>c. c \<noteq> CHR 0x0A) s))"

definition fingerprint :: "primitives \<Rightarrow> str \<Rightarrow> str" where
  "fingerprint pr password =
     (if password = [] then [] else take 32 (hex_text (sha256 pr (utf8 pr password))))"

definition read_token :: "admin_token \<Rightarrow> str" where
  "read_token a =
     (case token_file a of
        None \<Rightarrow> []
      | Some payload \<Rightarrow>
          let t = strip_ws (fst (partition_nl (strip_ws payload)))
          in if 20 \<le> length t then t else [])"

definition issued_for :: "admin_token \<Rightarrow> str" where
  "issued_for a = (case token_file a of None \<Rightarrow> [] | Some payload \<Rightarrow> strip_ws (snd (partition_nl payload)))"

definition load_or_create :: "primitives \<Rightarrow> str \<Rightarrow> admin_token \<Rightarrow> str \<Rightarrow> admin_token \<times> str" where
  "load_or_create pr random a password =
     (let wanted = fingerprint pr password; existing = read_token a in
      if existing \<noteq> [] \<and> issued_for a = wanted then (a\<lparr>token_value := existing\<rparr>, existing)
      else (a\<lparr>token_file := Some (random @ [CHR 0x0A] @ wanted), token_value := random\<rparr>, random))"

definition token_matches :: "primitives \<Rightarrow> admin_token \<Rightarrow> str \<Rightarrow> bool" where
  "token_matches pr a supplied =
     (if token_value a = [] then False else utf8 pr supplied = utf8 pr (token_value a))"

definition looks_local :: "str \<Rightarrow> bool" where
  "looks_local address = (address \<in> {''127.0.0.1'', ''::1'', ''localhost'', []})"

section \<open>Sessions\<close>

definition LIFETIME :: time where "LIFETIME = 30 * 86400"
definition MAX_SESSIONS :: nat where "MAX_SESSIONS = 32"

record session =
  se_token :: str
  created_at :: time
  se_expires :: time
  se_label :: str

record session_store =
  sessions :: "(str, session) dict"
  bound_to :: str

definition new_sessions :: session_store where
  "new_sessions = \<lparr>sessions = [], bound_to = []\<rparr>"

definition prune_sessions :: "time \<Rightarrow> session_store \<Rightarrow> session_store" where
  "prune_sessions now s =
     s\<lparr>sessions := fold ddel (map fst (filter (\<lambda>p. se_expires (snd p) \<le> now) (sessions s))) (sessions s)\<rparr>"

definition bind_sessions :: "primitives \<Rightarrow> str \<Rightarrow> session_store \<Rightarrow> session_store" where
  "bind_sessions pr password s =
     (let f = fingerprint pr password in
      s\<lparr>sessions := (if bound_to s \<noteq> [] \<and> bound_to s \<noteq> f \<and> sessions s \<noteq> [] then [] else sessions s),
        bound_to := f\<rparr>)"

text \<open>\<open>min\<close> by expiry: the first of the smallest.\<close>

definition oldest :: "session list \<Rightarrow> session" where
  "oldest ss = hd (sort_key se_expires ss)"

definition create_session :: "session_store \<Rightarrow> time \<Rightarrow> str \<Rightarrow> str \<Rightarrow> session_store \<times> str \<times> time" where
  "create_session s now random label =
     (let s = prune_sessions now s;
          d = (if MAX_SESSIONS \<le> length (sessions s)
               then ddel (se_token (oldest (dvals (sessions s)))) (sessions s) else sessions s);
          new = \<lparr>se_token = random, created_at = now, se_expires = now + LIFETIME, se_label = take 60 label\<rparr>
      in (s\<lparr>sessions := dset random new d\<rparr>, random, LIFETIME))"

definition validate_session :: "session_store \<Rightarrow> time \<Rightarrow> str \<Rightarrow> session_store \<times> bool" where
  "validate_session s now t =
     (if t = [] then (s, False)
      else let s = prune_sessions now s in (s, list_ex (\<lambda>x. se_token x = t) (dvals (sessions s))))"

definition revoke_session :: "session_store \<Rightarrow> str \<Rightarrow> session_store \<times> bool" where
  "revoke_session s t =
     (case List.find (\<lambda>x. se_token x = t) (dvals (sessions s)) of
        None \<Rightarrow> (s, False)
      | Some x \<Rightarrow> (s\<lparr>sessions := ddel (se_token x) (sessions s)\<rparr>, True))"

definition revoke_all :: "session_store \<Rightarrow> session_store \<times> nat" where
  "revoke_all s = (s\<lparr>sessions := []\<rparr>, length (sessions s))"

record session_row =
  sr_label :: str
  sr_created :: time
  sr_expires_in :: int

definition active_sessions :: "session_store \<Rightarrow> time \<Rightarrow> session_store \<times> session_row list" where
  "active_sessions s now =
     (let s = prune_sessions now s in
      (s, map (\<lambda>x. \<lparr>sr_label = se_label x, sr_created = created_at x,
                     sr_expires_in = max 0 (py_int (se_expires x - now))\<rparr>) (dvals (sessions s))))"

section \<open>Password hashes\<close>

lemma hex_digits: "n < 16 \<Longrightarrow> char_digit (digit_char n) = Some n \<and> \<not> is_c_space (digit_char n) \<and> digit_char n \<noteq> CHR ''$''"
proof -
  assume n: "n < 16"
  then have "code_pt (digit_char n) = (if n < 10 then 48 + n else 87 + n)" by (simp add: digit_char_def)
  with n show ?thesis by (auto simp: char_digit_digit_char is_c_space_def code_pt_def split: if_splits)
qed

lemma nibbles: "unat (b :: byte) div 16 < 16" "unat b mod 16 < 16"
  using unsigned_less [of b, where ?'a = nat] by simp_all

lemma from_hex_text [simp]: "from_hex (hex_text bs) = Some bs"
proof (induction bs)
  case (Cons b bs)
  have "(of_nat (16 * (unat b div 16) + unat b mod 16) :: byte) = b"
    by (simp add: mult.commute [of 16] div_mult_mod_eq)
  then show ?case using Cons hex_digits nibbles [of b] by (simp add: hex_text_def hex2_def)
qed (simp add: hex_text_def)

lemma hex_no_dollar: "CHR ''$'' \<notin> set (hex_text bs)"
proof -
  have "CHR ''$'' \<notin> set (hex2 b)" for b
    using hex_digits [OF nibbles(1) [of b]] hex_digits [OF nibbles(2) [of b]] by (auto simp: hex2_def)
  then show ?thesis by (simp add: hex_text_def)
qed

text \<open>
  a stored hash lets in exactly who derives the same key.  Hashing yields a string recognised as
  a hash; a supplied password is accepted against it when its scrypt key under the stored salt is
  that of the hashed password, so the password itself always is; and the empty password is refused.
\<close>

theorem hashed_password_verifies:
  assumes "\<And>p s n. length (scrypt pr p s n) = n"
    and "hash_password pr salt password = Inr stored"
  shows "is_hashed stored \<and> password \<noteq> [] \<and> verify_password pr password stored
    \<and> (verify_password pr supplied stored \<longleftrightarrow>
        scrypt pr (utf8 pr supplied) salt SCRYPT_KEY_BYTES = scrypt pr (utf8 pr password) salt SCRYPT_KEY_BYTES)"
proof -
  let ?e = "scrypt pr (utf8 pr password) salt SCRYPT_KEY_BYTES"
  have p: "password \<noteq> []" and st: "stored = SCRYPT_PREFIX @ hex_text salt @ ''$'' @ hex_text ?e"
    using assms(2) by (auto simp: hash_password_def split: if_splits)
  have f: "filter (\<lambda>c. c = CHR ''$'') (hex_text bs) = []" for bs
    using hex_no_dollar [of bs] by (auto simp: filter_empty_conv)
  have h: "is_hashed stored" by (simp add: is_hashed_def st f SCRYPT_PREFIX_def)
  have j: "stored = join ''$'' [''scrypt'', hex_text salt, hex_text ?e]" by (simp add: st SCRYPT_PREFIX_def)
  have "split_on CHR ''$'' stored = [''scrypt'', hex_text salt, hex_text ?e]"
    unfolding j by (rule split_on_join) (auto simp: hex_no_dollar)
  moreover have "length ?e = 32" by (simp add: assms(1) SCRYPT_KEY_BYTES_def)
  moreover have "stored \<noteq> []" by (simp add: st SCRYPT_PREFIX_def)
  ultimately have "verify_password pr x stored \<longleftrightarrow> scrypt pr (utf8 pr x) salt SCRYPT_KEY_BYTES = ?e" for x
    using h by (auto simp: verify_password_def SCRYPT_KEY_BYTES_def)
  then show ?thesis using h p by simp
qed

section \<open>The limiter stays bounded\<close>

datatype limiter_op = Failed str | Succeeded str | Asked str | Reported

fun limiter_step :: "time \<times> limiter_op \<Rightarrow> limiter \<Rightarrow> limiter" where
  "limiter_step (t, Failed c) s = fst (record_failure s t c)"
| "limiter_step (t, Succeeded c) s = record_success s c"
| "limiter_step (t, Asked c) s = fst (locked_out s t c)"
| "limiter_step (t, Reported) s = fst (limiter_status s t)"

definition limiter_run :: "(time \<times> limiter_op) list \<Rightarrow> limiter \<Rightarrow> limiter" where
  "limiter_run = fold limiter_step"

definition limiter_ok :: "limiter \<Rightarrow> bool" where
  "limiter_ok s = (dict_ok (failures s) \<and> dict_ok (locked s)
     \<and> length (failures s) \<le> MAX_TRACKED \<and> length (locked s) \<le> MAX_TRACKED)"

lemma trim_ok: "dict_ok d \<Longrightarrow> dict_ok (trim v d)"
  by (simp add: trim_def pydict.inv_fold_remove)

lemma trim_length:
  assumes "dict_ok d"
  shows "length (trim v d) \<le> MAX_TRACKED"
proof (cases "MAX_TRACKED < length d")
  case True
  let ?ks = "take (length d - MAX_TRACKED * 7 div 8) (map fst (sort_key (\<lambda>p. v (snd p)) d))"
  have d: "distinct (map fst (sort_key (\<lambda>p. v (snd p)) d))" 
    using assms dict_ok_sort [of "\<lambda>p. v (snd p)" d] unfolding dict_ok_def by blast
  have "k \<in> set ?ks \<Longrightarrow> dget d k \<noteq> None" for k
    by (auto dest!: in_set_takeD simp: dget_None_iff)
  then have "length (fold ddel ?ks d) = length d - length ?ks"
    using assms d by (intro pydict.entries_fold_remove) auto
  then show ?thesis using True by (simp add: trim_def MAX_TRACKED_def)
qed (simp add: trim_def)

lemma trim_id: "length d \<le> MAX_TRACKED \<Longrightarrow> trim v d = d"
  by (simp add: trim_def)

lemma prune_within:
  "dict_ok (failures s) \<Longrightarrow> dict_ok (locked s) \<Longrightarrow> limiter_ok (limiter_prune now s)"
  by (auto simp: limiter_prune_def limiter_ok_def Let_def over_capacity_def trim_ok trim_length
      pydict.inv_fold_remove)

lemma limiter_ok_forget: "limiter_ok s \<Longrightarrow> limiter_ok (forget c s)"
  using pydict.entries_remove_le [of "failures s" c] pydict.entries_remove_le [of "locked s" c]
  by (auto simp: limiter_ok_def forget_def)

lemma limiter_ok_step: "limiter_ok s \<Longrightarrow> limiter_ok (limiter_step op s)"
proof (induction op s rule: limiter_step.induct)
  case (1 t c s)
  then show ?case by (auto simp: record_failure_def Let_def limiter_ok_def [of s] intro!: prune_within)
next
  case (4 t s)
  then show ?case by (auto simp: limiter_status_def Let_def limiter_ok_def [of s] intro!: prune_within)
qed (auto simp: record_success_def locked_out_def limiter_ok_forget split: option.split)

text \<open>
  the bookkeeping against guessing cannot be used to exhaust memory.  However many clients fail,
  succeed or ask, and whenever, no more than the ceiling are ever remembered in either map.
\<close>

theorem limiter_stays_bounded:
  "limiter_ok (limiter_run ops (new_limiter n w lo))"
proof -
  have "limiter_ok s \<Longrightarrow> limiter_ok (limiter_run ops s)" for s
    by (induction ops arbitrary: s) (auto simp: limiter_run_def intro: limiter_ok_step)
  then show ?thesis by (simp add: limiter_ok_def new_limiter_def)
qed

section \<open>Guessing locks a client out\<close>

text \<open>At most \<open>MAX_TRACKED\<close> clients, those of a list: then nothing live is ever trimmed away.\<close>

definition among :: "str list \<Rightarrow> limiter \<Rightarrow> bool" where
  "among cs s = (dict_ok (failures s) \<and> dict_ok (locked s)
     \<and> dom (dget (failures s)) \<subseteq> set cs \<and> dom (dget (locked s)) \<subseteq> set cs)"

fun client_in :: "str list \<Rightarrow> limiter_op \<Rightarrow> bool" where
  "client_in cs (Failed c) = (c \<in> set cs)"
| "client_in cs _ = True"

lemma among_length:
  assumes "dict_ok d" "dom (dget d) \<subseteq> set cs" "length cs \<le> MAX_TRACKED"
  shows "length d \<le> MAX_TRACKED"
proof -
  have "length d = card (set (map fst d))"
    using assms(1) distinct_card [of "map fst d"] by (simp only: dict_ok_def length_map)
  also have "\<dots> \<le> card (set cs)"
    by (rule card_mono) (use assms(2) in \<open>auto simp: dom_map_of_conv_image_fst\<close>)
  finally show ?thesis using assms(3) card_length [of cs] by linarith
qed

lemma dom_fold_ddel: "dom (dget (fold ddel ks d)) = dom (dget d) - set ks"
  by (auto simp: pydict.lookup_fold_remove split: if_splits)

lemma dom_dset: "dom (dget (dset k v d)) = insert k (dom (dget d))"
  by (auto split: if_splits)

lemma dom_ddel: "dom (dget (ddel k d)) = dom (dget d) - {k}"
  by (auto split: if_splits)

lemma prune_config [simp]: "window (limiter_prune now s) = window s" "lockout (limiter_prune now s) = lockout s"
    "limit (limiter_prune now s) = limit s"
  by (simp_all add: limiter_prune_def Let_def)

text \<open>What a sweep keeps: locks and failures that are still live.\<close>

lemma prune_keeps:
  assumes a: "among cs s" and n: "length cs \<le> MAX_TRACKED"
  shows "among cs (limiter_prune now s)"
    and "dget (locked s) c = Some u \<Longrightarrow> now < u \<Longrightarrow> dget (locked (limiter_prune now s)) c = Some u"
    and "dget (locked s) c = None \<Longrightarrow> dget (locked (limiter_prune now s)) c = None"
    and "dget (failures s) c = None \<Longrightarrow> dget (failures (limiter_prune now s)) c = None"
    and "dget (locked s) c = None \<Longrightarrow> dget (failures s) c = Some ts \<Longrightarrow> ts \<noteq> [] \<Longrightarrow> now - last ts < window s
      \<Longrightarrow> dget (failures (limiter_prune now s)) c = Some ts"
proof -
  let ?e = "ended_locks now s"
  let ?f = "fold ddel ?e (failures s)"
  let ?o = "old_failures now (window s) ?f"
  have ok: "dict_ok (failures s)" "dict_ok (locked s)" using a by (simp_all add: among_def)
  have keys: "dom (dget (fold ddel ks (locked s))) \<subseteq> set cs" "dom (dget (fold ddel ks ?f)) \<subseteq> set cs" for ks
    using a by (auto simp only: among_def dom_fold_ddel)
  have oks: "dict_ok ?f" "dict_ok (fold ddel ?o ?f)" "dict_ok (fold ddel ?e (locked s))"
    using ok by (simp_all add: pydict.inv_fold_remove)
  have t: "trim v (fold ddel ?e (locked s)) = fold ddel ?e (locked s)" "trim v' (fold ddel ?o ?f) = fold ddel ?o ?f" for v v'
    using among_length [OF oks(3) keys(1) n] among_length [OF oks(2) keys(2) n] by (simp_all add: trim_id)
  have p: "limiter_prune now s = s \<or> limiter_prune now s = s\<lparr>next_sweep := now + SWEEP_INTERVAL,
      locked := fold ddel ?e (locked s), failures := fold ddel ?o ?f\<rparr>"
    by (simp add: limiter_prune_def Let_def t)
  then show "among cs (limiter_prune now s)"
  proof
    assume "limiter_prune now s = s"
    then show ?thesis using a by simp
  qed (use keys oks in \<open>simp add: among_def\<close>)
  have e: "c \<notin> set ?e" if "dget (locked s) c = None \<or> (\<exists>u. dget (locked s) c = Some u \<and> now < u)"
  proof
    assume "c \<in> set ?e"
    then obtain u where "(c, u) \<in> set (locked s)" "u \<le> now" by (auto simp: ended_locks_def)
    then have "dget (locked s) c = Some u" using ok by (simp add: dget_iff)
    with that \<open>u \<le> now\<close> show False by auto
  qed
  show "dget (locked s) c = Some u \<Longrightarrow> now < u \<Longrightarrow> dget (locked (limiter_prune now s)) c = Some u"
    using p e by (auto simp: pydict.lookup_fold_remove)
  show "dget (locked s) c = None \<Longrightarrow> dget (locked (limiter_prune now s)) c = None"
    using p by (auto simp: pydict.lookup_fold_remove)
  show "dget (failures s) c = None \<Longrightarrow> dget (failures (limiter_prune now s)) c = None"
    using p by (auto simp: pydict.lookup_fold_remove)
  assume l: "dget (locked s) c = None" and f: "dget (failures s) c = Some ts" "ts \<noteq> []" "now - last ts < window s"
  have g: "dget ?f c = Some ts" using e l f by (simp add: pydict.lookup_fold_remove)
  have "c \<notin> set ?o"
  proof
    assume "c \<in> set ?o"
    then obtain us where "(c, us) \<in> set ?f" "us = [] \<or> window s \<le> now - last us" by (auto simp: old_failures_def)
    moreover from this(1) have "dget ?f c = Some us" using dget_iff [OF oks(1)] by blast
    ultimately show False using g f by auto
  qed
  then show "dget (failures (limiter_prune now s)) c = Some ts" using p g f by (auto simp: pydict.lookup_fold_remove)
qed

lemma among_step:
  assumes "among cs s" "length cs \<le> MAX_TRACKED" "client_in cs (snd op)"
  shows "among cs (limiter_step op s) \<and> window (limiter_step op s) = window s
    \<and> lockout (limiter_step op s) = lockout s \<and> limit (limiter_step op s) = limit s"
  using assms
proof (induction op s rule: limiter_step.induct)
  case (1 t c s)
  let ?f = "s\<lparr>failures := dset c (filter (\<lambda>ta. t - ta < window s)
      (case dget (failures s) c of None \<Rightarrow> [] | Some ts \<Rightarrow> ts) @ [t]) (failures s)\<rparr>"
  have "among cs ?f" "among cs (?f\<lparr>locked := dset c u (locked s)\<rparr>)" for u
    using 1 by (simp_all add: among_def dom_dset del: dom_fun_upd)
  then show ?case using 1(2) by (simp add: record_failure_def Let_def prune_keeps)
next
  case (4 t s)
  have "among cs (s\<lparr>next_sweep := 0\<rparr>)" using 4 by (simp add: among_def)
  then show ?case using 4 by (simp add: limiter_status_def Let_def prune_keeps)
qed (auto simp: record_success_def locked_out_def forget_def among_def dom_ddel split: option.split)


lemma among_run:
  "among cs s \<Longrightarrow> length cs \<le> MAX_TRACKED \<Longrightarrow> \<forall>op \<in> set ops. client_in cs (snd op) \<Longrightarrow>
   among cs (limiter_run ops s) \<and> window (limiter_run ops s) = window s
    \<and> lockout (limiter_run ops s) = lockout s \<and> limit (limiter_run ops s) = limit s"
  by (induction ops arbitrary: s) (simp_all add: limiter_run_def among_step)

text \<open>The times of a client's failures in a list of operations.\<close>

definition fail_times :: "str \<Rightarrow> (time \<times> limiter_op) list \<Rightarrow> time list" where
  "fail_times c ops = map fst (filter (\<lambda>op. snd op = Failed c) ops)"

definition counted :: "str \<Rightarrow> time list \<Rightarrow> limiter \<Rightarrow> bool" where
  "counted c ts s = (dget (locked s) c = None \<and> dget (failures s) c = (if ts = [] then None else Some ts))"

lemma counted_step:
  assumes a: "among cs s" "length cs \<le> MAX_TRACKED" "client_in cs op"
    and c: "counted c ts s" and op: "op \<noteq> Succeeded c"
    and w: "\<forall>u \<in> set ts. now - u < window s" "0 < window s"
    and lim: "int (length (ts @ fail_times c [(now, op)])) < limit s"
  shows "counted c (ts @ fail_times c [(now, op)]) (limiter_step (now, op) s)"
proof (cases op)
  case (Failed x)
  let ?as = "filter (\<lambda>ta. now - ta < window s) (case dget (failures s) x of None \<Rightarrow> [] | Some ts \<Rightarrow> ts) @ [now]"
  let ?f = "s\<lparr>failures := dset x ?as (failures s)\<rparr>"
  have f: "among cs ?f" "among cs (?f\<lparr>locked := dset x u (locked s)\<rparr>)" for u
    using a Failed by (simp_all add: among_def dom_dset del: dom_fun_upd)
  show ?thesis
  proof (cases "x = c")
    case True
    have as: "?as = ts @ [now]" using c w(1) True by (auto simp: counted_def filter_id_conv split: if_splits)
    moreover from this have "\<not> limit s \<le> int (length ?as)" using lim Failed True by (simp add: fail_times_def)
    moreover have "counted c (ts @ [now]) (limiter_prune now ?f)"
      unfolding as unfolding True using c w(2) prune_keeps(3,5) [OF f(1) [unfolded as, unfolded True] a(2)]
      by (simp add: counted_def)
    ultimately show ?thesis using Failed True by (simp add: record_failure_def Let_def fail_times_def)
  next
    case False
    have "counted c ts (limiter_prune now t)" if "among cs t" "dget (locked t) c = None"
        "dget (failures t) c = (if ts = [] then None else Some ts)" "window t = window s" for t
      using that w prune_keeps(3,4,5) [OF that(1) a(2)] by (simp add: counted_def split: if_splits)
    then show ?thesis using Failed False c f
      by (auto simp: record_failure_def Let_def fail_times_def counted_def)
  qed
next
  case (Asked x)
  then show ?thesis using c
    by (auto simp: fail_times_def locked_out_def counted_def forget_def split: option.split)
next
  case Reported
  have "among cs (s\<lparr>next_sweep := 0\<rparr>)" using a by (simp add: among_def)
  note k = prune_keeps(3,4,5) [OF this a(2)]
  show ?thesis using k c w Reported
    by (simp add: fail_times_def limiter_status_def Let_def counted_def split: if_splits)
qed (use c op in \<open>simp add: fail_times_def record_success_def forget_def counted_def\<close>)

definition quiet :: "str list \<Rightarrow> str \<Rightarrow> time \<Rightarrow> time \<Rightarrow> (time \<times> limiter_op) list \<Rightarrow> bool" where
  "quiet cs c from_t until_t ops =
     (\<forall>op \<in> set ops. client_in cs (snd op) \<and> snd op \<noteq> Succeeded c \<and> from_t \<le> fst op \<and> fst op < until_t)"

lemma counted_run:
  assumes "among cs s" "length cs \<le> MAX_TRACKED" "quiet cs c t0 (t0 + window s) ops" "0 < window s"
    and "counted c ts s" "\<forall>u \<in> set ts. t0 \<le> u" "int (length (ts @ fail_times c ops)) < limit s"
  shows "counted c (ts @ fail_times c ops) (limiter_run ops s)"
  using assms
proof (induction ops arbitrary: s ts)
  case (Cons op ops)
  obtain now o' where op: "op = (now, o')" by (cases op)
  have f: "fail_times c (op # ops) = fail_times c [op] @ fail_times c ops" by (simp add: fail_times_def)
  have q: "client_in cs o'" "o' \<noteq> Succeeded c" "t0 \<le> now" "now < t0 + window s"
    using Cons.prems(3) by (auto simp: quiet_def op)
  have near: "\<forall>u \<in> set ts. now - u < window s" using Cons.prems(6) q by auto
  have lim: "int (length (ts @ fail_times c [(now, o')])) < limit s" using Cons.prems(7) unfolding f by (simp add: op)
  let ?s = "limiter_step op s"
  have a: "among cs ?s \<and> window ?s = window s \<and> lockout ?s = lockout s \<and> limit ?s = limit s"
    using among_step [OF Cons.prems(1,2), of op] q by (simp add: op)
  have "counted c (ts @ fail_times c [op]) ?s"
    using counted_step [OF Cons.prems(1,2) q(1) Cons.prems(5) q(2) near Cons.prems(4) lim] by (simp add: op)
  moreover have "\<forall>u \<in> set (ts @ fail_times c [op]). t0 \<le> u" using Cons.prems(6) q by (auto simp: fail_times_def op)
  moreover have "quiet cs c t0 (t0 + window ?s) ops" using Cons.prems(3) a by (auto simp: quiet_def)
  ultimately show ?case
    using Cons.IH [of ?s "ts @ fail_times c [op]"] a Cons.prems(2,4,7) unfolding f by (simp add: limiter_run_def)
qed (simp add: limiter_run_def fail_times_def)

lemma locked_step:
  assumes a: "among cs s" "length cs \<le> MAX_TRACKED" "client_in cs op" and op: "op \<noteq> Succeeded c"
    and l: "dget (locked s) c = Some u" "m \<le> u" and t: "now < m" "m \<le> now + lockout s"
  shows "\<exists>u'. dget (locked (limiter_step (now, op) s)) c = Some u' \<and> m \<le> u'"
proof (cases op)
  case (Failed x)
  let ?f = "s\<lparr>failures := dset x (filter (\<lambda>ta. now - ta < window s)
      (case dget (failures s) x of None \<Rightarrow> [] | Some ts \<Rightarrow> ts) @ [now]) (failures s)\<rparr>"
  have f: "among cs ?f" "among cs (?f\<lparr>locked := dset x v (locked s)\<rparr>)" for v
    using a Failed by (simp_all add: among_def dom_dset del: dom_fun_upd)
  have k: "dget (locked (limiter_prune now s')) c = Some v" if "among cs s'" "dget (locked s') c = Some v" "m \<le> v" for s' v
    using prune_keeps(2) [OF that(1) a(2) that(2)] that(3) t by simp
  show ?thesis
    using k [OF f(1)] k [OF f(2)] l t Failed by (cases "c = x") (auto simp: record_failure_def Let_def)
next
  case (Asked x)
  then show ?thesis using l t by (auto simp: locked_out_def forget_def split: option.split)
next
  case Reported
  have "among cs (s\<lparr>next_sweep := 0\<rparr>)" using a by (simp add: among_def)
  note k = prune_keeps(2) [OF this a(2)]
  show ?thesis using k l t Reported
    by (simp add: limiter_status_def Let_def)
qed (use op l in \<open>simp add: record_success_def forget_def\<close>)

lemma locked_run:
  "among cs s \<Longrightarrow> length cs \<le> MAX_TRACKED \<Longrightarrow> quiet cs c t m ops \<Longrightarrow> m \<le> t + lockout s \<Longrightarrow>
   dget (locked s) c = Some u \<Longrightarrow> m \<le> u \<Longrightarrow> \<exists>u'. dget (locked (limiter_run ops s)) c = Some u' \<and> m \<le> u'"
proof (induction ops arbitrary: s u)
  case (Cons op ops)
  obtain now o' where op: "op = (now, o')" by (cases op)
  have q: "client_in cs o'" "o' \<noteq> Succeeded c" "t \<le> now" "now < m" using Cons.prems(3) by (auto simp: quiet_def op)
  obtain u' where u': "dget (locked (limiter_step op s)) c = Some u'" "m \<le> u'"
    using locked_step [OF Cons.prems(1,2) q(1,2) Cons.prems(5,6) q(4)] q(3) Cons.prems(4) by (auto simp: op)
  have a: "among cs (limiter_step op s)" "lockout (limiter_step op s) = lockout s"
    using among_step [OF Cons.prems(1,2), of op] q by (simp_all add: op)
  show ?case using Cons.IH [OF a(1) Cons.prems(2) _ _ u'] Cons.prems(3,4) a(2)
    by (simp add: quiet_def limiter_run_def)
qed (simp add: limiter_run_def)



section \<open>Sessions end\<close>

datatype session_op = Create str str | Validate str | Revoke str | RevokeAll | Active | Bind str

fun session_step :: "primitives \<Rightarrow> time \<times> session_op \<Rightarrow> session_store \<Rightarrow> session_store" where
  "session_step pr (t, Create random label) s = fst (create_session s t random label)"
| "session_step pr (t, Validate tok) s = fst (validate_session s t tok)"
| "session_step pr (t, Revoke tok) s = fst (revoke_session s tok)"
| "session_step pr (t, RevokeAll) s = fst (revoke_all s)"
| "session_step pr (t, Active) s = fst (active_sessions s t)"
| "session_step pr (t, Bind password) s = bind_sessions pr password s"

definition session_run :: "primitives \<Rightarrow> (time \<times> session_op) list \<Rightarrow> session_store \<Rightarrow> session_store" where
  "session_run pr = fold (session_step pr)"

definition session_inv :: "session_store \<Rightarrow> bool" where
  "session_inv s = (dict_ok (sessions s) \<and> length (sessions s) \<le> MAX_SESSIONS
     \<and> (\<forall>(k, x) \<in> set (sessions s). k = se_token x))"

definition live :: "session_store \<Rightarrow> time \<Rightarrow> str \<Rightarrow> bool" where
  "live s now t = (t \<noteq> [] \<and> (\<exists>(k, x) \<in> set (sessions s). se_token x = t \<and> now < se_expires x))"

lemma sessions_pruned:
  "dict_ok (sessions s) \<Longrightarrow>
     set (sessions (prune_sessions now s)) = {p \<in> set (sessions s). now < se_expires (snd p)}"
proof -
  assume ok: "dict_ok (sessions s)"
  let ?dead = "map fst (filter (\<lambda>p. se_expires (snd p) \<le> now) (sessions s))"
  have "set (fold ddel ks d) = {p \<in> set d. fst p \<notin> set ks}" for ks and d :: "(str, session) dict"
    by (induction ks arbitrary: d) (auto simp: set_ddel)
  then have "set (sessions (prune_sessions now s)) = {p \<in> set (sessions s). fst p \<notin> set ?dead}"
    by (simp add: prune_sessions_def)
  also have "\<dots> = {p \<in> set (sessions s). now < se_expires (snd p)}"
  proof -
    have "fst p \<in> set ?dead \<longleftrightarrow> se_expires (snd p) \<le> now" if "p \<in> set (sessions s)" for p
    proof
      assume "fst p \<in> set ?dead"
      then obtain x where x: "(fst p, x) \<in> set (sessions s)" "se_expires x \<le> now" by auto
      have "dget (sessions s) (fst p) = Some x" using x(1) dget_iff [OF ok] by blast
      moreover have "dget (sessions s) (fst p) = Some (snd p)" using that dget_iff [OF ok, of "fst p"] by simp
      ultimately show "se_expires (snd p) \<le> now" using x(2) by simp
    qed (use that in force)
    then show ?thesis by force
  qed
  finally show ?thesis .
qed

lemma session_inv_pruned: "session_inv s \<Longrightarrow> session_inv (prune_sessions now s)"
  using sessions_pruned [of s now] pydict.entries_fold_remove_le [of "sessions s"]
  by (auto simp: session_inv_def prune_sessions_def pydict.inv_fold_remove intro: order_trans)

lemma validate_iff: "session_inv s \<Longrightarrow> snd (validate_session s now t) \<longleftrightarrow> live s now t"
  using sessions_pruned [of s now] by (auto simp: validate_session_def live_def session_inv_def list_ex_iff Let_def)

lemma session_del: "session_inv s \<Longrightarrow> session_inv (s\<lparr>sessions := ddel k (sessions s)\<rparr>)"
  using pydict.entries_remove_le [of "sessions s" k] by (auto simp: session_inv_def set_ddel)

lemma oldest_in: "xs \<noteq> [] \<Longrightarrow> oldest xs \<in> set xs"
  unfolding oldest_def by (metis hd_in_set length_0_conv length_sort set_sort)

lemma session_inv_store:
  assumes "session_inv s" "length (sessions s) < MAX_SESSIONS" "se_token v = k"
  shows "session_inv (s\<lparr>sessions := dset k v (sessions s)\<rparr>)"
proof -
  have "dict_ok (sessions s)" "\<forall>p \<in> set (sessions s). fst p = se_token (snd p)"
    using assms(1) by (auto simp: session_inv_def)
  moreover have "\<forall>p \<in> set (dset k v (sessions s)). fst p = se_token (snd p)"
    using set_dset_subset [of k v "sessions s"] calculation(2) assms(3) by auto
  ultimately show ?thesis using assms(2) by (auto simp: session_inv_def length_dset)
qed

text \<open>Room for one more: the session that ends first is dropped when the table is full.\<close>

definition make_room :: "session_store \<Rightarrow> session_store" where
  "make_room s = (if MAX_SESSIONS \<le> length (sessions s)
     then s\<lparr>sessions := ddel (se_token (oldest (dvals (sessions s)))) (sessions s)\<rparr> else s)"

lemma create_session_room:
  "fst (create_session s t random label) =
     (let r = make_room (prune_sessions t s) in
      r\<lparr>sessions := dset random \<lparr>se_token = random, created_at = t, se_expires = t + LIFETIME, se_label = take 60 label\<rparr>
          (sessions r)\<rparr>)"
  by (simp add: create_session_def make_room_def Let_def)

lemma make_room_inv:
  assumes "session_inv s"
  shows "session_inv (make_room s) \<and> length (sessions (make_room s)) < MAX_SESSIONS
    \<and> set (sessions (make_room s)) \<subseteq> set (sessions s)"
proof (cases "MAX_SESSIONS \<le> length (sessions s)")
  case True
  let ?o = "oldest (dvals (sessions s))"
  have "dvals (sessions s) \<noteq> []" using True by (auto simp: MAX_SESSIONS_def)
  then have "?o \<in> set (dvals (sessions s))" by (rule oldest_in)
  then obtain k where "(k, ?o) \<in> set (sessions s)" by auto
  then have "(se_token ?o, ?o) \<in> set (sessions s)" using assms by (auto simp: session_inv_def)
  then have "dget (sessions s) (se_token ?o) = Some ?o" using assms by (simp add: session_inv_def dget_iff)
  then have "length (ddel (se_token ?o) (sessions s)) < MAX_SESSIONS"
    using assms by (auto simp: session_inv_def length_ddel MAX_SESSIONS_def)
  then show ?thesis using session_del [OF assms] True by (auto simp: make_room_def set_ddel)
qed (use assms in \<open>simp add: make_room_def\<close>)

lemma session_inv_create: "session_inv s \<Longrightarrow> session_inv (fst (create_session s t random label))"
  unfolding create_session_room Let_def
  using make_room_inv [OF session_inv_pruned [of s t]] by (intro session_inv_store) auto

lemma session_inv_step: "session_inv s \<Longrightarrow> session_inv (session_step pr op s)"
proof (induction pr op s rule: session_step.induct)
  case (1 pr t random label s)
  then show ?case by (simp add: session_inv_create)
next
  case (6 pr t password s)
  then show ?case by (auto simp: bind_sessions_def Let_def session_inv_def dict_ok_def)
qed (auto simp: validate_session_def Let_def session_inv_pruned revoke_session_def revoke_all_def session_del
    active_sessions_def session_inv_def [of "_\<lparr>sessions := []\<rparr>"] split: option.split)

lemma session_inv_run: "session_inv s \<Longrightarrow> session_inv (session_run pr ops s)"
  by (induction ops arbitrary: s) (auto simp: session_run_def session_inv_step)

lemma session_inv_new: "session_inv new_sessions"
  by (simp add: session_inv_def new_sessions_def)

text \<open>Nothing but \<open>create\<close> puts a session in.\<close>

lemma step_sessions:
  assumes "session_inv s" "\<forall>l. op \<noteq> Create t l" "se_token x = t"
    "(k, x) \<in> set (sessions (session_step pr (now, op) s))"
  shows "(k, x) \<in> set (sessions s)"
proof (cases op)
  case (Create random label)
  have "random \<noteq> t" using assms(2) Create by blast
  then show ?thesis
    using assms(1,3,4) Create make_room_inv [OF session_inv_pruned [OF assms(1), of now]] sessions_pruned [of s now]
      set_dset_subset [of random _ "sessions (make_room (prune_sessions now s))"]
    by (fastforce simp: create_session_room Let_def session_inv_def)
qed (use assms(1,4) sessions_pruned [of s now] in \<open>auto simp: validate_session_def revoke_session_def revoke_all_def
    active_sessions_def bind_sessions_def set_ddel session_inv_def Let_def split: option.splits if_splits\<close>)

text \<open>
  an ended session stays ended.  A token the store does not accept, because it was never issued,
  was revoked, was dropped or expired, is never accepted later, whatever happens to the store in
  between, unless a session with that very token is created.
\<close>

theorem ended_sessions_stay_ended:
  assumes "session_inv s" and "\<not> snd (validate_session s now t)"
    and "\<forall>(t', op) \<in> set ops. \<forall>l. op \<noteq> Create t l" and "now \<le> later"
  shows "\<not> snd (validate_session (session_run pr ops s) later t)"
proof -
  have "\<not> live s now t" using assms(1,2) by (simp add: validate_iff)
  with assms(1,3) have "\<not> live (session_run pr ops s) now t"
  proof (induction ops arbitrary: s)
    case (Cons op ops)
    obtain u o' where op: "op = (u, o')" by (cases op)
    have "\<not> live (session_step pr op s) now t"
      using Cons.prems step_sessions [OF Cons.prems(1), of o' t _ _ pr u] by (fastforce simp: live_def op)
    then show ?case using Cons.IH [OF session_inv_step [OF Cons.prems(1)]] Cons.prems(2)
      by (simp add: session_run_def)
  qed (simp add: session_run_def)
  then have "\<not> live (session_run pr ops s) later t" using assms(4) by (fastforce simp: live_def)
  then show ?thesis using session_inv_run [OF assms(1)] by (simp add: validate_iff)
qed

lemma find_unique:
  assumes "y \<in> set xs" "P y" and only: "\<And>x. x \<in> set xs \<Longrightarrow> P x \<Longrightarrow> x = y"
  shows "List.find P xs = Some y"
proof (cases "List.find P xs")
  case None
  with assms(1,2) show ?thesis by (simp add: find_None_iff)
next
  case (Some x)
  then have "x \<in> set xs" "P x" unfolding find_Some_iff by (metis nth_mem)+
  with only Some show ?thesis by simp
qed

lemma live_iff:
  "live s now t \<longleftrightarrow> t \<noteq> [] \<and> (\<exists>p \<in> set (sessions s). se_token (snd p) = t \<and> now < se_expires (snd p))"
  by (simp add: live_def split_beta)

lemma stored_session:
  "session_inv s \<Longrightarrow> p \<in> set (sessions s) \<Longrightarrow> dget (sessions s) (se_token (snd p)) = Some (snd p)"
  by (cases p) (auto simp: session_inv_def dget_iff)

lemma live_get:
  assumes "session_inv s" "dget (sessions s) t = Some x" "t \<noteq> []"
  shows "live s now t \<longleftrightarrow> now < se_expires x"
proof
  assume "live s now t"
  then obtain p where p: "p \<in> set (sessions s)" "se_token (snd p) = t" "now < se_expires (snd p)"
    unfolding live_iff by blast
  have "dget (sessions s) t = Some (snd p)" using stored_session [OF assms(1) p(1)] unfolding p(2) .
  then show "now < se_expires x" using p(3) unfolding assms(2) by simp
next
  assume l: "now < se_expires x"
  have m: "(t, x) \<in> set (sessions s)" by (rule map_of_SomeD [OF assms(2)])
  then have "se_token x = t" using assms(1) by (auto simp: session_inv_def)
  then show "live s now t" unfolding live_iff using l assms(3) by (intro conjI bexI [OF _ m]) simp_all
qed

lemma not_live_deleted: "session_inv s \<Longrightarrow> \<not> live (s\<lparr>sessions := ddel t (sessions s)\<rparr>) now t"
  by (auto simp: live_iff set_ddel session_inv_def)

lemma stored_once:
  assumes "session_inv s" "dget (sessions s) t = Some x" "y \<in> set (dvals (sessions s))" "se_token y = t"
  shows "y = x"
proof -
  obtain p where p: "p \<in> set (sessions s)" "y = snd p" using assms(3) unfolding set_map by (rule imageE)
  show ?thesis using stored_session [OF assms(1) p(1)] assms(2,4) p(2) by simp
qed

lemma revoke_stored:
  assumes "session_inv s" "dget (sessions s) t = Some x"
  shows "revoke_session s t = (s\<lparr>sessions := ddel t (sessions s)\<rparr>, True)"
proof -
  have m: "(t, x) \<in> set (sessions s)" by (rule map_of_SomeD [OF assms(2)])
  then have t: "se_token x = t" using assms(1) by (auto simp: session_inv_def)
  have "x \<in> set (dvals (sessions s))" using imageI [OF m, of snd] by (simp only: set_map snd_conv)
  then have "List.find (\<lambda>x. se_token x = t) (dvals (sessions s)) = Some x"
    by (rule find_unique) (use t stored_once [OF assms] in blast)+
  then show ?thesis using t by (simp add: revoke_session_def)
qed

text \<open>
  a session lives from login to logout.  The token of a new session is accepted until exactly its
  lifetime is over; revoking it, revoking all, or configuring another password ends it at once; and
  the password change ends every other session too.
\<close>

theorem session_lifecycle:
  assumes inv: "session_inv s" and t: "random \<noteq> []" and s': "fst (create_session s t0 random label) = s'"
  shows "(snd (validate_session s' now random) \<longleftrightarrow> now < t0 + LIFETIME)
    \<and> \<not> snd (validate_session (fst (revoke_session s' random)) now random)
    \<and> \<not> snd (validate_session (fst (revoke_all s')) now tok)
    \<and> (bound_to s' \<noteq> [] \<and> bound_to s' \<noteq> fingerprint pr password \<longrightarrow>
       \<not> snd (validate_session (bind_sessions pr password s') now tok))"
proof -
  have i: "session_inv s'" using session_inv_create [OF inv, of t0 random label] s' by simp
  let ?n = "\<lparr>se_token = random, created_at = t0, se_expires = t0 + LIFETIME, se_label = take 60 label\<rparr>"
  have n: "dget (sessions s') random = Some ?n" unfolding s' [symmetric] by (simp add: create_session_def Let_def)
  have 1: "snd (validate_session s' now random) \<longleftrightarrow> now < t0 + LIFETIME"
    unfolding validate_iff [OF i] live_get [OF i n t] by simp
  have 2: "\<not> snd (validate_session (fst (revoke_session s' random)) now random)"
    unfolding revoke_stored [OF i n] fst_conv validate_iff [OF session_del [OF i]]
    by (rule not_live_deleted [OF i])
  have 3: "\<not> snd (validate_session (fst (revoke_all s')) now tok)"
    by (simp add: validate_session_def revoke_all_def prune_sessions_def Let_def)
  have 4: "\<not> snd (validate_session (bind_sessions pr password s') now tok)"
    if "bound_to s' \<noteq> []" "bound_to s' \<noteq> fingerprint pr password"
    using that by (simp add: validate_session_def bind_sessions_def prune_sessions_def Let_def)
  from 1 2 3 4 show ?thesis by blast
qed

theorem session_lifecycle_witness:
  "snd (validate_session (fst (create_session new_sessions 100 ''tok'' ''phone'')) 200 ''tok'')
   \<and> \<not> snd (validate_session (fst (create_session new_sessions 100 ''tok'' ''phone'')) (100 + 30 * 86400) ''tok'')"
  using session_lifecycle [OF session_inv_new, of "''tok''" 100 "''phone''" _ 200]
    session_lifecycle [OF session_inv_new, of "''tok''" 100 "''phone''" _ "100 + 30 * 86400"]
  by (simp add: LIFETIME_def)

theorem ended_sessions_stay_ended_witness:
  "\<not> snd (validate_session (session_run \<lparr>utf8 = \<lambda>_. [], scrypt = \<lambda>_ _ _. [], sha256 = \<lambda>_. []\<rparr>
      [(2, Create ''a'' ''x''), (3, Validate ''b'')] new_sessions) 5 ''b'')"
  by (rule ended_sessions_stay_ended [OF session_inv_new, of 1])
    (simp_all add: validate_session_def new_sessions_def prune_sessions_def)

section \<open>The admin token\<close>

lemma strip_ws_clean: "\<forall>c \<in> set s. \<not> is_space c \<Longrightarrow> strip_ws s = s"
  by (intro strip_id) (auto dest: hd_in_set last_in_set)

lemma hex2_clean: "c \<in> set (hex2 b) \<Longrightarrow> \<not> is_space c"
proof -
  have "n < 16 \<Longrightarrow> \<not> is_space (digit_char n)" for n
    by (auto simp: digit_char_def is_space_def Let_def)
  then show "c \<in> set (hex2 b) \<Longrightarrow> \<not> is_space c" using nibbles [of b] by (auto simp: hex2_def)
qed

lemma fingerprint_clean: "c \<in> set (fingerprint pr password) \<Longrightarrow> \<not> is_space c"
  by (auto simp: fingerprint_def hex_text_def dest!: in_set_takeD hex2_clean split: if_splits)

lemma partition_at: "CHR 0x0A \<notin> set s \<Longrightarrow> partition_nl (s @ CHR 0x0A # t) = (s, t)"
  by (induction s) (auto simp: partition_nl_def)

lemma partition_none: "CHR 0x0A \<notin> set s \<Longrightarrow> partition_nl s = (s, [])"
  by (induction s) (auto simp: partition_nl_def)

lemma is_space_nl: "is_space CHR 0x0A"
  by code_simp

lemma written_token:
  assumes "\<forall>c \<in> set s. \<not> is_space c" "s \<noteq> []" "\<forall>c \<in> set f. \<not> is_space c"
  shows "fst (partition_nl (strip_ws (s @ CHR 0x0A # f))) = s" "snd (partition_nl (s @ CHR 0x0A # f)) = f"
proof -
  have nl: "CHR 0x0A \<notin> set s" using assms(1) is_space_nl by auto
  show "snd (partition_nl (s @ CHR 0x0A # f)) = f" by (simp add: partition_at [OF nl])
  show "fst (partition_nl (strip_ws (s @ CHR 0x0A # f))) = s"
  proof (cases "f = []")
    case True
    have "rstrip is_space (s @ [CHR 0x0A]) = rstrip is_space s" using is_space_nl by (simp add: rstrip_def)
    moreover have "lstrip is_space (s @ [CHR 0x0A]) = s @ [CHR 0x0A]" "lstrip is_space s = s"
      using assms(1,2) by (cases s; simp add: lstrip_def)+
    ultimately have "strip_ws (s @ CHR 0x0A # f) = s"
      using strip_ws_clean [OF assms(1)] True by (simp add: strip_def)
    then show ?thesis by (simp add: partition_none [OF nl])
  next
    case False
    have "strip_ws (s @ CHR 0x0A # f) = s @ CHR 0x0A # f"
      by (rule strip_id) (use assms False in \<open>cases s; simp\<close>)+
    then show ?thesis by (simp add: partition_at [OF nl])
  qed
qed

text \<open>
  the token file survives a restart and not a change of password.  After the daemon has loaded or
  created its token, the file reads back as that token bound to the configured password; another
  start keeps it as long as the password has the same fingerprint and issues a new one otherwise;
  and what the running daemon accepts is the token it loaded, whatever is in the file.
\<close>

theorem admin_token_bound_to_password:
  assumes created: "load_or_create pr random a password = (a', token)"
    and clean: "\<forall>c \<in> set random. \<not> is_space c" "20 \<le> length random"
  shows "read_token a' = token \<and> issued_for a' = fingerprint pr password
    \<and> snd (load_or_create pr random' (a'\<lparr>token_value := v\<rparr>) password')
        = (if fingerprint pr password' = fingerprint pr password then token else random')
    \<and> (token_matches pr (a'\<lparr>token_file := f\<rparr>) supplied \<longleftrightarrow> utf8 pr supplied = utf8 pr token)"
proof -
  have r: "random \<noteq> []" "strip_ws random = random" using clean strip_ws_clean by auto
  let ?f = "fingerprint pr password"
  have f: "\<forall>c \<in> set ?f. \<not> is_space c" using fingerprint_clean by blast
  note w = written_token [OF clean(1) r(1) f]
  have R: "read_token a' = token \<and> issued_for a' = ?f \<and> token_value a' = token \<and> token \<noteq> []"
    using created w r clean(2) strip_ws_clean [OF f]
    by (auto simp: load_or_create_def Let_def read_token_def issued_for_def split: if_splits)
  moreover have "read_token (a'\<lparr>token_value := v\<rparr>) = read_token a'" "issued_for (a'\<lparr>token_value := v\<rparr>) = issued_for a'"
    by (simp_all add: read_token_def issued_for_def)
  ultimately show ?thesis by (auto simp: load_or_create_def [of pr random'] Let_def token_matches_def)
qed

theorem admin_token_bound_to_password_witness:
  "\<exists>pr a' token. load_or_create pr ''abcdefghijklmnopqrstuv'' \<lparr>token_file = None, token_value = []\<rparr> ''pw'' = (a', token)
     \<and> read_token a' = ''abcdefghijklmnopqrstuv'' \<and> token_matches pr a' token"
proof -
  let ?pr = "\<lparr>utf8 = \<lambda>_. [], scrypt = \<lambda>_ _ _. [], sha256 = \<lambda>_. [7]\<rparr>"
  let ?a = "\<lparr>token_file = None, token_value = []\<rparr>"
  have c: "load_or_create ?pr ''abcdefghijklmnopqrstuv'' ?a ''pw''
      = (\<lparr>token_file = Some (''abcdefghijklmnopqrstuv'' @ [CHR 0x0A] @ fingerprint ?pr ''pw''),
           token_value = ''abcdefghijklmnopqrstuv''\<rparr>, ''abcdefghijklmnopqrstuv'')"
    by (simp add: load_or_create_def read_token_def)
  have "\<forall>c \<in> set ''abcdefghijklmnopqrstuv''. \<not> is_space c" by code_simp
  from admin_token_bound_to_password [OF c this, of _ _ _ "Some (''abcdefghijklmnopqrstuv'' @ [CHR 0x0A] @ fingerprint ?pr ''pw'')"
      "''abcdefghijklmnopqrstuv''"] c
  show ?thesis by (intro exI [of _ ?pr]) simp
qed

theorem hashed_password_verifies_witness:
  "\<exists>pr. verify_password pr ''secret'' (SCRYPT_PREFIX @ hex_text [1, 2] @ ''$'' @ hex_text (replicate 32 7))
    \<and> hash_password pr [1, 2] ''secret'' = Inr (SCRYPT_PREFIX @ hex_text [1, 2] @ ''$'' @ hex_text (replicate 32 7))"
proof -
  let ?pr = "\<lparr>utf8 = \<lambda>_. [], scrypt = \<lambda>_ _ n. replicate n 7, sha256 = \<lambda>_. []\<rparr>"
  have h: "hash_password ?pr [1, 2] ''secret''
      = Inr (SCRYPT_PREFIX @ hex_text [1, 2] @ ''$'' @ hex_text (replicate 32 7))"
    by (simp add: hash_password_def SCRYPT_KEY_BYTES_def)
  show ?thesis using hashed_password_verifies [OF _ h] h by (intro exI [of _ ?pr]) simp
qed

end
