(* ===== verification/Vault.thy ===== *)
theory Vault
  imports AesGcm Auth
begin

text \<open>
  What is kept encrypted on disk, \<open>symbivpn/vault.py\<close>: sealed blobs, the machine's own key file and
  its pairing with a connector, files that only their owner may read, and bundles locked with a
  passphrase.  The state directory is the key file and the pairing marker, each with its mode; a
  failing read and the process umask are arguments.
\<close>

section \<open>Sealed blobs\<close>

definition MAGIC :: bytes where
  "MAGIC = [0x53, 0x42, 0x56, 0x50, 0x4E, 0x2D, 0x56, 0x41, 0x55, 0x4C, 0x54, 0x2D, 0x31]"

definition EXPORT_PREFIX :: bytes where
  "EXPORT_PREFIX = [0x53, 0x42, 0x56, 0x50, 0x4E, 0x2D, 0x45, 0x58, 0x50, 0x4F, 0x52, 0x54, 0x2D, 0x31]"

definition SALT_BYTES :: nat where "SALT_BYTES = 16"

text \<open>The key from a passphrase; \<open>scrypt\<close> stands for the function with the vault's cost parameters.\<close>

definition derive_key :: "primitives \<Rightarrow> str \<Rightarrow> bytes \<Rightarrow> bytes res" where
  "derive_key pr passphrase salt =
     (if passphrase = [] then Inl VaultError
      else Inr (scrypt pr (utf8 pr passphrase) salt AesGcm.KEY_BYTES))"

definition vault_header :: "bytes \<Rightarrow> bytes res" where
  "vault_header ctx =
     (if length ctx < 65536 then Inr (MAGIC @ pack_H (of_nat (length ctx)) @ ctx) else Inl StructError)"

definition seal :: "bytes \<Rightarrow> bytes \<Rightarrow> bytes \<Rightarrow> bytes \<Rightarrow> bytes res" where
  "seal key nonce plaintext ctx =
     (if length key \<noteq> AesGcm.KEY_BYTES then Inl VaultError
      else rbind (vault_header ctx) (\<lambda>header.
           rbind (encrypt key nonce plaintext header) (\<lambda>(ciphertext, tag).
             Inr (header @ nonce @ tag @ ciphertext))))"

definition unseal :: "bytes \<Rightarrow> bytes \<Rightarrow> bytes \<Rightarrow> bytes res" where
  "unseal key blob ctx =
     rbind (vault_header ctx) (\<lambda>header.
       if \<not> prefix header blob then Inl VaultError
       else
         let body = drop (length header) blob in
         if length body < NONCE_BYTES + TAG_BYTES then Inl VaultError
         else
           let nonce = take NONCE_BYTES body;
               tag = slice NONCE_BYTES (NONCE_BYTES + TAG_BYTES) body;
               ciphertext = drop (NONCE_BYTES + TAG_BYTES) body
           in case decrypt key nonce ciphertext tag header of
                Inl e \<Rightarrow> if e = InvalidTag then Inl VaultError else Inl e
              | Inr p \<Rightarrow> Inr p)"

definition looks_sealed :: "bytes \<Rightarrow> bool" where "looks_sealed blob = prefix MAGIC blob"

section \<open>Private files\<close>

record stored =
  st_bytes :: bytes
  st_mode :: u16

definition OWNER_ONLY :: u16 where "OWNER_ONLY = 0x180"

text \<open>Opening with \<open>O_CREAT | O_TRUNC\<close> and mode 0600: an existing file keeps its mode.\<close>

definition open_trunc :: "u16 \<Rightarrow> stored option \<Rightarrow> bytes \<Rightarrow> stored" where
  "open_trunc umask old payload =
     \<lparr>st_bytes = payload,
      st_mode = (case old of None \<Rightarrow> OWNER_ONLY AND NOT umask | Some f \<Rightarrow> st_mode f)\<rparr>"

definition write_private :: "u16 \<Rightarrow> stored option \<Rightarrow> bytes \<Rightarrow> stored" where
  "write_private umask old payload = (open_trunc umask old payload)\<lparr>st_mode := OWNER_ONLY\<rparr>"

definition readable_by_others :: "stored \<Rightarrow> bool" where
  "readable_by_others f = (st_mode f AND (0x20 OR 0x4) \<noteq> 0)"

text \<open>The file and the temporary one beside it; the rename carries the temporary file's mode.\<close>

definition seal_file ::
  "u16 \<Rightarrow> stored option \<Rightarrow> bytes \<Rightarrow> bytes \<Rightarrow> bytes \<Rightarrow> bytes \<Rightarrow> stored res" where
  "seal_file umask temporary key nonce payload ctx =
     rbind (seal key nonce payload ctx) (\<lambda>blob. Inr (open_trunc umask temporary blob))"

definition unseal_file :: "bool \<Rightarrow> stored option \<Rightarrow> bytes \<Rightarrow> bytes \<Rightarrow> bytes option res" where
  "unseal_file unreadable f key ctx =
     (if unreadable then Inl VaultError
      else case f of
        None \<Rightarrow> Inr None
      | Some f \<Rightarrow> rbind (unseal key (st_bytes f) ctx) (\<lambda>p. Inr (Some p)))"

section \<open>The machine's own key\<close>

record vault_dir =
  key_file :: "stored option"
  marker :: "stored option"

definition new_key :: "u16 \<Rightarrow> bool \<Rightarrow> bytes \<Rightarrow> vault_dir \<Rightarrow> vault_dir \<times> bytes option res" where
  "new_key umask create random d =
     (if \<not> create then (d, Inr None)
      else if key_file d \<noteq> None then (d, Inl OSError)
      else (d\<lparr>key_file := Some (open_trunc umask None random)\<rparr>, Inr (Some random)))"

definition local_key ::
  "u16 \<Rightarrow> bool \<Rightarrow> bool \<Rightarrow> bytes \<Rightarrow> vault_dir \<Rightarrow> vault_dir \<times> bytes option res" where
  "local_key umask unreadable create random d =
     (if unreadable then (d, Inl VaultError)
      else case key_file d of
        None \<Rightarrow> if marker d \<noteq> None then (d, Inl Locked) else new_key umask create random d
      | Some f \<Rightarrow>
          if length (st_bytes f) = AesGcm.KEY_BYTES then (d, Inr (Some (st_bytes f)))
          else if st_bytes f \<noteq> [] then (d, Inl VaultError)
          else new_key umask create random d)"

definition is_paired :: "vault_dir \<Rightarrow> bool" where "is_paired d = (marker d \<noteq> None)"

text \<open>The marker's text is fixed; what is overwritten before the key is unlinked does not outlive it.\<close>

definition pair :: "u16 \<Rightarrow> bytes \<Rightarrow> vault_dir \<Rightarrow> vault_dir" where
  "pair umask note d = d\<lparr>marker := Some (open_trunc umask (marker d) note), key_file := None\<rparr>"

definition unpair :: "u16 \<Rightarrow> bytes \<Rightarrow> vault_dir \<Rightarrow> vault_dir \<times> unit res" where
  "unpair umask key d =
     (if length key \<noteq> AesGcm.KEY_BYTES then (d, Inl VaultError)
      else (d\<lparr>key_file := Some (open_trunc umask (key_file d) key), marker := None\<rparr>, Inr ()))"

section \<open>Bundles\<close>

text \<open>JSON is a parameter: values of some type, written, read back, and asked whether they are objects.\<close>

record 'j json =
  dumps :: "'j \<Rightarrow> bytes"
  loads :: "bytes \<Rightarrow> 'j option"
  is_object :: "'j \<Rightarrow> bool"

definition export_context :: bytes where "export_context = [0x65, 0x78, 0x70, 0x6F, 0x72, 0x74]"

definition export_bundle :: "primitives \<Rightarrow> 'j json \<Rightarrow> bytes \<Rightarrow> bytes \<Rightarrow> str \<Rightarrow> 'j \<Rightarrow> bytes res" where
  "export_bundle pr js salt nonce passphrase payload =
     rbind (derive_key pr passphrase salt) (\<lambda>key.
     rbind (seal key nonce (dumps js payload) export_context) (\<lambda>body.
       Inr (EXPORT_PREFIX @ salt @ body)))"

definition import_bundle :: "primitives \<Rightarrow> 'j json \<Rightarrow> str \<Rightarrow> bytes \<Rightarrow> 'j res" where
  "import_bundle pr js passphrase blob =
     (if \<not> prefix EXPORT_PREFIX blob then Inl VaultError
      else
        let salt = slice (length EXPORT_PREFIX) (length EXPORT_PREFIX + SALT_BYTES) blob in
        if length salt \<noteq> SALT_BYTES then Inl VaultError
        else
          rbind (derive_key pr passphrase salt) (\<lambda>key.
          rbind (unseal key (drop (length EXPORT_PREFIX + SALT_BYTES) blob) export_context) (\<lambda>opened.
            case loads js opened of
              None \<Rightarrow> Inl VaultError
            | Some payload \<Rightarrow> if is_object js payload then Inr payload else Inl VaultError)))"

section \<open>Sealing\<close>

lemma length_MAGIC [simp]: "length MAGIC = 13" by (simp add: MAGIC_def)

lemma vault_header_length: "vault_header ctx = Inr h \<Longrightarrow> length h = 15 + length ctx"
  by (auto simp: vault_header_def split: if_splits)

text \<open>The length field makes the header a prefix code: two headers of one blob are the same.\<close>

lemma vault_header_prefix:
  assumes "vault_header a = Inr h" "vault_header b = Inr h'" "prefix h' (h @ r)"
  shows "a = b"
proof -
  obtain s where s: "h @ r = h' @ s" using assms(3) by (auto simp: prefix_def)
  have h: "h = MAGIC @ pack_H (of_nat (length a)) @ a" "length a < 65536"
    "h' = MAGIC @ pack_H (of_nat (length b)) @ b" "length b < 65536"
    using assms(1,2) by (auto simp: vault_header_def split: if_splits)
  have e: "pack_H (of_nat (length a)) @ a @ r = pack_H (of_nat (length b)) @ b @ s" using s by (simp add: h)
  then have "pack_H (of_nat (length a)) = pack_H (of_nat (length b))" and ab: "a @ r = b @ s"
    by (auto dest: append_eq_append_conv [THEN iffD1, rotated])
  then have "(of_nat (length a) :: u16) = of_nat (length b)"
    using unpack_pack_H [of 0 "[]"] by (metis append_Nil list.size(3))
  then have "length a = length b" using h(2,4) by (simp add: word_of_nat_eq_iff take_bit_eq_mod)
  with ab show ?thesis by simp
qed

lemma seal_parts:
  assumes "seal key nonce pt ctx = Inr blob"
  obtains h ct tag where "length key = AesGcm.KEY_BYTES" "length nonce = NONCE_BYTES" "vault_header ctx = Inr h"
    "encrypt key nonce pt h = Inr (ct, tag)" "blob = h @ nonce @ tag @ ct"
  using assms unfolding seal_def by (auto simp: rbind_Inr_iff encrypt_def split: if_splits)

lemma unseal_seal:
  assumes "seal key nonce pt ctx = Inr blob"
  shows "unseal key blob ctx = Inr pt"
proof -
  obtain h ct tag where n: "length nonce = NONCE_BYTES" and h: "vault_header ctx = Inr h"
    and e: "encrypt key nonce pt h = Inr (ct, tag)" and b: "blob = h @ nonce @ tag @ ct"
    using assms by (rule seal_parts)
  obtain ts: "decrypt key nonce ct tag h = Inr pt" "length tag = TAG_BYTES"
    using decrypt_encrypt_facts [OF e] by blast
  have "slice NONCE_BYTES (NONCE_BYTES + TAG_BYTES) (nonce @ tag @ ct) = tag"
    by (rule slice_append_mid) (simp_all add: n ts)
  then show ?thesis by (simp add: unseal_def h b n ts)
qed

lemma unseal_other_context:
  assumes "seal key nonce pt ctx = Inr blob" "ctx' \<noteq> ctx" "length ctx' < 65536"
  shows "unseal key blob ctx' = Inl VaultError"
proof -
  obtain h ct tag where h: "vault_header ctx = Inr h" and b: "blob = h @ nonce @ tag @ ct"
    using assms(1) by (rule seal_parts)
  obtain h' where h': "vault_header ctx' = Inr h'" using assms(3) by (simp add: vault_header_def)
  have "\<not> prefix h' blob" using vault_header_prefix [OF h h'] assms(2) by (auto simp: b)
  then show ?thesis by (simp add: unseal_def h')
qed

text \<open>
  What files, bundles and the stores above rely on: a box opens to what was put in, under its own
  context and no other.
\<close>

locale sealed_box =
  fixes box :: "'k \<Rightarrow> 'n \<Rightarrow> bytes \<Rightarrow> bytes \<Rightarrow> bytes res"
    and open_box :: "'k \<Rightarrow> bytes \<Rightarrow> bytes \<Rightarrow> bytes res"
    and context_ok :: "bytes \<Rightarrow> bool"
  assumes opens: "box k n p c = Inr b \<Longrightarrow> open_box k b c = Inr p"
    and boxed_context: "box k n p c = Inr b \<Longrightarrow> context_ok c"
    and bound: "box k n p c = Inr b \<Longrightarrow> context_ok c' \<Longrightarrow> c' \<noteq> c \<Longrightarrow> \<not> ok (open_box k b c')"
begin

lemma one_meaning:
  assumes "box k n p c = Inr b" "box k n' p' c' = Inr b"
  shows "p = p' \<and> c = c'"
proof -
  have "c' = c"
    using bound [OF assms(1) boxed_context [OF assms(2)]] opens [OF assms(2)] by auto
  then show ?thesis using opens [OF assms(1)] opens [OF assms(2)] by simp
qed

lemma opens_iff:
  assumes "box k n p c = Inr b" "context_ok c'"
  shows "ok (open_box k b c') \<longleftrightarrow> c' = c"
  using bound [OF assms] opens [OF assms(1)] by auto

end

interpretation vault: sealed_box seal unseal "\<lambda>c. length c < 65536"
proof unfold_locales
  fix k n p c b
  assume s: "seal k n p c = Inr b"
  show "unseal k b c = Inr p" by (rule unseal_seal [OF s])
  show "length c < 65536" using s by (rule seal_parts) (auto simp: vault_header_def split: if_splits)
  show "\<not> ok (unseal k b c')" if "length c' < 65536" "c' \<noteq> c" for c'
    using unseal_other_context [OF s that(2,1)] by simp
qed

lemma decrypt_only_tag_errors:
  assumes "length key = AesGcm.KEY_BYTES" "length nonce = NONCE_BYTES" "8 * length aad < 2 ^ 64" "8 * length ct < 2 ^ 64"
  shows "decrypt key nonce ct tag aad = Inl e \<Longrightarrow> e = InvalidTag"
  using decrypt_outcomes [OF assms, of tag] by auto

text \<open>
  A sealed blob is recognised, opens to exactly what was sealed, and opens under no other context:
  what was sealed for one purpose cannot be passed off as another.
\<close>

theorem sealed_blob_opens:
  assumes "seal key nonce pt ctx = Inr blob"
  shows "looks_sealed blob \<and> unseal key blob ctx = Inr pt
     \<and> (\<forall>ctx'. length ctx' < 65536 \<longrightarrow> ok (unseal key blob ctx') \<longrightarrow> ctx' = ctx)"
proof -
  have "prefix MAGIC blob" using assms by (rule seal_parts) (auto simp: vault_header_def split: if_splits)
  then show ?thesis using vault.opens [OF assms] vault.bound [OF assms] by (auto simp: looks_sealed_def)
qed

text \<open>
  Whatever the bytes of a blob, opening it with a key of the right length either gives a text or
  fails with \<open>VaultError\<close>: no malformed file raises anything else.
\<close>

theorem unseal_fails_cleanly:
  assumes "length key = AesGcm.KEY_BYTES" and "length ctx < 65536" and "length blob < 2 ^ 61"
  shows "unseal key blob ctx = Inl VaultError \<or> (\<exists>pt. unseal key blob ctx = Inr pt \<and> length pt < length blob)"
proof -
  obtain h where h: "vault_header ctx = Inr h" using assms(2) by (simp add: vault_header_def)
  show ?thesis
  proof (cases "prefix h blob \<and> NONCE_BYTES + TAG_BYTES \<le> length (drop (length h) blob)")
    case True
    define body where "body = drop (length h) blob"
    have b: "NONCE_BYTES + TAG_BYTES \<le> length body" using True by (simp add: body_def)
    let ?d = "decrypt key (take NONCE_BYTES body) (drop (NONCE_BYTES + TAG_BYTES) body)
      (slice NONCE_BYTES (NONCE_BYTES + TAG_BYTES) body) h"
    have l: "length (take NONCE_BYTES body) = NONCE_BYTES" using b by simp
    have bl: "length body \<le> length blob" by (simp add: body_def)
    have n: "8 * length h < 2 ^ 64" "8 * length (drop (NONCE_BYTES + TAG_BYTES) body) < 2 ^ 64"
      using vault_header_length [OF h] assms(2,3) bl by simp_all
    have u: "unseal key blob ctx = (case ?d of Inl e \<Rightarrow> if e = InvalidTag then Inl VaultError else Inl e | Inr p \<Rightarrow> Inr p)"
      using True b by (simp add: unseal_def h Let_def flip: body_def)
    have "length (drop (NONCE_BYTES + TAG_BYTES) body) < length blob"
      using b bl by (simp add: NONCE_BYTES_def TAG_BYTES_def)
    then show ?thesis using decrypt_outcomes [OF assms(1) l n, of "slice NONCE_BYTES (NONCE_BYTES + TAG_BYTES) body"]
      unfolding u by auto
  qed (auto simp: unseal_def h Let_def)
qed

section \<open>Pairing\<close>

text \<open>What happens to the state directory, and the invariant that a handed-over key is not on disk.\<close>

datatype vault_op =
    Start bool bool bytes
  | Pair bytes
  | Unpair bytes

fun vault_step :: "u16 \<Rightarrow> vault_op \<Rightarrow> vault_dir \<Rightarrow> vault_dir" where
  "vault_step um (Start unreadable create random) d = fst (local_key um unreadable create random d)"
| "vault_step um (Pair note) d = pair um note d"
| "vault_step um (Unpair key) d = fst (unpair um key d)"

definition vault_inv :: "vault_dir \<Rightarrow> bool" where
  "vault_inv d = ((is_paired d \<longrightarrow> key_file d = None)
     \<and> (\<forall>f. key_file d = Some f \<longrightarrow> length (st_bytes f) = AesGcm.KEY_BYTES \<and> \<not> readable_by_others f))"

definition starts_ok :: "vault_op \<Rightarrow> bool" where
  "starts_ok op = (\<forall>u c r. op = Start u c r \<longrightarrow> length r = AesGcm.KEY_BYTES)"

lemma owner_only_private: "st_mode f = OWNER_ONLY AND m \<Longrightarrow> \<not> readable_by_others f"
proof -
  have "(OWNER_ONLY AND m) AND 36 = (OWNER_ONLY AND 36) AND m" by (simp only: ac_simps)
  also have "\<dots> = 0" by (simp add: OWNER_ONLY_def)
  finally show "st_mode f = OWNER_ONLY AND m \<Longrightarrow> \<not> readable_by_others f" by (simp add: readable_by_others_def)
qed

lemma open_trunc_private:
  "(\<And>f. old = Some f \<Longrightarrow> \<not> readable_by_others f) \<Longrightarrow> \<not> readable_by_others (open_trunc um old b)"
proof (cases old)
  case None
  then show ?thesis by (intro owner_only_private [of _ "NOT um"]) (simp add: open_trunc_def)
qed (simp add: open_trunc_def readable_by_others_def)

lemma open_trunc_new [simp]: "\<not> readable_by_others (open_trunc um None b)"
  by (rule open_trunc_private) simp

lemma open_trunc_bytes [simp]: "st_bytes (open_trunc um old b) = b" by (simp add: open_trunc_def)

lemma vault_inv_step: "vault_inv d \<Longrightarrow> starts_ok op \<Longrightarrow> vault_inv (vault_step um op d)"
proof (induction um op d rule: vault_step.induct)
  case (1 um u c r d)
  then show ?case
    by (cases "key_file d")
       (auto simp: local_key_def new_key_def vault_inv_def is_paired_def starts_ok_def)
next
  case (3 um k d)
  then show ?case
    by (auto simp: unpair_def vault_inv_def is_paired_def open_trunc_private)
qed (auto simp: pair_def vault_inv_def is_paired_def)

lemma vault_inv_run: "vault_inv d \<Longrightarrow> \<forall>op \<in> set ops. starts_ok op \<Longrightarrow> vault_inv (fold (vault_step um) ops d)"
  by (induction ops arbitrary: d) (auto simp: vault_inv_step)

definition empty_dir :: vault_dir where "empty_dir = \<lparr>key_file = None, marker = None\<rparr>"

lemma vault_inv_empty: "vault_inv empty_dir" by (simp add: vault_inv_def empty_dir_def is_paired_def)


lemma paired_run:
  "is_paired d \<Longrightarrow> key_file d = None \<Longrightarrow> \<forall>op \<in> set ops. \<forall>k. op \<noteq> Unpair k \<Longrightarrow>
   is_paired (fold (vault_step um) ops d) \<and> key_file (fold (vault_step um) ops d) = None"
proof (induction ops arbitrary: d)
  case (Cons op ops)
  have "is_paired (vault_step um op d) \<and> key_file (vault_step um op d) = None"
    using Cons.prems by (cases op) (auto simp: local_key_def is_paired_def pair_def)
  then show ?case using Cons.IH [of "vault_step um op d"] Cons.prems(3) by simp
qed simp

text \<open>
  A paired machine stays locked.  Until the key is put back, every start that can read the directory
  raises \<open>Locked\<close>, none makes a new key, and putting the exported key back opens what it had sealed.
\<close>

theorem paired_stays_locked:
  assumes "\<forall>op \<in> set ops. \<forall>k. op \<noteq> Unpair k"
  shows "let d' = fold (vault_step um) ops (pair um note d) in
     local_key um False create random d' = (d', Inl Locked)
     \<and> (length key = AesGcm.KEY_BYTES \<longrightarrow>
          local_key um False create random (fst (unpair um key d')) = (fst (unpair um key d'), Inr (Some key)))"
proof -
  define d' where "d' = fold (vault_step um) ops (pair um note d)"
  have "is_paired d' \<and> key_file d' = None"
    unfolding d'_def by (rule paired_run [OF _ _ assms]) (simp_all add: pair_def is_paired_def)
  then show ?thesis unfolding Let_def d'_def [symmetric]
    by (auto simp: local_key_def is_paired_def unpair_def)
qed

text \<open>An empty key file, as a crash between creating and writing it leaves, can never be recovered from.\<close>

lemma empty_key_file_wedges:
  "key_file d = Some f \<Longrightarrow> st_bytes f = [] \<Longrightarrow> local_key um False True random d = (d, Inl OSError)"
  by (simp add: local_key_def new_key_def KEY_BYTES_def)

text \<open>Restoring a key over a key file others could read leaves it readable, where \<open>write_private\<close> narrows it.\<close>

lemma unpair_keeps_wide_mode:
  "key_file d = Some f \<Longrightarrow> readable_by_others f \<Longrightarrow> length key = AesGcm.KEY_BYTES \<Longrightarrow>
     \<exists>f'. key_file (fst (unpair um key d)) = Some f' \<and> st_bytes f' = key \<and> readable_by_others f'"
  by (simp add: unpair_def open_trunc_def readable_by_others_def)

lemma write_private_private: "\<not> readable_by_others (write_private um old b) \<and> st_bytes (write_private um old b) = b"
  by (auto simp: write_private_def intro!: owner_only_private [of _ "- 1"])

section \<open>Bundles\<close>

text \<open>
  A bundle opens with its passphrase on any machine.  Reading back relies on JSON reading what it
  wrote and on scrypt giving as many bytes as it is asked for.
\<close>

theorem bundle_round_trip:
  assumes json: "\<And>j. is_object js j \<Longrightarrow> loads js (dumps js j) = Some j" and obj: "is_object js payload"
    and salt: "length salt = SALT_BYTES" and e: "export_bundle pr js salt nonce passphrase payload = Inr blob"
  shows "import_bundle pr js passphrase blob = Inr payload"
proof -
  obtain key body where k: "derive_key pr passphrase salt = Inr key"
    and s: "seal key nonce (dumps js payload) export_context = Inr body" and b: "blob = EXPORT_PREFIX @ salt @ body"
    using e unfolding export_bundle_def by (auto simp: rbind_Inr_iff)
  have "slice (length EXPORT_PREFIX) (length EXPORT_PREFIX + SALT_BYTES) blob = salt"
    unfolding b by (rule slice_append_mid) (simp_all add: salt)
  moreover have "drop (length EXPORT_PREFIX + SALT_BYTES) blob = body" by (simp add: b salt)
  ultimately show ?thesis using json [OF obj] k vault.opens [OF s] by (simp add: import_bundle_def b salt obj)
qed

section \<open>The properties at concrete inputs\<close>

definition demo_primitives :: primitives where
  "demo_primitives = \<lparr>utf8 = map (\<lambda>c. of_nat (code_pt c)),
     scrypt = (\<lambda>p s n. take n (p @ s @ replicate n 0)), sha256 = (\<lambda>b. take 32 (b @ replicate 32 0))\<rparr>"

definition demo_json :: "bytes json" where
  "demo_json = \<lparr>dumps = (\<lambda>b. 0x7B # b), loads = (\<lambda>b. case b of [] \<Rightarrow> None | _ # r \<Rightarrow> Some r), is_object = (\<lambda>_. True)\<rparr>"

lemma seal_defined:
  assumes "length key = AesGcm.KEY_BYTES" "length nonce = NONCE_BYTES" "length ctx < 65536" "length pt < 2 ^ 61"
  shows "\<exists>blob. seal key nonce pt ctx = Inr blob"
proof -
  obtain h where h: "vault_header ctx = Inr h" using assms(3) by (simp add: vault_header_def)
  have n: "8 * length h < 2 ^ 64" "8 * length pt < 2 ^ 64" using vault_header_length [OF h] assms(3,4) by simp_all
  obtain r where "encrypt key nonce pt h = Inr r" using encrypt_total [OF assms(1,2) n] by blast
  then show ?thesis using assms(1) h by (cases r) (simp add: seal_def)
qed

lemma sealed_blob_opens_witness:
  "\<exists>blob. seal (replicate 32 7) (replicate 12 1) [1, 2, 3] [9] = Inr blob
     \<and> unseal (replicate 32 7) blob [9] = Inr [1, 2, 3] \<and> \<not> ok (unseal (replicate 32 7) blob [8])"
proof -
  obtain blob where b: "seal (replicate 32 7) (replicate 12 1) [1, 2, 3] [9] = Inr blob"
    using seal_defined [of "replicate 32 7" "replicate 12 1" "[9]" "[1, 2, 3]"] by (auto simp: KEY_BYTES_def NONCE_BYTES_def)
  from sealed_blob_opens [OF b] have "unseal (replicate 32 7) blob [9] = Inr [1, 2, 3] \<and> \<not> ok (unseal (replicate 32 7) blob [8])"
    by (auto dest: spec [of _ "[8]"])
  with b show ?thesis by blast
qed

lemma unseal_fails_cleanly_witness:
  "unseal (replicate 32 0) (MAGIC @ [0, 0]) [] = Inl VaultError
     \<or> (\<exists>pt. unseal (replicate 32 0) (MAGIC @ [0, 0]) [] = Inr pt \<and> length pt < length (MAGIC @ [0, 0]))"
  by (rule unseal_fails_cleanly) (simp_all add: KEY_BYTES_def)


lemma paired_stays_locked_witness:
  "local_key 0 False True [4] (pair 0 [1] empty_dir) = (pair 0 [1] empty_dir, Inl Locked)"
  using paired_stays_locked [of "[]" 0 "[1]" empty_dir True "[4]" "[]"] by (simp add: Let_def)

lemma bundle_round_trip_witness:
  "\<exists>blob. export_bundle demo_primitives demo_json (replicate 16 3) (replicate 12 1) ''pw'' [1, 2] = Inr blob
     \<and> import_bundle demo_primitives demo_json ''pw'' blob = Inr [1, 2]"
proof -
  obtain key where k: "derive_key demo_primitives ''pw'' (replicate 16 3) = Inr key" "length key = AesGcm.KEY_BYTES"
    by (simp add: derive_key_def demo_primitives_def)
  obtain body where "seal key (replicate 12 1) (dumps demo_json [1, 2]) export_context = Inr body"
    using seal_defined [OF k(2), of "replicate 12 1" export_context "dumps demo_json [1, 2]"]
    by (auto simp: NONCE_BYTES_def export_context_def demo_json_def)
  with k have "\<exists>blob. export_bundle demo_primitives demo_json (replicate 16 3) (replicate 12 1) ''pw'' [1, 2] = Inr blob"
    by (simp add: export_bundle_def)
  then obtain blob where b: "export_bundle demo_primitives demo_json (replicate 16 3) (replicate 12 1) ''pw'' [1, 2] = Inr blob" ..
  have "import_bundle demo_primitives demo_json ''pw'' blob = Inr [1, 2]"
    by (rule bundle_round_trip [OF _ _ _ b]) (simp_all add: demo_json_def SALT_BYTES_def)
  with b show ?thesis by blast
qed

end
