(* ===== verification/Resolver.thy ===== *)
theory Resolver
  imports Dnsmsg
begin

text \<open>
  Asking upstream, \<open>symbivpn/resolver.py\<close>: the health of an upstream, the spellings a target may
  have, the connection pool with its retry, the addresses of a named plain upstream, the query that
  is built, the checks on a reply, and the pool that orders upstreams and fails over.  What happens
  on the wire (a connection made, an exchange, a system lookup) and the clocks are arguments.
\<close>

section \<open>Health\<close>

definition FAILURE_THRESHOLD :: nat where "FAILURE_THRESHOLD = 3"
definition BACKOFF_BASE :: time where "BACKOFF_BASE = 5"
definition BACKOFF_MAX :: time where "BACKOFF_MAX = 300"
definition ENDPOINT_TTL :: time where "ENDPOINT_TTL = 60"

record health =
  uh_failures :: nat
  down_until :: time
  latency_ms :: time
  uh_queries :: nat
  uh_errors :: nat

definition new_health :: health where
  "new_health = \<lparr>uh_failures = 0, down_until = 0, latency_ms = 0, uh_queries = 0, uh_errors = 0\<rparr>"

definition available :: "time \<Rightarrow> health \<Rightarrow> bool" where "available now h = (down_until h \<le> now)"

definition health_success :: "time \<Rightarrow> health \<Rightarrow> health" where
  "health_success elapsed h =
     h\<lparr>uh_failures := 0, down_until := 0, uh_queries := uh_queries h + 1,
       latency_ms := (if latency_ms h = 0 then elapsed else 3 / 4 * latency_ms h + 1 / 4 * elapsed)\<rparr>"

text \<open>
  \<open>BACKOFF_BASE * 2 ** k\<close> is a float times an integer: the integer is converted first, which raises
  \<open>OverflowError\<close> from \<open>2 ** 1024\<close> on.
\<close>

definition backoff :: "nat \<Rightarrow> time res" where
  "backoff n =
     (let k = n - FAILURE_THRESHOLD in
      if 1024 \<le> k then Inl OverflowError else Inr (min BACKOFF_MAX (BACKOFF_BASE * 2 ^ k)))"

text \<open>The counters are updated before the exception, if there is one.\<close>

definition health_failure :: "time \<Rightarrow> health \<Rightarrow> health \<times> unit res" where
  "health_failure now h =
     (let h = h\<lparr>uh_failures := uh_failures h + 1, uh_errors := uh_errors h + 1, uh_queries := uh_queries h + 1\<rparr> in
      if uh_failures h < FAILURE_THRESHOLD then (h, Inr ())
      else case backoff (uh_failures h) of
        Inl e \<Rightarrow> (h, Inl e)
      | Inr b \<Rightarrow> (h\<lparr>down_until := now + b\<rparr>, Inr ()))"

section \<open>Targets\<close>

definition port_number :: "str \<Rightarrow> nat res" where
  "port_number t =
     (case py_int_text t of
        None \<Rightarrow> Inl ValueError
      | Some p \<Rightarrow> if 1 \<le> p \<and> p \<le> 65535 then Inr (nat p) else Inl ValueError)"

definition split_host_port :: "str \<Rightarrow> nat \<Rightarrow> (str \<times> nat) res" where
  "split_host_port target default_port =
     (let t = strip_ws target in
      if prefix ''['' t then
        (let (host, rest) = partition_at CHR '']'' (tl t) in
         if CHR '']'' \<notin> set (tl t) then Inl ValueError
         else if prefix '':'' rest then rbind (port_number (tl rest)) (\<lambda>p. Inr (host, p))
         else if rest \<noteq> [] then Inl ValueError
         else Inr (host, default_port))
      else if count_list t CHR '':'' = 1 then
        (let (host, port) = partition_at CHR '':'' t
         in rbind (port_number port) (\<lambda>p. Inr (host, p)))
      else Inr (t, default_port))"

definition removeprefix :: "str \<Rightarrow> str \<Rightarrow> str" where
  "removeprefix p s = (if prefix p s then drop (length p) s else s)"

definition parse_dot_target :: "str \<Rightarrow> (str \<times> str \<times> nat) res" where
  "parse_dot_target spec =
     (let target = removeprefix ''tls://'' spec;
          (hostname, address) = (if CHR ''@'' \<in> set target then partition_at CHR ''@'' target else (target, target))
      in rbind (split_host_port address 853) (\<lambda>(address, port).
           Inr (takeWhile (\<lambda>c. c \<noteq> CHR '':'') hostname, address, port)))"

text \<open>\<open>urlparse\<close> is a parameter: the host, the port and the path of an https URL.\<close>

record url =
  url_host :: "str option"
  url_port :: "nat option"
  url_path :: str

definition pin_hostname :: "(str \<Rightarrow> url res) \<Rightarrow> str \<Rightarrow> str option res" where
  "pin_hostname urlparse spec =
     (let or_none = (\<lambda>h. if h = [] then None else Some h) in
      if prefix ''https://'' spec then
        rbind (urlparse spec) (\<lambda>u. Inr (Option.bind (url_host u) or_none))
      else if prefix ''tls://'' spec then
        rbind (parse_dot_target spec) (\<lambda>(h, _, _). Inr (or_none h))
      else Inr None)"

datatype transport =
    DoH str nat str
  | DoT str str nat
  | Plain str nat

fun encrypted :: "transport \<Rightarrow> bool" where
  "encrypted (Plain _ _) = False"
| "encrypted _ = True"

definition build_upstream :: "(str \<Rightarrow> url res) \<Rightarrow> str \<Rightarrow> transport res" where
  "build_upstream urlparse spec =
     (if prefix ''https://'' spec then
        rbind (urlparse spec) (\<lambda>u. Inr (DoH (case url_host u of None \<Rightarrow> [] | Some h \<Rightarrow> h)
          (case url_port u of None \<Rightarrow> 443 | Some p \<Rightarrow> if p = 0 then 443 else p)
          (if url_path u = [] then ''/dns-query'' else url_path u)))
      else if prefix ''tls://'' spec then
        rbind (parse_dot_target spec) (\<lambda>(h, a, p). Inr (DoT h a p))
      else rbind (split_host_port (removeprefix ''udp://'' spec) 53) (\<lambda>(a, p). Inr (Plain a p)))"

section \<open>Pooled connections\<close>

text \<open>
  Connections are numbered as they are opened.  \<open>idle\<close> is the LIFO queue, its top first; \<open>closed\<close> is
  a trace of what was closed.
\<close>

record conn_pool =
  cp_size :: nat
  idle :: "nat list"
  closed :: "nat list"
  opened :: nat

definition new_conn_pool :: "nat \<Rightarrow> conn_pool" where
  "new_conn_pool sz = \<lparr>cp_size = sz, idle = [], closed = [], opened = 0\<rparr>"

text \<open>Making a connection succeeds, fails in a way the caller catches, or raises past it.\<close>

datatype made = Made | NotMade | MadeRaised err

definition acquire :: "made \<Rightarrow> conn_pool \<Rightarrow> conn_pool \<times> nat option res" where
  "acquire m cp =
     (case idle cp of
        c # cs \<Rightarrow> (cp\<lparr>idle := cs\<rparr>, Inr (Some c))
      | [] \<Rightarrow>
          (case m of
             Made \<Rightarrow> (cp\<lparr>opened := opened cp + 1\<rparr>, Inr (Some (opened cp)))
           | NotMade \<Rightarrow> (cp, Inr None)
           | MadeRaised e \<Rightarrow> (cp, Inl e)))"

definition discard :: "nat \<Rightarrow> conn_pool \<Rightarrow> conn_pool" where
  "discard c cp = cp\<lparr>closed := c # closed cp\<rparr>"

definition release :: "nat \<Rightarrow> conn_pool \<Rightarrow> conn_pool" where
  "release c cp = (if length (idle cp) < cp_size cp then cp\<lparr>idle := c # idle cp\<rparr> else discard c cp)"

definition drain :: "conn_pool \<Rightarrow> conn_pool" where
  "drain cp = cp\<lparr>idle := [], closed := rev (idle cp) @ closed cp\<rparr>"

text \<open>An exchange: a reply with its HTTP status (200 without HTTP), or the errors the loop catches.\<close>

datatype exchange = Reply nat bytes | Broken

fun pooled_ask :: "(nat \<Rightarrow> made) \<Rightarrow> (nat \<Rightarrow> nat \<Rightarrow> exchange) \<Rightarrow> nat list \<Rightarrow> conn_pool \<Rightarrow> conn_pool \<times> bytes res" where
  "pooled_ask connect talk [] cp = (cp, Inl ResolutionError)"
| "pooled_ask connect talk (attempt # later) cp =
     (case acquire (connect attempt) cp of
        (cp, Inl e) \<Rightarrow> (cp, Inl e)
      | (cp, Inr None) \<Rightarrow> pooled_ask connect talk later cp
      | (cp, Inr (Some c)) \<Rightarrow>
          (case talk attempt c of
             Broken \<Rightarrow> pooled_ask connect talk later (discard c cp)
           | Reply status payload \<Rightarrow>
               if status \<noteq> 200 then (discard c cp, Inl ResolutionError)
               else (release c cp, Inr payload)))"

definition doh_resolve ::
  "(nat \<Rightarrow> made) \<Rightarrow> (nat \<Rightarrow> nat \<Rightarrow> bytes \<Rightarrow> exchange) \<Rightarrow> bytes \<Rightarrow> conn_pool \<Rightarrow> conn_pool \<times> bytes res" where
  "doh_resolve connect talk query cp =
     (case set_message_id query 0 of
        Inl e \<Rightarrow> (cp, Inl e)
      | Inr body \<Rightarrow> pooled_ask connect (\<lambda>a c. talk a c body) [0, 1] cp)"

definition framed :: "bytes \<Rightarrow> bytes res" where
  "framed query =
     (if length query < 65536 then Inr (pack_H (of_nat (length query)) @ query) else Inl StructError)"

definition dot_resolve ::
  "(nat \<Rightarrow> made) \<Rightarrow> (nat \<Rightarrow> nat \<Rightarrow> bytes \<Rightarrow> exchange) \<Rightarrow> bytes \<Rightarrow> conn_pool \<Rightarrow> conn_pool \<times> bytes res" where
  "dot_resolve connect talk query cp =
     (case framed query of
        Inl e \<Rightarrow> (cp, Inl e)
      | Inr body \<Rightarrow> pooled_ask connect (\<lambda>a c. talk a c body) [0, 1] cp)"

text \<open>
  A stream is the chunks \<open>recv\<close> will return; what \<open>recv\<close> was not asked for stays in it.  An empty
  chunk, or the end of the list, is the peer closing.
\<close>

function read_exactly :: "nat \<Rightarrow> bytes list \<Rightarrow> (bytes \<times> bytes list) res" where
  "read_exactly n chunks =
     (if n = 0 then Inr ([], chunks)
      else case chunks of
        [] \<Rightarrow> Inl ResolutionError
      | c # cs \<Rightarrow>
          if c = [] then Inl ResolutionError
          else rbind (read_exactly (n - length (take n c)) (if n < length c then drop n c # cs else cs)) (\<lambda>(r, rest).
                 Inr (take n c @ r, rest)))"
  by pat_completeness auto
termination
  by (relation "measure fst") auto

declare read_exactly.simps [simp del]

text \<open>A length-prefixed reply, as \<open>DoTUpstream.resolve\<close> and \<open>_resolve_tcp\<close> read it.\<close>

definition read_framed :: "bytes list \<Rightarrow> bytes res" where
  "read_framed chunks =
     rbind (read_exactly 2 chunks) (\<lambda>(head, chunks).
     rbind (read_exactly (unat (unpack_H head 0)) chunks) (\<lambda>(payload, _). Inr payload))"

section \<open>Plain upstreams\<close>

type_synonym endpoint = "nat \<times> str"

record plain =
  endpoint_list :: "endpoint list option"
  endpoints_expire :: time
  working :: "endpoint option"

definition new_plain :: plain where
  "new_plain = \<lparr>endpoint_list = None, endpoints_expire = 0, working = None\<rparr>"

text \<open>The first of equal entries stays.\<close>

definition unique :: "'a list \<Rightarrow> 'a list" where "unique xs = rev (remdups (rev xs))"

definition working_first :: "plain \<Rightarrow> endpoint list \<Rightarrow> endpoint list" where
  "working_first u ends =
     (case working u of
        Some w \<Rightarrow> if w \<in> set ends then w # filter (\<lambda>e. e \<noteq> w) ends else ends
      | None \<Rightarrow> ends)"

definition locate :: "time \<Rightarrow> endpoint list res \<Rightarrow> plain \<Rightarrow> plain \<times> endpoint list res" where
  "locate now found u =
     (case found of
        Inl e \<Rightarrow> (u, Inl (if e = OSError then ResolutionError else e))
      | Inr infos \<Rightarrow>
          if infos = [] then (u, Inl ResolutionError)
          else (u\<lparr>endpoint_list := Some (unique infos), endpoints_expire := now + ENDPOINT_TTL\<rparr>,
                Inr (working_first u (unique infos))))"

definition endpoints :: "time \<Rightarrow> endpoint list res \<Rightarrow> plain \<Rightarrow> plain \<times> endpoint list res" where
  "endpoints now found u =
     (case endpoint_list u of
        Some ends \<Rightarrow> if now < endpoints_expire u then (u, Inr (working_first u ends)) else locate now found u
      | None \<Rightarrow> locate now found u)"

text \<open>
  One exchange: what each receive returns, with the clock before it; past the end nothing comes.
  Datagrams from another address are skipped.
\<close>

datatype datagram = From str bytes | TimedOut | SocketError

fun udp_wait :: "str \<Rightarrow> time \<Rightarrow> (time \<times> datagram) list \<Rightarrow> bytes res" where
  "udp_wait expected deadline [] = Inl ResolutionError"
| "udp_wait expected deadline ((now, ev) # evs) =
     (if deadline - now \<le> 0 then Inl ResolutionError
      else case ev of
        From peer payload \<Rightarrow> if peer \<noteq> expected then udp_wait expected deadline evs else Inr payload
      | _ \<Rightarrow> Inl ResolutionError)"

text \<open>The candidates in turn, each with its share of what is left; the one that answered is remembered.\<close>

fun try_candidates ::
  "time \<Rightarrow> (nat \<Rightarrow> time) \<Rightarrow> (endpoint \<Rightarrow> time \<Rightarrow> bytes res) \<Rightarrow> nat \<Rightarrow> endpoint list \<Rightarrow> (endpoint \<times> bytes) res" where
  "try_candidates deadline clock exchange i [] = Inl ResolutionError"
| "try_candidates deadline clock exchange i (e # es) =
     (let remaining = deadline - clock i in
      if remaining \<le> 0 then Inl ResolutionError
      else
        let budget = (if es = [] then remaining else max (remaining / of_nat (length (e # es))) (1 / 2)) in
        case exchange e (min budget remaining) of
          Inr payload \<Rightarrow> Inr (e, payload)
        | Inl err \<Rightarrow> if err = ResolutionError then try_candidates deadline clock exchange (Suc i) es else Inl err)"

definition plain_resolve ::
  "time \<Rightarrow> time \<Rightarrow> endpoint list res \<Rightarrow> time \<Rightarrow> (nat \<Rightarrow> time) \<Rightarrow> (endpoint \<Rightarrow> time \<Rightarrow> bytes res) \<Rightarrow> bytes res \<Rightarrow> plain \<Rightarrow> plain \<times> bytes res" where
  "plain_resolve now timeout found start clock exchange tcp u =
     (case endpoints now found u of
        (u, Inl e) \<Rightarrow> (u, Inl e)
      | (u, Inr candidates) \<Rightarrow>
          (case try_candidates (start + timeout) clock exchange 0 candidates of
             Inl e \<Rightarrow> (u, Inl e)
           | Inr (e, payload) \<Rightarrow>
               (u\<lparr>working := Some e\<rparr>,
                (case parse_header payload of
                   Inl _ \<Rightarrow> Inl ResolutionError
                 | Inr h \<Rightarrow> if truncated h then tcp else Inr payload))))"

section \<open>Questions and replies\<close>

text \<open>
  \<open>str.upper\<close> of a letter; \<open>bits\<close> is what the system generator drew.  The capitals of the micro sign
  and of y with diaeresis lie above the characters of the model, which leaves the two as they are.
\<close>

definition upper_char :: "char \<Rightarrow> str" where
  "upper_char c =
     (let n = code_pt c in
      if 97 \<le> n \<and> n \<le> 122 \<or> 224 \<le> n \<and> n \<le> 254 \<and> n \<noteq> 247 then [char_of (n - 32)]
      else if n = 223 then ''SS'' else [c])"

definition is_alpha :: "char \<Rightarrow> bool" where
  "is_alpha c =
     (let n = code_pt c in
      65 \<le> n \<and> n \<le> 90 \<or> 97 \<le> n \<and> n \<le> 122 \<or> n \<in> {170, 181, 186} \<or> 192 \<le> n \<and> n \<noteq> 215 \<and> n \<noteq> 247)"

definition apply_0x20 :: "nat \<Rightarrow> str \<Rightarrow> str" where
  "apply_0x20 bits name =
     concat (map (\<lambda>(i, c). if is_alpha c \<and> bit bits i then upper_char c else [c]) (enumerate 0 name))"

definition build_upstream_query ::
  "(str \<Rightarrow> bytes res) \<Rightarrow> str \<Rightarrow> u16 \<Rightarrow> u16 \<Rightarrow> bool \<Rightarrow> bool \<Rightarrow> bytes res" where
  "build_upstream_query idna name qt qc want_dnssec cd =
     (let fl = (if cd then 0x0100 OR 0x0010 else 0x0100);
          payload = (if want_dnssec then 4096 else SAFE_UDP_PAYLOAD);
          t = (if want_dnssec then EDNS_DO_BIT else 0)
      in rbind (encode_name idna name) (\<lambda>encoded.
           Inr (pack_header \<lparr>msg_id = 0, flags = fl, qdcount = 1, ancount = 0, nscount = 0, arcount = 1\<rparr>
                @ encoded @ pack_H qt @ pack_H qc
                @ [0] @ pack_H TYPE_OPT @ pack_H payload @ pack_I t @ pack_H 0)))"

text \<open>A \<open>UnicodeError\<close> is a \<open>ValueError\<close>.\<close>

definition value_error :: "err \<Rightarrow> bool" where "value_error e = (e \<in> {ValueError, UnicodeDecodeError, InvalidTag})"

definition echoes_case :: "(str \<Rightarrow> bytes res) \<Rightarrow> bytes \<Rightarrow> str \<Rightarrow> bool res" where
  "echoes_case idna response name =
     (case encode_name idna name of
        Inl e \<Rightarrow> if value_error e then Inr False else Inl e
      | Inr expected \<Rightarrow> Inr (slice HEADER_LEN (HEADER_LEN + length expected) response = expected))"

definition validate_response ::
  "(str \<Rightarrow> bytes res) \<Rightarrow> bytes \<Rightarrow> bytes \<Rightarrow> str \<Rightarrow> u16 \<Rightarrow> u16 \<Rightarrow> bool \<Rightarrow> unit res" where
  "validate_response idna response query name qt qc strict_case =
     rbind (parse_header response) (\<lambda>h.
     if \<not> is_response h then Inl ResolutionError
     else rbind (parse_header query) (\<lambda>hq.
       if msg_id h \<noteq> msg_id hq then Inl ResolutionError
       else if qdcount h \<noteq> 1 then Inl ResolutionError
       else rbind (first_question response) (\<lambda>question.
         case question of
           None \<Rightarrow> Inl ResolutionError
         | Some q \<Rightarrow>
             if qtype q \<noteq> qt \<or> qclass q \<noteq> qc then Inl ResolutionError
             else if qname q \<noteq> strip_dots (lower name) then Inl ResolutionError
             else if strict_case then
               rbind (echoes_case idna response name) (\<lambda>same. if same then Inr () else Inl ResolutionError)
             else Inr ())))"

definition rewrite_question_name :: "(str \<Rightarrow> bytes res) \<Rightarrow> bytes \<Rightarrow> str \<Rightarrow> bytes res" where
  "rewrite_question_name idna response name =
     (case encode_name idna name of
        Inl e \<Rightarrow> if value_error e then Inr response else Inl e
      | Inr replacement \<Rightarrow>
          let e = HEADER_LEN + length replacement in
          if length response < e then Inr response
          else Inr (take HEADER_LEN response @ replacement @ drop e response))"

section \<open>The pool\<close>

record upstream =
  up_spec :: str
  up_transport :: transport
  up_health :: health

definition new_upstream :: "(str \<Rightarrow> url res) \<Rightarrow> str \<Rightarrow> upstream res" where
  "new_upstream urlparse spec =
     rbind (build_upstream urlparse spec) (\<lambda>t. Inr \<lparr>up_spec = spec, up_transport = t, up_health = new_health\<rparr>)"

definition up_encrypted :: "upstream \<Rightarrow> bool" where "up_encrypted u = encrypted (up_transport u)"

definition new_upstream_pool :: "(str \<Rightarrow> url res) \<Rightarrow> str list \<Rightarrow> bool \<Rightarrow> upstream list res" where
  "new_upstream_pool urlparse specs require_encrypted =
     (if specs = [] then Inl ValueError
      else rbind (rmap (new_upstream urlparse) specs) (\<lambda>us.
        if require_encrypted \<and> list_ex (\<lambda>u. \<not> up_encrypted u) us then Inl ValueError else Inr us))"

text \<open>The order of asking, as positions in the list: the healthy by latency, then the benched.\<close>

definition latency_rank :: "upstream \<Rightarrow> time" where
  "latency_rank u = (if latency_ms (up_health u) = 0 then -1 else latency_ms (up_health u))"

definition ordered :: "time \<Rightarrow> upstream list \<Rightarrow> nat list" where
  "ordered now us =
     sort_key (\<lambda>i. latency_rank (us ! i)) (filter (\<lambda>i. available now (up_health (us ! i))) [0..<length us])
       @ filter (\<lambda>i. \<not> available now (up_health (us ! i))) [0..<length us]"

text \<open>
  The world of one call: the clock when the order is made and when each upstream is found to have
  failed, the random bits, the exchange each transport makes, and how long it took.
\<close>

record world =
  order_time :: time
  fail_time :: "nat \<Rightarrow> time"
  case_bits :: "nat \<Rightarrow> nat"
  exchange_with :: "nat \<Rightarrow> bytes \<Rightarrow> bytes res"
  elapsed_ms :: "nat \<Rightarrow> time"

record upstream_request =
  uq_name :: str
  uq_qtype :: u16
  uq_qclass :: u16
  uq_want_dnssec :: bool
  uq_checking_disabled :: bool

definition randomised :: "bool \<Rightarrow> upstream \<Rightarrow> bool" where
  "randomised use_0x20 u = (use_0x20 \<and> \<not> up_encrypted u)"

definition wire_name :: "world \<Rightarrow> bool \<Rightarrow> upstream list \<Rightarrow> str \<Rightarrow> nat \<Rightarrow> str" where
  "wire_name w use_0x20 us name i =
     (if randomised use_0x20 (us ! i) then apply_0x20 (case_bits w i) name else name)"

definition wire_query :: "(str \<Rightarrow> bytes res) \<Rightarrow> world \<Rightarrow> bool \<Rightarrow> upstream list \<Rightarrow> upstream_request \<Rightarrow> nat \<Rightarrow> bytes res" where
  "wire_query idna w use_0x20 us r i =
     build_upstream_query idna (wire_name w use_0x20 us (uq_name r) i) (uq_qtype r) (uq_qclass r)
       (uq_want_dnssec r) (uq_checking_disabled r)"

text \<open>One upstream asked and its reply checked.\<close>

definition checked_answer ::
  "(str \<Rightarrow> bytes res) \<Rightarrow> world \<Rightarrow> bool \<Rightarrow> upstream list \<Rightarrow> upstream_request \<Rightarrow> nat \<Rightarrow> bytes \<Rightarrow> bytes res" where
  "checked_answer idna w use_0x20 us r i query =
     rbind (exchange_with w i query) (\<lambda>response.
     rbind (validate_response idna response query (wire_name w use_0x20 us (uq_name r) i) (uq_qtype r) (uq_qclass r)
              (randomised use_0x20 (us ! i))) (\<lambda>_. Inr response))"

definition set_health :: "nat \<Rightarrow> health \<Rightarrow> upstream list \<Rightarrow> upstream list" where
  "set_health i h us = us[i := (us ! i)\<lparr>up_health := h\<rparr>]"

fun ask_each ::
  "(str \<Rightarrow> bytes res) \<Rightarrow> world \<Rightarrow> bool \<Rightarrow> upstream_request \<Rightarrow> nat list \<Rightarrow> upstream list \<Rightarrow> upstream list \<times> bytes res" where
  "ask_each idna w use_0x20 r [] us = (us, Inl ResolutionError)"
| "ask_each idna w use_0x20 r (i # js) us =
     (case wire_query idna w use_0x20 us r i of
        Inl e \<Rightarrow> (us, Inl (if value_error e then ResolutionError else e))
      | Inr query \<Rightarrow>
          (case checked_answer idna w use_0x20 us r i query of
             Inl e \<Rightarrow>
               if e = ResolutionError \<or> e = DNSFormatError then
                 (case health_failure (fail_time w i) (up_health (us ! i)) of
                    (h, Inl e) \<Rightarrow> (set_health i h us, Inl e)
                  | (h, Inr ()) \<Rightarrow> ask_each idna w use_0x20 r js (set_health i h us))
               else (us, Inl e)
           | Inr response \<Rightarrow>
               (set_health i (health_success (elapsed_ms w i) (up_health (us ! i))) us,
                rewrite_question_name idna response (uq_name r))))"

definition pool_resolve ::
  "(str \<Rightarrow> bytes res) \<Rightarrow> world \<Rightarrow> bool \<Rightarrow> upstream_request \<Rightarrow> upstream list \<Rightarrow> upstream list \<times> bytes res" where
  "pool_resolve idna w use_0x20 r us = ask_each idna w use_0x20 r (ordered (order_time w) us) us"

section \<open>Health and order\<close>

lemma backoff_bounds: "backoff n = Inr b \<Longrightarrow> BACKOFF_BASE \<le> b \<and> b \<le> BACKOFF_MAX"
  by (auto simp: backoff_def Let_def BACKOFF_BASE_def BACKOFF_MAX_def split: if_splits)

lemma health_failure_ok:
  "uh_failures h < 1026 \<Longrightarrow> \<exists>h'. health_failure now h = (h', Inr ()) \<and> uh_failures h' = uh_failures h + 1"
  by (auto simp: health_failure_def Let_def backoff_def FAILURE_THRESHOLD_def)

lemma health_failure_overflow:
  "1026 \<le> uh_failures h \<Longrightarrow>
     \<exists>h'. health_failure now h = (h', Inl OverflowError) \<and> uh_failures h' = uh_failures h + 1
        \<and> down_until h' = down_until h \<and> latency_ms h' = latency_ms h"
  by (auto simp: health_failure_def Let_def backoff_def FAILURE_THRESHOLD_def)

text \<open>Every upstream is asked, the healthy before the benched, the fastest healthy one first.\<close>

lemma set_ordered: "set (ordered now us) = {0..<length us}"
  by (auto simp: ordered_def)

lemma distinct_ordered: "distinct (ordered now us)"
  by (auto simp: ordered_def)

section \<open>Strict mode\<close>

lemma rmap_map:
  "rmap f xs = Inr ys \<Longrightarrow> (\<And>x y. f x = Inr y \<Longrightarrow> g y = x) \<Longrightarrow> map g ys = xs"
  by (induction xs arbitrary: ys) (auto simp: res_simps)

text \<open>
  In strict mode no query leaves in the clear: a pool that could be built has the configured
  upstreams in their order, and every one of them is encrypted.
\<close>

theorem strict_pool_encrypted:
  assumes "new_upstream_pool urlparse specs True = Inr us"
  shows "map up_spec us = specs \<and> us \<noteq> [] \<and> (\<forall>u \<in> set us. up_encrypted u \<and> \<not> randomised x u)"
proof -
  have ne: "specs \<noteq> []" and r: "rmap (new_upstream urlparse) specs = Inr us"
    and e: "\<forall>u \<in> set us. up_encrypted u"
    using assms by (auto simp: new_upstream_pool_def rbind_Inr_iff list_ex_iff split: if_splits)
  have "map up_spec us = specs" using r by (rule rmap_map) (auto simp: new_upstream_def rbind_Inr_iff)
  with ne e show ?thesis by (auto simp: randomised_def)
qed

section \<open>Framing\<close>

lemma read_exactly_step:
  "read_exactly 0 chunks = Inr ([], chunks)"
  "0 < n \<Longrightarrow> c \<noteq> [] \<Longrightarrow> read_exactly n (c # cs) =
     rbind (read_exactly (n - length (take n c)) (if n < length c then drop n c # cs else cs)) (\<lambda>(r, rest).
       Inr (take n c @ r, rest))"
  by (simp_all add: read_exactly.simps)

lemma read_exactly_stream:
  "[] \<notin> set chunks \<Longrightarrow> n \<le> length (concat chunks) \<Longrightarrow>
   \<exists>rest. read_exactly n chunks = Inr (take n (concat chunks), rest) \<and> [] \<notin> set rest \<and> concat rest = drop n (concat chunks)"
proof (induction chunks arbitrary: n)
  case Nil
  then show ?case by (simp add: read_exactly_step)
next
  case (Cons c cs)
  show ?case
  proof (cases "n = 0")
    case True
    then show ?thesis using Cons.prems by (intro exI [of _ "c # cs"]) (simp add: read_exactly_step)
  next
    case n: False
    have c: "c \<noteq> []" using Cons.prems(1) by auto
    show ?thesis
    proof (cases "n < length c")
      case True
      then show ?thesis using Cons.prems n c
        by (intro exI [of _ "drop n c # cs"]) (simp add: read_exactly_step)
    next
      case False
      then have "n - length c \<le> length (concat cs)" "[] \<notin> set cs" using Cons.prems by auto
      from Cons.IH [OF this(2,1)] obtain rest where
        "read_exactly (n - length c) cs = Inr (take (n - length c) (concat cs), rest)"
        "[] \<notin> set rest" "concat rest = drop (n - length c) (concat cs)" by blast
      then show ?thesis using n c False by (intro exI [of _ rest]) (simp add: read_exactly_step)
    qed
  qed
qed

text \<open>
  A framed message arrives whole however the stream is cut into chunks: what one side frames the other
  reads, and what follows it in the stream does not matter.
\<close>

theorem framing_independent_of_chunks:
  assumes "framed msg = Inr wire" "concat chunks = wire @ following" "[] \<notin> set chunks"
  shows "read_framed chunks = Inr msg"
proof -
  have l: "length msg < 65536" and w: "wire = pack_H (of_nat (length msg)) @ msg"
    using assms(1) by (auto simp: framed_def split: if_splits)
  obtain rest where r: "read_exactly 2 chunks = Inr (take 2 (concat chunks), rest)" "[] \<notin> set rest"
    "concat rest = drop 2 (concat chunks)"
    using read_exactly_stream [OF assms(3), of 2] assms(2) by (auto simp: w)
  have n: "unat (of_nat (length msg) :: u16) = length msg" using l by (simp add: unsigned_of_nat take_bit_nat_eq_self)
  have "take 2 (concat chunks) = pack_H (of_nat (length msg))" using assms(2) by (simp add: w)
  moreover have "concat rest = msg @ following" using r(3) assms(2) by (simp add: w)
  moreover have "unpack_H (pack_H (of_nat (length msg))) 0 = of_nat (length msg)"
    using unpack_pack_H [of 0 "[]" "of_nat (length msg)" "[]"] by simp
  ultimately show ?thesis using read_exactly_stream [OF r(2), of "length msg"]
    by (auto simp: read_framed_def r(1) n)
qed

section \<open>Connections\<close>

definition cp_ok :: "conn_pool \<Rightarrow> bool" where
  "cp_ok cp = (length (idle cp) \<le> cp_size cp \<and> distinct (idle cp @ closed cp)
     \<and> set (idle cp @ closed cp) = {..<opened cp})"

text \<open>In hand: a connection taken from the pool, in neither list.\<close>

definition cp_with :: "nat \<Rightarrow> conn_pool \<Rightarrow> bool" where
  "cp_with c cp = (length (idle cp) \<le> cp_size cp \<and> distinct (c # idle cp @ closed cp)
     \<and> insert c (set (idle cp @ closed cp)) = {..<opened cp})"

lemma acquire_ok:
  assumes "cp_ok cp" "acquire m cp = (cp', r)"
  shows "(case r of Inr (Some c) \<Rightarrow> cp_with c cp' | _ \<Rightarrow> cp_ok cp')"
proof (cases "idle cp")
  case Nil
  show ?thesis
  proof (cases m)
    case Made
    then have r: "r = Inr (Some (opened cp))" "cp' = cp\<lparr>opened := opened cp + 1\<rparr>"
      using assms(2) Nil by (simp_all add: acquire_def)
    have "set (closed cp) = {..<opened cp}" "distinct (closed cp)" using assms(1) Nil by (simp_all add: cp_ok_def)
    then show ?thesis by (simp add: r Nil cp_with_def lessThan_Suc)
  qed (use assms Nil in \<open>auto simp: acquire_def\<close>)
next
  case (Cons c cs)
  then have r: "r = Inr (Some c)" "cp' = cp\<lparr>idle := cs\<rparr>" using assms(2) by (simp_all add: acquire_def)
  show ?thesis using assms(1) Cons by (simp add: r cp_ok_def cp_with_def)
qed

lemma give_back: "cp_with c cp \<Longrightarrow> cp_ok (discard c cp)" "cp_with c cp \<Longrightarrow> cp_ok (release c cp)"
  by (auto simp: cp_with_def cp_ok_def discard_def release_def)

lemma drain_ok: "cp_ok cp \<Longrightarrow> cp_ok (drain cp)"
  by (auto simp: cp_ok_def drain_def)

lemma pooled_ask_Cons:
  "acquire (connect a) cp = (cp', Inl e) \<Longrightarrow> pooled_ask connect talk (a # as) cp = (cp', Inl e)"
  "acquire (connect a) cp = (cp', Inr None) \<Longrightarrow> pooled_ask connect talk (a # as) cp = pooled_ask connect talk as cp'"
  "acquire (connect a) cp = (cp', Inr (Some c)) \<Longrightarrow> talk a c = Broken \<Longrightarrow>
     pooled_ask connect talk (a # as) cp = pooled_ask connect talk as (discard c cp')"
  "acquire (connect a) cp = (cp', Inr (Some c)) \<Longrightarrow> talk a c = Reply st p \<Longrightarrow>
     pooled_ask connect talk (a # as) cp = (if st \<noteq> 200 then (discard c cp', Inl ResolutionError) else (release c cp', Inr p))"
  by simp_all

lemma pooled_ask_ok: "cp_ok cp \<Longrightarrow> cp_ok (fst (pooled_ask connect talk as cp))"
proof (induction as arbitrary: cp)
  case Nil
  then show ?case by simp
next
  case (Cons a as)
  obtain cp' r where a: "acquire (connect a) cp = (cp', r)" by (rule prod.exhaust)
  note k = acquire_ok [OF Cons.prems a]
  show ?case
  proof (cases r)
    case (Inl e)
    with k a show ?thesis by (simp add: pooled_ask_Cons(1) del: pooled_ask.simps)
  next
    case (Inr o')
    show ?thesis
    proof (cases o')
      case None
      with k Inr have "cp_ok cp'" by simp
      with Cons.IH a Inr None show ?thesis by (simp add: pooled_ask_Cons(2) del: pooled_ask.simps)
    next
      case (Some c)
      with k Inr have g: "cp_ok (discard c cp')" "cp_ok (release c cp')" by (simp_all add: give_back)
      with Cons.IH [OF g(1)] a Inr Some show ?thesis
        by (cases "talk a c") (simp_all add: pooled_ask_Cons(3,4) del: pooled_ask.simps)
    qed
  qed
qed

datatype cp_op =
    AskDoH "nat \<Rightarrow> made" "nat \<Rightarrow> nat \<Rightarrow> bytes \<Rightarrow> exchange" bytes
  | AskDoT "nat \<Rightarrow> made" "nat \<Rightarrow> nat \<Rightarrow> bytes \<Rightarrow> exchange" bytes
  | Close

fun cp_step :: "cp_op \<Rightarrow> conn_pool \<Rightarrow> conn_pool" where
  "cp_step (AskDoH connect talk q) cp = fst (doh_resolve connect talk q cp)"
| "cp_step (AskDoT connect talk q) cp = fst (dot_resolve connect talk q cp)"
| "cp_step Close cp = drain cp"

lemma cp_step_ok: "cp_ok cp \<Longrightarrow> cp_ok (cp_step op cp)"
  by (cases op) (auto simp: doh_resolve_def dot_resolve_def pooled_ask_ok drain_ok simp del: pooled_ask.simps split: sum.split)

text \<open>
  No connection is lost: over every sequence of lookups, whatever fails in them, each connection ever
  opened is either idle in the pool or has been closed, exactly once, and the pool keeps its size.
\<close>

theorem no_connection_leaks:
  "cp_ok (fold cp_step ops (new_conn_pool sz))"
proof -
  have "cp_ok (fold cp_step ops cp)" if "cp_ok cp" for cp
    using that by (induction ops arbitrary: cp) (simp_all add: cp_step_ok)
  then show ?thesis by (simp add: new_conn_pool_def cp_ok_def)
qed

section \<open>What an accepted reply is\<close>

lemma canon_alt: "strip_dots (lower s) = canon s" by (simp add: canon_def strip_dots_lower)

text \<open>A reply that passes the checks: a response to the query's ID with the one question asked.\<close>

definition answers :: "(str \<Rightarrow> bytes res) \<Rightarrow> bytes \<Rightarrow> u16 \<Rightarrow> str \<Rightarrow> u16 \<Rightarrow> u16 \<Rightarrow> bool \<Rightarrow> bool" where
  "answers idna response mid name qt qc strict_case =
     (case (parse_header response, first_question response) of
        (Inr h, Inr (Some q)) \<Rightarrow> is_response h \<and> msg_id h = mid \<and> qdcount h = 1
          \<and> q = \<lparr>qname = canon name, qtype = qt, qclass = qc\<rparr>
          \<and> (strict_case \<longrightarrow> (case encode_name idna name of
               Inr enc \<Rightarrow> slice 12 (12 + length enc) response = enc | Inl _ \<Rightarrow> False))
      | _ \<Rightarrow> False)"

lemma validate_response_iff:
  assumes "parse_header query = Inr hq"
  shows "validate_response idna response query name qt qc strict = Inr () \<longleftrightarrow>
     answers idna response (msg_id hq) name qt qc strict"
proof (cases "parse_header response")
  case (Inr h)
  show ?thesis
  proof (cases "first_question response")
    case fq: (Inr oq)
    show ?thesis
    proof (cases oq)
      case (Some q)
      show ?thesis
        unfolding validate_response_def answers_def Inr fq Some assms rbind.simps option.case sum.case prod.case canon_alt echoes_case_def HEADER_LEN_def
        by (cases "encode_name idna name"; cases q) (auto split: if_splits)
    qed (simp add: validate_response_def answers_def Inr fq assms)
  qed (simp add: validate_response_def answers_def Inr assms)
qed (simp add: validate_response_def answers_def)

lemma wire_query_header:
  assumes "build_upstream_query idna name qt qc d cd = Inr q"
  shows "\<exists>h. parse_header q = Inr h \<and> msg_id h = 0"
  using assms by (auto simp: build_upstream_query_def rbind_Inr_iff Let_def)

text \<open>Asking changes nothing of an upstream but its health.\<close>

lemma length_set_health [simp]: "length (set_health i h us) = length us" by (simp add: set_health_def)

lemma up_encrypted_set_health [simp]:
  "j < length us \<Longrightarrow> up_encrypted (set_health i h us ! j) = up_encrypted (us ! j)"
  by (cases "i < length us") (auto simp: set_health_def up_encrypted_def nth_list_update)

lemma checked_answer_set_health [simp]:
  assumes "j < length us"
  shows "wire_name w x (set_health i h us) n j = wire_name w x us n j"
    and "wire_query idna w x (set_health i h us) r j = wire_query idna w x us r j"
    and "checked_answer idna w x (set_health i h us) r j q = checked_answer idna w x us r j q"
proof -
  have r: "randomised x (set_health i h us ! j) = randomised x (us ! j)" by (simp add: randomised_def assms)
  then show n: "wire_name w x (set_health i h us) n j = wire_name w x us n j" for n by (simp add: wire_name_def)
  show "wire_query idna w x (set_health i h us) r j = wire_query idna w x us r j" by (simp add: wire_query_def n)
  show "checked_answer idna w x (set_health i h us) r j q = checked_answer idna w x us r j q"
    by (simp add: checked_answer_def n r)
qed

lemma ask_each_fails_on:
  assumes "wire_query idna w x us r i = Inr q" "checked_answer idna w x us r i q = Inl e"
    and "e = ResolutionError \<or> e = DNSFormatError"
    and "health_failure (fail_time w i) (up_health (us ! i)) = (h, s)"
  shows "ask_each idna w x r (i # js) us =
     (case s of Inl e \<Rightarrow> (set_health i h us, Inl e) | Inr _ \<Rightarrow> ask_each idna w x r js (set_health i h us))"
  unfolding ask_each.simps assms(1,2,4) sum.case prod.case if_P [OF assms(3)] by (cases s) (simp_all split: unit.split)

lemma ask_each_answers:
  assumes "wire_query idna w x us r i = Inr q" "checked_answer idna w x us r i q = Inr resp"
  shows "ask_each idna w x r (i # js) us =
     (set_health i (health_success (elapsed_ms w i) (up_health (us ! i))) us, rewrite_question_name idna resp (uq_name r))"
  unfolding ask_each.simps assms sum.case ..

lemma ask_each_other:
  "wire_query idna w x us r i = Inl e \<Longrightarrow> \<not> ok (snd (ask_each idna w x r (i # js) us))"
  "wire_query idna w x us r i = Inr q \<Longrightarrow> checked_answer idna w x us r i q = Inl e \<Longrightarrow>
     e \<noteq> ResolutionError \<Longrightarrow> e \<noteq> DNSFormatError \<Longrightarrow> \<not> ok (snd (ask_each idna w x r (i # js) us))"
  by simp_all

lemma ask_each_accepts:
  assumes "ask_each idna w x r js us = (us', Inr ans)" "set js \<subseteq> {..<length us}"
  shows "\<exists>i \<in> set js. \<exists>q resp. wire_query idna w x us r i = Inr q \<and> checked_answer idna w x us r i q = Inr resp
     \<and> rewrite_question_name idna resp (uq_name r) = Inr ans"
  using assms
proof (induction js arbitrary: us)
  case (Cons i js)
  have i: "i < length us" using Cons.prems(2) by simp
  obtain q where q: "wire_query idna w x us r i = Inr q"
    using ask_each_other(1) Cons.prems(1) by (metis obj_sumE ok_simps(1) snd_conv)
  show ?case
  proof (cases "checked_answer idna w x us r i q")
    case (Inl e)
    obtain h s where hf: "health_failure (fail_time w i) (up_health (us ! i)) = (h, s)" by (rule prod.exhaust)
    have e: "e = ResolutionError \<or> e = DNSFormatError"
      using ask_each_other(2) [OF q Inl] Cons.prems(1) by (metis ok_simps(1) snd_conv)
    have rest: "ask_each idna w x r js (set_health i h us) = (us', Inr ans)"
      using Cons.prems(1) unfolding ask_each_fails_on [OF q Inl e hf] by (cases s) simp_all
    have sub: "set js \<subseteq> {..<length (set_health i h us)}" using Cons.prems(2) by simp
    from Cons.IH [OF rest sub] obtain j q' resp where j: "j \<in> set js"
      and a: "wire_query idna w x (set_health i h us) r j = Inr q'"
        "checked_answer idna w x (set_health i h us) r j q' = Inr resp"
        "rewrite_question_name idna resp (uq_name r) = Inr ans" by blast
    have "j < length us" using Cons.prems(2) j by auto
    with a have "wire_query idna w x us r j = Inr q'" "checked_answer idna w x us r j q' = Inr resp" by simp_all
    with a(3) j show ?thesis by auto
  next
    case (Inr resp)
    then have "rewrite_question_name idna resp (uq_name r) = Inr ans"
      using Cons.prems(1) unfolding ask_each_answers [OF q Inr] by simp
    then show ?thesis using Inr q by auto
  qed
qed simp

text \<open>
  C3: Whatever the upstreams send, an answer the pool accepts was checked: it is a response that carries
  the ID and the one question of the query put to an upstream, with the case of the randomised name
  where 0x20 is in use, and only its question name is written anew.
\<close>

theorem accepted_answer_checked:
  assumes "pool_resolve idna w x r us = (us', Inr ans)"
  shows "\<exists>i < length us. \<exists>resp q. wire_query idna w x us r i = Inr q \<and> exchange_with w i q = Inr resp
     \<and> answers idna resp 0 (wire_name w x us (uq_name r) i) (uq_qtype r) (uq_qclass r) (randomised x (us ! i))
     \<and> rewrite_question_name idna resp (uq_name r) = Inr ans"
proof -
  have "set (ordered (order_time w) us) \<subseteq> {..<length us}" by (auto simp: set_ordered)
  from ask_each_accepts [OF assms [unfolded pool_resolve_def] this] obtain i q resp
    where i: "i < length us" and q: "wire_query idna w x us r i = Inr q"
      and a: "checked_answer idna w x us r i q = Inr resp" and n: "rewrite_question_name idna resp (uq_name r) = Inr ans"
    by (auto simp: set_ordered)
  obtain h where h: "parse_header q = Inr h" "msg_id h = 0" using q wire_query_header unfolding wire_query_def by blast
  have "exchange_with w i q = Inr resp"
    and v: "validate_response idna resp q (wire_name w x us (uq_name r) i) (uq_qtype r) (uq_qclass r) (randomised x (us ! i)) = Inr ()"
    using a by (auto simp: checked_answer_def rbind_Inr_iff)
  with i q n v [unfolded validate_response_iff [OF h(1)] h(2)] show ?thesis by blast
qed

section \<open>Failing over\<close>

lemma read_loop_errors: "read_loop data c t j en ls = Inl e \<Longrightarrow> e = DNSFormatError"
proof (induction data c t j en ls rule: read_loop.induct)
  case (1 data c t j en ls)
  show ?case using "1.prems" "1.IH" by (subst (asm) read_loop.simps) (auto simp: Let_def split: if_splits)
qed

lemma read_name_errors: "read_name data off = Inl e \<Longrightarrow> e = DNSFormatError"
  by (auto simp: read_name_def rbind_Inl_iff dest: read_loop_errors)

lemma questions_loop_errors: "questions_loop data n off = Inl e \<Longrightarrow> e = DNSFormatError"
proof (induction n arbitrary: off)
  case (Suc n)
  then show ?case by (auto simp: rbind_Inl_iff dest: read_name_errors split: if_splits prod.splits)
qed simp


lemma first_question_errors: "first_question data = Inl e \<Longrightarrow> e = DNSFormatError"
  by (auto simp: first_question_def parse_questions_def parse_header_def rbind_Inl_iff
      dest: questions_loop_errors split: if_splits)

text \<open>The codecs raise \<open>UnicodeError\<close>, which is a \<open>ValueError\<close>; the transports raise \<open>ResolutionError\<close>.\<close>

definition codec_ok :: "(str \<Rightarrow> bytes res) \<Rightarrow> bool" where
  "codec_ok idna = (\<forall>l e. idna l = Inl e \<longrightarrow> value_error e)"

definition transports_ok :: "world \<Rightarrow> bool" where
  "transports_ok w = (\<forall>i q e. exchange_with w i q = Inl e \<longrightarrow> e = ResolutionError \<or> e = DNSFormatError)"

lemma rmap_errors: "rmap f xs = Inl e \<Longrightarrow> \<exists>x \<in> set xs. f x = Inl e"
  by (induction xs) (auto simp: rbind_Inl_iff)

lemma encode_name_errors: "codec_ok idna \<Longrightarrow> encode_name idna n = Inl e \<Longrightarrow> value_error e"
proof -
  assume c: "codec_ok idna" and n: "encode_name idna n = Inl e"
  have v: "value_error ValueError" by (simp add: value_error_def)
  have l: "value_error e" if "encode_label idna l = Inl e" for l
    using that c v by (auto simp: encode_label_def rbind_Inl_iff codec_ok_def split: if_splits)
  show "value_error e"
    using n v l by (auto simp: encode_name_def rbind_Inl_iff Let_def split: if_splits dest!: rmap_errors)
qed

lemma rewrite_defined: "codec_ok idna \<Longrightarrow> ok (rewrite_question_name idna resp n)"
  using encode_name_errors by (fastforce simp: rewrite_question_name_def ok_def Let_def split: sum.split)

lemma validate_errors:
  assumes "codec_ok idna" "parse_header q = Inr hq" "validate_response idna resp q n qt qc s = Inl e"
  shows "e = ResolutionError \<or> e = DNSFormatError"
proof -
  have "echoes_case idna resp n \<noteq> Inl e'" for e'
    using encode_name_errors [OF assms(1)] by (auto simp: echoes_case_def split: sum.split)
  then show ?thesis using assms(2,3)
    by (auto simp: validate_response_def rbind_Inl_iff parse_header_def
        dest!: first_question_errors split: if_splits option.splits)
qed

lemma checked_answer_errors:
  assumes "codec_ok idna" "transports_ok w" "wire_query idna w x us r i = Inr q" "checked_answer idna w x us r i q = Inl e"
  shows "e = ResolutionError \<or> e = DNSFormatError"
proof -
  obtain h where h: "parse_header q = Inr h" using assms(3) wire_query_header unfolding wire_query_def by blast
  from assms(4) show ?thesis
    unfolding checked_answer_def rbind_Inl_iff using assms(2) validate_errors [OF assms(1) h]
    unfolding transports_ok_def by (metis sum.distinct(1))
qed

lemma up_health_set_health:
  "i \<noteq> j \<Longrightarrow> up_health (set_health i h us ! j) = up_health (us ! j)"
  by (simp add: set_health_def)

lemma ask_each_reaches:
  assumes "codec_ok idna" "transports_ok w"
    and "distinct js" "set js \<subseteq> {..<length us}" "\<forall>j \<in> set js. ok (wire_query idna w x us r j)"
    and "\<forall>j \<in> set js. uh_failures (up_health (us ! j)) < 1026"
    and "i \<in> set js" "wire_query idna w x us r i = Inr q" "ok (checked_answer idna w x us r i q)"
  shows "ok (snd (ask_each idna w x r js us))"
  using assms(3-)
proof (induction js arbitrary: us)
  case (Cons j js)
  obtain qj where qj: "wire_query idna w x us r j = Inr qj"
    using Cons.prems(3) by (auto simp: ok_def split: sum.splits)
  show ?case
  proof (cases "checked_answer idna w x us r j qj")
    case (Inr resp)
    show ?thesis unfolding ask_each_answers [OF qj Inr] by (simp add: rewrite_defined [OF assms(1)])
  next
    case (Inl e)
    obtain h where hf: "health_failure (fail_time w j) (up_health (us ! j)) = (h, Inr ())"
      using health_failure_ok Cons.prems(4) by (metis list.set_intros(1))
    have "j \<noteq> i" using Inl qj Cons.prems(6,7) by auto
    then have i: "i \<in> set js" using Cons.prems(5) by simp
    have l: "k < length us" "k \<noteq> j" if "k \<in> set js" for k using that Cons.prems(1,2) by auto
    have "ok (snd (ask_each idna w x r js (set_health j h us)))"
    proof (rule Cons.IH)
      show "distinct js" "set js \<subseteq> {..<length (set_health j h us)}" using Cons.prems(1,2) by simp_all
      show "\<forall>k \<in> set js. ok (wire_query idna w x (set_health j h us) r k)" using Cons.prems(3) l by simp
      show "\<forall>k \<in> set js. uh_failures (up_health (set_health j h us ! k)) < 1026"
        using Cons.prems(4) l(2) by (metis list.set_intros(2) up_health_set_health)
      show "wire_query idna w x (set_health j h us) r i = Inr q" "ok (checked_answer idna w x (set_health j h us) r i q)"
        using Cons.prems(6,7) l(1) [OF i] by simp_all
    qed (rule i)
    then show ?thesis
      unfolding ask_each_fails_on [OF qj Inl checked_answer_errors [OF assms(1,2) qj Inl] hf] by simp
  qed
qed simp


text \<open>
  But an upstream that stays dead long enough takes the others with it.  From its 1027th failure in a
  row on, computing the backoff raises \<open>OverflowError\<close> out of the pool: no other upstream is asked,
  whatever it would have answered, and since the backoff is not renewed the dead upstream stays at
  the head of the order.
\<close>

theorem dead_upstream_takes_pool_down:
  assumes "ordered (order_time w) us = i # js" and "available (order_time w) (up_health (us ! i))"
    and "1026 \<le> uh_failures (up_health (us ! i))"
    and "wire_query idna w x us r i = Inr q" and "exchange_with w i q = Inl ResolutionError"
  shows "\<exists>us'. pool_resolve idna w x r us = (us', Inl OverflowError)
     \<and> available (order_time w) (up_health (us' ! i))
     \<and> uh_failures (up_health (us' ! i)) = uh_failures (up_health (us ! i)) + 1"
proof -
  obtain h where h: "health_failure (fail_time w i) (up_health (us ! i)) = (h, Inl OverflowError)"
    "uh_failures h = uh_failures (up_health (us ! i)) + 1" "down_until h = down_until (up_health (us ! i))"
    using health_failure_overflow [OF assms(3)] by blast
  have i: "i < length us" using set_ordered [of "order_time w" us] assms(1) by auto
  have c: "checked_answer idna w x us r i q = Inl ResolutionError" by (simp add: checked_answer_def assms(5))
  have "pool_resolve idna w x r us = (set_health i h us, Inl OverflowError)"
    unfolding pool_resolve_def assms(1) ask_each_fails_on [OF assms(4) c disjI1 [OF refl] h(1)] by simp
  moreover have "up_health (set_health i h us ! i) = h" using i by (simp add: set_health_def)
  ultimately show ?thesis using h(2,3) assms(2) by (intro exI) (auto simp: available_def)
qed

text \<open>
  Every query of the pool carries the transaction ID 0, so that on a plain upstream the ID is nothing
  an attacker has to guess; it carries the name, type and class asked for, in one question.
\<close>

lemma query_read_back:
  assumes "build_upstream_query idna name qt qc d cd = Inr q" "isascii name"
  shows "first_question q = Inr (Some \<lparr>qname = canon name, qtype = qt, qclass = qc\<rparr>)
     \<and> (\<exists>h. parse_header q = Inr h \<and> msg_id h = 0 \<and> \<not> is_response h)"
proof -
  let ?h = "\<lparr>msg_id = 0, flags = if cd then 0x0100 OR 0x0010 else 0x0100, qdcount = 1, ancount = 0, nscount = 0, arcount = 1\<rparr> :: header"
  obtain enc rest where e: "encode_name idna name = Inr enc" and q: "q = query_of ?h enc qt qc rest"
    using assms(1) by (auto simp: build_upstream_query_def query_of_def rbind_Inr_iff Let_def)
  have c: "qdcount ?h = 1" by simp
  note p = parse_query_of [OF c e assms(2), of qt qc rest]
  show ?thesis unfolding q first_question_def p by (simp add: p is_response_def)
qed

section \<open>Targets\<close>

text \<open>The address forms: a name or IPv4 address with a port, a bare IPv6 address, a bracketed one.\<close>

lemma target_forms:
  "split_host_port ''9.9.9.9:5353'' 53 = Inr (''9.9.9.9'', 5353)"
  "split_host_port ''2620:fe::fe'' 53 = Inr (''2620:fe::fe'', 53)"
  "split_host_port ''[2620:fe::fe]:8853'' 53 = Inr (''2620:fe::fe'', 8853)"
  "split_host_port ''[2620:fe::fe'' 53 = Inl ValueError"
  "split_host_port ''9.9.9.9:0'' 53 = Inl ValueError"
  by code_simp+

lemma port_in_range: "port_number t = Inr p \<Longrightarrow> 1 \<le> p \<and> p \<le> 65535"
  by (auto simp: port_number_def split: option.splits if_splits)

text \<open>The certificate name of a DoT target given as an IPv6 address is cut at its first colon.\<close>

lemma dot_certificate_name_cut:
  "parse_dot_target ''tls://2620:fe::fe'' = Inr (''2620'', ''2620:fe::fe'', 853)"
  "parse_dot_target ''tls://[2620:fe::fe]:8853'' = Inr (''[2620'', ''2620:fe::fe'', 8853)"
  by code_simp+

section \<open>The properties at concrete inputs\<close>

definition demo_codec :: "str \<Rightarrow> bytes res" where "demo_codec l = Inl ValueError"

definition demo_upstream :: "nat \<Rightarrow> upstream" where
  "demo_upstream n = \<lparr>up_spec = ''tls://9.9.9.9'', up_transport = DoT ''9.9.9.9'' ''9.9.9.9'' 853,
     up_health = new_health\<lparr>uh_failures := n\<rparr>\<rparr>"

definition demo_reply :: bytes where
  "demo_reply = [0, 0, 0x81, 0x80, 0, 1, 0, 0, 0, 0, 0, 0, 1, 0x61, 0, 0, 1, 0, 1]"

definition demo_world :: world where
  "demo_world = \<lparr>order_time = 1, fail_time = (\<lambda>_. 1), case_bits = (\<lambda>_. 0),
     exchange_with = (\<lambda>i q. if i = 0 then Inl ResolutionError else Inr demo_reply), elapsed_ms = (\<lambda>_. 1)\<rparr>"

definition demo_request :: upstream_request where
  "demo_request = \<lparr>uq_name = ''a'', uq_qtype = 1, uq_qclass = 1, uq_want_dnssec = False, uq_checking_disabled = False\<rparr>"

abbreviation demo_pool :: "nat \<Rightarrow> upstream list" where
  "demo_pool n \<equiv> [demo_upstream n, demo_upstream 0]"

lemma demo_query:
  assumes "j < 2"
  obtains q where "wire_query demo_codec demo_world True (demo_pool n) demo_request j = Inr q"
proof -
  have u: "up_encrypted (demo_pool n ! j)" using assms by (cases j) (auto simp: demo_upstream_def up_encrypted_def)
  have e: "encode_name demo_codec ''a'' = Inr [1, 0x61, 0]" by code_simp
  show ?thesis by (rule that)
    (simp add: wire_query_def wire_name_def randomised_def u demo_request_def build_upstream_query_def e Let_def)
qed

lemma demo_query_ok: "j < 2 \<Longrightarrow> ok (wire_query demo_codec demo_world True (demo_pool n) demo_request j)"
  by (rule demo_query [of j n]) simp_all

lemma demo_answer:
  assumes "wire_query demo_codec demo_world True (demo_pool n) demo_request (Suc 0) = Inr q"
  shows "checked_answer demo_codec demo_world True (demo_pool n) demo_request (Suc 0) q = Inr demo_reply"
proof -
  obtain h where h: "parse_header q = Inr h" "msg_id h = 0"
    using assms wire_query_header unfolding wire_query_def by blast
  have u: "up_encrypted (demo_upstream 0)" by (simp add: demo_upstream_def up_encrypted_def)
  have "answers demo_codec demo_reply 0 ''a'' 1 1 False" by code_simp
  then have "validate_response demo_codec demo_reply q ''a'' 1 1 False = Inr ()"
    by (simp add: validate_response_iff [OF h(1)] h(2))
  then show ?thesis
    by (simp add: checked_answer_def demo_world_def wire_name_def randomised_def u demo_request_def)
qed

lemma demo_laws: "codec_ok demo_codec" "transports_ok demo_world"
  by (auto simp: codec_ok_def demo_codec_def value_error_def transports_ok_def demo_world_def)

lemma demo_order: "ordered 1 (demo_pool n) = [0, 1]"
  by (simp add: ordered_def demo_upstream_def new_health_def available_def latency_rank_def upt_rec)


lemma accepted_answer_checked_witness:
  "\<exists>us' ans. pool_resolve demo_codec demo_world True demo_request (demo_pool 0) = (us', Inr ans)
     \<and> (\<exists>i < 2. \<exists>resp q. wire_query demo_codec demo_world True (demo_pool 0) demo_request i = Inr q
          \<and> exchange_with demo_world i q = Inr resp)"
proof -
  obtain q where q: "wire_query demo_codec demo_world True (demo_pool 0) demo_request 1 = Inr q"
    by (rule demo_query [of 1]) simp_all
  have f: "\<forall>j \<in> set [0, 1]. uh_failures (up_health (demo_pool 0 ! j)) < 1026"
    by (simp add: demo_upstream_def new_health_def)
  have w: "\<forall>j \<in> set [0, 1]. ok (wire_query demo_codec demo_world True (demo_pool 0) demo_request j)"
    using demo_query_ok [of 0 0] demo_query_ok [of 1 0] by simp
  have c: "ok (checked_answer demo_codec demo_world True (demo_pool 0) demo_request 1 q)"
    using demo_answer [of 0 q] q by simp
  have "ok (snd (ask_each demo_codec demo_world True demo_request [0, 1] (demo_pool 0)))"
    by (rule ask_each_reaches [OF demo_laws _ _ w f _ q c]) simp_all
  then have "ok (snd (pool_resolve demo_codec demo_world True demo_request (demo_pool 0)))"
    unfolding pool_resolve_def by (simp add: demo_world_def demo_order [simplified])
  then obtain us' ans where r: "pool_resolve demo_codec demo_world True demo_request (demo_pool 0) = (us', Inr ans)"
    by (cases "pool_resolve demo_codec demo_world True demo_request (demo_pool 0)"; cases "snd (pool_resolve demo_codec demo_world True demo_request (demo_pool 0))") auto
  from accepted_answer_checked [OF r] have
    "\<exists>i < 2. \<exists>resp q. wire_query demo_codec demo_world True (demo_pool 0) demo_request i = Inr q
        \<and> exchange_with demo_world i q = Inr resp" by (auto simp: numeral_2_eq_2)
  with r show ?thesis by blast
qed

lemma dead_upstream_takes_pool_down_witness:
  "\<exists>us'. pool_resolve demo_codec demo_world True demo_request (demo_pool 1026) = (us', Inl OverflowError)
     \<and> available 1 (up_health (us' ! 0))"
proof -
  obtain q where q: "wire_query demo_codec demo_world True (demo_pool 1026) demo_request 0 = Inr q"
    by (rule demo_query [of 0]) simp_all
  have o: "ordered (order_time demo_world) (demo_pool 1026) = 0 # [1]"
    using demo_order by (simp add: demo_world_def)
  have "\<exists>us'. pool_resolve demo_codec demo_world True demo_request (demo_pool 1026) = (us', Inl OverflowError)
     \<and> available (order_time demo_world) (up_health (us' ! 0))
     \<and> uh_failures (up_health (us' ! 0)) = uh_failures (up_health (demo_pool 1026 ! 0)) + 1"
    by (rule dead_upstream_takes_pool_down [OF o _ _ q])
      (simp_all add: available_def demo_upstream_def new_health_def demo_world_def)
  then show ?thesis by (auto simp: demo_world_def)
qed

lemma strict_pool_encrypted_witness:
  "\<exists>us. new_upstream_pool (\<lambda>_. Inl ValueError) [''tls://9.9.9.9''] True = Inr us \<and> (\<forall>u \<in> set us. up_encrypted u)"
proof -
  have t: "parse_dot_target ''tls://9.9.9.9'' = Inr (''9.9.9.9'', ''9.9.9.9'', 853)" by code_simp
  have r: "new_upstream_pool (\<lambda>_. Inl ValueError) [''tls://9.9.9.9''] True = Inr [demo_upstream 0]"
    by (simp add: new_upstream_pool_def new_upstream_def build_upstream_def t demo_upstream_def up_encrypted_def new_health_def)
  with strict_pool_encrypted [OF r] show ?thesis by auto
qed

lemma framing_independent_of_chunks_witness:
  "read_framed [[0], [2, 7], [8, 9]] = Inr [7, 8]"
  by (rule framing_independent_of_chunks [of _ "[0, 2, 7, 8]" _ "[9]"]) (simp_all add: framed_def pack_H_def)

end
