(* ===== verification/Cluster.thy ===== *)
theory Cluster
  imports Cache IpAddr "HOL-Library.Multiset" "HOL-Library.Char_ord" "HOL-Library.List_Lexorder" "HOL-Library.Product_Lexorder"
begin

text \<open>
  More than one node, \<open>symbivpn/cluster.py\<close>: what a node knows of the others, which of them clients
  should ask first, the authenticated messages between them, and the answers they share.  JSON, the
  keyed hash, base64, the idle signals of the machine and the clock are parameters.
\<close>

section \<open>Values of a message\<close>

text \<open>
  What \<open>json.loads\<close> returns, as far as the code asks: \<open>JFloat None\<close> is an infinity or not a number;
  \<open>JOther\<close> is a list or an object, with its text and whether it is empty.
\<close>

datatype jv =
    JNull
  | JBool bool
  | JInt int
  | JFloat "rat option" str
  | JStr str
  | JOther str bool

type_synonym message = "(str, jv) dict"

fun py_str :: "jv \<Rightarrow> str" where
  "py_str JNull = ''None''"
| "py_str (JBool b) = (if b then ''True'' else ''False'')"
| "py_str (JInt n) = dec_int n"
| "py_str (JFloat _ t) = t"
| "py_str (JStr s) = s"
| "py_str (JOther t _) = t"

fun py_int_of :: "jv \<Rightarrow> int res" where
  "py_int_of JNull = Inl TypeError"
| "py_int_of (JBool b) = Inr (if b then 1 else 0)"
| "py_int_of (JInt n) = Inr n"
| "py_int_of (JFloat None _) = Inl OverflowError"
| "py_int_of (JFloat (Some q) _) = Inr (py_int q)"
| "py_int_of (JStr s) = (case py_int_text s of None \<Rightarrow> Inl ValueError | Some n \<Rightarrow> Inr n)"
| "py_int_of (JOther _ _) = Inl TypeError"

fun truthy :: "jv \<Rightarrow> bool" where
  "truthy JNull = False"
| "truthy (JBool b) = b"
| "truthy (JInt n) = (n \<noteq> 0)"
| "truthy (JFloat q _) = (q \<noteq> Some 0)"
| "truthy (JStr s) = (s \<noteq> [])"
| "truthy (JOther _ e) = (\<not> e)"

definition get_or :: "message \<Rightarrow> str \<Rightarrow> jv \<Rightarrow> jv" where
  "get_or m k d = (case dget m k of None \<Rightarrow> d | Some v \<Rightarrow> v)"

section \<open>Nodes\<close>

definition NODE_TIMEOUT :: time where "NODE_TIMEOUT = 35"
definition MAX_MESSAGE :: nat where "MAX_MESSAGE = 65000"
definition YIELD_PRIORITY :: int where "YIELD_PRIORITY = 1"

record node =
  nd_name :: str
  nd_address :: str
  nd_priority :: int
  nd_effective :: int
  nd_state :: str
  nd_queries :: int
  nd_blocked :: int
  nd_entries :: int
  nd_last_seen :: time

definition node_alive :: "time \<Rightarrow> node \<Rightarrow> bool" where
  "node_alive now n = (now - nd_last_seen n < NODE_TIMEOUT)"

record cluster_config =
  cl_enabled :: bool
  cl_address :: str
  cl_peers :: "str list"
  cl_priority :: int
  yield_when_idle :: bool
  idle_after :: int
  yield_on_battery :: bool
  share_cache :: bool
  cl_secret :: str

record cluster =
  cl_conf :: cluster_config
  cl_self :: str
  nodes :: "(str, node) dict"
  cl_cache :: dns_cache
  marked_busy_at :: time
  cl_running :: bool
  cl_state :: str
  yield_reason :: str
  shared_in :: nat
  shared_out :: nat
  rejected :: nat

definition new_cluster :: "cluster_config \<Rightarrow> str \<Rightarrow> dns_cache \<Rightarrow> time \<Rightarrow> cluster" where
  "new_cluster conf self c now =
     \<lparr>cl_conf = conf, cl_self = self, nodes = [], cl_cache = c, marked_busy_at = now, cl_running = False,
      cl_state = ''active'', yield_reason = [], shared_in = 0, shared_out = 0, rejected = 0\<rparr>"

definition start_cluster :: "cluster \<Rightarrow> cluster \<times> unit res" where
  "start_cluster s =
     (if \<not> cl_enabled (cl_conf s) then (s, Inr ())
      else if cl_secret (cl_conf s) = [] then (s, Inl ValueError)
      else (s\<lparr>cl_running := True\<rparr>, Inr ()))"

section \<open>Idling and priority\<close>

text \<open>What the machine says: its clock, whether it runs on battery, and the idle time in milliseconds, if known.\<close>

record signals =
  sg_now :: time
  sg_battery :: bool
  sg_idle_ms :: "nat option"

definition mark_busy :: "time \<Rightarrow> cluster \<Rightarrow> cluster" where "mark_busy now s = s\<lparr>marked_busy_at := now\<rparr>"

definition seconds_idle :: "signals \<Rightarrow> cluster \<Rightarrow> time" where
  "seconds_idle g s = (case sg_idle_ms g of Some ms \<Rightarrow> of_nat ms / 1000 | None \<Rightarrow> sg_now g - marked_busy_at s)"

definition should_yield :: "signals \<Rightarrow> cluster \<Rightarrow> bool \<times> str" where
  "should_yield g s =
     (if yield_on_battery (cl_conf s) \<and> sg_battery g then (True, ''on battery'')
      else let idle = seconds_idle g s in
        if of_int (idle_after (cl_conf s)) \<le> idle then (True, ''idle for '' @ dec_int (py_int idle) @ ''s'')
        else (False, []))"

definition effective_priority :: "signals \<Rightarrow> cluster \<Rightarrow> cluster \<times> int" where
  "effective_priority g s =
     (if \<not> yield_when_idle (cl_conf s) then (s\<lparr>cl_state := ''active'', yield_reason := []\<rparr>, cl_priority (cl_conf s))
      else let (yielding, reason) = should_yield g s in
        if yielding then (s\<lparr>cl_state := ''yielding'', yield_reason := reason\<rparr>, YIELD_PRIORITY)
        else (s\<lparr>cl_state := ''active'', yield_reason := []\<rparr>, cl_priority (cl_conf s)))"

section \<open>The order clients are given\<close>

type_synonym candidate = "int \<times> str \<times> str"

definition order_key :: "candidate \<Rightarrow> int \<times> str" where
  "order_key = (\<lambda>(prio, name, _). (- prio, name))"

definition peer_candidates :: "time \<Rightarrow> str \<Rightarrow> cluster \<Rightarrow> candidate list" where
  "peer_candidates now mine s =
     map (\<lambda>n. (nd_effective n, nd_name n, nd_address n))
       (filter (\<lambda>n. node_alive now n \<and> nd_address n \<noteq> [] \<and> nd_address n \<noteq> mine) (dvals (nodes s)))"

definition append_missing :: "str list \<Rightarrow> str list \<Rightarrow> str list" where
  "append_missing = fold (\<lambda>a acc. if a \<in> set acc then acc else acc @ [a])"

definition resolver_order :: "signals \<Rightarrow> str list \<Rightarrow> cluster \<Rightarrow> cluster \<times> str list" where
  "resolver_order g fallback s =
     (let mine = (if cl_address (cl_conf s) \<noteq> [] then cl_address (cl_conf s)
                  else case fallback of [] \<Rightarrow> [] | a # _ \<Rightarrow> a);
          (s, own) = (if mine \<noteq> [] then (let (s, p) = effective_priority g s in (s, [(p, cl_self s, mine)])) else (s, []));
          ordered = map (\<lambda>(_, _, a). a) (sort_key order_key (own @ peer_candidates (sg_now g) mine s))
      in (s, append_missing fallback ordered))"

definition is_preferred :: "signals \<Rightarrow> cluster \<Rightarrow> cluster \<times> bool" where
  "is_preferred g s =
     (let (s, order) = resolver_order g [] s in
      (s, case order of [] \<Rightarrow> False | a # _ \<Rightarrow> a = cl_address (cl_conf s)))"

section \<open>Messages\<close>

text \<open>
  The parameters: JSON text of a message and back, the envelope of a body and its hash as bytes and
  back, the keyed hash, and base64.
\<close>

record codecs =
  dump_body :: "message \<Rightarrow> str"
  load_body :: "str \<Rightarrow> message option"
  dump_envelope :: "str \<Rightarrow> str \<Rightarrow> bytes"
  load_envelope :: "bytes \<Rightarrow> message option"
  keyed_hash :: "str \<Rightarrow> str \<Rightarrow> str"
  b64encode :: "bytes \<Rightarrow> str"
  b64decode :: "str \<Rightarrow> bytes res"

definition sign :: "codecs \<Rightarrow> cluster \<Rightarrow> message \<Rightarrow> str \<times> str" where
  "sign cd s m = (let body = dump_body cd m in (body, keyed_hash cd (cl_secret (cl_conf s)) body))"

definition verify :: "codecs \<Rightarrow> message \<Rightarrow> cluster \<Rightarrow> cluster \<times> message option" where
  "verify cd envelope s =
     (case (dget envelope ''body'', dget envelope ''mac'') of
        (Some (JStr body), Some (JStr mac)) \<Rightarrow>
          if keyed_hash cd (cl_secret (cl_conf s)) body \<noteq> mac then (s\<lparr>rejected := rejected s + 1\<rparr>, None)
          else (s, load_body cd body)
      | _ \<Rightarrow> (s, None))"

text \<open>What is sent, and to whom.\<close>

definition send :: "codecs \<Rightarrow> cluster \<Rightarrow> message \<Rightarrow> (str \<times> bytes) list" where
  "send cd s m =
     (if \<not> cl_running s then []
      else let (body, mac) = sign cd s m; envelope = dump_envelope cd body mac in
        if MAX_MESSAGE < length envelope then [] else map (\<lambda>p. (p, envelope)) (cl_peers (cl_conf s)))"

definition heartbeat :: "signals \<Rightarrow> int \<Rightarrow> int \<Rightarrow> str \<Rightarrow> cluster \<Rightarrow> cluster \<times> message" where
  "heartbeat g queries blocked ts s =
     (let (s, p) = effective_priority g s in
      (s, [(''type'', JStr ''beat''), (''node'', JStr (cl_self s)), (''address'', JStr (cl_address (cl_conf s))),
           (''priority'', JInt (cl_priority (cl_conf s))), (''effective_priority'', JInt p),
           (''state'', JStr (cl_state s)), (''queries'', JInt queries), (''blocked'', JInt blocked),
           (''cache_entries'', JInt (int (length (entries (cl_cache s))))), (''ts'', JFloat (Some (sg_now g)) ts)]))"

definition beat_fields :: "message \<Rightarrow> (int \<times> int \<times> int \<times> int \<times> int) res" where
  "beat_fields m =
     (let num = (\<lambda>k d. py_int_of (get_or m k (JInt d))) in
      rbind (num ''priority'' 50) (\<lambda>p. rbind (num ''effective_priority'' 50) (\<lambda>ep.
      rbind (num ''queries'' 0) (\<lambda>q. rbind (num ''blocked'' 0) (\<lambda>b.
      rbind (num ''cache_entries'' 0) (\<lambda>c. Inr (p, ep, q, b, c)))))))"

definition beat_name :: "message \<Rightarrow> str" where "beat_name m = py_str (get_or m ''node'' (JStr []))"

definition beat_node :: "time \<Rightarrow> message \<Rightarrow> str \<Rightarrow> node res" where
  "beat_node now m sender =
     (let address = get_or m ''address'' JNull in
      rbind (beat_fields m) (\<lambda>(p, ep, q, b, c).
        Inr \<lparr>nd_name = beat_name m, nd_address = (if truthy address then py_str address else sender),
             nd_priority = p, nd_effective = ep, nd_state = py_str (get_or m ''state'' (JStr ''active'')),
             nd_queries = q, nd_blocked = b, nd_entries = c, nd_last_seen = now\<rparr>))"

definition on_beat :: "time \<Rightarrow> message \<Rightarrow> str \<Rightarrow> cluster \<Rightarrow> cluster \<times> unit res" where
  "on_beat now m sender s =
     (if beat_name m = [] \<or> beat_name m = cl_self s then (s, Inr ())
      else case beat_node now m sender of
        Inl e \<Rightarrow> (s, Inl e)
      | Inr n \<Rightarrow> (s\<lparr>nodes := dset (beat_name m) n (nodes s)\<rparr>, Inr ()))"

text \<open>A shared answer is put only if its own question is the one it is offered for.\<close>

definition b64_value :: "codecs \<Rightarrow> jv \<Rightarrow> bytes res" where
  "b64_value cd v = (case v of JStr t \<Rightarrow> b64decode cd t | _ \<Rightarrow> Inl TypeError)"

definition shared_fields :: "codecs \<Rightarrow> message \<Rightarrow> (str \<times> int \<times> int \<times> bytes) res" where
  "shared_fields cd m =
     (case (dget m ''name'', dget m ''qtype'', dget m ''qclass'', dget m ''wire'') of
        (Some n, Some t, Some c, Some w) \<Rightarrow>
          rbind (py_int_of t) (\<lambda>t. rbind (py_int_of c) (\<lambda>c. rbind (b64_value cd w) (\<lambda>w. Inr (py_str n, t, c, w))))
      | _ \<Rightarrow> Inl KeyError)"

definition absorb_cache :: "codecs \<Rightarrow> time \<Rightarrow> message \<Rightarrow> cluster \<Rightarrow> cluster \<times> unit res" where
  "absorb_cache cd now m s =
     (case shared_fields cd m of
        Inl e \<Rightarrow> (s, if e \<in> {KeyError, ValueError, TypeError} then Inr () else Inl e)
      | Inr (name, qt, qc, w) \<Rightarrow>
          (case first_question w of
             Inl e \<Rightarrow> (s, if e = DNSFormatError then Inr () else Inl e)
           | Inr None \<Rightarrow> (s\<lparr>rejected := rejected s + 1\<rparr>, Inr ())
           | Inr (Some q) \<Rightarrow>
               if qname q \<noteq> lower (strip_dots name) then (s\<lparr>rejected := rejected s + 1\<rparr>, Inr ())
               else if uint (qtype q) \<noteq> qt \<or> uint (qclass q) \<noteq> qc then (s\<lparr>rejected := rejected s + 1\<rparr>, Inr ())
               else
                 let (c, t) = cache_put (cl_cache s) now
                       \<lparr>ck_name = name, ck_qtype = qtype q, ck_qclass = qclass q, ck_dnssec = False\<rparr> w None
                 in (s\<lparr>cl_cache := c, shared_in := shared_in s + (if t \<noteq> 0 then 1 else 0)\<rparr>, Inr ())))"

definition handle_message :: "codecs \<Rightarrow> time \<Rightarrow> message \<Rightarrow> str \<Rightarrow> cluster \<Rightarrow> cluster \<times> unit res" where
  "handle_message cd now m sender s =
     (case dget m ''type'' of
        Some (JStr kind) \<Rightarrow>
          if kind = ''beat'' then on_beat now m sender s
          else if kind = ''bye'' then (s\<lparr>nodes := ddel (py_str (get_or m ''node'' (JStr []))) (nodes s)\<rparr>, Inr ())
          else if kind = ''cache'' \<and> share_cache (cl_conf s) then absorb_cache cd now m s
          else (s, Inr ())
      | _ \<Rightarrow> (s, Inr ()))"

definition receive :: "codecs \<Rightarrow> time \<Rightarrow> bytes \<Rightarrow> str \<Rightarrow> cluster \<Rightarrow> cluster \<times> unit res" where
  "receive cd now payload sender s =
     (case load_envelope cd payload of
        None \<Rightarrow> (s, Inr ())
      | Some envelope \<Rightarrow>
          (case verify cd envelope s of
             (s, None) \<Rightarrow> (s, Inr ())
           | (s, Some m) \<Rightarrow> handle_message cd now m sender s))"

text \<open>One turn of the listener: whatever a packet raises is counted and the thread goes on.\<close>

definition listen_one :: "codecs \<Rightarrow> time \<Rightarrow> bytes \<Rightarrow> str \<Rightarrow> cluster \<Rightarrow> cluster" where
  "listen_one cd now payload sender s =
     (case receive cd now payload sender s of
        (s, Inr _) \<Rightarrow> s
      | (s, Inl _) \<Rightarrow> s\<lparr>rejected := rejected s + 1\<rparr>)"

definition share_message :: "codecs \<Rightarrow> cluster \<Rightarrow> cache_key \<Rightarrow> bytes \<Rightarrow> message" where
  "share_message cd s key w =
     [(''type'', JStr ''cache''), (''node'', JStr (cl_self s)), (''name'', JStr (ck_name key)),
      (''qtype'', JInt (uint (ck_qtype key))), (''qclass'', JInt (uint (ck_qclass key))),
      (''wire'', JStr (b64encode cd w))]"

definition share :: "codecs \<Rightarrow> cache_key \<Rightarrow> bytes \<Rightarrow> cluster \<Rightarrow> cluster \<times> (str \<times> bytes) list" where
  "share cd key w s =
     (if \<not> cl_enabled (cl_conf s) \<or> \<not> share_cache (cl_conf s) \<or> \<not> cl_running s then (s, [])
      else if 1400 < length w then (s, [])
      else (s\<lparr>shared_out := shared_out s + 1\<rparr>, send cd s (share_message cd s key w)))"

text \<open>The parting message is sent while the socket is still there.\<close>

definition stop_cluster :: "codecs \<Rightarrow> cluster \<Rightarrow> cluster \<times> (str \<times> bytes) list" where
  "stop_cluster cd s =
     (s\<lparr>cl_running := False\<rparr>, send cd s [(''type'', JStr ''bye''), (''node'', JStr (cl_self s))])"

section \<open>Only authenticated messages\<close>

text \<open>A packet is authentic if its envelope parses to a body with the keyed hash of that body.\<close>

definition authentic :: "codecs \<Rightarrow> str \<Rightarrow> bytes \<Rightarrow> bool" where
  "authentic cd secret p =
     (case load_envelope cd p of
        None \<Rightarrow> False
      | Some e \<Rightarrow>
          (case dget e ''body'' of
             Some (JStr body) \<Rightarrow> dget e ''mac'' = Some (JStr (keyed_hash cd secret body))
           | _ \<Rightarrow> False))"

lemma verify_cases:
  "verify cd e s = (s, None)
   \<or> verify cd e s = (s\<lparr>rejected := rejected s + 1\<rparr>, None)
   \<or> (\<exists>body. dget e ''body'' = Some (JStr body) \<and> dget e ''mac'' = Some (JStr (keyed_hash cd (cl_secret (cl_conf s)) body))
        \<and> verify cd e s = (s, load_body cd body))"
proof (cases "\<exists>body mac. dget e ''body'' = Some (JStr body) \<and> dget e ''mac'' = Some (JStr mac)")
  case True
  then obtain body mac where "dget e ''body'' = Some (JStr body)" "dget e ''mac'' = Some (JStr mac)" by blast
  then show ?thesis by (cases "keyed_hash cd (cl_secret (cl_conf s)) body = mac") (simp_all add: verify_def)
next
  case False
  then have "verify cd e s = (s, None)" by (auto simp: verify_def split: option.split jv.split)
  then show ?thesis by blast
qed

text \<open>
  C21: Without the secret nothing can be changed: a packet that is not authentic leaves the node as it was,
  apart from the count of rejected messages.
\<close>

theorem unsigned_packet_changes_nothing:
  assumes "\<not> authentic cd (cl_secret (cl_conf s)) p"
  shows "\<exists>n \<le> rejected s + 1. listen_one cd now p sender s = s\<lparr>rejected := n\<rparr>"
proof (cases "load_envelope cd p")
  case None
  then show ?thesis by (intro exI [of _ "rejected s"]) (simp add: listen_one_def receive_def)
next
  case (Some e)
  consider "verify cd e s = (s, None)" | "verify cd e s = (s\<lparr>rejected := rejected s + 1\<rparr>, None)"
    using verify_cases [of cd e s] assms unfolding authentic_def Some by auto
  then show ?thesis
  proof cases
    case 1
    then show ?thesis by (intro exI [of _ "rejected s"]) (simp add: listen_one_def receive_def Some)
  next
    case 2
    then show ?thesis by (intro exI [of _ "rejected s + 1"]) (simp add: listen_one_def receive_def Some)
  qed
qed

section \<open>The invariant\<close>

definition cluster_inv :: "cluster \<Rightarrow> bool" where
  "cluster_inv s = (dict_ok (nodes s) \<and> (\<forall>(k, n) \<in> set (nodes s). nd_name n = k \<and> k \<noteq> cl_self s \<and> k \<noteq> [])
     \<and> cache_inv (cl_cache s))"

lemma cluster_inv_frame:
  "nodes s' = nodes s \<Longrightarrow> cl_self s' = cl_self s \<Longrightarrow> cl_cache s' = cl_cache s \<Longrightarrow> cluster_inv s \<Longrightarrow> cluster_inv s'"
  by (simp add: cluster_inv_def)

lemma cluster_inv_new_node:
  assumes "cluster_inv s" "nd_name n \<noteq> cl_self s" "nd_name n \<noteq> []"
  shows "cluster_inv (s\<lparr>nodes := dset (nd_name n) n (nodes s)\<rparr>)"
proof -
  have "set (dset (nd_name n) n (nodes s)) \<subseteq> insert (nd_name n, n) (set (nodes s))" by (rule set_dset_subset)
  then show ?thesis using assms by (fastforce simp: cluster_inv_def)
qed

lemma beat_node_name: "beat_node now m sender = Inr n \<Longrightarrow> nd_name n = beat_name m \<and> nd_last_seen n = now"
  unfolding beat_node_def Let_def rbind_Inr_iff by (auto split: prod.splits)

lemma on_beat_inv:
  assumes "cluster_inv s"
  shows "cluster_inv (fst (on_beat now m sender s))"
proof (cases "beat_node now m sender")
  case (Inr n)
  then show ?thesis using cluster_inv_new_node [OF assms, of n] beat_node_name [OF Inr] assms
    by (simp add: on_beat_def)
qed (simp add: on_beat_def assms)

text \<open>A shared message either changes a counter or puts an answer under the key of its own question.\<close>

definition own_question :: "bytes \<Rightarrow> cache_key \<Rightarrow> bool" where
  "own_question w k =
     (\<not> ck_dnssec k \<and> first_question w =
        Inr (Some \<lparr>qname = lower (strip_dots (ck_name k)), qtype = ck_qtype k, qclass = ck_qclass k\<rparr>))"

lemma absorb_cache_cases:
  obtains n where "fst (absorb_cache cd now m s) = s\<lparr>rejected := n\<rparr>"
  | k w n where "own_question w k"
      "fst (absorb_cache cd now m s) = s\<lparr>cl_cache := fst (cache_put (cl_cache s) now k w None), shared_in := n\<rparr>"
proof (cases "\<exists>name qt qc w q. shared_fields cd m = Inr (name, qt, qc, w) \<and> first_question w = Inr (Some q)
    \<and> qname q = lower (strip_dots name) \<and> uint (qtype q) = qt \<and> uint (qclass q) = qc")
  case True
  then obtain name w q where f: "shared_fields cd m = Inr (name, uint (qtype q), uint (qclass q), w)"
    and q: "first_question w = Inr (Some q)" "qname q = lower (strip_dots name)" by blast
  let ?k = "\<lparr>ck_name = name, ck_qtype = qtype q, ck_qclass = qclass q, ck_dnssec = False\<rparr>"
  obtain c t where p: "cache_put (cl_cache s) now ?k w None = (c, t)" by (rule prod.exhaust)
  have "own_question w ?k" by (cases q) (use q in \<open>simp add: own_question_def\<close>)
  moreover have "fst (absorb_cache cd now m s) =
      s\<lparr>cl_cache := fst (cache_put (cl_cache s) now ?k w None), shared_in := shared_in s + (if t \<noteq> 0 then 1 else 0)\<rparr>"
    by (simp add: absorb_cache_def f q p)
  ultimately show thesis by (rule that(2))
next
  case False
  have "\<exists>n. fst (absorb_cache cd now m s) = s\<lparr>rejected := n\<rparr>"
  proof (cases "shared_fields cd m")
    case (Inl e)
    then show ?thesis by (intro exI [of _ "rejected s"]) (simp add: absorb_cache_def)
  next
    case (Inr r)
    obtain name qt qc w where r: "r = (name, qt, qc, w)" by (rule prod_cases4)
    show ?thesis
    proof (cases "first_question w")
      case (Inl e)
      then show ?thesis by (intro exI [of _ "rejected s"]) (simp add: absorb_cache_def Inr r)
    next
      case fq: (Inr oq)
      show ?thesis by (intro exI [of _ "rejected s + 1"], cases oq)
        (use False in \<open>auto simp: absorb_cache_def Inr r fq\<close>)
    qed
  qed
  then show thesis using that(1) by blast
qed

lemma absorb_cache_inv: "cluster_inv s \<Longrightarrow> cluster_inv (fst (absorb_cache cd now m s))"
  by (rule absorb_cache_cases [of cd now m s]) (simp_all add: cluster_inv_def cache_inv_put)

lemma handle_message_inv: "cluster_inv s \<Longrightarrow> cluster_inv (fst (handle_message cd now m sender s))"
proof -
  assume i: "cluster_inv s"
  then have "cluster_inv (s\<lparr>nodes := ddel k (nodes s)\<rparr>)" for k by (auto simp: cluster_inv_def set_ddel)
  then show ?thesis using i
    by (simp add: handle_message_def on_beat_inv absorb_cache_inv split: option.split jv.split)
qed

lemma verify_inv: "cluster_inv s \<Longrightarrow> cluster_inv (fst (verify cd e s))"
  using verify_cases [of cd e s] cluster_inv_frame [of "s\<lparr>rejected := rejected s + 1\<rparr>" s] by auto

lemma listen_one_inv: "cluster_inv s \<Longrightarrow> cluster_inv (listen_one cd now p sender s)"
proof -
  assume i: "cluster_inv s"
  have "cluster_inv (fst (receive cd now p sender s))"
  proof (cases "load_envelope cd p")
    case (Some e)
    obtain s' om where v: "verify cd e s = (s', om)" by (rule prod.exhaust)
    then show ?thesis using verify_inv [OF i, of cd e] by (cases om) (simp_all add: receive_def Some handle_message_inv)
  qed (simp add: receive_def i)
  then show ?thesis
    by (cases "receive cd now p sender s"; cases "snd (receive cd now p sender s)") (auto simp: listen_one_def cluster_inv_def)
qed

text \<open>What a node does over its life: packets arrive, answers are shared, it is asked for the order.\<close>

datatype cluster_op =
    Packet codecs time bytes str
  | Share codecs cache_key bytes
  | Order signals "str list"
  | Busy time

fun cluster_step :: "cluster_op \<Rightarrow> cluster \<Rightarrow> cluster" where
  "cluster_step (Packet cd now p sender) s = listen_one cd now p sender s"
| "cluster_step (Share cd k w) s = fst (share cd k w s)"
| "cluster_step (Order g fallback) s = fst (resolver_order g fallback s)"
| "cluster_step (Busy now) s = mark_busy now s"

lemma effective_priority_frame:
  "nodes (fst (effective_priority g s)) = nodes s \<and> cl_self (fst (effective_priority g s)) = cl_self s
   \<and> cl_cache (fst (effective_priority g s)) = cl_cache s \<and> cl_conf (fst (effective_priority g s)) = cl_conf s"
  by (simp add: effective_priority_def case_prod_beta Let_def)

lemma resolver_order_state:
  "fst (resolver_order g fallback s) = s \<or> fst (resolver_order g fallback s) = fst (effective_priority g s)"
  by (simp add: resolver_order_def case_prod_beta Let_def)

lemma resolver_order_conf: "cl_conf (fst (resolver_order g fallback s)) = cl_conf s"
  using resolver_order_state [of g fallback s] effective_priority_frame [of g s] by auto

lemma cluster_step_inv: "cluster_inv s \<Longrightarrow> cluster_inv (cluster_step op s)"
proof (cases op)
  case (Order g fallback)
  assume "cluster_inv s"
  then have "cluster_inv (fst (effective_priority g s))"
    using effective_priority_frame [of g s] by (auto intro: cluster_inv_frame [of _ s])
  then show ?thesis using resolver_order_state [of g fallback s] \<open>cluster_inv s\<close> Order by auto
next
  case (Packet cd now p sender)
  then show "cluster_inv s \<Longrightarrow> ?thesis" by (simp add: listen_one_inv)
qed (auto simp: share_def mark_busy_def cluster_inv_def)

text \<open>
  Over every run, whatever packets arrive, a node lists every other node at most once, under its own
  name, and never itself; and its cache keeps its invariant.
\<close>

theorem cluster_invariant:
  assumes "cache_inv c"
  shows "cluster_inv (fold cluster_step ops (new_cluster conf self c now))"
proof -
  have "cluster_inv (fold cluster_step ops s)" if "cluster_inv s" for s
    using that by (induction ops arbitrary: s) (simp_all add: cluster_step_inv)
  then show ?thesis using assms by (simp add: new_cluster_def cluster_inv_def)
qed

section \<open>Agreement on the order\<close>

text \<open>
  The members as one node sees them: itself with its priority of the moment, and the nodes it takes to
  be alive.
\<close>

definition members :: "signals \<Rightarrow> cluster \<Rightarrow> candidate list" where
  "members g s = (snd (effective_priority g s), cl_self s, cl_address (cl_conf s))
     # peer_candidates (sg_now g) (cl_address (cl_conf s)) s"

lemma peer_candidates_frame:
  "nodes s' = nodes s \<Longrightarrow> peer_candidates now mine s' = peer_candidates now mine s"
  by (simp add: peer_candidates_def)

lemma resolver_order_members:
  assumes "cl_address (cl_conf s) \<noteq> []"
  shows "snd (resolver_order g fallback s) =
    append_missing fallback (map (\<lambda>(_, _, a). a) (sort_key order_key (members g s)))"
  using assms effective_priority_frame [of g s] peer_candidates_frame [of "fst (effective_priority g s)" s]
  by (simp add: resolver_order_def members_def case_prod_beta Let_def)

lemma append_missing_Nil [simp]: "append_missing [] xs = xs" by (simp add: append_missing_def)

lemma sort_members_eq:
  assumes "mset a = mset b" "distinct (map (\<lambda>(_, n, _). n) a)"
  shows "sort_key order_key a = sort_key order_key b"
proof (rule sort_key_inj_key_eq [OF _ _ sorted_sort_key])
  show "mset a = mset (sort_key order_key b)" by (simp add: assms(1))
  show "inj_on order_key (set a)"
  proof (rule inj_onI)
    fix x y assume "x \<in> set a" "y \<in> set a" "order_key x = order_key y"
    moreover from this have "(\<lambda>(_, n, _). n) x = (\<lambda>(_, n, _). n) y" by (auto simp: order_key_def split: prod.splits)
    ultimately show "x = y" using assms(2) unfolding distinct_map by (blast dest: inj_onD)
  qed
qed

text \<open>
  Nodes need not negotiate: two nodes that see the same members, in whatever order they learned of
  them, hand out the same list; and among members with different addresses, a node takes itself to be
  preferred exactly if its address is the head of that list.
\<close>

theorem nodes_agree_on_order:
  assumes "mset (members g s) = mset (members g' s')" and "distinct (map (\<lambda>(_, n, _). n) (members g s))"
    and "cl_address (cl_conf s) \<noteq> []" and "cl_address (cl_conf s') \<noteq> []"
  shows "snd (resolver_order g fallback s) = snd (resolver_order g' fallback s')
     \<and> (snd (is_preferred g s) \<longleftrightarrow> hd (snd (resolver_order g' [] s')) = cl_address (cl_conf s))"
proof -
  have o: "sort_key order_key (members g s) = sort_key order_key (members g' s')"
    by (rule sort_members_eq [OF assms(1,2)])
  then have e: "snd (resolver_order g f s) = snd (resolver_order g' f s')" for f
    by (simp add: resolver_order_members assms(3,4))
  have "sort_key order_key (members g s) \<noteq> []" by (simp add: members_def flip: length_0_conv)
  then obtain a as where "snd (resolver_order g [] s) = a # as"
    by (cases "sort_key order_key (members g s)") (simp_all add: resolver_order_members assms(3) case_prod_beta)
  then show ?thesis using e [of fallback] e [of "[]"]
    by (simp add: is_preferred_def resolver_order_conf case_prod_beta Let_def)
qed

section \<open>Sharing an answer\<close>

text \<open>What the libraries promise of a message: its text and its envelope are read back.\<close>

definition reads_back :: "codecs \<Rightarrow> cluster \<Rightarrow> message \<Rightarrow> bool" where
  "reads_back cd s m =
     (load_body cd (dump_body cd m) = Some m \<and>
      (case sign cd s m of (b, h) \<Rightarrow> load_envelope cd (dump_envelope cd b h) = Some [(''body'', JStr b), (''mac'', JStr h)]))"

lemma sent_is_handled:
  assumes "reads_back cd s m" "cl_secret (cl_conf s') = cl_secret (cl_conf s)" "(peer, p) \<in> set (send cd s m)"
  shows "receive cd now p sender s' = handle_message cd now m sender s'"
proof -
  obtain b h where sg: "sign cd s m = (b, h)" by (rule prod.exhaust)
  have p: "p = dump_envelope cd b h" using assms(3) by (auto simp: send_def sg Let_def split: if_splits)
  have e: "load_envelope cd p = Some [(''body'', JStr b), (''mac'', JStr h)]" "load_body cd b = Some m"
    using assms(1) sg by (auto simp: reads_back_def p sign_def Let_def)
  have "verify cd [(''body'', JStr b), (''mac'', JStr h)] s' = (s', Some m)"
    using sg assms(2) e(2) by (auto simp: verify_def sign_def Let_def)
  then show ?thesis by (simp add: receive_def e(1))
qed

text \<open>
  An answer one node resolved is in the other's cache, exactly as if that node had put it there itself.
\<close>

theorem shared_answer_is_absorbed:
  assumes "reads_back cd s (share_message cd s key w)" and "b64decode cd (b64encode cd w) = Inr w"
    and "cl_secret (cl_conf s') = cl_secret (cl_conf s)" and "share_cache (cl_conf s')"
    and "(peer, p) \<in> set (snd (share cd key w s))"
    and "first_question w = Inr (Some \<lparr>qname = lower (strip_dots (ck_name key)), qtype = ck_qtype key, qclass = ck_qclass key\<rparr>)"
  shows "cl_cache (listen_one cd now p sender s') =
     fst (cache_put (cl_cache s') now (key\<lparr>ck_dnssec := False\<rparr>) w None)"
proof -
  let ?m = "share_message cd s key w"
  have "(peer, p) \<in> set (send cd s ?m)" using assms(5) by (auto simp: share_def split: if_splits)
  note r = sent_is_handled [OF assms(1,3) this, of now sender]
  have f: "shared_fields cd ?m = Inr (ck_name key, uint (ck_qtype key), uint (ck_qclass key), w)"
    using assms(2) by (simp add: shared_fields_def share_message_def b64_value_def)
  have h: "handle_message cd now ?m sender s' = absorb_cache cd now ?m s'"
    using assms(4) by (simp add: handle_message_def share_message_def)
  have k: "\<lparr>ck_name = ck_name key, ck_qtype = ck_qtype key, ck_qclass = ck_qclass key, ck_dnssec = False\<rparr> =
      key\<lparr>ck_dnssec := False\<rparr>" by (cases key) simp
  obtain c t where c: "cache_put (cl_cache s') now (key\<lparr>ck_dnssec := False\<rparr>) w None = (c, t)" by (rule prod.exhaust)
  show ?thesis by (simp add: listen_one_def r h absorb_cache_def f assms(6) k c)
qed

text \<open>
  A beat makes its sender known and alive at whatever time it is heard: it carries the time it was
  sent, but nobody reads it, so the same bytes heard again revive a node that is long gone.
\<close>

lemma replayed_beat_revives:
  assumes "reads_back cd s (snd (heartbeat g queries blocked ts s))" "cl_secret (cl_conf s') = cl_secret (cl_conf s)"
    and "(peer, p) \<in> set (send cd s (snd (heartbeat g queries blocked ts s)))"
    and "cl_self s \<noteq> []" "cl_self s \<noteq> cl_self s'"
  shows "\<exists>n. dget (nodes (listen_one cd t p sender s')) (cl_self s) = Some n \<and> node_alive t n"
proof -
  let ?m = "snd (heartbeat g queries blocked ts s)"
  have m: "dget ?m ''type'' = Some (JStr ''beat'')" "beat_name ?m = cl_self s"
    using effective_priority_frame [of g s]
    by (simp_all add: heartbeat_def case_prod_beta Let_def beat_name_def get_or_def)
  have "\<exists>f. beat_fields ?m = Inr f"
    by (simp add: heartbeat_def case_prod_beta Let_def beat_fields_def get_or_def)
  then obtain n where n: "beat_node t ?m sender = Inr n"
    by (cases "beat_fields ?m") (auto simp: beat_node_def Let_def split: prod.splits)
  have "listen_one cd t p sender s' = s'\<lparr>nodes := dset (cl_self s) n (nodes s')\<rparr>"
    using sent_is_handled [OF assms(1-3), of t sender] assms(4,5) m
    by (simp add: listen_one_def handle_message_def on_beat_def n)
  then show ?thesis using beat_node_name [OF n] by (simp add: node_alive_def NODE_TIMEOUT_def)
qed

text \<open>An answer with DNSSEC records is absorbed under the key of answers without.\<close>

lemma signed_answer_loses_its_key: "own_question w k \<Longrightarrow> \<not> ck_dnssec k"
  by (simp add: own_question_def)

section \<open>The properties at concrete inputs\<close>

definition demo_cluster_codecs :: codecs where
  "demo_cluster_codecs = \<lparr>dump_body = (\<lambda>_. ''x''),
     load_body = (\<lambda>_. Some [(''type'', JStr ''bye''), (''node'', JStr ''b'')]),
     dump_envelope = (\<lambda>b h. []), load_envelope = (\<lambda>_. Some [(''body'', JStr ''x''), (''mac'', JStr ''y'')]),
     keyed_hash = (\<lambda>k b. k @ b), b64encode = (\<lambda>_. []), b64decode = (\<lambda>_. Inl ValueError)\<rparr>"

definition demo_cluster_config :: "str \<Rightarrow> int \<Rightarrow> cluster_config" where
  "demo_cluster_config a prio = \<lparr>cl_enabled = True, cl_address = a, cl_peers = [''10.0.0.2''], cl_priority = prio,
     yield_when_idle = False, idle_after = 300, yield_on_battery = False, share_cache = True, cl_secret = ''k''\<rparr>"

definition demo_node :: "str \<Rightarrow> str \<Rightarrow> int \<Rightarrow> node" where
  "demo_node n a prio = \<lparr>nd_name = n, nd_address = a, nd_priority = prio, nd_effective = prio, nd_state = ''active'',
     nd_queries = 0, nd_blocked = 0, nd_entries = 0, nd_last_seen = 0\<rparr>"

definition demo_cluster :: "str \<Rightarrow> str \<Rightarrow> int \<Rightarrow> (str, node) dict \<Rightarrow> cluster" where
  "demo_cluster n a prio d =
     (new_cluster (demo_cluster_config a prio) n (new_cache default_cache_config False) 0)\<lparr>nodes := d, cl_running := True\<rparr>"

definition demo_signals :: signals where "demo_signals = \<lparr>sg_now = 1, sg_battery = False, sg_idle_ms = None\<rparr>"

lemma unsigned_packet_changes_nothing_witness:
  "\<exists>n \<le> 1. listen_one demo_cluster_codecs 1 [7] ''10.0.0.9'' (demo_cluster ''a'' ''10.0.0.1'' 50 []) =
     (demo_cluster ''a'' ''10.0.0.1'' 50 [])\<lparr>rejected := n\<rparr>"
proof -
  have "\<not> authentic demo_cluster_codecs (cl_secret (cl_conf (demo_cluster ''a'' ''10.0.0.1'' 50 []))) [7]"
    by (simp add: authentic_def demo_cluster_codecs_def demo_cluster_def new_cluster_def demo_cluster_config_def)
  from unsigned_packet_changes_nothing [OF this] show ?thesis by (simp add: demo_cluster_def new_cluster_def)
qed

lemma cluster_invariant_witness:
  "cluster_inv (fold cluster_step [Busy 3, Packet demo_cluster_codecs 4 [1] ''10.0.0.9'']
     (new_cluster (demo_cluster_config ''10.0.0.1'' 50) ''a'' (new_cache default_cache_config False) 0))"
  by (rule cluster_invariant) (rule cache_inv_new)

lemma nodes_agree_on_order_witness:
  "snd (resolver_order demo_signals [] (demo_cluster ''a'' ''10.0.0.1'' 50 [(''b'', demo_node ''b'' ''10.0.0.2'' 80)])) =
   snd (resolver_order demo_signals [] (demo_cluster ''b'' ''10.0.0.2'' 80 [(''a'', demo_node ''a'' ''10.0.0.1'' 50)]))"
proof -
  have m: "members demo_signals (demo_cluster ''a'' ''10.0.0.1'' 50 [(''b'', demo_node ''b'' ''10.0.0.2'' 80)]) =
      [(50, ''a'', ''10.0.0.1''), (80, ''b'', ''10.0.0.2'')]"
    "members demo_signals (demo_cluster ''b'' ''10.0.0.2'' 80 [(''a'', demo_node ''a'' ''10.0.0.1'' 50)]) =
      [(80, ''b'', ''10.0.0.2''), (50, ''a'', ''10.0.0.1'')]"
    by (simp_all add: members_def effective_priority_def peer_candidates_def demo_cluster_def new_cluster_def
        demo_cluster_config_def demo_node_def demo_signals_def node_alive_def NODE_TIMEOUT_def)
  show ?thesis
    by (rule nodes_agree_on_order [THEN conjunct1])
       (simp_all add: m, simp_all add: demo_cluster_def new_cluster_def demo_cluster_config_def)
qed

definition demo_wire :: bytes where
  "demo_wire = [0, 0, 0x81, 0x80, 0, 1, 0, 1, 0, 0, 0, 0, 1, 0x61, 0, 0, 1, 0, 1, 0xC0, 12, 0, 1, 0, 1, 0, 0, 0, 60, 0, 4, 1, 2, 3, 4]"

definition demo_key :: cache_key where
  "demo_key = \<lparr>ck_name = ''a'', ck_qtype = 1, ck_qclass = 1, ck_dnssec = False\<rparr>"

definition demo_share_codecs :: "message \<Rightarrow> codecs" where
  "demo_share_codecs m = \<lparr>dump_body = (\<lambda>_. ''x''), load_body = (\<lambda>_. Some m),
     dump_envelope = (\<lambda>b h. []), load_envelope = (\<lambda>_. Some [(''body'', JStr ''x''), (''mac'', JStr ''kx'')]),
     keyed_hash = (\<lambda>k b. k @ b), b64encode = (\<lambda>_. ''w''), b64decode = (\<lambda>_. Inr demo_wire)\<rparr>"

lemma shared_answer_is_absorbed_witness:
  "\<exists>cd. cl_cache (listen_one cd 5 [] ''10.0.0.1'' (demo_cluster ''b'' ''10.0.0.2'' 80 [])) =
     fst (cache_put (new_cache default_cache_config False) 5 demo_key demo_wire None)"
proof -
  define s where "s = demo_cluster ''a'' ''10.0.0.1'' 50 []"
  define cd where "cd = demo_share_codecs
    [(''type'', JStr ''cache''), (''node'', JStr ''a''), (''name'', JStr ''a''), (''qtype'', JInt 1), (''qclass'', JInt 1), (''wire'', JStr ''w'')]"
  have m: "share_message cd s demo_key demo_wire =
      [(''type'', JStr ''cache''), (''node'', JStr ''a''), (''name'', JStr ''a''), (''qtype'', JInt 1), (''qclass'', JInt 1), (''wire'', JStr ''w'')]"
    by (simp add: share_message_def s_def cd_def demo_share_codecs_def demo_cluster_def new_cluster_def demo_key_def)
  have q: "first_question demo_wire = Inr (Some \<lparr>qname = ''a'', qtype = 1, qclass = 1\<rparr>)" by code_simp
  have k: "cl_secret (cl_conf s) = ''k''" by (simp add: s_def demo_cluster_def new_cluster_def demo_cluster_config_def)
  have "cl_cache (listen_one cd 5 [] ''10.0.0.1'' (demo_cluster ''b'' ''10.0.0.2'' 80 [])) =
      fst (cache_put (cl_cache (demo_cluster ''b'' ''10.0.0.2'' 80 [])) 5 (demo_key\<lparr>ck_dnssec := False\<rparr>) demo_wire None)"
  proof (rule shared_answer_is_absorbed)
    show "reads_back cd s (share_message cd s demo_key demo_wire)"
      unfolding m by (simp add: reads_back_def sign_def k Let_def cd_def demo_share_codecs_def)
    show "b64decode cd (b64encode cd demo_wire) = Inr demo_wire" by (simp add: cd_def demo_share_codecs_def)
    show "(''10.0.0.2'', []) \<in> set (snd (share cd demo_key demo_wire s))"
      by (simp add: share_def send_def sign_def MAX_MESSAGE_def s_def cd_def demo_share_codecs_def demo_cluster_def
          new_cluster_def demo_cluster_config_def demo_wire_def)
    show "cl_secret (cl_conf (demo_cluster ''b'' ''10.0.0.2'' 80 [])) = cl_secret (cl_conf s)"
      "share_cache (cl_conf (demo_cluster ''b'' ''10.0.0.2'' 80 []))"
      by (simp_all add: k, simp_all add: demo_cluster_def new_cluster_def demo_cluster_config_def)
    show "first_question demo_wire = Inr (Some \<lparr>qname = lower (strip_dots (ck_name demo_key)),
        qtype = ck_qtype demo_key, qclass = ck_qclass demo_key\<rparr>)"
      unfolding q by (simp add: demo_key_def canon_def [symmetric]) code_simp
  qed
  moreover have "demo_key\<lparr>ck_dnssec := False\<rparr> = demo_key" by (simp add: demo_key_def)
  ultimately show ?thesis by (auto simp: demo_cluster_def new_cluster_def)
qed

end
