(* ===== verification/Qr.thy ===== *)
theory Qr
  imports IpAddr
begin

text \<open>
  The codewords of a QR code, \<open>symbivpn/vpn/qr.py\<close>: the version tables, Reed-Solomon over GF(256), the
  BCH fields, the choice of a version, the data codewords and their interleaving.  A \<open>QRError\<close> is a
  \<open>ValueError\<close>.  The error-correction level is a name in the code, checked once by \<open>encode\<close>.
\<close>

section \<open>Tables\<close>

datatype ec_level = LevelL | LevelM | LevelQ | LevelH

fun ec_indicator :: "ec_level \<Rightarrow> nat" where
  "ec_indicator LevelL = 1"
| "ec_indicator LevelM = 0"
| "ec_indicator LevelQ = 3"
| "ec_indicator LevelH = 2"

definition parse_level :: "str \<Rightarrow> ec_level option" where
  "parse_level s = map_of [(''L'', LevelL), (''M'', LevelM), (''Q'', LevelQ), (''H'', LevelH)] s"

text \<open>Error-correction codewords per block, then the number and size of the blocks of either group.\<close>

definition BLOCK_TABLE :: "((nat \<times> ec_level) \<times> nat \<times> (nat \<times> nat) \<times> (nat \<times> nat)) list" where
  "BLOCK_TABLE = [
   ((1, LevelL), 7, (1, 19), (0, 0)), ((1, LevelM), 10, (1, 16), (0, 0)), ((1, LevelQ), 13, (1, 13), (0, 0)), ((1, LevelH), 17, (1, 9), (0, 0)),
   ((2, LevelL), 10, (1, 34), (0, 0)), ((2, LevelM), 16, (1, 28), (0, 0)), ((2, LevelQ), 22, (1, 22), (0, 0)), ((2, LevelH), 28, (1, 16), (0, 0)),
   ((3, LevelL), 15, (1, 55), (0, 0)), ((3, LevelM), 26, (1, 44), (0, 0)), ((3, LevelQ), 18, (2, 17), (0, 0)), ((3, LevelH), 22, (2, 13), (0, 0)),
   ((4, LevelL), 20, (1, 80), (0, 0)), ((4, LevelM), 18, (2, 32), (0, 0)), ((4, LevelQ), 26, (2, 24), (0, 0)), ((4, LevelH), 16, (4, 9), (0, 0)),
   ((5, LevelL), 26, (1, 108), (0, 0)), ((5, LevelM), 24, (2, 43), (0, 0)), ((5, LevelQ), 18, (2, 15), (2, 16)), ((5, LevelH), 22, (2, 11), (2, 12)),
   ((6, LevelL), 18, (2, 68), (0, 0)), ((6, LevelM), 16, (4, 27), (0, 0)), ((6, LevelQ), 24, (4, 19), (0, 0)), ((6, LevelH), 28, (4, 15), (0, 0)),
   ((7, LevelL), 20, (2, 78), (0, 0)), ((7, LevelM), 18, (4, 31), (0, 0)), ((7, LevelQ), 18, (2, 14), (4, 15)), ((7, LevelH), 26, (4, 13), (1, 14)),
   ((8, LevelL), 24, (2, 97), (0, 0)), ((8, LevelM), 22, (2, 38), (2, 39)), ((8, LevelQ), 22, (4, 18), (2, 19)), ((8, LevelH), 26, (4, 14), (2, 15)),
   ((9, LevelL), 30, (2, 116), (0, 0)), ((9, LevelM), 22, (3, 36), (2, 37)), ((9, LevelQ), 20, (4, 16), (4, 17)), ((9, LevelH), 24, (4, 12), (4, 13)),
   ((10, LevelL), 18, (2, 68), (2, 69)), ((10, LevelM), 26, (4, 43), (1, 44)), ((10, LevelQ), 24, (6, 19), (2, 20)), ((10, LevelH), 28, (6, 15), (2, 16)),
   ((11, LevelL), 20, (4, 81), (0, 0)), ((11, LevelM), 30, (1, 50), (4, 51)), ((11, LevelQ), 28, (4, 22), (4, 23)), ((11, LevelH), 24, (3, 12), (8, 13)),
   ((12, LevelL), 24, (2, 92), (2, 93)), ((12, LevelM), 22, (6, 36), (2, 37)), ((12, LevelQ), 26, (4, 20), (6, 21)), ((12, LevelH), 28, (7, 14), (4, 15)),
   ((13, LevelL), 26, (4, 107), (0, 0)), ((13, LevelM), 22, (8, 37), (1, 38)), ((13, LevelQ), 24, (8, 20), (4, 21)), ((13, LevelH), 22, (12, 11), (4, 12)),
   ((14, LevelL), 30, (3, 115), (1, 116)), ((14, LevelM), 24, (4, 40), (5, 41)), ((14, LevelQ), 20, (11, 16), (5, 17)), ((14, LevelH), 24, (11, 12), (5, 13)),
   ((15, LevelL), 22, (5, 87), (1, 88)), ((15, LevelM), 24, (5, 41), (5, 42)), ((15, LevelQ), 30, (5, 24), (7, 25)), ((15, LevelH), 24, (11, 12), (7, 13)),
   ((16, LevelL), 24, (5, 98), (1, 99)), ((16, LevelM), 28, (7, 45), (3, 46)), ((16, LevelQ), 24, (15, 19), (2, 20)), ((16, LevelH), 30, (3, 15), (13, 16)),
   ((17, LevelL), 28, (1, 107), (5, 108)), ((17, LevelM), 28, (10, 46), (1, 47)), ((17, LevelQ), 28, (1, 22), (15, 23)), ((17, LevelH), 28, (2, 14), (17, 15)),
   ((18, LevelL), 30, (5, 120), (1, 121)), ((18, LevelM), 26, (9, 43), (4, 44)), ((18, LevelQ), 28, (17, 22), (1, 23)), ((18, LevelH), 28, (2, 14), (19, 15)),
   ((19, LevelL), 28, (3, 113), (4, 114)), ((19, LevelM), 26, (3, 44), (11, 45)), ((19, LevelQ), 26, (17, 21), (4, 22)), ((19, LevelH), 26, (9, 13), (16, 14)),
   ((20, LevelL), 28, (3, 107), (5, 108)), ((20, LevelM), 26, (3, 41), (13, 42)), ((20, LevelQ), 30, (15, 24), (5, 25)), ((20, LevelH), 28, (15, 15), (10, 16))]"

definition ALIGNMENT_POSITIONS :: "(nat \<times> nat list) list" where
  "ALIGNMENT_POSITIONS = [
   (1, []), (2, [6, 18]), (3, [6, 22]), (4, [6, 26]), (5, [6, 30]), (6, [6, 34]), (7, [6, 22, 38]), (8, [6, 24, 42]), (9, [6, 26, 46]), (10, [6, 28, 50]), 
   (11, [6, 30, 54]), (12, [6, 32, 58]), (13, [6, 34, 62]), (14, [6, 26, 46, 66]), (15, [6, 26, 48, 70]), (16, [6, 26, 50, 74]), (17, [6, 30, 54, 78]), (18, [6, 30, 56, 82]), (19, [6, 30, 58, 86]), (20, [6, 34, 62, 90])]"

definition MAX_VERSION :: nat where "MAX_VERSION = 20"

definition blocks_of :: "nat \<Rightarrow> ec_level \<Rightarrow> (nat \<times> (nat \<times> nat) \<times> (nat \<times> nat)) res" where
  "blocks_of version level =
     (case map_of BLOCK_TABLE (version, level) of None \<Rightarrow> Inl KeyError | Some b \<Rightarrow> Inr b)"

section \<open>Reed-Solomon\<close>

text \<open>\<open>value <<= 1\<close>, reduced by the primitive polynomial when the ninth bit is set.\<close>

definition mul2 :: "byte \<Rightarrow> byte" where
  "mul2 v = (if bit v 7 then push_bit 1 v XOR 0x1D else push_bit 1 v)"

fun exp_loop :: "nat list \<Rightarrow> byte list \<times> nat list \<times> byte \<Rightarrow> byte list \<times> nat list \<times> byte" where
  "exp_loop [] st = st"
| "exp_loop (p # ps) (ex, lg, v) = exp_loop ps (ex[p := v], lg[unat v := p], mul2 v)"

definition gf_tables :: "byte list \<times> nat list" where
  "gf_tables =
     (let (ex, lg, _) = exp_loop [0..<255] (replicate 512 0, replicate 256 0, 1)
      in (fold (\<lambda>p ex. ex[p := ex ! (p - 255)]) [255..<512] ex, lg))"

definition gf_multiply :: "byte \<Rightarrow> byte \<Rightarrow> byte" where
  "gf_multiply a b =
     (if a = 0 \<or> b = 0 then 0 else fst gf_tables ! (snd gf_tables ! unat a + snd gf_tables ! unat b))"

text \<open>One factor: a zero appended, then each coefficient updated in place from the one after it.\<close>

definition times_factor :: "nat \<Rightarrow> byte list \<Rightarrow> byte list" where
  "times_factor e poly =
     (let poly = poly @ [0] in
      fold (\<lambda>i p. p[i := p ! i XOR gf_multiply (p ! (i + 1)) (fst gf_tables ! e)]) [0..<length poly - 1] poly)"

definition generator_polynomial :: "nat \<Rightarrow> byte list" where
  "generator_polynomial degree = fold times_factor [0..<degree] [1]"

definition rs_step :: "byte list \<Rightarrow> nat \<Rightarrow> byte \<Rightarrow> byte list \<Rightarrow> byte list" where
  "rs_step generator ec_count b remainder =
     (let factor = b XOR hd remainder;
          r = tl remainder @ [0]
      in if factor = 0 then r
         else fold (\<lambda>i r. r[i := r ! i XOR gf_multiply (generator ! (ec_count - i)) factor]) [0..<ec_count] r)"

definition reed_solomon :: "bytes \<Rightarrow> nat \<Rightarrow> bytes" where
  "reed_solomon data ec_count =
     fold (rs_step (generator_polynomial ec_count) ec_count) data (replicate ec_count 0)"

text \<open>The first remainder is read before anything else, so a count of zero raises in the code; no table has one.\<close>

section \<open>BCH fields\<close>

fun bit_length :: "nat \<Rightarrow> nat" where
  "bit_length n = (if n = 0 then 0 else 1 + bit_length (n div 2))"

declare bit_length.simps [simp del]

text \<open>The loop would not end for a zero generator; then the value is \<^const>\<open>None\<close>.\<close>

partial_function (option) bch_loop :: "nat \<Rightarrow> nat \<Rightarrow> nat option" where
  "bch_loop g r =
     (if bit_length g \<le> bit_length r then bch_loop g (r XOR push_bit (bit_length r - bit_length g) g)
      else Some r)"

definition bch :: "nat \<Rightarrow> nat \<Rightarrow> nat \<Rightarrow> nat \<Rightarrow> nat option" where
  "bch v g data_bits total_bits =
     (let check_bits = total_bits - data_bits in
      map_option (\<lambda>r. push_bit check_bits v OR r) (bch_loop g (push_bit check_bits v)))"

definition FORMAT_GENERATOR :: nat where "FORMAT_GENERATOR = 0x537"
definition FORMAT_MASK :: nat where "FORMAT_MASK = 0x5412"
definition VERSION_GENERATOR :: nat where "VERSION_GENERATOR = 0x1F25"

definition format_information :: "ec_level \<Rightarrow> nat \<Rightarrow> nat option" where
  "format_information level msk =
     map_option (\<lambda>b. b XOR FORMAT_MASK) (bch (push_bit 3 (ec_indicator level) OR msk) FORMAT_GENERATOR 5 15)"

definition version_information :: "nat \<Rightarrow> nat option" where
  "version_information version = bch version VERSION_GENERATOR 6 18"

section \<open>Data codewords\<close>

definition capacity_bits :: "nat \<Rightarrow> ec_level \<Rightarrow> nat res" where
  "capacity_bits version level =
     rbind (blocks_of version level) (\<lambda>(_, (b1, d1), (b2, d2)). Inr ((b1 * d1 + b2 * d2) * 8))"

definition character_count_bits :: "nat \<Rightarrow> nat" where
  "character_count_bits version = (if version \<le> 9 then 8 else 16)"

definition fits :: "nat \<Rightarrow> ec_level \<Rightarrow> bytes \<Rightarrow> bool res" where
  "fits version level payload =
     rbind (capacity_bits version level) (\<lambda>c. Inr (4 + character_count_bits version + length payload * 8 \<le> c))"

fun first_version :: "nat list \<Rightarrow> ec_level \<Rightarrow> bytes \<Rightarrow> nat res" where
  "first_version [] level payload = Inl ValueError"
| "first_version (v # vs) level payload =
     rbind (fits v level payload) (\<lambda>f. if f then Inr v else first_version vs level payload)"

definition choose_version :: "bytes \<Rightarrow> ec_level \<Rightarrow> nat res" where
  "choose_version payload level = first_version [1..<MAX_VERSION + 1] level payload"

definition msb_bits :: "nat \<Rightarrow> nat \<Rightarrow> bool list" where
  "msb_bits n v = map (\<lambda>p. bit v p) (rev [0..<n])"

definition byte_bits :: "byte \<Rightarrow> bool list" where "byte_bits b = msb_bits 8 (unat b)"

definition bits_value :: "bool list \<Rightarrow> nat" where "bits_value bs = fold (\<lambda>b n. 2 * n + of_bool b) bs 0"

fun pack_bits :: "bool list \<Rightarrow> bytes" where
  "pack_bits (b0 # b1 # b2 # b3 # b4 # b5 # b6 # b7 # bs) =
     of_nat (bits_value [b0, b1, b2, b3, b4, b5, b6, b7]) # pack_bits bs"
| "pack_bits [] = []"
| "pack_bits bs = [of_nat (bits_value bs)]"

definition pad_bytes :: "nat \<Rightarrow> bytes" where
  "pad_bytes n = map (\<lambda>i. if even i then 0xEC else 0x11) [0..<n]"

definition payload_bits :: "nat \<Rightarrow> nat \<Rightarrow> bytes \<Rightarrow> bool list" where
  "payload_bits count_bits capacity payload =
     (let bits = [False, True, False, False] @ msb_bits count_bits (length payload) @ concat (map byte_bits payload);
          bits = bits @ replicate (min 4 (capacity - length bits)) False
      in if length bits mod 8 \<noteq> 0 then bits @ replicate (8 - length bits mod 8) False else bits)"

definition encode_payload :: "bytes \<Rightarrow> nat \<Rightarrow> ec_level \<Rightarrow> bytes res" where
  "encode_payload payload version level =
     rbind (capacity_bits version level) (\<lambda>capacity.
       let codewords = pack_bits (payload_bits (character_count_bits version) capacity payload)
       in Inr (codewords @ pad_bytes (capacity div 8 - length codewords)))"

section \<open>Interleaving\<close>

fun cut_blocks :: "nat \<Rightarrow> nat \<Rightarrow> bytes \<Rightarrow> bytes list \<times> bytes" where
  "cut_blocks 0 d cw = ([], cw)"
| "cut_blocks (Suc n) d cw = (let (bs, rest) = cut_blocks n d (drop d cw) in (take d cw # bs, rest))"

definition data_blocks :: "(nat \<times> nat) \<Rightarrow> (nat \<times> nat) \<Rightarrow> bytes \<Rightarrow> bytes list" where
  "data_blocks g1 g2 cw =
     (let (b1, rest) = cut_blocks (fst g1) (snd g1) cw; (b2, _) = cut_blocks (fst g2) (snd g2) rest in b1 @ b2)"

text \<open>The loop over an index, then over the blocks that reach it.\<close>

definition column_of :: "bytes list \<Rightarrow> nat \<Rightarrow> bytes" where
  "column_of bs i = concat (map (\<lambda>b. if i < length b then [b ! i] else []) bs)"

definition columns :: "nat \<Rightarrow> bytes list \<Rightarrow> bytes" where
  "columns n bs = concat (map (column_of bs) [0..<n])"

definition interleave :: "bytes \<Rightarrow> nat \<Rightarrow> ec_level \<Rightarrow> bytes res" where
  "interleave codewords version level =
     rbind (blocks_of version level) (\<lambda>(ec, g1, g2).
       let bs = data_blocks g1 g2 codewords;
           ecs = map (\<lambda>b. reed_solomon b ec) bs
       in if bs = [] then Inl ValueError
          else Inr (columns (Max (length ` set bs)) bs @ columns ec ecs))"

definition total_codewords :: "nat \<Rightarrow> ec_level \<Rightarrow> nat res" where
  "total_codewords version level =
     rbind (blocks_of version level) (\<lambda>(ec, (b1, d1), (b2, d2)). Inr (b1 * d1 + b2 * d2 + (b1 + b2) * ec))"

section \<open>Error correction\<close>

lemma gf_multiply_zero [simp]: "gf_multiply 0 b = 0" by (simp add: gf_multiply_def)

lemma fold_id: "(\<And>i. i \<in> set is \<Longrightarrow> f i x = x) \<Longrightarrow> fold f is x = x"
  by (induction "is") auto

lemma update_from_zero: "p ! (i + 1) = 0 \<Longrightarrow> p[i := p ! i XOR gf_multiply (p ! (i + 1)) c] = p"
  by simp

lemma times_factor_monomial: "times_factor e (1 # replicate n 0) = 1 # replicate (Suc n) 0"
proof -
  let ?p = "1 # replicate (Suc n) (0 :: byte)"
  have e: "(1 # replicate n 0) @ [0] = ?p" by (simp add: replicate_append_same)
  have z: "?p ! (i + 1) = 0" if "i < Suc n" for i using nth_replicate [OF that, of 0] by simp
  have "fold (\<lambda>i p. p[i := p ! i XOR gf_multiply (p ! (i + 1)) (fst gf_tables ! e)]) [0..<length ?p - 1] ?p = ?p"
    by (rule fold_id) (rule update_from_zero, rule z, auto)
  then show ?thesis unfolding times_factor_def e Let_def .
qed

lemma generator_polynomial_monomial: "generator_polynomial n = 1 # replicate n 0"
  unfolding generator_polynomial_def
proof (induction n)
  case (Suc n)
  then show ?case by (simp add: times_factor_monomial del: replicate.simps)
qed simp

lemma rs_step_zero: "0 < n \<Longrightarrow> rs_step (1 # replicate n 0) n b (replicate n 0) = replicate n 0"
proof -
  assume n: "0 < n"
  have z: "(1 # replicate n 0) ! (n - i) = (0 :: byte)" if "i < n" for i using that by (cases "n - i") auto
  have "tl (replicate n 0) @ [0] = replicate n (0 :: byte)" using n by (cases n) (auto simp: replicate_append_same)
  then show ?thesis unfolding rs_step_def Let_def
    by (auto intro!: fold_id simp: z list_update_same_conv simp del: nth_Cons_0 nth_Cons_Suc)
qed

lemma reed_solomon_zeros: "0 < n \<Longrightarrow> reed_solomon data n = replicate n 0"
  unfolding reed_solomon_def generator_polynomial_monomial by (rule fold_id) (rule rs_step_zero)

text \<open>C23: The code's polynomial is meant to be the product of the factors x - a^i, but it stays the monomial
  x^n: each coefficient is updated from the one after it, which is still zero.  So the remainder is
  zero, and every error-correction codeword of every code is zero.
\<close>

theorem error_correction_is_zero:
  assumes "0 < n"
  shows "reed_solomon data n = replicate n 0"
  by (rule reed_solomon_zeros [OF assms])

lemma error_correction_is_zero_witness: "0 < (10 :: nat) \<and> reed_solomon [0x40, 0x56, 0x86] 10 = replicate 10 0"
  using error_correction_is_zero [of 10] by simp

text \<open>
  A scanner checks that a block evaluates to zero at the roots of the true generator, of which 1 is
  one: the exclusive or of all its codewords.  A block the code emits passes only if its data passes.
\<close>

definition syndrome0 :: "bytes \<Rightarrow> byte" where "syndrome0 block = fold (XOR) block 0"

lemma fold_xor_zeros: "fold (XOR) (replicate n 0) (x :: byte) = x" by (induction n) (simp_all del: fold_replicate)

lemma emitted_block_parity: "0 < n \<Longrightarrow> syndrome0 (data @ reed_solomon data n) = syndrome0 data"
  by (simp add: syndrome0_def fold_xor_zeros reed_solomon_zeros del: fold_replicate)

section \<open>The BCH division\<close>

lemma bit_length_bounds:
  assumes "n \<noteq> 0"
  shows "0 < bit_length n \<and> 2 ^ (bit_length n - 1) \<le> n \<and> n < 2 ^ bit_length n"
  using assms
proof (induction n rule: bit_length.induct)
  case (1 n)
  show ?case
  proof (cases "n div 2 = 0")
    case True
    then have "n = 1" using "1.prems" by simp
    then show ?thesis by (simp add: bit_length.simps)
  next
    case False
    then have IH: "0 < bit_length (n div 2)" "2 ^ (bit_length (n div 2) - 1) \<le> n div 2" "n div 2 < 2 ^ bit_length (n div 2)"
      using "1.IH" "1.prems" by simp_all
    have l: "bit_length n = Suc (bit_length (n div 2))" using "1.prems" by (subst bit_length.simps) simp
    have "(2 :: nat) ^ bit_length (n div 2) = 2 * 2 ^ (bit_length (n div 2) - 1)" using IH(1) by (cases "bit_length (n div 2)") simp_all
    moreover define x :: nat where "x = 2 ^ (bit_length (n div 2) - 1)"
    ultimately have x: "x \<le> n div 2" "n div 2 < 2 * x" "(2 :: nat) ^ bit_length (n div 2) = 2 * x" using IH(2,3) by simp_all
    have "2 * x \<le> n" "n < 4 * x" using x(1,2) by linarith+
    then show ?thesis unfolding l by (simp add: x(3))
  qed
qed

lemma bit_length_zero_iff: "bit_length n = 0 \<longleftrightarrow> n = 0"
  using bit_length_bounds [of n] by (cases "n = 0") (simp_all add: bit_length.simps)

lemma top_bits_cancel:
  fixes a b :: nat
  assumes "2 ^ k \<le> a" "a < 2 ^ Suc k" "2 ^ k \<le> b" "b < 2 ^ Suc k"
  shows "a XOR b < 2 ^ k"
proof -
  have d: "n div 2 ^ k = 1" if "2 ^ k \<le> n" "n < 2 ^ Suc k" for n :: nat
    using that by (intro div_nat_eqI) simp_all
  have "drop_bit k (a XOR b) = 0"
    using d [OF assms(1,2)] d [OF assms(3,4)] by (simp add: drop_bit_xor drop_bit_eq_div [of k a] drop_bit_eq_div [of k b])
  then show ?thesis by (simp add: drop_bit_eq_div div_eq_0_iff)
qed

lemma bch_step_less:
  assumes "g \<noteq> 0" "bit_length g \<le> bit_length r"
  shows "r XOR push_bit (bit_length r - bit_length g) g < r"
proof -
  define k where "k = bit_length r - 1"
  have g: "0 < bit_length g" "2 ^ (bit_length g - 1) \<le> g" "g < 2 ^ bit_length g" using bit_length_bounds [OF assms(1)] by simp_all
  then have "r \<noteq> 0" using assms(2) bit_length_zero_iff [of r] by auto
  then have r: "2 ^ k \<le> r" "r < 2 ^ Suc k" using bit_length_bounds [of r] by (simp_all add: k_def)
  have e: "bit_length g - 1 + (bit_length r - bit_length g) = k" "bit_length g + (bit_length r - bit_length g) = Suc k"
    using g(1) assms(2) by (simp_all add: k_def)
  let ?s = "push_bit (bit_length r - bit_length g) g"
  have "2 ^ (bit_length g - 1) * 2 ^ (bit_length r - bit_length g) \<le> ?s"
    unfolding push_bit_eq_mult by (rule mult_right_mono [OF g(2)]) simp
  moreover have "?s < 2 ^ bit_length g * 2 ^ (bit_length r - bit_length g)"
    unfolding push_bit_eq_mult by (rule mult_strict_right_mono [OF g(3)]) simp
  ultimately have "2 ^ k \<le> ?s" "?s < 2 ^ Suc k" unfolding power_add [symmetric] e by simp_all
  from top_bits_cancel [OF r this] show ?thesis using r(1) by simp
qed

lemma bch_loop_ends:
  assumes "g \<noteq> 0"
  shows "\<exists>r'. bch_loop g r = Some r' \<and> bit_length r' < bit_length g"
proof (induction r rule: less_induct)
  case (less r)
  show ?case
  proof (cases "bit_length g \<le> bit_length r")
    case True
    with less.IH [OF bch_step_less [OF assms True]] show ?thesis by (subst bch_loop.simps) simp
  next
    case False
    then show ?thesis by (subst bch_loop.simps) simp
  qed
qed

text \<open>Appending check bits ends: with a generator that is not zero the division stops, and what it appends
  is a remainder shorter than the generator.
\<close>

theorem check_bits_terminate:
  assumes "g \<noteq> 0"
  shows "\<exists>c. bch v g data_bits total_bits = Some c \<and> (\<exists>r. bit_length r < bit_length g
     \<and> c = push_bit (total_bits - data_bits) v OR r)"
  using bch_loop_ends [OF assms, of "push_bit (total_bits - data_bits) v"] by (auto simp: bch_def Let_def)

lemma check_bits_terminate_witness:
  "FORMAT_GENERATOR \<noteq> 0 \<and> (\<exists>c. bch 5 FORMAT_GENERATOR 5 15 = Some c)"
  using check_bits_terminate [of FORMAT_GENERATOR 5 5 15] by (auto simp: FORMAT_GENERATOR_def)

lemma fields_defined: "\<exists>f. format_information level m = Some f" "\<exists>f. version_information v = Some f"
  using bch_loop_ends [of FORMAT_GENERATOR] bch_loop_ends [of VERSION_GENERATOR]
  by (auto simp: format_information_def version_information_def bch_def Let_def FORMAT_GENERATOR_def VERSION_GENERATOR_def)

section \<open>Bits and bytes\<close>

lemma bits_value_append [simp]: "bits_value (bs @ [b]) = 2 * bits_value bs + of_bool b"
  by (simp add: bits_value_def)

lemma bits_value_Nil [simp]: "bits_value [] = 0"
  by (simp add: bits_value_def)

lemma msb_bits_Suc: "msb_bits (Suc n) v = msb_bits n (v div 2) @ [odd v]"
proof -
  have "rev [0..<Suc n] = map Suc (rev [0..<n]) @ [0]"
    by (simp add: rev_map map_Suc_upt [symmetric] upt_conv_Cons del: upt_Suc)
  then show ?thesis by (simp add: msb_bits_def bit_Suc bit_0)
qed

lemma length_msb_bits [simp]: "length (msb_bits n v) = n"
  by (simp add: msb_bits_def)

lemma bits_value_msb_bits: "bits_value (msb_bits n v) = v mod 2 ^ n"
proof (induction n arbitrary: v)
  case 0
  then show ?case by (simp add: msb_bits_def)
next
  case (Suc n)
  have "v mod 2 ^ Suc n = 2 * (v div 2 mod 2 ^ n) + v mod 2"
    using mod_mult2_eq [of v 2 "2 ^ n"] by simp
  then show ?case by (simp add: msb_bits_Suc Suc mod2_eq_if)
qed

lemma msb_bits_bits_value: "msb_bits (length bs) (bits_value bs) = bs"
  by (induction bs rule: rev_induct) (simp_all add: msb_bits_Suc, simp add: msb_bits_def)

lemma bits_value_less: "bits_value bs < 2 ^ length bs"
  by (induction bs rule: rev_induct) (auto simp: of_bool_def)

lemma byte_bits_of_nat:
  assumes "length bs = 8"
  shows "byte_bits (of_nat (bits_value bs)) = bs"
proof -
  have "bits_value bs < 256" using bits_value_less [of bs] assms by simp
  then have "unat (of_nat (bits_value bs) :: byte) = bits_value bs" by (simp add: unat_of_nat)
  then show ?thesis using msb_bits_bits_value [of bs] assms by (simp add: byte_bits_def)
qed

lemma byte_of_bits: "of_nat (bits_value (byte_bits b)) = (b :: byte)"
proof -
  have "unat b < 256" using unsigned_less [of b, where ?'a = nat] by simp
  then show ?thesis by (simp add: byte_bits_def bits_value_msb_bits)
qed

lemma length_byte_bits [simp]: "length (byte_bits b) = 8"
  by (simp add: byte_bits_def)

definition unpack :: "bytes \<Rightarrow> bool list" where "unpack bs = concat (map byte_bits bs)"

lemma unpack_simps [simp]: "unpack [] = []" "unpack (b # bs) = byte_bits b @ unpack bs" "unpack (xs @ ys) = unpack xs @ unpack ys"
  by (simp_all add: unpack_def)

lemma length_unpack [simp]: "length (unpack bs) = 8 * length bs"
  by (induction bs) simp_all

lemma split8:
  assumes "8 \<le> length bs"
  obtains b0 b1 b2 b3 b4 b5 b6 b7 cs where "bs = b0 # b1 # b2 # b3 # b4 # b5 # b6 # b7 # cs"
  using assms by (auto simp: numeral_eq_Suc Suc_le_length_iff)

lemma unpack_pack_bits: "8 dvd length bs \<Longrightarrow> unpack (pack_bits bs) = bs"
proof (induction "length bs" arbitrary: bs rule: less_induct)
  case less
  show ?case
  proof (cases "bs = []")
    case False
    then have "8 \<le> length bs" using less.prems by (simp add: dvd_imp_le)
    then obtain b0 b1 b2 b3 b4 b5 b6 b7 cs where bs: "bs = b0 # b1 # b2 # b3 # b4 # b5 # b6 # b7 # cs" by (rule split8)
    have "length bs = 8 + length cs" by (simp add: bs)
    with less.prems have d: "8 dvd length cs" by (metis dvd_add_right_iff dvd_refl)
    have "unpack (pack_bits cs) = cs" by (rule less.hyps [OF _ d]) (simp add: bs)
    then show ?thesis unfolding bs by (simp add: byte_bits_of_nat)
  qed simp
qed

lemma pack_byte_bits: "pack_bits (unpack bs) = bs"
proof (induction bs)
  case (Cons b bs)
  obtain b0 b1 b2 b3 b4 b5 b6 b7 cs where e: "byte_bits b = b0 # b1 # b2 # b3 # b4 # b5 # b6 # b7 # cs"
    by (rule split8 [of "byte_bits b"]) simp_all
  moreover have "cs = []" using length_byte_bits [of b] by (simp add: e)
  ultimately show ?case using Cons byte_of_bits [of b] by simp
qed simp

section \<open>The data codewords\<close>

text \<open>What every row of the table satisfies: no empty block, a second group one codeword longer, a length that its field can hold.\<close>

definition row_ok :: "(nat \<times> ec_level) \<times> nat \<times> (nat \<times> nat) \<times> (nat \<times> nat) \<Rightarrow> bool" where
  "row_ok = (\<lambda>((v, l), ec, (b1, d1), (b2, d2)). 0 < ec \<and> 0 < b1 \<and> 0 < d1 \<and> (b2 = 0 \<or> d2 = Suc d1)
     \<and> b1 * d1 + b2 * d2 < 2 ^ character_count_bits v)"

lemma rows_ok: "list_all row_ok BLOCK_TABLE"
  by (simp add: BLOCK_TABLE_def row_ok_def character_count_bits_def)

lemma blocks_of_row:
  assumes "blocks_of v l = Inr (ec, (b1, d1), (b2, d2))"
  shows "0 < ec" "0 < b1" "0 < d1" "b2 = 0 \<or> d2 = Suc d1" "b1 * d1 + b2 * d2 < 2 ^ character_count_bits v"
proof -
  have "map_of BLOCK_TABLE (v, l) = Some (ec, (b1, d1), (b2, d2))"
    using assms by (simp add: blocks_of_def split: option.splits)
  then have "row_ok ((v, l), ec, (b1, d1), (b2, d2))"
    using rows_ok by (auto simp: list_all_iff dest!: map_of_SomeD)
  then show "0 < ec" "0 < b1" "0 < d1" "b2 = 0 \<or> d2 = Suc d1" "b1 * d1 + b2 * d2 < 2 ^ character_count_bits v"
    by (simp_all add: row_ok_def)
qed

lemma capacity_bits_cases:
  assumes "capacity_bits v l = Inr c"
  obtains ec b1 d1 b2 d2 where "blocks_of v l = Inr (ec, (b1, d1), (b2, d2))" "c = (b1 * d1 + b2 * d2) * 8"
  using assms by (auto simp: capacity_bits_def res_simps split: prod.splits)

lemma fits_cases:
  assumes "fits v l p = Inr True"
  obtains c where "capacity_bits v l = Inr c" "4 + character_count_bits v + length p * 8 \<le> c"
  using assms by (auto simp: fits_def res_simps)

lemma fits_length:
  assumes "fits v l p = Inr True"
  shows "length p < 2 ^ character_count_bits v"
proof -
  obtain c where c: "capacity_bits v l = Inr c" "4 + character_count_bits v + length p * 8 \<le> c" by (rule fits_cases [OF assms])
  from c(1) obtain ec b1 d1 b2 d2 where b: "blocks_of v l = Inr (ec, (b1, d1), (b2, d2))" "c = (b1 * d1 + b2 * d2) * 8"
    by (rule capacity_bits_cases)
  have "8 * length p \<le> 8 * (b1 * d1 + b2 * d2)" using c(2) unfolding b(2) by simp
  then have "length p \<le> b1 * d1 + b2 * d2" unfolding nat_mult_le_cancel_disj by simp
  with blocks_of_row(5) [OF b(1)] show ?thesis by (rule le_less_trans [rotated])
qed

text \<open>When the payload fits, all four terminator bits do too, and they end the last byte.\<close>

lemma payload_bits_shape:
  assumes "4 + cb + 8 * length p \<le> 8 * k" "8 dvd cb"
  shows "payload_bits cb (8 * k) p = [False, True, False, False] @ msb_bits cb (length p) @ unpack p @ replicate 4 False"
proof -
  obtain j where j: "cb = 8 * j" using assms(2) by (auto simp: dvd_def)
  let ?bits = "[False, True, False, False] @ msb_bits cb (length p) @ unpack p"
  have l: "length ?bits = 8 * (j + length p) + 4" by (simp add: j)
  then have "4 \<le> 8 * k - length ?bits" using assms(1) unfolding j by presburger
  then have m: "min 4 (8 * k - length ?bits) = 4" by simp
  have "length (?bits @ replicate 4 False) = 8 * (j + length p + 1)" by (simp add: j)
  then have "length (?bits @ replicate 4 False) mod 8 = 0" by simp
  then show ?thesis unfolding payload_bits_def unpack_def [symmetric] Let_def m by (simp del: length_append)
qed

definition read_payload :: "nat \<Rightarrow> bytes \<Rightarrow> bytes" where
  "read_payload cb cw =
     (let bits = unpack cw; n = bits_value (take cb (drop 4 bits))
      in pack_bits (take (8 * n) (drop (4 + cb) bits)))"

lemma character_count_bits_dvd: "8 dvd character_count_bits v"
  by (simp add: character_count_bits_def)

lemma encode_payload_read:
  assumes "fits v l p = Inr True"
  shows "\<exists>cw. encode_payload p v l = Inr cw \<and> capacity_bits v l = Inr (8 * length cw) \<and> read_payload (character_count_bits v) cw = p"
proof -
  let ?cb = "character_count_bits v"
  obtain c where c: "capacity_bits v l = Inr c" "4 + ?cb + length p * 8 \<le> c" by (rule fits_cases [OF assms])
  from c(1) obtain ec b1 d1 b2 d2 where b: "blocks_of v l = Inr (ec, (b1, d1), (b2, d2))" "c = (b1 * d1 + b2 * d2) * 8"
    by (rule capacity_bits_cases)
  define k where "k = b1 * d1 + b2 * d2"
  have ck: "c = 8 * k" by (simp add: b(2) k_def)
  let ?bits = "[False, True, False, False] @ msb_bits ?cb (length p) @ unpack p @ replicate 4 False"
  have s: "payload_bits ?cb (8 * k) p = ?bits"
    using c(2) by (intro payload_bits_shape character_count_bits_dvd) (simp add: ck mult.commute)
  have d: "8 dvd length ?bits" using character_count_bits_dvd [of v] by simp
  have u: "unpack (pack_bits ?bits) = ?bits" by (rule unpack_pack_bits [OF d])
  have le: "length (pack_bits ?bits) \<le> k"
  proof -
    obtain j where j: "?cb = 8 * j" using character_count_bits_dvd [of v] by (auto simp: dvd_def)
    have "8 * length (pack_bits ?bits) = length ?bits" using arg_cong [OF u, of length] by simp
    then show ?thesis using c(2) j by (simp add: ck)
  qed
  define cw where "cw = pack_bits ?bits @ pad_bytes (k - length (pack_bits ?bits))"
  have e: "encode_payload p v l = Inr cw" by (simp add: encode_payload_def c(1) ck s cw_def Let_def del: pack_bits.simps)
  have len: "length cw = k" using le by (simp add: cw_def pad_bytes_def del: pack_bits.simps)
  have uc: "unpack cw = ?bits @ unpack (pad_bytes (k - length (pack_bits ?bits)))"
    unfolding cw_def by (simp only: unpack_simps u)
  have n: "bits_value (take ?cb (drop 4 (unpack cw))) = length p"
    using fits_length [OF assms] by (simp add: uc bits_value_msb_bits)
  have "read_payload ?cb cw = p"
  proof -
    have "take (8 * length p) (drop ?cb (drop 4 (unpack cw))) = unpack p" by (simp add: uc)
    then show ?thesis unfolding read_payload_def Let_def n by (simp only: drop_drop add.commute [of _ 4] pack_byte_bits)
  qed
  with e len c(1) ck show ?thesis by auto
qed

text \<open>A payload that fits a version is encoded into exactly that version's data codewords, and reading the
  mode, the length field and the bytes back from them gives the payload.
\<close>

theorem payload_round_trip:
  assumes "fits v l p = Inr True"
  shows "\<exists>cw. encode_payload p v l = Inr cw \<and> capacity_bits v l = Inr (8 * length cw)
     \<and> read_payload (character_count_bits v) cw = p"
  by (rule encode_payload_read [OF assms])

lemma payload_round_trip_witness:
  "fits 1 LevelM ([0x57, 0x49, 0x46, 0x49]) = Inr True
   \<and> (\<exists>cw. encode_payload ([0x57, 0x49, 0x46, 0x49]) 1 LevelM = Inr cw \<and> read_payload 8 cw = [0x57, 0x49, 0x46, 0x49])"
proof -
  have f: "fits 1 LevelM ([0x57, 0x49, 0x46, 0x49]) = Inr True"
    by (simp add: fits_def capacity_bits_def blocks_of_def BLOCK_TABLE_def character_count_bits_def)
  show ?thesis using f payload_round_trip [OF f] by (auto simp: character_count_bits_def)
qed

text \<open>The version chosen is the first that fits.\<close>

lemma first_version_fits: "first_version vs l p = Inr v \<Longrightarrow> v \<in> set vs \<and> fits v l p = Inr True"
  by (induction vs) (auto simp: res_simps split: if_splits)

lemma choose_version_fits: "choose_version p l = Inr v \<Longrightarrow> 1 \<le> v \<and> v \<le> MAX_VERSION \<and> fits v l p = Inr True"
  using first_version_fits [of "[1..<MAX_VERSION + 1]" l p v] by (auto simp: choose_version_def)

section \<open>Interleaving and back\<close>

text \<open>What a scanner does: deal the codewords out, one to every block that is long enough for the row.\<close>

fun deal_row :: "nat \<Rightarrow> nat list \<Rightarrow> bytes list \<Rightarrow> bytes \<Rightarrow> bytes list \<times> bytes" where
  "deal_row i (n # ns) (b # bs) cw =
     (if i < n then (let (r, rest) = deal_row i ns bs (tl cw) in ((b @ [hd cw]) # r, rest))
      else (let (r, rest) = deal_row i ns bs cw in (b # r, rest)))"
| "deal_row i _ _ cw = ([], cw)"

definition deal :: "nat list \<Rightarrow> bytes \<Rightarrow> bytes list \<times> bytes" where
  "deal ns cw = fold (\<lambda>i (bs, cw). deal_row i ns bs cw) [0..<Max (set ns)] (map (\<lambda>_. []) ns, cw)"

lemma deal_row_column:
  "deal_row i (map length bs) (map (take i) bs) (column_of bs i @ rest) = (map (take (Suc i)) bs, rest)"
  by (induction bs) (auto simp: column_of_def take_Suc_conv_app_nth)

lemma deal_rows:
  "fold (\<lambda>i (cs, cw). deal_row i (map length bs) cs cw) [0..<n] (map (take 0) bs, columns n bs @ rest) = (map (take n) bs, rest)"
proof (induction n arbitrary: rest)
  case 0
  then show ?case by (simp add: columns_def)
next
  case (Suc n)
  have "columns (Suc n) bs @ rest = columns n bs @ column_of bs n @ rest" by (simp add: columns_def)
  then show ?case using Suc [of "column_of bs n @ rest"] by (simp add: deal_row_column)
qed

lemma deal_columns:
  assumes "Max (length ` set bs) = n"
  shows "deal (map length bs) (columns n bs @ rest) = (bs, rest)"
proof -
  have "take n b = b" if "b \<in> set bs" for b
    using that assms Max_ge [of "length ` set bs" "length b"] by simp
  then have "map (take n) bs = bs" by (simp add: map_idI)
  then show ?thesis using deal_rows [of bs n rest] assms by (simp add: deal_def comp_def)
qed

lemma cut_blocks_parts:
  assumes "n * d \<le> length cw"
  shows "\<exists>bs. cut_blocks n d cw = (bs, drop (n * d) cw) \<and> concat bs = take (n * d) cw \<and> map length bs = replicate n d"
  using assms
proof (induction n arbitrary: cw)
  case (Suc n)
  have "n * d \<le> length (drop d cw)" using Suc.prems by simp
  from Suc.IH [OF this] obtain bs where
    "cut_blocks n d (drop d cw) = (bs, drop (n * d) (drop d cw))" "concat bs = take (n * d) (drop d cw)"
    "map length bs = replicate n d" by blast
  then show ?case using Suc.prems by (auto simp: take_add add.commute)
qed simp

definition block_sizes :: "nat \<times> nat \<Rightarrow> nat \<times> nat \<Rightarrow> nat list" where
  "block_sizes g1 g2 = replicate (fst g1) (snd g1) @ replicate (fst g2) (snd g2)"

lemma data_blocks_parts:
  assumes "length cw = b1 * d1 + b2 * d2"
  shows "concat (data_blocks (b1, d1) (b2, d2) cw) = cw \<and> map length (data_blocks (b1, d1) (b2, d2) cw) = block_sizes (b1, d1) (b2, d2)"
proof -
  obtain xs where x: "cut_blocks b1 d1 cw = (xs, drop (b1 * d1) cw)" "concat xs = take (b1 * d1) cw" "map length xs = replicate b1 d1"
    using cut_blocks_parts [of b1 d1 cw] assms by auto
  obtain ys where y: "cut_blocks b2 d2 (drop (b1 * d1) cw) = (ys, drop (b2 * d2) (drop (b1 * d1) cw))"
      "concat ys = take (b2 * d2) (drop (b1 * d1) cw)" "map length ys = replicate b2 d2"
    using cut_blocks_parts [of b2 d2 "drop (b1 * d1) cw"] assms by auto
  have e: "take (b2 * d2) (drop (b1 * d1) cw) = drop (b1 * d1) cw" using assms by simp
  show ?thesis by (simp add: data_blocks_def block_sizes_def x y e)
qed

definition read_blocks :: "nat \<Rightarrow> ec_level \<Rightarrow> bytes \<Rightarrow> bytes res" where
  "read_blocks version level cw =
     rbind (blocks_of version level) (\<lambda>(ec, g1, g2). Inr (concat (fst (deal (block_sizes g1 g2) cw))))"

lemma length_columns: "length (columns m xs) = sum_list (map (\<lambda>b. min m (length b)) xs)"
proof (induction m)
  case (Suc m)
  have "length (column_of xs m) = sum_list (map (\<lambda>b. of_bool (m < length b)) xs)"
    by (simp add: column_of_def length_concat comp_def if_distrib of_bool_def cong: if_cong)
  moreover have "min (Suc m) k = min m k + of_bool (m < k)" for k by auto
  ultimately show ?case using Suc by (simp add: columns_def sum_list_addf)
qed (simp add: columns_def)

lemma interleave_read:
  assumes "capacity_bits v l = Inr (8 * length cw)"
  shows "\<exists>out. interleave cw v l = Inr out \<and> total_codewords v l = Inr (length out) \<and> read_blocks v l out = Inr cw"
proof -
  obtain ec b1 d1 b2 d2 where b: "blocks_of v l = Inr (ec, (b1, d1), (b2, d2))" "8 * length cw = (b1 * d1 + b2 * d2) * 8"
    using assms by (rule capacity_bits_cases)
  have len: "length cw = b1 * d1 + b2 * d2"
    using b(2) unfolding mult.commute [of _ 8] nat_mult_eq_cancel_disj by simp
  define bs where "bs = data_blocks (b1, d1) (b2, d2) cw"
  define n where "n = Max (length ` set bs)"
  define ecs where "ecs = columns ec (map (\<lambda>b. reed_solomon b ec) bs)"
  note p = data_blocks_parts [OF len, folded bs_def]
  have ne: "bs \<noteq> []" using conjunct2 [OF p] blocks_of_row(2) [OF b(1)] by (auto simp: block_sizes_def)
  have i: "interleave cw v l = Inr (columns n bs @ ecs)"
    using ne by (simp add: interleave_def b(1) bs_def [symmetric] n_def ecs_def Let_def)
  have "deal (block_sizes (b1, d1) (b2, d2)) (columns n bs @ ecs) = (bs, ecs)"
    using deal_columns [of bs n ecs] p by (simp add: n_def)
  then have r: "read_blocks v l (columns n bs @ ecs) = Inr cw" using p by (simp add: read_blocks_def b(1))
  have "map (\<lambda>b. min n (length b)) bs = map length bs"
    using Max_ge [of "length ` set bs"] by (auto simp: n_def min_absorb2)
  then have l1: "length (columns n bs) = b1 * d1 + b2 * d2"
    using conjunct2 [OF p] by (simp add: length_columns block_sizes_def sum_list_replicate)
  have "length bs = b1 + b2" using arg_cong [OF conjunct2 [OF p], of length] by (simp add: block_sizes_def)
  then have l2: "length ecs = (b1 + b2) * ec"
    using blocks_of_row(1) [OF b(1)]
    by (simp add: ecs_def length_columns reed_solomon_zeros comp_def map_replicate_const sum_list_replicate)
  have "total_codewords v l = Inr (length (columns n bs @ ecs))"
    unfolding total_codewords_def b(1) by (simp add: l1 l2)
  with i r show ?thesis by blast
qed

text \<open>The codewords of a full data part, cut into blocks and interleaved with their error correction, are
  as many as the symbol holds, and dealing them out to the blocks again gives the data back in order.
\<close>

theorem interleaving_round_trip:
  assumes "capacity_bits v l = Inr (8 * length cw)"
  shows "\<exists>out. interleave cw v l = Inr out \<and> total_codewords v l = Inr (length out) \<and> read_blocks v l out = Inr cw"
  by (rule interleave_read [OF assms])

lemma interleaving_round_trip_witness:
  "capacity_bits 5 LevelQ = Inr (8 * length (replicate 62 (7 :: byte)))
   \<and> (\<exists>out. interleave (replicate 62 7) 5 LevelQ = Inr out \<and> read_blocks 5 LevelQ out = Inr (replicate 62 7))"
proof -
  have c: "capacity_bits 5 LevelQ = Inr (8 * length (replicate 62 (7 :: byte)))"
    by (simp add: capacity_bits_def blocks_of_def BLOCK_TABLE_def)
  show ?thesis using c interleaving_round_trip [OF c] by blast
qed

end
