(* ===== verification/QrMatrix.thy ===== *)
theory QrMatrix
  imports Qr
begin

text \<open>
  The matrix of a QR code, \<open>symbivpn/vpn/qr.py\<close>: function patterns, the zigzag of the data modules, masks
  and their penalty, \<open>encode\<close>, and the renderings.  A loop whose body only calls \<open>_Matrix.set\<close> is the
  list of its calls in the order of the loop, applied by \<open>set_cells\<close>.
\<close>

section \<open>The grid\<close>

record matrix =
  msize :: nat
  modules :: "bool list list"
  reserved :: "bool list list"

type_synonym cell = "nat \<times> nat"

definition new_matrix :: "nat \<Rightarrow> matrix" where
  "new_matrix n =
     \<lparr>msize = n, modules = replicate n (replicate n False), reserved = replicate n (replicate n False)\<rparr>"

definition put :: "bool list list \<Rightarrow> cell \<Rightarrow> bool \<Rightarrow> bool list list" where
  "put g p v = g[fst p := (g ! fst p)[snd p := v]]"

definition cell_at :: "bool list list \<Rightarrow> cell \<Rightarrow> bool" where "cell_at g p = g ! fst p ! snd p"

definition set_module :: "cell \<Rightarrow> bool \<Rightarrow> bool \<Rightarrow> matrix \<Rightarrow> matrix" where
  "set_module p v reserve m =
     (let m = m\<lparr>modules := put (modules m) p v\<rparr>
      in if reserve then m\<lparr>reserved := put (reserved m) p True\<rparr> else m)"

definition set_cells :: "(cell \<times> bool) list \<Rightarrow> matrix \<Rightarrow> matrix" where
  "set_cells = fold (\<lambda>(p, v). set_module p v True)"

definition free_cells :: "matrix \<Rightarrow> nat" where
  "free_cells m = sum_list (map (\<lambda>row. length (filter (\<lambda>b. \<not> b) row)) (reserved m))"

section \<open>Function patterns\<close>

definition finder_dark :: "int \<Rightarrow> int \<Rightarrow> bool" where
  "finder_dark dr dc =
     ((0 \<le> dr \<and> dr \<le> 6 \<and> 0 \<le> dc \<and> dc \<le> 6)
      \<and> ((dr = 0 \<or> dr = 6) \<or> (dc = 0 \<or> dc = 6) \<or> (2 \<le> dr \<and> dr \<le> 4 \<and> 2 \<le> dc \<and> dc \<le> 4)))"

definition finder_cells :: "nat \<Rightarrow> nat \<Rightarrow> nat \<Rightarrow> (cell \<times> bool) list" where
  "finder_cells sz row column =
     concat (map (\<lambda>dr. concat (map (\<lambda>dc.
        let r = int row + dr; c = int column + dc
        in if \<not> (0 \<le> r \<and> r < int sz \<and> 0 \<le> c \<and> c < int sz) then []
           else [((nat r, nat c), finder_dark dr dc)]) [-1..7])) [-1..7])"

definition place_finder :: "nat \<Rightarrow> nat \<Rightarrow> matrix \<Rightarrow> matrix" where
  "place_finder row column m = set_cells (finder_cells (msize m) row column) m"

definition alignment_square :: "nat \<Rightarrow> nat \<Rightarrow> (cell \<times> bool) list" where
  "alignment_square row column =
     concat (map (\<lambda>dr. map (\<lambda>dc.
        ((nat (int row + dr), nat (int column + dc)), max \<bar>dr\<bar> \<bar>dc\<bar> \<noteq> 1)) [-2..2]) [-2..2])"

definition alignment_cells :: "nat list \<Rightarrow> (cell \<times> bool) list" where
  "alignment_cells positions =
     (let n = length positions; final = n - 1 in
      concat (map (\<lambda>i. concat (map (\<lambda>j.
        if (i, j) = (0, 0) \<or> (i, j) = (0, final) \<or> (i, j) = (final, 0) then []
        else alignment_square (positions ! i) (positions ! j)) [0..<n])) [0..<n]))"

definition place_alignment :: "nat \<Rightarrow> matrix \<Rightarrow> matrix res" where
  "place_alignment version m =
     (case map_of ALIGNMENT_POSITIONS version of None \<Rightarrow> Inl KeyError
      | Some positions \<Rightarrow> Inr (set_cells (alignment_cells positions) m))"

definition timing_cells :: "nat \<Rightarrow> (cell \<times> bool) list" where
  "timing_cells sz = concat (map (\<lambda>p. [((6, p), even p), ((p, 6), even p)]) [8..<sz - 8])"

definition place_timing :: "matrix \<Rightarrow> matrix" where
  "place_timing m = set_cells (timing_cells (msize m)) m"

text \<open>The version field's two copies, for a bit of each position.\<close>

definition version_cells :: "nat \<Rightarrow> (nat \<Rightarrow> bool) \<Rightarrow> (cell \<times> bool) list" where
  "version_cells sz f =
     concat (map (\<lambda>p. [((sz - 11 + p mod 3, p div 3), f p), ((p div 3, sz - 11 + p mod 3), f p)]) [0..<18])"

definition format_areas :: "nat \<Rightarrow> (cell \<times> bool) list" where
  "format_areas sz =
     concat (map (\<lambda>p. if p \<noteq> 6 then [((8, p), False), ((p, 8), False)] else []) [0..<9])
     @ concat (map (\<lambda>p. [((8, sz - 1 - p), False), ((sz - 1 - p, 8), False)]) [0..<8])
     @ [((sz - 8, 8), True)]"

definition reserve_format_areas :: "nat \<Rightarrow> matrix \<Rightarrow> matrix" where
  "reserve_format_areas version m =
     (let m = set_cells (format_areas (msize m)) m
      in if 7 \<le> version then set_cells (version_cells (msize m) (\<lambda>_. False)) m else m)"

definition format_cells :: "nat \<Rightarrow> nat \<Rightarrow> (cell \<times> bool) list" where
  "format_cells sz bits =
     concat (map (\<lambda>p.
       [(if p < 6 then (8, p) else if p = 6 then (8, 7) else if p = 7 then (8, 8) else if p = 8 then (7, 8)
         else (14 - p, 8), bit bits p),
        (if p < 8 then (8, sz - 1 - p) else (sz - 15 + p, 8), bit bits p)]) [0..<15])"

definition write_format_information :: "ec_level \<Rightarrow> nat \<Rightarrow> matrix \<Rightarrow> matrix option" where
  "write_format_information level msk m =
     map_option (\<lambda>bits. set_cells (format_cells (msize m) bits) m) (format_information level msk)"

definition write_version_information :: "nat \<Rightarrow> matrix \<Rightarrow> matrix option" where
  "write_version_information version m =
     (if version < 7 then Some m
      else map_option (\<lambda>bits. set_cells (version_cells (msize m) (bit bits)) m) (version_information version))"

definition function_patterns :: "nat \<Rightarrow> matrix res" where
  "function_patterns version =
     (let sz = version * 4 + 17;
          m = place_finder (sz - 7) 0 (place_finder 0 (sz - 7) (place_finder 0 0 (new_matrix sz)))
      in rbind (place_alignment version m) (\<lambda>m. Inr (reserve_format_areas version (place_timing m))))"

definition free_module_count :: "nat \<Rightarrow> nat res" where
  "free_module_count version = rbind (function_patterns version) (\<lambda>m. Inr (free_cells m))"

section \<open>Data modules\<close>

text \<open>The cells in the order of the three loops; column 6 is skipped.\<close>

function zigzag :: "nat \<Rightarrow> nat \<Rightarrow> bool \<Rightarrow> cell list" where
  "zigzag sz column upward =
     (if column = 0 then []
      else let c = (if column = 6 then 5 else column)
           in concat (map (\<lambda>row. [(row, c), (row, c - 1)]) (if upward then rev [0..<sz] else [0..<sz]))
              @ zigzag sz (c - 2) (\<not> upward))"
  by pat_completeness auto
termination by (relation "measure (\<lambda>(_, c, _). c)") auto

declare zigzag.simps [simp del]

fun place_cell :: "bytes \<Rightarrow> cell \<Rightarrow> matrix \<times> nat \<Rightarrow> matrix \<times> nat" where
  "place_cell data p (m, i) =
     (if cell_at (reserved m) p then (m, i)
      else if i < length data * 8 then (set_module p (bit (data ! (i div 8)) (7 - i mod 8)) False m, i + 1)
      else (set_module p False False m, i))"

definition place_data :: "bytes \<Rightarrow> matrix \<Rightarrow> matrix" where
  "place_data data m = fst (fold (place_cell data) (zigzag (msize m) (msize m - 1) True) (m, 0))"

section \<open>Masks\<close>

definition mask_condition :: "int \<Rightarrow> nat \<Rightarrow> nat \<Rightarrow> bool res" where
  "mask_condition k row column =
     (if k = 0 then Inr ((row + column) mod 2 = 0)
      else if k = 1 then Inr (row mod 2 = 0)
      else if k = 2 then Inr (column mod 3 = 0)
      else if k = 3 then Inr ((row + column) mod 3 = 0)
      else if k = 4 then Inr ((row div 2 + column div 3) mod 2 = 0)
      else if k = 5 then Inr ((row * column) mod 2 + (row * column) mod 3 = 0)
      else if k = 6 then Inr (((row * column) mod 2 + (row * column) mod 3) mod 2 = 0)
      else if k = 7 then Inr (((row + column) mod 2 + (row * column) mod 3) mod 2 = 0)
      else Inl ValueError)"

definition masked_value :: "matrix \<Rightarrow> int \<Rightarrow> nat \<Rightarrow> nat \<Rightarrow> bool res" where
  "masked_value m k row column =
     (let v = cell_at (modules m) (row, column) in
      if cell_at (reserved m) (row, column) then Inr v
      else rbind (mask_condition k row column) (\<lambda>b. Inr (if b then \<not> v else v)))"

definition apply_mask :: "matrix \<Rightarrow> int \<Rightarrow> matrix res" where
  "apply_mask m k =
     rbind (rmap (\<lambda>row. rmap (masked_value m k row) [0..<msize m]) [0..<msize m]) (\<lambda>g.
       Inr \<lparr>msize = msize m, modules = g, reserved = reserved m\<rparr>)"

section \<open>Penalty\<close>

fun run_score :: "bool list \<Rightarrow> nat \<Rightarrow> nat" where
  "run_score (a # b # xs) run =
     (if b = a then run_score (b # xs) (run + 1) else (if 5 \<le> run then 3 + (run - 5) else 0) + run_score (b # xs) 1)"
| "run_score _ run = (if 5 \<le> run then 3 + (run - 5) else 0)"

definition matrix_lines :: "bool list list \<Rightarrow> bool list list" where
  "matrix_lines g = g @ transpose g"

definition block_score :: "bool list list \<Rightarrow> nat \<Rightarrow> nat \<Rightarrow> nat" where
  "block_score g r c =
     (let block = [cell_at g (r, c), cell_at g (r, c + 1), cell_at g (r + 1, c), cell_at g (r + 1, c + 1)]
      in if list_all (\<lambda>b. b) block \<or> \<not> list_ex (\<lambda>b. b) block then 3 else 0)"

definition finder_score :: "bool list \<Rightarrow> nat \<Rightarrow> nat" where
  "finder_score line i =
     (if take 7 (drop i line) = [True, False, True, True, True, False, True]
      then (let before = drop (i - 4) (take i line); after = take 4 (drop (i + 7) line) in
        if before = take (length before) (replicate 4 False) \<and> length before = 4 then 40
        else if after = take (length after) (replicate 4 False) \<and> length after = 4 then 40
        else 0)
      else 0)"

definition penalty :: "matrix \<Rightarrow> nat" where
  "penalty m =
     (let sz = msize m; g = modules m;
          rule1 = sum_list (map (\<lambda>line. run_score line 1) (matrix_lines g));
          rule2 = sum_list (map (\<lambda>r. sum_list (map (block_score g r) [0..<sz - 1])) [0..<sz - 1]);
          rule3 = sum_list (map (\<lambda>line. sum_list (map (finder_score line) [0..<sz - 6])) (matrix_lines g));
          dark = sum_list (map (\<lambda>row. length (filter (\<lambda>b. b) row)) g);
          percent = dark * 100 div (sz * sz)
      in rule1 + rule2 + rule3 + 10 * min (nat \<bar>int percent - 50\<bar> div 5) 10)"

section \<open>Encoding\<close>

record qr_code =
  code_modules :: "bool list list"
  code_version :: nat
  code_level :: ec_level
  code_mask :: int

text \<open>The option is there because the BCH division is a loop, with \<^const>\<open>None\<close> for one that does not end.\<close>

definition candidate :: "matrix \<Rightarrow> nat \<Rightarrow> ec_level \<Rightarrow> int \<Rightarrow> (nat \<times> int \<times> matrix) res option" where
  "candidate base version level k =
     (case apply_mask base k of Inl e \<Rightarrow> Some (Inl e)
      | Inr m \<Rightarrow>
        Option.bind (write_format_information level (nat k) m) (\<lambda>m.
        Option.bind (write_version_information version m) (\<lambda>m. Some (Inr (penalty m, k, m)))))"

fun best_of :: "matrix \<Rightarrow> nat \<Rightarrow> ec_level \<Rightarrow> int list \<Rightarrow> (nat \<times> int \<times> matrix) option
     \<Rightarrow> (nat \<times> int \<times> matrix) option res option" where
  "best_of base version level [] best = Some (Inr best)"
| "best_of base version level (k # ks) best =
     Option.bind (candidate base version level k) (\<lambda>c.
       case c of Inl e \<Rightarrow> Some (Inl e)
       | Inr c \<Rightarrow> best_of base version level ks
           (case best of None \<Rightarrow> Some c | Some b \<Rightarrow> if fst c < fst b then Some c else best))"

definition pick_version :: "bytes \<Rightarrow> ec_level \<Rightarrow> int option \<Rightarrow> nat res" where
  "pick_version payload level version =
     (case version of None \<Rightarrow> choose_version payload level
      | Some v \<Rightarrow>
        if \<not> (1 \<le> v \<and> v \<le> int MAX_VERSION) then Inl ValueError
        else rbind (fits (nat v) level payload) (\<lambda>f. if \<not> f then Inl ValueError else Inr (nat v)))"

definition base_matrix :: "bytes \<Rightarrow> nat \<Rightarrow> ec_level \<Rightarrow> matrix res" where
  "base_matrix payload version level =
     rbind (encode_payload payload version level) (\<lambda>cw.
     rbind (interleave cw version level) (\<lambda>cw.
     rbind (function_patterns version) (\<lambda>m. Inr (place_data cw m))))"

definition mask_candidates :: "int option \<Rightarrow> int list" where
  "mask_candidates msk = (case msk of None \<Rightarrow> [0..7] | Some k \<Rightarrow> [k])"

text \<open>The payload as the bytes it is encoded to.\<close>

definition encode :: "bytes \<Rightarrow> str \<Rightarrow> int option \<Rightarrow> int option \<Rightarrow> qr_code res option" where
  "encode payload level_name version msk =
     (case parse_level level_name of None \<Rightarrow> Some (Inl ValueError)
      | Some level \<Rightarrow>
        (case rbind (pick_version payload level version) (\<lambda>v. rbind (base_matrix payload v level) (\<lambda>m. Inr (v, m))) of
           Inl e \<Rightarrow> Some (Inl e)
         | Inr (v, base) \<Rightarrow>
           map_option (\<lambda>r. rbind r (\<lambda>best.
             case best of None \<Rightarrow> Inl AssertionError
             | Some (_, k, m) \<Rightarrow> Inr \<lparr>code_modules = modules m, code_version = v, code_level = level, code_mask = k\<rparr>))
             (best_of base v level (mask_candidates msk) None)))"

section \<open>Rendering\<close>

definition code_size :: "qr_code \<Rightarrow> nat" where "code_size q = length (code_modules q)"

text \<open>The four block characters of the terminal drawing, a blank for a pair of dark modules.\<close>

datatype glyph = Blank | LowerHalf | UpperHalf | FullBlock

definition text_dark :: "qr_code \<Rightarrow> nat \<Rightarrow> bool \<Rightarrow> nat \<Rightarrow> nat \<Rightarrow> bool" where
  "text_dark q quiet flip row column =
     (let r = int row - int quiet; c = int column - int quiet
      in if 0 \<le> r \<and> r < int (code_size q) \<and> 0 \<le> c \<and> c < int (code_size q)
         then cell_at (code_modules q) (nat r, nat c) \<noteq> flip else flip)"

definition text_glyph :: "qr_code \<Rightarrow> nat \<Rightarrow> bool \<Rightarrow> nat \<Rightarrow> nat \<Rightarrow> glyph" where
  "text_glyph q quiet flip row column =
     (let top = text_dark q quiet flip row column;
          bottom = (if row + 1 < code_size q + quiet * 2 then text_dark q quiet flip (row + 1) column else flip)
      in if top \<and> bottom then Blank else if top then LowerHalf else if bottom then UpperHalf else FullBlock)"

text \<open>The lines that are joined with newlines; \<open>range(0, padded_size, 2)\<close> has the even rows.\<close>

definition to_text :: "qr_code \<Rightarrow> nat \<Rightarrow> bool \<Rightarrow> glyph list list" where
  "to_text q quiet flip =
     (let padded = code_size q + quiet * 2
      in map (\<lambda>row. map (text_glyph q quiet flip row) [0..<padded]) (filter even [0..<padded]))"

definition svg_module :: "nat \<Rightarrow> nat \<Rightarrow> nat \<Rightarrow> nat \<Rightarrow> str" where
  "svg_module module_size quiet row column =
     (let x = dec ((column + quiet) * module_size); y = dec ((row + quiet) * module_size); w = dec module_size
      in ''M'' @ x @ '' '' @ y @ ''h'' @ w @ ''v'' @ w @ ''h-'' @ w @ ''z'')"

definition to_svg :: "qr_code \<Rightarrow> nat \<Rightarrow> nat \<Rightarrow> str" where
  "to_svg q module_size quiet =
     (let n = code_size q; d = dec ((n + quiet * 2) * module_size) in
      ''<svg xmlns=\"http://www.w3.org/2000/svg\" width=\"'' @ d @ ''\" '' @
      ''height=\"'' @ d @ ''\" viewBox=\"0 0 '' @ d @ '' '' @ d @ ''\" '' @
      ''shape-rendering=\"crispEdges\" role=\"img\" aria-label=\"QR code\">'' @
      ''<rect width=\"'' @ d @ ''\" height=\"'' @ d @ ''\" fill=\"#ffffff\"/>'' @
      ''<path fill=\"#000000\" d=\"'' @
      concat (map (\<lambda>row. concat (map (\<lambda>column.
        if cell_at (code_modules q) (row, column) then svg_module module_size quiet row column else [])
        [0..<n])) [0..<n]) @
      ''\"/></svg>'')"

definition png_pixel :: "qr_code \<Rightarrow> nat \<Rightarrow> nat \<Rightarrow> nat \<Rightarrow> nat \<Rightarrow> byte" where
  "png_pixel q module_size quiet y x =
     (let r = int (y div module_size) - int quiet; c = int (x div module_size) - int quiet;
          dark = (0 \<le> r \<and> r < int (code_size q) \<and> 0 \<le> c \<and> c < int (code_size q)
                  \<and> cell_at (code_modules q) (nat r, nat c))
      in if dark then 0 else 255)"

definition png_rows :: "qr_code \<Rightarrow> nat \<Rightarrow> nat \<Rightarrow> bytes" where
  "png_rows q module_size quiet =
     (let d = (code_size q + quiet * 2) * module_size
      in concat (map (\<lambda>y. 0 # map (png_pixel q module_size quiet y) [0..<d]) [0..<d]))"

text \<open>\<open>to_bytes(4, "big")\<close> raises for a length that needs more; \<open>crc32\<close> and \<open>compress\<close> are those of zlib.\<close>

definition to_bytes4 :: "nat \<Rightarrow> bytes res" where
  "to_bytes4 n = (if n < 2 ^ 32 then Inr (be_bytes 4 n) else Inl OverflowError)"

definition png_chunk :: "(bytes \<Rightarrow> u32) \<Rightarrow> bytes \<Rightarrow> bytes \<Rightarrow> bytes res" where
  "png_chunk crc32 tag payload =
     (let body = tag @ payload
      in rbind (to_bytes4 (length payload)) (\<lambda>l. Inr (l @ body @ be_bytes 4 (unat (crc32 body)))))"

definition to_png :: "(bytes \<Rightarrow> u32) \<Rightarrow> (bytes \<Rightarrow> bytes) \<Rightarrow> qr_code \<Rightarrow> nat \<Rightarrow> nat \<Rightarrow> bytes res" where
  "to_png crc32 compress q module_size quiet =
     (let rows = png_rows q module_size quiet in
      rbind (to_bytes4 ((code_size q + quiet * 2) * module_size)) (\<lambda>d.
      rbind (png_chunk crc32 [0x49, 0x48, 0x44, 0x52] (d @ d @ [8, 0, 0, 0, 0])) (\<lambda>ihdr.
      rbind (png_chunk crc32 [0x49, 0x44, 0x41, 0x54] (compress rows)) (\<lambda>idat.
      rbind (png_chunk crc32 [0x49, 0x45, 0x4E, 0x44] []) (\<lambda>iend.
        Inr ([0x89, 0x50, 0x4E, 0x47, 0x0D, 0x0A, 0x1A, 0x0A] @ ihdr @ idat @ iend))))))"

definition render_terminal :: "bytes \<Rightarrow> str \<Rightarrow> glyph list list res option" where
  "render_terminal payload level_name =
     map_option (\<lambda>r. rbind r (\<lambda>q. Inr (to_text q 2 False))) (encode payload level_name None None)"

end
