(* ===== verification/QrScan.thy ===== *)
theory QrScan
  imports QrMatrix
begin

unbundle bit_operations_syntax

text \<open>
  What a scanner reads: the zigzag visits every data cell once, the function patterns leave room for the
  codewords of every version, and the data modules of whatever \<open>encode\<close> returns read back as the payload.
\<close>

section \<open>Reading and writing the grid\<close>

definition grid :: "nat \<Rightarrow> bool list list \<Rightarrow> bool" where
  "grid n g \<longleftrightarrow> length g = n \<and> (\<forall>r < n. length (g ! r) = n)"

definition square :: "matrix \<Rightarrow> bool" where
  "square m \<longleftrightarrow> grid (msize m) (modules m) \<and> grid (msize m) (reserved m)"

definition inside :: "nat \<Rightarrow> cell \<Rightarrow> bool" where "inside n p \<longleftrightarrow> fst p < n \<and> snd p < n"

lemma grid_put [simp]: "grid n g \<Longrightarrow> grid n (put g p v)"
  by (cases "fst p < n") (auto simp: grid_def put_def nth_list_update list_update_beyond)

lemma cell_at_put: "grid n g \<Longrightarrow> inside n p \<Longrightarrow> cell_at (put g p v) q = (if q = p then v else cell_at g q)"
  by (cases p; cases q) (auto simp: grid_def put_def cell_at_def inside_def nth_list_update)

lemma set_module_simps [simp]:
  "msize (set_module p v res m) = msize m" "modules (set_module p v res m) = put (modules m) p v"
  "reserved (set_module p v res m) = (if res then put (reserved m) p True else reserved m)"
  by (simp_all add: set_module_def Let_def)

lemma square_set_module: "square m \<Longrightarrow> square (set_module p v res m)"
  by (simp add: square_def)

lemma set_cells_simps [simp]:
  "set_cells [] m = m" "set_cells ((p, v) # cs) m = set_cells cs (set_module p v True m)"
  "set_cells (xs @ ys) m = set_cells ys (set_cells xs m)"
  by (simp_all add: set_cells_def)

lemma msize_set_cells [simp]: "msize (set_cells cs m) = msize m"
  by (induction cs arbitrary: m) auto

lemma square_set_cells: "square m \<Longrightarrow> square (set_cells cs m)"
  by (induction cs arbitrary: m) (auto simp: square_set_module)

lemma set_cells_reserved:
  assumes "square m" "\<forall>c \<in> set cs. inside (msize m) (fst c)"
  shows "cell_at (reserved (set_cells cs m)) q \<longleftrightarrow> q \<in> fst ` set cs \<or> cell_at (reserved m) q"
  using assms
proof (induction cs arbitrary: m)
  case (Cons c cs)
  obtain p v where c: "c = (p, v)" by (cases c)
  have g: "grid (msize m) (reserved m)" "inside (msize m) p" using Cons.prems by (simp_all add: square_def c)
  have "cell_at (reserved (set_cells cs (set_module p v True m))) q
     \<longleftrightarrow> q \<in> fst ` set cs \<or> cell_at (reserved (set_module p v True m)) q"
    using Cons.prems by (intro Cons.IH) (simp_all add: square_set_module)
  then show ?case by (auto simp: c cell_at_put [OF g])
qed simp

lemma set_cells_modules:
  assumes "square m" "\<forall>c \<in> set cs. inside (msize m) (fst c)" "q \<notin> fst ` set cs"
  shows "cell_at (modules (set_cells cs m)) q = cell_at (modules m) q"
  using assms
proof (induction cs arbitrary: m)
  case (Cons c cs)
  obtain p v where c: "c = (p, v)" by (cases c)
  have g: "grid (msize m) (modules m)" "inside (msize m) p" using Cons.prems by (simp_all add: square_def c)
  have "cell_at (modules (set_cells cs (set_module p v True m))) q = cell_at (modules (set_module p v True m)) q"
    using Cons.prems by (intro Cons.IH) (simp_all add: square_set_module)
  then show ?case using Cons.prems(3) by (simp add: c cell_at_put [OF g])
qed simp

section \<open>The zigzag\<close>

lemma zigzag_0 [simp]: "zigzag n 0 u = []"
  by (simp add: zigzag.simps)

lemma zigzag_step:
  assumes "c \<noteq> 0" "c \<noteq> 6"
  shows "zigzag n c u = concat (map (\<lambda>row. [(row, c), (row, c - 1)]) (if u then rev [0..<n] else [0..<n])) @ zigzag n (c - 2) (\<not> u)"
  using assms by (subst zigzag.simps) (simp add: Let_def)

lemma zigzag_6: "zigzag n 6 u = zigzag n 5 u"
  by (subst (1 2) zigzag.simps) simp

lemma two_columns:
  assumes "distinct rows" "0 < c"
  shows "distinct (concat (map (\<lambda>row. [(row, c), (row, c - 1)]) rows))"
    "set (concat (map (\<lambda>row. [(row, c), (row, c - 1 :: nat)]) rows)) = set rows \<times> {c, c - 1}"
    "length (concat (map (\<lambda>row. [(row, c), (row, c - 1)]) rows)) = 2 * length rows"
  using assms by (induction rows) (auto simp: image_iff)

lemma zigzag_columns: "p \<in> set (zigzag n c u) \<Longrightarrow> fst p < n \<and> snd p \<le> c \<and> c \<noteq> 0"
proof (induction c arbitrary: u rule: less_induct)
  case (less c)
  show ?case
  proof (cases "c = 0 \<or> c = 6")
    case True
    then have c: "c = 6" using less.prems by auto
    then have "p \<in> set (zigzag n 5 u)" using less.prems by (simp only: zigzag_6)
    then show ?thesis using less.IH [of 5 u] unfolding c by simp
  next
    case False
    let ?rows = "if u then rev [0..<n] else [0..<n]"
    let ?cs = "concat (map (\<lambda>row. [(row, c), (row, c - 1)]) ?rows)"
    have d: "set ?cs = {0..<n} \<times> {c, c - 1}" using two_columns(2) [of ?rows c] False by (cases u) simp_all
    have s: "zigzag n c u = ?cs @ zigzag n (c - 2) (\<not> u)" using False by (intro zigzag_step) auto
    from less.prems have "p \<in> {0..<n} \<times> {c, c - 1} \<or> p \<in> set (zigzag n (c - 2) (\<not> u))"
      unfolding s set_append d by blast
    then show ?thesis
    proof
      assume "p \<in> set (zigzag n (c - 2) (\<not> u))"
      then have "fst p < n \<and> snd p \<le> c - 2" using less.IH [of "c - 2" "\<not> u"] False by simp
      then show ?thesis using False by (auto intro: order_trans [OF _ diff_le_self])
    qed (use False in auto)
  qed
qed

lemma distinct_zigzag: "distinct (zigzag n c u)"
proof (induction c arbitrary: u rule: less_induct)
  case (less c)
  show ?case
  proof (cases "c = 0 \<or> c = 6")
    case True
    then show ?thesis using less.IH [of 5 u] by (auto simp: zigzag_6)
  next
    case False
    let ?rows = "if u then rev [0..<n] else [0..<n]"
    let ?cs = "concat (map (\<lambda>row. [(row, c), (row, c - 1)]) ?rows)"
    have d: "distinct ?cs" "set ?cs = {0..<n} \<times> {c, c - 1}" using two_columns [of ?rows c] False by (cases u; simp)+
    have s: "zigzag n c u = ?cs @ zigzag n (c - 2) (\<not> u)" using False by (intro zigzag_step) auto
    have "p \<notin> set (zigzag n (c - 2) (\<not> u))" if "p \<in> set ?cs" for p
    proof
      assume "p \<in> set (zigzag n (c - 2) (\<not> u))"
      from zigzag_columns [OF this] have "snd p \<le> c - 2" "c - 2 \<noteq> 0" by simp_all
      moreover have "snd p = c \<or> snd p = c - 1" using that unfolding d(2) by auto
      ultimately show False by linarith
    qed
    then have "set ?cs \<inter> set (zigzag n (c - 2) (\<not> u)) = {}" by blast
    then show ?thesis unfolding s distinct_append using d(1) less.IH [of "c - 2" "\<not> u"] False by simp
  qed
qed

lemma length_zigzag_even: "even c \<Longrightarrow> 6 \<le> c \<Longrightarrow> length (zigzag n c u) = n * c"
proof (induction c arbitrary: u rule: less_induct)
  case (less c)
  have l: "length (zigzag n c u) = 2 * n + length (zigzag n (c - 2) (\<not> u))" if "c \<noteq> 0" "c \<noteq> 6" for c u
    using that two_columns(3) [of "if u then rev [0..<n] else [0..<n]" c] by (simp add: zigzag_step del: length_concat)
  show ?case
  proof (cases "c = 6")
    case True
    then show ?thesis by (simp add: zigzag_6 l)
  next
    case False
    then have "8 \<le> c" using less.prems by presburger
    then have "length (zigzag n (c - 2) (\<not> u)) = n * (c - 2)" using less.prems by (intro less.IH) auto
    then show ?thesis using l [of c u] False \<open>8 \<le> c\<close> by (simp add: algebra_simps)
  qed
qed

section \<open>The data modules\<close>

definition data_bit :: "bytes \<Rightarrow> nat \<Rightarrow> bool" where
  "data_bit data j \<longleftrightarrow> j < length data * 8 \<and> bit (data ! (j div 8)) (7 - j mod 8)"

lemma byte_bits_nth: "j < 8 \<Longrightarrow> byte_bits b ! j = bit b (7 - j)"
  by (simp add: byte_bits_def msb_bits_def rev_nth bit_unsigned_iff)

lemma unpack_nth: "j < 8 * length data \<Longrightarrow> unpack data ! j = data_bit data j"
proof (induction data arbitrary: j)
  case (Cons b data)
  show ?case
  proof (cases "j < 8")
    case True
    then show ?thesis by (simp add: nth_append byte_bits_nth data_bit_def)
  next
    case False
    then obtain i where i: "j = i + 8" using le_Suc_ex [of 8 j] by (auto simp: add.commute)
    then show ?thesis using Cons.IH [of i] Cons.prems by (simp add: nth_append data_bit_def)
  qed
qed simp

lemma data_bits_unpack:
  assumes "8 * length data \<le> n"
  shows "take (8 * length data) (map (data_bit data) [0..<n]) = unpack data"
  using assms by (intro nth_equalityI) (auto simp: unpack_nth)

lemma place_cell_step:
  "place_cell data p (m, i) =
     (if cell_at (reserved m) p then (m, i)
      else (set_module p (data_bit data i) False m, if i < length data * 8 then i + 1 else i))"
  by (simp add: data_bit_def)

definition free :: "matrix \<Rightarrow> cell \<Rightarrow> bool" where "free m p \<longleftrightarrow> \<not> cell_at (reserved m) p"

lemma data_bits_shift:
  "map (data_bit data) [(if i < length data * 8 then i + 1 else i)..<(if i < length data * 8 then i + 1 else i) + k]
   = map (data_bit data) [Suc i..<Suc i + k]"
proof (cases "i < length data * 8")
  case False
  then have "\<not> data_bit data j" if "i \<le> j" for j using that by (simp add: data_bit_def)
  then have "map (data_bit data) [i..<i + k] = replicate k False" "map (data_bit data) [Suc i..<Suc i + k] = replicate k False"
    by (intro replicate_eqI; auto)+
  then show ?thesis using False by simp
qed simp

lemma place_cells:
  assumes "square m" "\<forall>p \<in> set ps. inside (msize m) p" "distinct ps"
  shows "\<exists>m' i'. fold (place_cell data) ps (m, i) = (m', i') \<and> square m' \<and> msize m' = msize m \<and> reserved m' = reserved m
     \<and> (\<forall>q. q \<notin> set ps \<longrightarrow> cell_at (modules m') q = cell_at (modules m) q)
     \<and> map (cell_at (modules m')) (filter (free m) ps) = map (data_bit data) [i..<i + length (filter (free m) ps)]"
  using assms
proof (induction ps arbitrary: m i)
  case Nil
  then show ?case by simp
next
  case (Cons p ps)
  show ?case
  proof (cases "free m p")
    case False
    then have s: "fold (place_cell data) (p # ps) (m, i) = fold (place_cell data) ps (m, i)" by (simp add: place_cell_step free_def del: place_cell.simps)
    show ?thesis unfolding s using Cons.IH [of m i] Cons.prems False by (simp del: split_paired_All split_paired_Ex) blast
  next
    case True
    let ?m = "set_module p (data_bit data i) False m" and ?i = "if i < length data * 8 then i + 1 else i"
    have s: "fold (place_cell data) (p # ps) (m, i) = fold (place_cell data) ps (?m, ?i)"
      using True by (simp add: place_cell_step free_def del: place_cell.simps)
    have f: "free ?m = free m" by (simp add: free_def fun_eq_iff)
    let ?k = "length (filter (free m) ps)"
    obtain m' i' where IH: "fold (place_cell data) ps (?m, ?i) = (m', i')" "square m'" "msize m' = msize m" "reserved m' = reserved m"
      "\<forall>q. q \<notin> set ps \<longrightarrow> cell_at (modules m') q = cell_at (modules ?m) q"
      "map (cell_at (modules m')) (filter (free m) ps) = map (data_bit data) [?i..<?i + ?k]"
      using Cons.IH [of ?m ?i] Cons.prems by (auto simp: square_set_module f simp del: place_cell.simps)
    have g: "grid (msize m) (modules m)" "inside (msize m) p" using Cons.prems by (simp_all add: square_def)
    have p: "cell_at (modules m') p = data_bit data i" using IH(5) Cons.prems(3) by (simp add: cell_at_put [OF g] del: split_paired_All)
    have "map (data_bit data) [?i..<?i + ?k] = map (data_bit data) [Suc i..<Suc i + ?k]"
      by (rule data_bits_shift)
    then have "map (cell_at (modules m')) (filter (free m) (p # ps)) = map (data_bit data) [i..<i + length (filter (free m) (p # ps))]"
      using True IH(6) p by (simp add: upt_conv_Cons del: upt_Suc)
    moreover have "\<forall>q. q \<notin> set (p # ps) \<longrightarrow> cell_at (modules m') q = cell_at (modules m) q"
      using IH(5) by (simp add: cell_at_put [OF g])
    ultimately show ?thesis unfolding s using IH(1-4) by blast
  qed
qed

definition data_path :: "nat \<Rightarrow> cell list" where "data_path n = zigzag n (n - 1) True"

lemma data_path_inside: "p \<in> set (data_path n) \<Longrightarrow> inside n p"
  using zigzag_columns [of p n "n - 1" True] by (auto simp: data_path_def inside_def)

lemma place_data_facts:
  assumes "square m"
  shows "square (place_data data m)" "msize (place_data data m) = msize m" "reserved (place_data data m) = reserved m"
    "map (cell_at (modules (place_data data m))) (filter (free m) (data_path (msize m)))
       = map (data_bit data) [0..<length (filter (free m) (data_path (msize m)))]"
    "p \<notin> set (data_path (msize m)) \<Longrightarrow> cell_at (modules (place_data data m)) p = cell_at (modules m) p"
proof -
  obtain m' i' where "fold (place_cell data) (data_path (msize m)) (m, 0) = (m', i')" "square m'" "msize m' = msize m"
    "reserved m' = reserved m" "\<forall>q. q \<notin> set (data_path (msize m)) \<longrightarrow> cell_at (modules m') q = cell_at (modules m) q"
    "map (cell_at (modules m')) (filter (free m) (data_path (msize m)))
       = map (data_bit data) [0..<0 + length (filter (free m) (data_path (msize m)))]"
    using place_cells [OF assms, of "data_path (msize m)" data 0] distinct_zigzag data_path_inside
    by (auto simp: data_path_def)
  then show "square (place_data data m)" "msize (place_data data m) = msize m" "reserved (place_data data m) = reserved m"
    "map (cell_at (modules (place_data data m))) (filter (free m) (data_path (msize m)))
       = map (data_bit data) [0..<length (filter (free m) (data_path (msize m)))]"
    "p \<notin> set (data_path (msize m)) \<Longrightarrow> cell_at (modules (place_data data m)) p = cell_at (modules m) p"
    by (simp_all add: place_data_def data_path_def del: split_paired_All)
qed

section \<open>Masks\<close>

definition flips :: "int \<Rightarrow> cell \<Rightarrow> bool" where "flips k p \<longleftrightarrow> mask_condition k (fst p) (snd p) = Inr True"

lemma rmap_nth: "rmap f xs = Inr ys \<Longrightarrow> i < length xs \<Longrightarrow> f (xs ! i) = Inr (ys ! i)"
proof (induction xs arbitrary: ys i)
  case (Cons x xs)
  then show ?case by (cases i) (auto simp: res_simps)
qed simp

lemma apply_mask_facts:
  assumes "apply_mask m k = Inr m'" "square m"
  shows "square m'" "msize m' = msize m" "reserved m' = reserved m"
    "inside (msize m) p \<Longrightarrow> masked_value m k (fst p) (snd p) = Inr (cell_at (modules m') p)"
proof -
  obtain g where g: "rmap (\<lambda>row. rmap (masked_value m k row) [0..<msize m]) [0..<msize m] = Inr g"
      "m' = \<lparr>msize = msize m, modules = g, reserved = reserved m\<rparr>"
    using assms(1) by (auto simp: apply_mask_def res_simps)
  have row: "rmap (masked_value m k r) [0..<msize m] = Inr (g ! r)" if "r < msize m" for r
    using rmap_nth [OF g(1), of r] that by simp
  have "grid (msize m) g" using rmap_length [OF g(1)] rmap_length [OF row] by (simp add: grid_def)
  then show "square m'" using assms(2) by (simp add: g(2) square_def)
  show "msize m' = msize m" "reserved m' = reserved m" by (simp_all add: g(2))
  show "masked_value m k (fst p) (snd p) = Inr (cell_at (modules m') p)" if "inside (msize m) p"
    using that rmap_nth [OF row, of "fst p" "snd p"] by (simp add: inside_def g(2) cell_at_def)
qed

lemma masked_modules:
  assumes "apply_mask m k = Inr m'" "square m" "inside (msize m) p"
  shows "cell_at (modules m') p = (if free m p then cell_at (modules m) p \<noteq> flips k p else cell_at (modules m) p)"
  using apply_mask_facts(4) [OF assms]
  by (auto simp: masked_value_def free_def flips_def Let_def res_simps split: if_splits)

section \<open>Where the function patterns are\<close>

definition pattern_cells :: "nat \<Rightarrow> nat list \<Rightarrow> (cell \<times> bool) list" where
  "pattern_cells v ps =
     (let n = v * 4 + 17 in
      finder_cells n 0 0 @ finder_cells n 0 (n - 7) @ finder_cells n (n - 7) 0 @ alignment_cells ps @ timing_cells n
      @ format_areas n @ (if 7 \<le> v then version_cells n (\<lambda>_. False) else []))"

lemma function_patterns_cells:
  assumes "function_patterns v = Inr f"
  obtains ps where "map_of ALIGNMENT_POSITIONS v = Some ps" "f = set_cells (pattern_cells v ps) (new_matrix (v * 4 + 17))"
  using assms
  by (auto simp: function_patterns_def Let_def res_simps place_alignment_def place_finder_def place_timing_def
      reserve_format_areas_def pattern_cells_def new_matrix_def split: option.splits)

lemma positions_ok:
  assumes "map_of ALIGNMENT_POSITIONS v = Some ps"
  shows "1 \<le> v" "\<forall>p \<in> set ps. 2 \<le> p \<and> p + 2 < v * 4 + 17"
proof -
  have "list_all (\<lambda>(v, ps). 1 \<le> v \<and> (\<forall>p \<in> set ps. 2 \<le> p \<and> p + 2 < v * 4 + 17)) ALIGNMENT_POSITIONS"
    by (simp add: ALIGNMENT_POSITIONS_def)
  with map_of_SomeD [OF assms] show "1 \<le> v" "\<forall>p \<in> set ps. 2 \<le> p \<and> p + 2 < v * 4 + 17"
    by (auto simp: list_all_iff)
qed

lemma finder_cells_box:
  "c \<in> set (finder_cells n r k) \<Longrightarrow> inside n (fst c) \<and> r \<le> fst (fst c) + 1 \<and> fst (fst c) \<le> r + 7 \<and> k \<le> snd (fst c) + 1 \<and> snd (fst c) \<le> k + 7"
  by (auto simp: finder_cells_def Let_def inside_def split: if_splits)

lemma alignment_cells_box:
  assumes "c \<in> set (alignment_cells ps)"
  shows "\<exists>i j. i < length ps \<and> j < length ps \<and> \<not> ((i, j) = (0, 0) \<or> (i, j) = (0, length ps - 1) \<or> (i, j) = (length ps - 1, 0))
     \<and> fst (fst c) \<in> {ps ! i - 2..ps ! i + 2} \<and> snd (fst c) \<in> {ps ! j - 2..ps ! j + 2}"
proof -
  obtain i j where ij: "i < length ps" "j < length ps" "\<not> ((i, j) = (0, 0) \<or> (i, j) = (0, length ps - 1) \<or> (i, j) = (length ps - 1, 0))"
    "c \<in> set (alignment_square (ps ! i) (ps ! j))"
    using assms by (auto simp: alignment_cells_def Let_def split: if_splits)
  then have "fst (fst c) \<in> {ps ! i - 2..ps ! i + 2} \<and> snd (fst c) \<in> {ps ! j - 2..ps ! j + 2}"
    by (auto simp: alignment_square_def)
  with ij(1-3) show ?thesis by blast
qed

lemma pattern_cells_inside:
  assumes "map_of ALIGNMENT_POSITIONS v = Some ps" "c \<in> set (pattern_cells v ps)"
  shows "inside (v * 4 + 17) (fst c)"
proof -
  note v = positions_ok [OF assms(1)]
  have a: "inside (v * 4 + 17) (fst c)" if "c \<in> set (alignment_cells ps)"
  proof -
    note box = alignment_cells_box [OF that]
    obtain i j where ij: "i < length ps" "j < length ps" "fst (fst c) \<in> {ps ! i - 2..ps ! i + 2}" "snd (fst c) \<in> {ps ! j - 2..ps ! j + 2}"
      using box by blast
    have "ps ! i + 2 < v * 4 + 17" "ps ! j + 2 < v * 4 + 17" using v(2) nth_mem [OF ij(1)] nth_mem [OF ij(2)] by blast+
    then show ?thesis using ij(3,4) by (simp add: inside_def)
  qed
  have t: "inside (v * 4 + 17) (fst c)" if "c \<in> set (timing_cells (v * 4 + 17))"
    using that by (auto simp: timing_cells_def inside_def)
  have f: "inside (v * 4 + 17) (fst c)" if "c \<in> set (format_areas (v * 4 + 17))"
    using that by (auto simp: format_areas_def inside_def split: if_splits)
  have w: "inside (v * 4 + 17) (fst c)" if "c \<in> set (version_cells (v * 4 + 17) g)" for g
  proof -
    note c = that
    obtain p where p: "p < 18" "fst c = (v * 4 + 17 - 11 + p mod 3, p div 3) \<or> fst c = (p div 3, v * 4 + 17 - 11 + p mod 3)"
      using c by (auto simp: version_cells_def)
    moreover have "p mod 3 < 3" "p div 3 < 6" using p(1) by auto
    ultimately show ?thesis by (auto simp: inside_def)
  qed
  show ?thesis using assms(2) a t f w finder_cells_box [of c "v * 4 + 17"] by (auto simp: pattern_cells_def Let_def split: if_splits)
qed

lemma square_new_matrix [simp]: "square (new_matrix n)" "msize (new_matrix n) = n"
  by (simp_all add: square_def grid_def new_matrix_def)

lemma reserved_new_matrix: "inside n p \<Longrightarrow> \<not> cell_at (reserved (new_matrix n)) p"
  by (simp add: cell_at_def new_matrix_def inside_def)

lemma function_patterns_facts:
  assumes "function_patterns v = Inr f" "map_of ALIGNMENT_POSITIONS v = Some ps"
  shows "square f" "msize f = v * 4 + 17"
    "inside (v * 4 + 17) p \<Longrightarrow> free f p \<longleftrightarrow> p \<notin> fst ` set (pattern_cells v ps)"
proof -
  have f: "f = set_cells (pattern_cells v ps) (new_matrix (v * 4 + 17))"
    using assms by (auto elim: function_patterns_cells)
  show "square f" "msize f = v * 4 + 17" by (simp_all add: f square_set_cells)
  show "free f p \<longleftrightarrow> p \<notin> fst ` set (pattern_cells v ps)" if "inside (v * 4 + 17) p"
    unfolding f free_def using that pattern_cells_inside [OF assms(2)]
    by (subst set_cells_reserved) (auto simp: reserved_new_matrix)
qed

lemma upt9: "[0..<9] = [0, 1, 2, 3, 4, 5, 6, 7, 8]" and upt8: "[0..<8] = [0, 1, 2, 3, 4, 5, 6, 7]"
  by code_simp+

lemma upt15: "[0..<15] = [0, 1, 2, 3, 4, 5, 6, 7, 8, 9, 10, 11, 12, 13, 14]"
  by code_simp

lemma format_cells_reserved:
  assumes "1 \<le> v" "c \<in> set (format_cells (v * 4 + 17) bits)"
  shows "fst c \<in> fst ` set (pattern_cells v ps)"
proof -
  let ?n = "v * 4 + 17"
  have "fst c \<in> set [(8, 0), (8, 1), (8, 2), (8, 3), (8, 4), (8, 5), (8, 7), (8, 8), (7, 8), (5, 8), (4, 8), (3, 8), (2, 8), (1, 8), (0, 8)]
     \<union> set [(8, ?n - 1), (8, ?n - 2), (8, ?n - 3), (8, ?n - 4), (8, ?n - 5), (8, ?n - 6), (8, ?n - 7), (8, ?n - 8)]
     \<union> set [(?n - 7, 8), (?n - 6, 8), (?n - 5, 8), (?n - 4, 8), (?n - 3, 8), (?n - 2, 8), (?n - 1, 8)]"
    using assms(2) unfolding format_cells_def upt15 by auto
  then have "fst c \<in> fst ` set (format_areas ?n)"
    unfolding format_areas_def upt8 upt9 by auto
  then show ?thesis by (auto simp: pattern_cells_def Let_def)
qed

lemma version_cells_reserved:
  assumes "7 \<le> v" "c \<in> set (version_cells (v * 4 + 17) g)"
  shows "fst c \<in> fst ` set (pattern_cells v ps)"
proof -
  have "fst ` set (version_cells n g) = fst ` set (version_cells n (\<lambda>_. False))" for n
    by (simp add: version_cells_def image_UN image_Un)
  then have "fst c \<in> fst ` set (version_cells (v * 4 + 17) (\<lambda>_. False))" using assms(2) by (metis imageI)
  then show ?thesis using assms(1) by (auto simp: pattern_cells_def Let_def)
qed

section \<open>Room for the codewords\<close>

lemma zigzag_skips_6:
  assumes "even c" "6 \<le> c" "p \<in> set (zigzag n c u)"
  shows "snd p \<noteq> 6"
  using assms
proof (induction c arbitrary: u rule: less_induct)
  case (less c)
  show ?case
  proof (cases "c = 6")
    case True
    then show ?thesis using less.prems(3) zigzag_columns [of p n 5 u] by (auto simp: zigzag_6)
  next
    case False
    then have c: "8 \<le> c" using less.prems by presburger
    let ?rows = "if u then rev [0..<n] else [0..<n]"
    let ?cs = "concat (map (\<lambda>row. [(row, c), (row, c - 1)]) ?rows)"
    have d: "set ?cs = {0..<n} \<times> {c, c - 1}" using two_columns(2) [of ?rows c] c by (cases u) simp_all
    have s: "zigzag n c u = ?cs @ zigzag n (c - 2) (\<not> u)" using c by (intro zigzag_step) auto
    have "p \<in> {0..<n} \<times> {c, c - 1} \<or> p \<in> set (zigzag n (c - 2) (\<not> u))"
      using less.prems(3) unfolding s set_append d by blast
    moreover have "6 \<le> c - 2" "even (c - 2)" using c less.prems(1) by simp_all
    ultimately show ?thesis using less.IH [of "c - 2" "\<not> u"] c by auto
  qed
qed

lemma card_UN_list: "card (\<Union>x \<in> set xs. f x) \<le> sum_list (map (\<lambda>x. card (f x)) xs)"
proof (induction xs)
  case (Cons x xs)
  have "card (f x \<union> (\<Union>x \<in> set xs. f x)) \<le> card (f x) + card (\<Union>x \<in> set xs. f x)" by (rule card_Un_le)
  with Cons show ?case by simp
qed simp

definition corner :: "nat list \<Rightarrow> nat \<times> nat \<Rightarrow> bool" where
  "corner ps = (\<lambda>(i, j). (i, j) = (0, 0) \<or> (i, j) = (0, length ps - 1) \<or> (i, j) = (length ps - 1, 0))"

definition alignment_box :: "nat list \<Rightarrow> nat \<times> nat \<Rightarrow> cell set" where
  "alignment_box ps = (\<lambda>(i, j).
     if corner ps (i, j) then {} else {ps ! i - 2..ps ! i + 2} \<times> ({ps ! j - 2..ps ! j + 2} - {6}))"

definition alignment_weight :: "nat list \<Rightarrow> nat \<times> nat \<Rightarrow> nat" where
  "alignment_weight ps = (\<lambda>(i, j). if corner ps (i, j) then 0 else if ps ! j = 6 then 20 else 25)"

definition pairs :: "nat list \<Rightarrow> (nat \<times> nat) list" where
  "pairs ps = List.product [0..<length ps] [0..<length ps]"

definition timing_rest :: "nat \<Rightarrow> nat list \<Rightarrow> nat list" where
  "timing_rest n ps = filter (\<lambda>p. list_all (\<lambda>j. p < ps ! j - 2 \<or> ps ! j + 2 < p) [1..<length ps - 1]) [8..<n - 8]"

definition cells_bound :: "nat \<Rightarrow> nat list \<Rightarrow> nat" where
  "cells_bound v ps =
     207 + (if 7 \<le> v then 36 else 0) + length (timing_rest (v * 4 + 17) ps) + sum_list (map (alignment_weight ps) (pairs ps))"

lemma card_alignment_box:
  assumes "\<forall>p \<in> set ps. 2 \<le> p" "x \<in> set (pairs ps)"
  shows "card (alignment_box ps x) \<le> alignment_weight ps x"
proof -
  obtain i j where x: "x = (i, j)" "i < length ps" "j < length ps" using assms(2) by (auto simp: pairs_def)
  have w: "card {ps ! k - 2..ps ! k + 2} = 5" if "k < length ps" for k
  proof -
    have "2 \<le> ps ! k" using assms(1) nth_mem [OF that] by blast
    then show ?thesis by simp
  qed
  have "card ({ps ! j - 2..ps ! j + 2} - {6}) \<le> (if ps ! j = 6 then 4 else 5)"
    using w [OF x(3)] by (auto simp: card_Diff_singleton_if)
  then have "card {ps ! i - 2..ps ! i + 2} * card ({ps ! j - 2..ps ! j + 2} - {6}) \<le> 5 * (if ps ! j = 6 then 4 else 5)"
    unfolding w [OF x(2)] by (rule mult_le_mono2)
  then show ?thesis by (auto simp: alignment_box_def alignment_weight_def x(1) card_cartesian_product)
qed

definition reserved_cells :: "nat \<Rightarrow> nat list \<Rightarrow> cell set" where
  "reserved_cells v ps =
     (let n = v * 4 + 17 in
      {0..7} \<times> {0, 1, 2, 3, 4, 5, 7} \<union> {0..7} \<times> {n - 8..<n} \<union> {n - 8..<n} \<times> {0, 1, 2, 3, 4, 5, 7}
      \<union> {8} \<times> {0, 1, 2, 3, 4, 5, 7, 8} \<union> {0, 1, 2, 3, 4, 5, 7} \<times> {8} \<union> {8} \<times> {n - 8..<n} \<union> {n - 8..<n} \<times> {8}
      \<union> (if 7 \<le> v then {n - 11..<n - 8} \<times> {0..<6} \<union> {0..<6} \<times> {n - 11..<n - 8} else {})
      \<union> {6} \<times> set (timing_rest n ps) \<union> (\<Union>x \<in> set (pairs ps). alignment_box ps x))"

lemma card_blocked:
  assumes "\<forall>p \<in> set ps. 2 \<le> p"
  shows "card (reserved_cells v ps) \<le> cells_bound v ps"
proof -
  let ?n = "v * 4 + 17"
  have "card (\<Union>x \<in> set (pairs ps). alignment_box ps x) \<le> sum_list (map (\<lambda>x. card (alignment_box ps x)) (pairs ps))"
    by (rule card_UN_list)
  also have "\<dots> \<le> sum_list (map (alignment_weight ps) (pairs ps))"
    by (rule sum_list_mono) (rule card_alignment_box [OF assms])
  finally have a: "card (\<Union>x \<in> set (pairs ps). alignment_box ps x) \<le> sum_list (map (alignment_weight ps) (pairs ps))" .
  have t: "card ({6 :: nat} \<times> set (timing_rest ?n ps)) \<le> length (timing_rest ?n ps)"
    by (simp add: card_cartesian_product card_length)
  have v: "card (if 7 \<le> v then {?n - 11..<?n - 8} \<times> {0..<6} \<union> {0..<6} \<times> {?n - 11..<?n - 8} else {}) \<le> (if 7 \<le> v then 36 else 0)"
    using card_Un_le [of "{?n - 11..<?n - 8} \<times> {0 :: nat..<6}" "{0 :: nat..<6} \<times> {?n - 11..<?n - 8}"]
    by (simp add: card_cartesian_product)
  have s: "card (X \<union> Y) \<le> a + b" if "card X \<le> a" "card Y \<le> b" for X Y :: "cell set" and a b
    using card_Un_le [of X Y] that by linarith
  have "card (reserved_cells v ps) \<le> 56 + 64 + 56 + 8 + 7 + 8 + 8 + (if 7 \<le> v then 36 else 0) + length (timing_rest ?n ps)
     + sum_list (map (alignment_weight ps) (pairs ps))"
    unfolding reserved_cells_def Let_def by (intro s a t v) (simp_all add: card_cartesian_product)
  then show ?thesis by (simp add: cells_bound_def)
qed

lemma finder_box_blocked:
  assumes "c \<in> set (finder_cells n r k)" "snd (fst c) \<noteq> 6" "n = v * 4 + 17" "(r, k) \<in> {(0, 0), (0, n - 7), (n - 7, 0)}"
  shows "fst c \<in> reserved_cells v ps"
proof -
  obtain a b d where c: "c = ((a, b), d)" by (cases c) auto
  have box: "inside n (a, b) \<and> r \<le> a + 1 \<and> a \<le> r + 7 \<and> k \<le> b + 1 \<and> b \<le> k + 7"
    using finder_cells_box [OF assms(1)] by (simp add: c)
  have low: "b \<in> {0, 1, 2, 3, 4, 5, 7}" if "b \<le> 7" using that assms(2) unfolding c by auto
  have "(a, b) \<in> {0..7} \<times> {0, 1, 2, 3, 4, 5, 7} \<union> {0..7} \<times> {n - 8..<n} \<union> {n - 8..<n} \<times> {0, 1, 2, 3, 4, 5, 7}"
    using assms(4) box low assms(3) by (auto simp: inside_def simp del: insert_iff) 
  then show ?thesis unfolding reserved_cells_def Let_def c assms(3) [symmetric] fst_conv by blast
qed

lemma timing_blocked:
  assumes "c \<in> set (timing_cells (v * 4 + 17))" "snd (fst c) \<noteq> 6" "\<forall>p \<in> set ps. 2 \<le> p" "ps = [] \<or> ps ! 0 = 6"
  shows "fst c \<in> reserved_cells v ps"
proof -
  let ?n = "v * 4 + 17"
  obtain p where p: "fst c = (6, p)" "8 \<le> p" "p < ?n - 8" "p \<noteq> 6" using assms(1,2) by (auto simp: timing_cells_def)
  show ?thesis
  proof (cases "p \<in> set (timing_rest ?n ps)")
    case True
    then show ?thesis by (simp add: reserved_cells_def Let_def p(1))
  next
    case False
    then obtain j where j: "1 \<le> j" "j < length ps - 1" "ps ! j - 2 \<le> p" "p \<le> ps ! j + 2"
      using p by (auto simp: timing_rest_def list_all_iff not_less)
    then have "ps ! 0 = 6" using assms(4) by auto
    then have "(6, p) \<in> alignment_box ps (0, j)" using j p(4) by (auto simp: alignment_box_def corner_def)
    moreover have "(0, j) \<in> set (pairs ps)" using j by (auto simp: pairs_def)
    ultimately show ?thesis unfolding reserved_cells_def Let_def p(1) by blast
  qed
qed

lemma format_areas_blocked:
  assumes "c \<in> set (format_areas (v * 4 + 17))" "snd (fst c) \<noteq> 6"
  shows "fst c \<in> reserved_cells v ps"
proof -
  let ?n = "v * 4 + 17"
  have "fst c \<in> {8} \<times> {0, 1, 2, 3, 4, 5, 7, 8} \<union> {0, 1, 2, 3, 4, 5, 7} \<times> {8} \<union> {8} \<times> {?n - 8..<?n} \<union> {?n - 8..<?n} \<times> {8}"
    using assms unfolding format_areas_def upt8 upt9 by auto
  then show ?thesis unfolding reserved_cells_def Let_def by blast
qed

lemma version_cells_blocked:
  assumes "c \<in> set (version_cells (v * 4 + 17) g)" "7 \<le> v"
  shows "fst c \<in> reserved_cells v ps"
proof -
  let ?n = "v * 4 + 17"
  obtain p where p: "p < 18" "fst c = (?n - 11 + p mod 3, p div 3) \<or> fst c = (p div 3, ?n - 11 + p mod 3)"
    using assms by (auto simp: version_cells_def)
  moreover have "p mod 3 < 3" "p div 3 < 6" using p(1) by auto
  ultimately have "fst c \<in> {?n - 11..<?n - 8} \<times> {0..<6} \<union> {0..<6} \<times> {?n - 11..<?n - 8}" by auto
  then show ?thesis using assms(2) unfolding reserved_cells_def Let_def by auto
qed

lemma alignment_blocked:
  assumes "c \<in> set (alignment_cells ps)" "snd (fst c) \<noteq> 6"
  shows "fst c \<in> reserved_cells v ps"
proof -
  obtain i j where ij: "i < length ps" "j < length ps" "\<not> ((i, j) = (0, 0) \<or> (i, j) = (0, length ps - 1) \<or> (i, j) = (length ps - 1, 0))"
    "fst (fst c) \<in> {ps ! i - 2..ps ! i + 2}" "snd (fst c) \<in> {ps ! j - 2..ps ! j + 2}"
    using alignment_cells_box [OF assms(1)] by blast
  have "fst c \<in> {ps ! i - 2..ps ! i + 2} \<times> ({ps ! j - 2..ps ! j + 2} - {6})"
    unfolding mem_Times_iff using ij(4,5) assms(2) by blast
  then have "fst c \<in> alignment_box ps (i, j)" using ij(3) by (simp add: alignment_box_def corner_def)
  moreover have "(i, j) \<in> set (pairs ps)" using ij(1,2) by (simp add: pairs_def)
  ultimately show ?thesis unfolding reserved_cells_def Let_def by blast
qed

lemma patterns_blocked:
  assumes "p \<in> fst ` set (pattern_cells v ps)" "snd p \<noteq> 6" "\<forall>p \<in> set ps. 2 \<le> p" "ps = [] \<or> ps ! 0 = 6"
  shows "p \<in> reserved_cells v ps"
proof -
  obtain c where c: "c \<in> set (pattern_cells v ps)" "p = fst c" using assms(1) by blast
  let ?n = "v * 4 + 17"
  consider "c \<in> set (finder_cells ?n 0 0)" | "c \<in> set (finder_cells ?n 0 (?n - 7))" | "c \<in> set (finder_cells ?n (?n - 7) 0)"
    | "c \<in> set (alignment_cells ps)" | "c \<in> set (timing_cells ?n)" | "c \<in> set (format_areas ?n)"
    | "7 \<le> v" "c \<in> set (version_cells ?n (\<lambda>_. False))"
    using c(1) unfolding pattern_cells_def Let_def by (auto split: if_splits)
  then show ?thesis
    by cases (use assms(2-) c(2) in \<open>auto intro: finder_box_blocked alignment_blocked timing_blocked
        format_areas_blocked version_cells_blocked\<close>)
qed

lemma small_ranges:
  "[0..<0] = ([] :: nat list)" "[0..<2] = [0, 1]" "[0..<3] = [0, 1, 2]" "[0..<4] = [0, 1, 2, 3]"
  "[1..<1] = ([] :: nat list)" "[1..<2] = [1]" "[1..<3] = [1, 2]"
  by code_simp+

definition bound :: "nat \<Rightarrow> nat" where
  "bound v = (if v = 1 then 212 else if v \<le> 6 then 233 + 4 * v else if v \<le> 13 then 384 + 4 * v else 549 + 4 * v)"

lemma cells_bound_a:
  "cells_bound 1 [] = 212"
  "cells_bound 2 [6, 18] = 241"
  "cells_bound 3 [6, 22] = 245"
  "cells_bound 4 [6, 26] = 249"
  "cells_bound 5 [6, 30] = 253"
  "cells_bound 6 [6, 34] = 257"
  "cells_bound 7 [6, 22, 38] = 412"
  "cells_bound 8 [6, 24, 42] = 416"
  "cells_bound 9 [6, 26, 46] = 420"
  "cells_bound 10 [6, 28, 50] = 424"
  "cells_bound 11 [6, 30, 54] = 428"
  "cells_bound 12 [6, 32, 58] = 432"
  "cells_bound 13 [6, 34, 62] = 436"
  by (simp_all add: cells_bound_def timing_rest_def pairs_def alignment_weight_def corner_def small_ranges upt_rec_numeral)

lemma cells_bound_b:
  "cells_bound 14 [6, 26, 46, 66] = 605"
  "cells_bound 15 [6, 26, 48, 70] = 609"
  "cells_bound 16 [6, 26, 50, 74] = 613"
  "cells_bound 17 [6, 30, 54, 78] = 617"
  "cells_bound 18 [6, 30, 56, 82] = 621"
  "cells_bound 19 [6, 30, 58, 86] = 625"
  "cells_bound 20 [6, 34, 62, 90] = 629"
  by (simp_all add: cells_bound_def timing_rest_def pairs_def alignment_weight_def corner_def small_ranges upt_rec_numeral)

lemma cells_bounds: "list_all (\<lambda>(v, ps). cells_bound v ps = bound v \<and> (ps = [] \<or> ps ! 0 = 6)) ALIGNMENT_POSITIONS"
  by (simp add: ALIGNMENT_POSITIONS_def cells_bound_a cells_bound_a(1) [simplified] cells_bound_b bound_def)

lemma rows_have_room:
  "list_all (\<lambda>((v, l), ec, (b1, d1), (b2, d2)).
     8 * (b1 * d1 + b2 * d2 + (b1 + b2) * ec) + bound v \<le> (v * 4 + 17) * (v * 4 + 16)) BLOCK_TABLE"
  by (simp add: BLOCK_TABLE_def bound_def)

lemma room:
  assumes "map_of ALIGNMENT_POSITIONS v = Some ps" "total_codewords v l = Inr t"
  shows "8 * t + cells_bound v ps \<le> (v * 4 + 17) * (v * 4 + 16)" "ps = [] \<or> ps ! 0 = 6"
proof -
  obtain ec b1 d1 b2 d2 where "blocks_of v l = Inr (ec, (b1, d1), (b2, d2))" and t: "t = b1 * d1 + b2 * d2 + (b1 + b2) * ec"
    using assms(2) by (auto simp: total_codewords_def res_simps)
  then have "((v, l), ec, (b1, d1), (b2, d2)) \<in> set BLOCK_TABLE"
    by (auto simp: blocks_of_def split: option.splits dest!: map_of_SomeD)
  then have "8 * t + bound v \<le> (v * 4 + 17) * (v * 4 + 16)" using rows_have_room unfolding t list_all_iff by fastforce
  moreover have "cells_bound v ps = bound v \<and> (ps = [] \<or> ps ! 0 = 6)"
    using cells_bounds map_of_SomeD [OF assms(1)] unfolding list_all_iff by fastforce
  ultimately show "8 * t + cells_bound v ps \<le> (v * 4 + 17) * (v * 4 + 16)" "ps = [] \<or> ps ! 0 = 6" by simp_all
qed

lemma finite_blocked: "finite (reserved_cells v ps)"
proof -
  have "finite (alignment_box ps x)" for x by (cases x) (simp add: alignment_box_def)
  then show ?thesis unfolding reserved_cells_def Let_def by simp
qed

lemma data_cells_room:
  assumes "function_patterns v = Inr f" "total_codewords v l = Inr t"
  shows "8 * t \<le> length (filter (free f) (data_path (msize f)))"
proof -
  obtain ps where ps: "map_of ALIGNMENT_POSITIONS v = Some ps" by (rule function_patterns_cells [OF assms(1)])
  note v = positions_ok [OF ps] and f = function_patterns_facts [OF assms(1) ps] and r = room [OF ps assms(2)]
  let ?n = "v * 4 + 17"
  have two: "\<forall>p \<in> set ps. 2 \<le> p" using v(2) by blast
  have d: "distinct (data_path ?n)" by (simp add: data_path_def distinct_zigzag)
  have six: "snd p \<noteq> 6" if "p \<in> set (data_path ?n)" for p
    using zigzag_skips_6 [of "?n - 1" p ?n True] that by (simp add: data_path_def)
  have len: "length (data_path ?n) = (v * 4 + 17) * (v * 4 + 16)"
    using length_zigzag_even [of "?n - 1" ?n True] by (simp add: data_path_def)
  let ?taken = "filter (\<lambda>p. \<not> free f p) (data_path ?n)"
  have "set ?taken \<subseteq> reserved_cells v ps"
  proof
    fix p assume "p \<in> set ?taken"
    then have p: "p \<in> set (data_path ?n)" "\<not> free f p" by simp_all
    then have "p \<in> fst ` set (pattern_cells v ps)" using f(3) [of p] data_path_inside by blast
    from patterns_blocked [OF this six [OF p(1)] two r(2)] show "p \<in> reserved_cells v ps" .
  qed
  moreover note finite_blocked
  ultimately have "card (set ?taken) \<le> cells_bound v ps" 
    using card_blocked [OF two, of v] by (meson card_mono order_trans)
  then have "length ?taken \<le> cells_bound v ps" using distinct_card [of ?taken] d by simp
  moreover have "length ?taken + length (filter (free f) (data_path ?n)) = length (data_path ?n)"
    using sum_length_filter_compl [of "free f" "data_path ?n"] by simp
  ultimately show ?thesis using r(1) unfolding f(2) len by linarith
qed

section \<open>Reading a symbol back\<close>

lemma best_of_Cons:
  assumes "best_of base v l (k # ks) best = Some (Inr (Some b))"
  obtains c where "candidate base v l k = Some (Inr c)"
    "best_of base v l ks (case best of None \<Rightarrow> Some c | Some b \<Rightarrow> if fst c < fst b then Some c else best) = Some (Inr (Some b))"
proof (cases "candidate base v l k")
  case (Some r)
  then show ?thesis using assms that by (cases r) simp_all
qed (use assms in simp)

lemma best_of_candidate:
  "best_of base v l ks best = Some (Inr (Some b)) \<Longrightarrow> (\<exists>k \<in> set ks. candidate base v l k = Some (Inr b)) \<or> best = Some b"
proof (induction ks arbitrary: best)
  case (Cons k ks)
  obtain c where c: "candidate base v l k = Some (Inr c)"
    "best_of base v l ks (case best of None \<Rightarrow> Some c | Some b \<Rightarrow> if fst c < fst b then Some c else best) = Some (Inr (Some b))"
    by (rule best_of_Cons [OF Cons.prems])
  from Cons.IH [OF c(2)] c(1) show ?case by (auto split: option.splits if_splits)
qed simp

lemma best_of_least:
  assumes "best_of base v l ks best = Some (Inr (Some b))"
  shows "(\<forall>k \<in> set ks. \<forall>c. candidate base v l k = Some (Inr c) \<longrightarrow> fst b \<le> fst c) \<and> (\<forall>c. best = Some c \<longrightarrow> fst b \<le> fst c)"
  using assms
proof (induction ks arbitrary: best)
  case (Cons k ks)
  obtain c where c: "candidate base v l k = Some (Inr c)"
    "best_of base v l ks (case best of None \<Rightarrow> Some c | Some b \<Rightarrow> if fst c < fst b then Some c else best) = Some (Inr (Some b))"
    by (rule best_of_Cons [OF Cons.prems])
  show ?case
  proof (cases best)
    case None
    then show ?thesis using Cons.IH [OF c(2)] c(1) by auto
  next
    case (Some a)
    then show ?thesis using Cons.IH [OF c(2)] c(1) by (cases "fst c < fst a") auto
  qed
qed simp

lemma candidate_cases:
  assumes "candidate base v l k = Some (Inr (s, k', m))"
  obtains m1 bits where "apply_mask base k = Inr m1" "format_information l (nat k) = Some bits" "s = penalty m" "k' = k"
    "m = set_cells (format_cells (msize m1) bits) m1 \<and> v < 7
     \<or> (\<exists>vb :: nat. 7 \<le> v \<and> m = set_cells (version_cells (msize m1) (bit vb)) (set_cells (format_cells (msize m1) bits) m1))"
proof -
  obtain m1 where m1: "apply_mask base k = Inr m1" using assms by (cases "apply_mask base k") (simp_all add: candidate_def)
  obtain bits where b: "format_information l (nat k) = Some bits"
    using assms by (cases "format_information l (nat k)") (simp_all add: candidate_def m1 write_format_information_def)
  let ?m = "set_cells (format_cells (msize m1) bits) m1"
  have c: "Option.bind (write_version_information v ?m) (\<lambda>m. Some (Inr (penalty m, k, m))) = Some (Inr (s, k', m) :: _ res)"
    using assms by (simp add: candidate_def m1 write_format_information_def b)
  show ?thesis
  proof (cases "v < 7")
    case True
    then show ?thesis using c by (intro that [OF m1 b]) (auto simp: write_version_information_def)
  next
    case False
    then obtain vb where "version_information v = Some vb" using fields_defined(2) by blast
    then have e: "m = set_cells (version_cells (msize m1) (bit vb)) ?m" "s = penalty m" "k' = k"
      using c False by (auto simp: write_version_information_def)
    have "7 \<le> v \<and> m = set_cells (version_cells (msize m1) (bit vb)) ?m" using False e(1) by simp
    then show ?thesis using that [OF m1 b e(2,3)] by blast
  qed
qed

text \<open>
  A symbol's data modules are those of its base matrix under its mask: the fields written last only
  touch cells that are reserved for them.
\<close>

lemma candidate_modules:
  assumes "function_patterns v = Inr f" "candidate (place_data cw f) v l k = Some (Inr (s, k', m))"
    "p \<in> set (data_path (msize f))" "free f p"
  shows "cell_at (modules m) p \<longleftrightarrow> cell_at (modules (place_data cw f)) p \<noteq> flips k p"
proof -
  obtain ps where ps: "map_of ALIGNMENT_POSITIONS v = Some ps" by (rule function_patterns_cells [OF assms(1)])
  note f = function_patterns_facts [OF assms(1) ps]
  let ?n = "v * 4 + 17"
  note pd = place_data_facts [OF f(1), where data = cw]
  have i: "inside ?n p" using data_path_inside [OF assms(3)] f(2) by simp
  then have np: "p \<notin> fst ` set (pattern_cells v ps)" using assms(4) f(3) by blast
  obtain m1 bits where m: "apply_mask (place_data cw f) k = Inr m1"
    "m = set_cells (format_cells (msize m1) bits) m1 \<and> v < 7
     \<or> (\<exists>vb :: nat. 7 \<le> v \<and> m = set_cells (version_cells (msize m1) (bit vb)) (set_cells (format_cells (msize m1) bits) m1))"
    by (rule candidate_cases [OF assms(2)])
  note am = apply_mask_facts [OF m(1) pd(1)]
  have n: "msize m1 = ?n" using am(2) pd(2) f(2) by simp
  have fr: "free (place_data cw f) p" using assms(4) pd(3) by (simp add: free_def)
  have m1: "cell_at (modules m1) p \<longleftrightarrow> cell_at (modules (place_data cw f)) p \<noteq> flips k p"
    using masked_modules [OF m(1) pd(1), of p] fr i pd(2) f(2) by simp
  have ins: "inside ?n (fst c)" if "fst c \<in> fst ` set (pattern_cells v ps)" for c :: "cell \<times> bool"
    using that pattern_cells_inside [OF ps] by (metis imageE)
  note v1 = positions_ok(1) [OF ps]
  have fi: "\<forall>c \<in> set (format_cells (msize m1) bits). inside (msize m1) (fst c)" "p \<notin> fst ` set (format_cells (msize m1) bits)"
    using format_cells_reserved [OF v1, of _ bits ps] ins np unfolding n by blast+
  have m2: "cell_at (modules (set_cells (format_cells (msize m1) bits) m1)) p = cell_at (modules m1) p"
    by (rule set_cells_modules [OF am(1) fi])
  from m(2) show ?thesis
  proof (elim disjE exE conjE)
    assume "m = set_cells (format_cells (msize m1) bits) m1"
    then show ?thesis using m1 m2 by simp
  next
    fix vb assume v7: "7 \<le> v" and me: "m = set_cells (version_cells (msize m1) (bit vb)) (set_cells (format_cells (msize m1) bits) m1)"
    let ?m = "set_cells (format_cells (msize m1) bits) m1"
    have "\<forall>c \<in> set (version_cells (msize m1) (bit vb)). inside (msize ?m) (fst c)" "p \<notin> fst ` set (version_cells (msize m1) (bit vb))"
      using version_cells_reserved [OF v7, of _ "bit vb" ps] ins np unfolding msize_set_cells n by blast+
    from set_cells_modules [OF square_set_cells [OF am(1)] this] show ?thesis unfolding me using m1 m2 by simp
  qed
qed

text \<open>What a scanner does with an undamaged symbol whose version, level and mask it knows.\<close>

definition read_codewords :: "qr_code \<Rightarrow> bytes res" where
  "read_codewords q =
     rbind (function_patterns (code_version q)) (\<lambda>f.
     rbind (total_codewords (code_version q) (code_level q)) (\<lambda>t.
       Inr (pack_bits (take (8 * t) (map (\<lambda>p. cell_at (code_modules q) p \<noteq> flips (code_mask q) p)
         (filter (free f) (data_path (msize f))))))))"

definition scan :: "qr_code \<Rightarrow> bytes res" where
  "scan q =
     rbind (read_codewords q) (\<lambda>cw.
     rbind (read_blocks (code_version q) (code_level q) cw) (\<lambda>d. Inr (read_payload (character_count_bits (code_version q)) d)))"

lemma pick_version_fits: "pick_version p l v = Inr v' \<Longrightarrow> fits v' l p = Inr True"
  by (auto simp: pick_version_def res_simps choose_version_fits split: option.splits if_splits)

lemma encode_cases:
  assumes "encode p name v k = Some (Inr q)"
  obtains l f cw s m where "parse_level name = Some l" "pick_version p l v = Inr (code_version q)" "code_level q = l"
    "rbind (encode_payload p (code_version q) l) (\<lambda>cw. interleave cw (code_version q) l) = Inr cw"
    "function_patterns (code_version q) = Inr f"
    "best_of (place_data cw f) (code_version q) l (mask_candidates k) None = Some (Inr (Some (s, code_mask q, m)))"
    "code_modules q = modules m"
proof -
  obtain l where l: "parse_level name = Some l" using assms by (auto simp: encode_def split: option.splits)
  obtain v' base where b: "pick_version p l v = Inr v'" "base_matrix p v' l = Inr base"
    using assms by (auto simp: encode_def l res_simps split: sum.splits)
  then obtain s k' m where q: "best_of base v' l (mask_candidates k) None = Some (Inr (Some (s, k', m)))"
    "q = \<lparr>code_modules = modules m, code_version = v', code_level = l, code_mask = k'\<rparr>"
    using assms by (auto simp: encode_def l res_simps split: option.splits)
  obtain cw f where "rbind (encode_payload p v' l) (\<lambda>cw. interleave cw v' l) = Inr cw" "function_patterns v' = Inr f" "base = place_data cw f"
    using b(2) by (auto simp: base_matrix_def res_simps)
  with l b(1) q that show ?thesis by simp
qed

lemma scan_encode:
  assumes "encode p name v k = Some (Inr q)"
  shows "scan q = Inr p"
proof -
  obtain l f cw s m where q: "parse_level name = Some l" "pick_version p l v = Inr (code_version q)" "code_level q = l"
    "rbind (encode_payload p (code_version q) l) (\<lambda>cw. interleave cw (code_version q) l) = Inr cw"
    "function_patterns (code_version q) = Inr f"
    "best_of (place_data cw f) (code_version q) l (mask_candidates k) None = Some (Inr (Some (s, code_mask q, m)))"
    "code_modules q = modules m"
    by (rule encode_cases [OF assms])
  let ?v = "code_version q"
  obtain d where d: "encode_payload p ?v l = Inr d" "capacity_bits ?v l = Inr (8 * length d)" "read_payload (character_count_bits ?v) d = p"
    using encode_payload_read [OF pick_version_fits [OF q(2)]] by blast
  have cw: "interleave d ?v l = Inr cw" using q(4) by (simp add: d(1))
  then have rb: "total_codewords ?v l = Inr (length cw)" "read_blocks ?v l cw = Inr d" using interleave_read [OF d(2)] by auto
  obtain ps where ps: "map_of ALIGNMENT_POSITIONS ?v = Some ps" by (rule function_patterns_cells [OF q(5)])
  have sq: "square f" using function_patterns_facts(1) [OF q(5) ps] .
  obtain k' where "candidate (place_data cw f) ?v l k' = Some (Inr (s, code_mask q, m))"
    using best_of_candidate [OF q(6)] by auto
  moreover from this have "k' = code_mask q" by (auto elim: candidate_cases)
  ultimately have c: "candidate (place_data cw f) ?v l (code_mask q) = Some (Inr (s, code_mask q, m))" by simp
  let ?cells = "filter (free f) (data_path (msize f))"
  have "map (\<lambda>p. cell_at (code_modules q) p \<noteq> flips (code_mask q) p) ?cells = map (cell_at (modules (place_data cw f))) ?cells"
    using candidate_modules [OF q(5) c] unfolding q(7) by auto
  also have "\<dots> = map (data_bit cw) [0..<length ?cells]" by (rule place_data_facts(4) [OF sq])
  finally have "take (8 * length cw) (map (\<lambda>p. cell_at (code_modules q) p \<noteq> flips (code_mask q) p) ?cells) = unpack cw"
    using data_bits_unpack [OF data_cells_room [OF q(5) rb(1)]] by simp
  then have "read_codewords q = Inr cw" unfolding read_codewords_def q(3) by (simp add: q(5) rb(1) pack_byte_bits)
  then show ?thesis unfolding scan_def q(3) by (simp add: rb(2) d(3))
qed


section \<open>Encoding succeeds\<close>

lemma rmap_total: "(\<And>x. x \<in> set xs \<Longrightarrow> \<exists>y. f x = Inr y) \<Longrightarrow> \<exists>ys. rmap f xs = Inr ys"
proof (induction xs)
  case (Cons x xs)
  obtain y where "f x = Inr y" using Cons.prems by auto
  moreover obtain ys where "rmap f xs = Inr ys" using Cons by auto
  ultimately show ?case by simp
qed simp

lemma mask_condition_total: "0 \<le> k \<Longrightarrow> k \<le> 7 \<Longrightarrow> \<exists>b. mask_condition k r c = Inr b"
  unfolding mask_condition_def by (simp split: if_splits) 

lemma masked_value_total: "0 \<le> k \<Longrightarrow> k \<le> 7 \<Longrightarrow> \<exists>b. masked_value m k r c = Inr b"
  using mask_condition_total [of k r c] by (auto simp: masked_value_def Let_def)

lemma apply_mask_total:
  assumes "0 \<le> k" "k \<le> 7"
  shows "\<exists>m'. apply_mask m k = Inr m'"
proof -
  have "\<exists>row. rmap (masked_value m k r) [0..<msize m] = Inr row" for r
    by (rule rmap_total) (rule masked_value_total [OF assms])
  then have "\<exists>g. rmap (\<lambda>r. rmap (masked_value m k r) [0..<msize m]) [0..<msize m] = Inr g" by (rule rmap_total)
  then show ?thesis by (auto simp: apply_mask_def)
qed

lemma candidate_total:
  assumes "0 \<le> k" "k \<le> 7"
  shows "\<exists>c. candidate base v l k = Some (Inr c)"
proof -
  obtain m where m: "apply_mask base k = Inr m" using apply_mask_total [OF assms] by blast
  obtain fb vb where "format_information l (nat k) = Some fb" "version_information v = Some vb"
    using fields_defined by blast
  then show ?thesis by (simp add: candidate_def m write_format_information_def write_version_information_def)
qed

lemma best_of_total:
  assumes "\<forall>k \<in> set ks. 0 \<le> k \<and> k \<le> 7" "ks \<noteq> [] \<or> best \<noteq> None"
  shows "\<exists>b. best_of base v l ks best = Some (Inr (Some b))"
  using assms
proof (induction ks arbitrary: best)
  case (Cons k ks)
  obtain c where c: "candidate base v l k = Some (Inr c)" using candidate_total [of k base v l] Cons.prems by auto
  let ?best = "case best of None \<Rightarrow> Some c | Some b \<Rightarrow> if fst c < fst b then Some c else best"
  have "?best \<noteq> None" by (cases best) (simp_all del: not_None_eq)
  with Cons.IH [of ?best] Cons.prems(1) obtain b where "best_of base v l ks ?best = Some (Inr (Some b))" by auto
  then show ?case by (simp add: c del: split_paired_Ex)
qed auto

lemma function_patterns_total:
  assumes "1 \<le> v" "v \<le> MAX_VERSION"
  shows "\<exists>f. function_patterns v = Inr f"
proof -
  have "[1..<21] = map fst ALIGNMENT_POSITIONS" by code_simp
  moreover have "v \<in> set [1..<21]" using assms by (simp add: MAX_VERSION_def)
  ultimately have "v \<in> fst ` set ALIGNMENT_POSITIONS" by simp
  then obtain ps where "map_of ALIGNMENT_POSITIONS v = Some ps" using map_of_eq_None_iff [of ALIGNMENT_POSITIONS v] by auto
  then show ?thesis by (simp add: function_patterns_def place_alignment_def Let_def)
qed

lemma mask_candidates_valid:
  assumes "case k of None \<Rightarrow> True | Some k \<Rightarrow> 0 \<le> k \<and> k \<le> 7"
  shows "\<forall>k \<in> set (mask_candidates k). 0 \<le> k \<and> k \<le> 7" "mask_candidates k \<noteq> []"
  using assms by (auto simp: mask_candidates_def split: option.splits)

lemma encode_returns:
  assumes "parse_level name = Some l" "pick_version p l v = Inr v'" "case k of None \<Rightarrow> True | Some k \<Rightarrow> 0 \<le> k \<and> k \<le> 7"
    and "1 \<le> v'" "v' \<le> MAX_VERSION"
  shows "\<exists>q. encode p name v k = Some (Inr q) \<and> code_version q = v'"
proof -
  obtain d where d: "encode_payload p v' l = Inr d" "capacity_bits v' l = Inr (8 * length d)"
    using encode_payload_read [OF pick_version_fits [OF assms(2)]] by blast
  obtain cw where cw: "interleave d v' l = Inr cw" using interleave_read [OF d(2)] by blast
  obtain f where f: "function_patterns v' = Inr f" using function_patterns_total [OF assms(4,5)] by blast
  have b: "base_matrix p v' l = Inr (place_data cw f)" by (simp add: base_matrix_def d(1) cw f)
  obtain s k' m where "best_of (place_data cw f) v' l (mask_candidates k) None = Some (Inr (Some (s, k', m)))"
    using best_of_total [OF mask_candidates_valid(1) [OF assms(3)], of None "place_data cw f" v' l]
      mask_candidates_valid(2) [OF assms(3)] by (metis prod.exhaust)
  then show ?thesis by (simp add: encode_def assms(1,2) b)
qed

section \<open>The smallest version and the best mask\<close>

lemma blocks_of_total: "1 \<le> v \<Longrightarrow> v \<le> MAX_VERSION \<Longrightarrow> \<exists>b. blocks_of v l = Inr b"
proof -
  assume v: "1 \<le> v" "v \<le> MAX_VERSION"
  have "map fst BLOCK_TABLE = List.product [1..<21] [LevelL, LevelM, LevelQ, LevelH]" by code_simp
  moreover have "(v, l) \<in> set (List.product [1..<21] [LevelL, LevelM, LevelQ, LevelH])"
    using v by (cases l) (auto simp: MAX_VERSION_def)
  ultimately have "(v, l) \<in> fst ` set BLOCK_TABLE" by (metis list.set_map)
  then show ?thesis using map_of_eq_None_iff [of BLOCK_TABLE "(v, l)"] by (auto simp: blocks_of_def split: option.splits)
qed

lemma fits_total: "1 \<le> v \<Longrightarrow> v \<le> MAX_VERSION \<Longrightarrow> \<exists>b. fits v l p = Inr b"
  using blocks_of_total [of v l] by (auto simp: fits_def capacity_bits_def)

lemma first_version_split:
  assumes "\<forall>v \<in> set vs. \<exists>b. fits v l p = Inr b" "\<exists>v \<in> set vs. fits v l p = Inr True"
  shows "\<exists>v xs ys. vs = xs @ v # ys \<and> first_version vs l p = Inr v \<and> (\<forall>w \<in> set xs. fits w l p = Inr False)"
  using assms
proof (induction vs)
  case (Cons v vs)
  show ?case
  proof (cases "fits v l p = Inr True")
    case True
    have "first_version (v # vs) l p = Inr v" by (simp add: True)
    then show ?thesis by (metis append_Nil empty_iff list.set(1))
  next
    case False
    then have f: "fits v l p = Inr False" using Cons.prems(1) by (metis list.set_intros(1))
    then obtain w xs ys where "vs = xs @ w # ys" "first_version vs l p = Inr w" "\<forall>w \<in> set xs. fits w l p = Inr False"
      using Cons by auto
    then have "v # vs = (v # xs) @ w # ys" "first_version (v # vs) l p = Inr w" "\<forall>w \<in> set (v # xs). fits w l p = Inr False"
      using f by simp_all
    then show ?thesis by blast
  qed
qed simp

lemma choose_version_least:
  assumes "1 \<le> v" "v \<le> MAX_VERSION" "fits v l p = Inr True"
  shows "\<exists>w. choose_version p l = Inr w \<and> (\<forall>u. 1 \<le> u \<and> u < w \<longrightarrow> fits u l p = Inr False)"
proof -
  let ?vs = "[1..<MAX_VERSION + 1]"
  have "\<forall>v \<in> set ?vs. \<exists>b. fits v l p = Inr b" by (auto intro: fits_total)
  moreover have "v \<in> set ?vs" using assms(1,2) by (simp del: upt_Suc)
  ultimately obtain w xs ys where w: "?vs = xs @ w # ys" "first_version ?vs l p = Inr w" "\<forall>u \<in> set xs. fits u l p = Inr False"
    using first_version_split [of ?vs l p] assms(3) by blast
  have "u \<in> set xs" if u: "1 \<le> u" "u < w" for u
  proof -
    have "w \<in> set ?vs" unfolding w(1) by simp
    then have "u \<in> set ?vs" using u by (auto simp del: upt_Suc)
    then have "u \<in> set xs \<or> u = w \<or> u \<in> set ys" unfolding w(1) by auto
    moreover have "sorted (xs @ w # ys)" unfolding w(1) [symmetric] by (rule sorted_upt)
    ultimately show ?thesis using u(2) by (auto simp: sorted_append)
  qed
  with w show ?thesis by (auto simp: choose_version_def simp del: upt_Suc)
qed

lemma best_mask:
  assumes "encode p name v k = Some (Inr q)"
  obtains base s m where "base_matrix p (code_version q) (code_level q) = Inr base" "code_modules q = modules m"
    "candidate base (code_version q) (code_level q) (code_mask q) = Some (Inr (s, code_mask q, m))"
    "code_mask q \<in> set (mask_candidates k)"
    "\<forall>j \<in> set (mask_candidates k). \<forall>c. candidate base (code_version q) (code_level q) j = Some (Inr c) \<longrightarrow> s \<le> fst c"
proof -
  obtain l f cw s m where q: "parse_level name = Some l" "pick_version p l v = Inr (code_version q)" "code_level q = l"
    "rbind (encode_payload p (code_version q) l) (\<lambda>cw. interleave cw (code_version q) l) = Inr cw"
    "function_patterns (code_version q) = Inr f"
    "best_of (place_data cw f) (code_version q) l (mask_candidates k) None = Some (Inr (Some (s, code_mask q, m)))"
    "code_modules q = modules m"
    by (rule encode_cases [OF assms])
  obtain k' where k': "k' \<in> set (mask_candidates k)"
      "candidate (place_data cw f) (code_version q) l k' = Some (Inr (s, code_mask q, m))"
    using best_of_candidate [OF q(6)] by auto
  then have "k' = code_mask q" by (auto elim: candidate_cases)
  moreover have "base_matrix p (code_version q) l = Inr (place_data cw f)"
    using q(4,5) by (auto simp: base_matrix_def res_simps)
  ultimately show ?thesis using that [OF _ q(7)] k' best_of_least [OF q(6)] unfolding q(3) by simp
qed

section \<open>What the module promises\<close>

text \<open>C8: A scanner that reads the data modules of an undamaged symbol, undoes its mask and deals the codewords
  back out to their blocks gets the payload that was encoded, whatever version, level and mask were
  asked for or chosen.
\<close>

theorem scan_recovers_payload:
  assumes "encode p name v k = Some (Inr q)"
  shows "scan q = Inr p"
  by (rule scan_encode [OF assms])

lemma wifi_fits: "fits 1 LevelM [0x57, 0x49, 0x46, 0x49] = Inr True"
  by (simp add: fits_def capacity_bits_def blocks_of_def BLOCK_TABLE_def character_count_bits_def)

lemma wifi_encoded: "\<exists>q. encode [0x57, 0x49, 0x46, 0x49] ''M'' (Some 1) None = Some (Inr q)"
  using encode_returns [of "''M''" LevelM "[0x57, 0x49, 0x46, 0x49]" "Some 1" 1 None] wifi_fits
  by (auto simp: parse_level_def pick_version_def MAX_VERSION_def)

lemma scan_recovers_payload_witness:
  "\<exists>q. encode [0x57, 0x49, 0x46, 0x49] ''M'' (Some 1) None = Some (Inr q) \<and> scan q = Inr [0x57, 0x49, 0x46, 0x49]"
  using wifi_encoded scan_recovers_payload [of "[0x57, 0x49, 0x46, 0x49]" "''M''" "Some 1" None] by blast

text \<open>C22: Encoding a payload that fits some version returns: in the smallest version that holds it, under a mask
  whose penalty no other candidate beats.
\<close>

theorem encode_succeeds:
  assumes "parse_level name = Some l" "1 \<le> v" "v \<le> MAX_VERSION" "fits v l p = Inr True"
  shows "\<exists>q base m s. encode p name None None = Some (Inr q) \<and> code_level q = l
     \<and> fits (code_version q) l p = Inr True \<and> (\<forall>u. 1 \<le> u \<and> u < code_version q \<longrightarrow> fits u l p = Inr False)
     \<and> base_matrix p (code_version q) l = Inr base
     \<and> candidate base (code_version q) l (code_mask q) = Some (Inr (s, code_mask q, m)) \<and> code_modules q = modules m
     \<and> (\<forall>j \<in> {0..7}. \<forall>c. candidate base (code_version q) l j = Some (Inr c) \<longrightarrow> s \<le> fst c)"
proof -
  obtain w where w: "choose_version p l = Inr w" "\<forall>u. 1 \<le> u \<and> u < w \<longrightarrow> fits u l p = Inr False"
    using choose_version_least [OF assms(2-4)] by blast
  note wf = choose_version_fits [OF w(1)]
  have "pick_version p l None = Inr w" by (simp add: pick_version_def w(1))
  then obtain q where q: "encode p name None None = Some (Inr q)" "code_version q = w"
    using encode_returns [OF assms(1), of p None w None] wf by auto
  obtain base s m where b: "base_matrix p (code_version q) (code_level q) = Inr base" "code_modules q = modules m"
    "candidate base (code_version q) (code_level q) (code_mask q) = Some (Inr (s, code_mask q, m))"
    "\<forall>j \<in> set (mask_candidates None). \<forall>c. candidate base (code_version q) (code_level q) j = Some (Inr c) \<longrightarrow> s \<le> fst c"
    by (rule best_mask [OF q(1)])
  have l: "code_level q = l" using encode_cases [OF q(1)] assms(1) by (metis option.inject)
  have "set (mask_candidates None) = {0..7}" by (simp add: mask_candidates_def)
  then have "\<forall>j \<in> {0..7}. \<forall>c. candidate base w l j = Some (Inr c) \<longrightarrow> s \<le> fst c"
    using b(4) unfolding l q(2) by simp
  with q b(1-3) wf w(2) l show ?thesis
    by (intro exI [of _ q] exI [of _ base] exI [of _ m] exI [of _ s] conjI) (simp_all del: atLeastAtMost_iff)
qed

lemma encode_succeeds_witness:
  "fits 1 LevelM [0x57, 0x49, 0x46, 0x49] = Inr True \<and> (\<exists>q. encode [0x57, 0x49, 0x46, 0x49] ''M'' None None = Some (Inr q))"
  using encode_succeeds [of "''M''" LevelM 1 "[0x57, 0x49, 0x46, 0x49]"] wifi_fits
  by (auto simp: parse_level_def MAX_VERSION_def)

section \<open>What the renderings show\<close>

lemma even_rows: "i < (n + 1) div 2 \<Longrightarrow> filter even [0..<n] ! i = 2 * i"
proof (induction n arbitrary: i)
  case (Suc n)
  have l: "length (filter even [0..<n]) = (n + 1) div 2" by (induction n) auto
  show ?case
  proof (cases "i < (n + 1) div 2")
    case False
    then have "i = (n + 1) div 2" "even n" using Suc.prems by presburger+
    then show ?thesis by (auto simp: nth_append l elim!: evenE)
  qed (use Suc.IH l in \<open>auto simp: nth_append\<close>)
qed simp

lemma length_even_rows: "length (filter even [0..<n]) = (n + 1) div 2"
  by (induction n) auto

text \<open>Which half of a character is dark.\<close>

definition top_dark :: "glyph \<Rightarrow> bool" where "top_dark g \<longleftrightarrow> g = Blank \<or> g = LowerHalf"
definition bottom_dark :: "glyph \<Rightarrow> bool" where "bottom_dark g \<longleftrightarrow> g = Blank \<or> g = UpperHalf"

lemma text_shows_modules:
  assumes "r < code_size q" "c < code_size q"
  shows "(if even (r + quiet) then top_dark else bottom_dark) (to_text q quiet flip ! ((r + quiet) div 2) ! (c + quiet))
     \<longleftrightarrow> cell_at (code_modules q) (r, c) \<noteq> flip"
proof -
  let ?n = "code_size q + quiet * 2" and ?row = "2 * ((r + quiet) div 2)"
  have "(r + quiet) div 2 < (?n + 1) div 2" using assms(1) by linarith
  then have "to_text q quiet flip ! ((r + quiet) div 2) ! (c + quiet) = text_glyph q quiet flip ?row (c + quiet)"
    using assms(2) by (simp add: to_text_def Let_def even_rows length_even_rows)
  moreover have d: "text_dark q quiet flip (r + quiet) (c + quiet) \<longleftrightarrow> cell_at (code_modules q) (r, c) \<noteq> flip"
    using assms by (simp add: text_dark_def Let_def)
  have "(if even (r + quiet) then top_dark else bottom_dark) (text_glyph q quiet flip ?row (c + quiet))
     \<longleftrightarrow> text_dark q quiet flip (r + quiet) (c + quiet)"
  proof (cases "even (r + quiet)")
    case True
    then have "?row = r + quiet" by simp
    then show ?thesis using True by (simp add: text_glyph_def Let_def top_dark_def)
  next
    case False
    then have "?row + 1 = r + quiet" by (metis odd_two_times_div_two_succ)
    moreover from this have "?row + 1 < ?n" using assms(1) by linarith
    ultimately show ?thesis using False by (simp add: text_glyph_def Let_def bottom_dark_def)
  qed
  ultimately show ?thesis using d by simp
qed

lemma png_shows_modules:
  assumes "r < code_size q" "c < code_size q" "dy < ms" "dx < ms"
  shows "png_pixel q ms quiet ((r + quiet) * ms + dy) ((c + quiet) * ms + dx)
     = (if cell_at (code_modules q) (r, c) then 0 else 255)"
  using assms by (simp add: png_pixel_def Let_def)

lemma concat_nth:
  assumes "\<forall>i < n. length (f i) = w" "y < n" "x < w"
  shows "concat (map f [0..<n]) ! (y * w + x) = f y ! x"
  using assms
proof (induction n)
  case (Suc n)
  have l: "length (concat (map f [0..<k])) = k * w" if "k \<le> n" for k
    using that Suc.prems(1) by (induction k) auto
  show ?case
  proof (cases "y < n")
    case True
    then have "y * w + x < n * w" using Suc.prems(3)
      by (metis Suc_leI add.commute less_le_trans mult.commute mult_Suc_right mult_le_mono1 nat_add_left_cancel_less)
    then show ?thesis using Suc True l [of n] by (simp add: nth_append)
  next
    case False
    then have "y = n" using Suc.prems(2) by simp
    then show ?thesis using l [of n] by (simp add: nth_append)
  qed
qed simp

lemma png_scanlines:
  assumes "y < d" "x < d" "d = (code_size q + quiet * 2) * ms"
  shows "png_rows q ms quiet ! (y * (d + 1) + 0) = 0" "png_rows q ms quiet ! (y * (d + 1) + (x + 1)) = png_pixel q ms quiet y x"
proof -
  let ?f = "\<lambda>y. 0 # map (png_pixel q ms quiet y) [0..<d]"
  have r: "png_rows q ms quiet = concat (map ?f [0..<d])" by (simp add: png_rows_def Let_def assms(3))
  have l: "\<forall>i < d. length (?f i) = d + 1" by simp
  show "png_rows q ms quiet ! (y * (d + 1) + 0) = 0" unfolding r by (subst concat_nth [OF l assms(1)]) simp_all
  show "png_rows q ms quiet ! (y * (d + 1) + (x + 1)) = png_pixel q ms quiet y x"
    unfolding r using assms(2) by (subst concat_nth [OF l assms(1)]) simp_all
qed

section \<open>The type of a symbol\<close>

lemma pick_version_range: "pick_version p l v = Inr v' \<Longrightarrow> 1 \<le> v' \<and> v' \<le> MAX_VERSION"
  using choose_version_fits [of p l v'] by (auto simp: pick_version_def res_simps split: option.splits if_splits)

lemma mask_condition_range: "mask_condition k r c = Inr b \<Longrightarrow> 0 \<le> k \<and> k \<le> 7"
  unfolding mask_condition_def by (auto split: if_splits)

text \<open>A mask that was applied to a matrix with a free cell is one of the eight.\<close>

lemma applied_mask_range:
  assumes "apply_mask m k = Inr m'" "square m" "inside (msize m) p" "free m p"
  shows "0 \<le> k \<and> k \<le> 7"
  using apply_mask_facts(4) [OF assms(1-3)] assms(4)
  by (auto simp: masked_value_def free_def Let_def res_simps dest: mask_condition_range)

lemma encode_grid:
  assumes "encode p name v k = Some (Inr q)"
  shows "1 \<le> code_version q \<and> code_version q \<le> MAX_VERSION \<and> 0 \<le> code_mask q \<and> code_mask q \<le> 7
     \<and> grid (code_version q * 4 + 17) (code_modules q)"
proof -
  obtain l f cw s m where q: "parse_level name = Some l" "pick_version p l v = Inr (code_version q)" "code_level q = l"
    "rbind (encode_payload p (code_version q) l) (\<lambda>cw. interleave cw (code_version q) l) = Inr cw"
    "function_patterns (code_version q) = Inr f"
    "best_of (place_data cw f) (code_version q) l (mask_candidates k) None = Some (Inr (Some (s, code_mask q, m)))"
    "code_modules q = modules m"
    by (rule encode_cases [OF assms])
  let ?v = "code_version q"
  obtain ps where ps: "map_of ALIGNMENT_POSITIONS ?v = Some ps" by (rule function_patterns_cells [OF q(5)])
  note f = function_patterns_facts [OF q(5) ps]
  note pd = place_data_facts [OF f(1), where data = cw]
  obtain k' where "candidate (place_data cw f) ?v l k' = Some (Inr (s, code_mask q, m))"
    using best_of_candidate [OF q(6)] by auto
  then obtain m1 bits where m: "apply_mask (place_data cw f) k' = Inr m1" "code_mask q = k'"
    "m = set_cells (format_cells (msize m1) bits) m1 \<and> ?v < 7
     \<or> (\<exists>vb :: nat. 7 \<le> ?v \<and> m = set_cells (version_cells (msize m1) (bit vb)) (set_cells (format_cells (msize m1) bits) m1))"
    by (rule candidate_cases) simp
  note am = apply_mask_facts [OF m(1) pd(1)]
  have "square m" "msize m = msize f" using m(3) am(1,2) pd(2) by (auto simp: square_set_cells)
  then have g: "grid (?v * 4 + 17) (code_modules q)" using f(2) q(7) by (simp add: square_def)
  obtain ec b1 d1 b2 d2 where b: "blocks_of ?v l = Inr (ec, (b1, d1), (b2, d2))"
    using blocks_of_total [of ?v l] pick_version_range [OF q(2)] by (metis prod.exhaust)
  then have "total_codewords ?v l = Inr (b1 * d1 + b2 * d2 + (b1 + b2) * ec)" by (simp add: total_codewords_def)
  from data_cells_room [OF q(5) this] have "filter (free f) (data_path (msize f)) \<noteq> []"
    using blocks_of_row(2,3) [OF b] by auto
  then obtain c where c: "c \<in> set (data_path (msize f))" "free f c" by (auto simp: filter_empty_conv)
  have "free (place_data cw f) c" using c(2) by (simp add: free_def pd(3))
  then have "0 \<le> k' \<and> k' \<le> 7"
    using applied_mask_range [OF m(1) pd(1), of c] data_path_inside [OF c(1)] unfolding pd(2) by blast
  then show ?thesis using g pick_version_range [OF q(2)] m(2) by simp
qed

text \<open>C29: Whatever \<open>encode\<close> returns is a symbol: its version lies between 1 and 20 and its mask between 0 and 7,
  and its modules form a square of 4 v + 17 cells a side.
\<close>

theorem code_well_formed:
  assumes "encode p name v k = Some (Inr q)"
  shows "1 \<le> code_version q \<and> code_version q \<le> MAX_VERSION \<and> 0 \<le> code_mask q \<and> code_mask q \<le> 7
     \<and> length (code_modules q) = code_version q * 4 + 17
     \<and> list_all (\<lambda>row. length row = code_version q * 4 + 17) (code_modules q)"
  using encode_grid [OF assms] by (auto simp: grid_def list_all_length)

lemma code_well_formed_witness:
  "\<exists>q. encode [0x57, 0x49, 0x46, 0x49] ''M'' (Some 1) None = Some (Inr q) \<and> length (code_modules q) = code_version q * 4 + 17"
  using wifi_encoded code_well_formed [of "[0x57, 0x49, 0x46, 0x49]" "''M''" "Some 1" None] by blast

end
