(* ===== verification/WireGuard.thy ===== *)
theory WireGuard
  imports Vault "HOL-Library.Char_ord" "HOL-Library.List_Lexorder"
begin

text \<open>
  The tunnel's peers, \<open>symbivpn/vpn/wireguard.py\<close>: the store of peers and server keys with its sealed
  file, the manager that allocates addresses, and the configuration texts it writes.  Key generation,
  the random nonce, JSON and the utf-8 codec are parameters.
\<close>

section \<open>Peers and the server\<close>

definition DEFAULT_LISTEN_PORT :: nat where "DEFAULT_LISTEN_PORT = 51820"
definition DEFAULT_MTU :: nat where "DEFAULT_MTU = 1420"
definition MOBILE_MTU :: nat where "MOBILE_MTU = 1280"

record peer =
  pr_name :: str
  pr_public :: str
  pr_address :: str
  pr_private :: str
  pr_psk :: str
  pr_profile :: str
  pr_routed :: "str list"
  pr_mtu :: nat
  pr_keepalive :: nat
  pr_created :: time
  pr_enabled :: bool
  pr_note :: str

record wg_server =
  sv_endpoint :: str
  sv_private :: str
  sv_public :: str
  sv_subnet :: network
  sv_port :: nat
  sv_interface :: str
  sv_dns :: str
  sv_uplink :: str

text \<open>
  \<open>subnet.hosts()\<close> as its first and last value: an IPv4 network without its network and broadcast
  addresses, an IPv6 network without its first address, and the whole of the two smallest networks.
\<close>

definition host_span :: "network \<Rightarrow> nat \<times> nat" where
  "host_span n =
     (let lo = ip_value (net_base n); bits = host_bits (net_base n) (prefixlen n); hi = lo + 2 ^ bits - 1 in
      if bits \<le> 1 then (lo, hi) else if ip_version (net_base n) = 4 then (lo + 1, hi - 1) else (lo + 1, hi))"

definition host_text :: "network \<Rightarrow> nat \<Rightarrow> str" where
  "host_text n v = ip_str (if ip_version (net_base n) = 4 then V4 v else V6 v)"

definition net_text :: "network \<Rightarrow> str" where
  "net_text n = ip_str (net_base n) @ ''/'' @ dec (prefixlen n)"

text \<open>\<open>ip_network\<close> with its default \<open>strict=True\<close>: host bits that are set are an error.\<close>

definition strict_network :: "str \<Rightarrow> network option" where
  "strict_network s =
     (case ip_network s of None \<Rightarrow> None
      | Some n \<Rightarrow> if ip_address (hd (split_on CHR ''/'' s)) = Some (net_base n) then Some n else None)"

definition sv_address :: "wg_server \<Rightarrow> str" where
  "sv_address s = host_text (sv_subnet s) (fst (host_span (sv_subnet s)))"

definition sv_resolver :: "wg_server \<Rightarrow> str" where
  "sv_resolver s = (if sv_dns s \<noteq> [] then sv_dns s else sv_address s)"

section \<open>The store\<close>

text \<open>
  The codecs of the state file: utf-8, JSON text, the value's \<open>server\<close> entry, its peers one by one, and
  the whole written out.
\<close>

record 'j state_codec =
  utf8_strict :: "bytes \<Rightarrow> str res"
  utf8_replace :: "bytes \<Rightarrow> str"
  json_loads :: "str \<Rightarrow> 'j res"
  server_entry :: "'j \<Rightarrow> wg_server option res"
  peer_entries :: "'j \<Rightarrow> 'j list res"
  peer_entry :: "'j \<Rightarrow> peer res"
  dump_state :: "wg_server option \<Rightarrow> peer list \<Rightarrow> bytes"

record peer_store =
  ps_key :: "bytes option"
  peers :: "(str, peer) dict"
  ps_server :: "wg_server option"
  needs_sealing :: bool
  ps_locked :: bool
  ps_file :: "stored option"

definition peers_context :: bytes where "peers_context = [0x70, 0x65, 0x65, 0x72, 0x73]"

fun read_peers :: "'j state_codec \<Rightarrow> 'j list \<Rightarrow> peer_store \<Rightarrow> peer_store \<times> unit res" where
  "read_peers cd [] st = (st, Inr ())"
| "read_peers cd (j # js) st =
     (case peer_entry cd j of Inl e \<Rightarrow> (st, Inl e)
      | Inr p \<Rightarrow> read_peers cd js (st\<lparr>peers := dset (pr_name p) p (peers st)\<rparr>))"

definition read_text :: "'j state_codec \<Rightarrow> str \<Rightarrow> peer_store \<Rightarrow> peer_store \<times> unit res" where
  "read_text cd txt st =
     (case json_loads cd txt of Inl e \<Rightarrow> (st, Inl (if e = ValueError then WireGuardError else e))
      | Inr j \<Rightarrow>
        (case server_entry cd j of Inl e \<Rightarrow> (st, Inl e)
         | Inr sv \<Rightarrow>
           let st = (case sv of None \<Rightarrow> st | Some s \<Rightarrow> st\<lparr>ps_server := Some s\<rparr>) in
           (case peer_entries cd j of Inl e \<Rightarrow> (st, Inl e) | Inr js \<Rightarrow> read_peers cd js st)))"

definition load_store :: "'j state_codec \<Rightarrow> bool \<Rightarrow> peer_store \<Rightarrow> peer_store \<times> unit res" where
  "load_store cd unreadable st =
     (case ps_file st of None \<Rightarrow> (st, Inr ())
      | Some f \<Rightarrow>
        if unreadable then (st, Inl WireGuardError)
        else if looks_sealed (st_bytes f) then
          (case ps_key st of None \<Rightarrow> (st\<lparr>ps_locked := True\<rparr>, Inr ())
           | Some k \<Rightarrow>
             (case unseal k (st_bytes f) peers_context of
                Inl e \<Rightarrow> (st, Inl (if e = VaultError then WireGuardError else e))
              | Inr plain \<Rightarrow>
                (case utf8_strict cd plain of Inl e \<Rightarrow> (st, Inl e) | Inr txt \<Rightarrow> read_text cd txt st)))
        else read_text cd (utf8_replace cd (st_bytes f)) (st\<lparr>needs_sealing := (ps_key st \<noteq> None)\<rparr>))"

definition open_store :: "'j state_codec \<Rightarrow> bool \<Rightarrow> bytes option \<Rightarrow> stored option \<Rightarrow> peer_store \<times> unit res" where
  "open_store cd unreadable key f =
     load_store cd unreadable
       \<lparr>ps_key = key, peers = [], ps_server = None, needs_sealing = False, ps_locked = False, ps_file = f\<rparr>"

text \<open>Only a \<open>WireGuardError\<close> puts the lock back.\<close>

definition unlock :: "'j state_codec \<Rightarrow> bool \<Rightarrow> bytes \<Rightarrow> peer_store \<Rightarrow> peer_store \<times> bytes res" where
  "unlock cd unreadable key st =
     (if \<not> ps_locked st then (st, Inr key)
      else
        (case load_store cd unreadable (st\<lparr>ps_key := Some key, ps_locked := False, peers := [], ps_server := None\<rparr>) of
           (st, Inl e) \<Rightarrow>
             if e = WireGuardError then (st\<lparr>ps_key := None, ps_locked := True\<rparr>, Inl e) else (st, Inl e)
         | (st, Inr _) \<Rightarrow> if ps_locked st then (st, Inl WireGuardError) else (st, Inr key)))"

text \<open>What a write needs of the world: the umask, a left-over temporary file and the random nonce.\<close>

record writing =
  w_umask :: u16
  w_temporary :: "stored option"
  w_nonce :: bytes

definition save_store :: "'j state_codec \<Rightarrow> writing \<Rightarrow> peer_store \<Rightarrow> peer_store \<times> unit res" where
  "save_store cd w st =
     (if ps_locked st then (st, Inl WireGuardError)
      else let body = dump_state cd (ps_server st) (dvals (peers st)) in
        case ps_key st of
          Some k \<Rightarrow>
            (case seal_file (w_umask w) (w_temporary w) k (w_nonce w) body peers_context of
               Inl e \<Rightarrow> (st, Inl e)
             | Inr f \<Rightarrow> (st\<lparr>ps_file := Some f, needs_sealing := False\<rparr>, Inr ()))
        | None \<Rightarrow> (st\<lparr>ps_file := Some (open_trunc (w_umask w) (w_temporary w) body)\<rparr>, Inr ()))"

section \<open>The manager\<close>

text \<open>What the caller of \<open>initialise_server\<close> passes, and the keys that are generated.\<close>

record server_request =
  rq_endpoint :: str
  rq_subnet :: str
  rq_port :: nat
  rq_interface :: str
  rq_uplink :: str
  rq_dns :: str
  rq_force :: bool

definition initialise_server ::
  "'j state_codec \<Rightarrow> writing \<Rightarrow> str \<times> str \<Rightarrow> server_request \<Rightarrow> peer_store \<Rightarrow> peer_store \<times> wg_server res" where
  "initialise_server cd w keypair rq st =
     (case (ps_server st, rq_force rq) of
        (Some s, False) \<Rightarrow>
          let s = s\<lparr>sv_endpoint := rq_endpoint rq\<rparr>; (st, r) = save_store cd w (st\<lparr>ps_server := Some s\<rparr>)
          in (st, rbind r (\<lambda>_. Inr s))
      | _ \<Rightarrow>
          (case strict_network (rq_subnet rq) of None \<Rightarrow> (st, Inl ValueError)
           | Some n \<Rightarrow>
             let s = \<lparr>sv_endpoint = rq_endpoint rq, sv_private = fst keypair, sv_public = snd keypair, sv_subnet = n,
                      sv_port = rq_port rq, sv_interface = rq_interface rq,
                      sv_dns = (if rq_dns rq \<noteq> [] then rq_dns rq else host_text n (fst (host_span n))),
                      sv_uplink = rq_uplink rq\<rparr>;
                 st = st\<lparr>ps_server := Some s\<rparr>;
                 st = (if rq_force rq then st\<lparr>peers := []\<rparr> else st);
                 (st, r) = save_store cd w st
             in (st, rbind r (\<lambda>_. Inr s))))"

text \<open>The first host that is free, from \<open>v\<close> up to \<open>hi\<close>.\<close>

function first_free :: "network \<Rightarrow> str set \<Rightarrow> nat \<Rightarrow> nat \<Rightarrow> str option" where
  "first_free n used v hi =
     (if hi < v then None
      else if host_text n v \<notin> used then Some (host_text n v) else first_free n used (v + 1) hi)"
  by pat_completeness auto
termination by (relation "measure (\<lambda>(_, _, v, hi). hi + 1 - v)") auto

declare first_free.simps [simp del]

definition used_addresses :: "wg_server \<Rightarrow> peer_store \<Rightarrow> str set" where
  "used_addresses s st = insert (sv_address s) (set (map (\<lambda>p. hd (split_on CHR ''/'' (pr_address p))) (dvals (peers st))))"

definition next_address :: "wg_server \<Rightarrow> peer_store \<Rightarrow> str res" where
  "next_address s st =
     (let (lo, hi) = host_span (sv_subnet s) in
      case first_free (sv_subnet s) (used_addresses s st) lo hi of None \<Rightarrow> Inl WireGuardError | Some a \<Rightarrow> Inr a)"

text \<open>\<open>PEER_NAME.match\<close>, whose final \<open>$\<close> also stands before a last newline, and the check for spaces around.\<close>

definition is_alnum :: "char \<Rightarrow> bool" where
  "is_alnum c = (let k = code_pt c in (48 \<le> k \<and> k \<le> 57) \<or> (65 \<le> k \<and> k \<le> 90) \<or> (97 \<le> k \<and> k \<le> 122))"

definition is_name_char :: "char \<Rightarrow> bool" where
  "is_name_char c = (is_alnum c \<or> c \<in> set ''._ -'')"

definition name_match :: "str \<Rightarrow> bool" where
  "name_match s =
     (case s of [] \<Rightarrow> False
      | c # cs \<Rightarrow>
        let body = (if cs \<noteq> [] \<and> last cs = CHR 0x0A then butlast cs else cs)
        in is_alnum c \<and> list_all is_name_char body \<and> length body \<le> 63)"

definition usable_name :: "str \<Rightarrow> bool" where
  "usable_name s = (name_match s \<and> s = strip is_space s)"

record peer_request =
  pq_name :: str
  pq_profile :: str
  pq_preshared :: bool
  pq_mobile :: bool
  pq_tether :: str
  pq_note :: str

record new_keys =
  nk_private :: str
  nk_public :: str
  nk_psk :: str

definition tether_of :: "peer_request \<Rightarrow> str" where
  "tether_of rq =
     (if pq_profile rq = ''hotspot-relay'' \<and> pq_tether rq = [] then ''192.168.43.0/24'' else pq_tether rq)"

definition routed_of :: "peer_request \<Rightarrow> str list res" where
  "routed_of rq =
     (if tether_of rq = [] then Inr []
      else case strict_network (tether_of rq) of None \<Rightarrow> Inl WireGuardError | Some n \<Rightarrow> Inr [net_text n])"

definition make_peer :: "time \<Rightarrow> new_keys \<Rightarrow> peer_request \<Rightarrow> str list \<Rightarrow> str \<Rightarrow> peer" where
  "make_peer now ks rq routed address =
     \<lparr>pr_name = pq_name rq, pr_public = nk_public ks, pr_address = address, pr_private = nk_private ks,
      pr_psk = (if pq_preshared rq then nk_psk ks else []), pr_profile = pq_profile rq, pr_routed = routed,
      pr_mtu = (if pq_mobile rq then MOBILE_MTU else DEFAULT_MTU), pr_keepalive = 25, pr_created = now,
      pr_enabled = True, pr_note = pq_note rq\<rparr>"

definition plan_peer :: "time \<Rightarrow> new_keys \<Rightarrow> peer_request \<Rightarrow> peer_store \<Rightarrow> peer res" where
  "plan_peer now ks rq st =
     (case ps_server st of None \<Rightarrow> Inl WireGuardError
      | Some s \<Rightarrow>
        if dget (peers st) (pq_name rq) \<noteq> None then Inl WireGuardError
        else if \<not> usable_name (pq_name rq) then Inl WireGuardError
        else rbind (routed_of rq) (\<lambda>routed.
             rbind (next_address s st) (\<lambda>address. Inr (make_peer now ks rq routed address))))"

definition add_peer ::
  "'j state_codec \<Rightarrow> writing \<Rightarrow> time \<Rightarrow> new_keys \<Rightarrow> peer_request \<Rightarrow> peer_store \<Rightarrow> peer_store \<times> peer res" where
  "add_peer cd w now ks rq st =
     (case plan_peer now ks rq st of Inl e \<Rightarrow> (st, Inl e)
      | Inr p \<Rightarrow>
        let (st, r) = save_store cd w (st\<lparr>peers := dset (pq_name rq) p (peers st)\<rparr>)
        in (st, rbind r (\<lambda>_. Inr p)))"

definition remove_peer :: "'j state_codec \<Rightarrow> writing \<Rightarrow> str \<Rightarrow> peer_store \<Rightarrow> peer_store \<times> unit res" where
  "remove_peer cd w name st =
     (if dget (peers st) name = None then (st, Inl WireGuardError)
      else save_store cd w (st\<lparr>peers := ddel name (peers st)\<rparr>))"

definition set_enabled :: "'j state_codec \<Rightarrow> writing \<Rightarrow> str \<Rightarrow> bool \<Rightarrow> peer_store \<Rightarrow> peer_store \<times> peer res" where
  "set_enabled cd w name enabled st =
     (case dget (peers st) name of None \<Rightarrow> (st, Inl WireGuardError)
      | Some p \<Rightarrow>
        let p = p\<lparr>pr_enabled := enabled\<rparr>; (st, r) = save_store cd w (st\<lparr>peers := dset name p (peers st)\<rparr>)
        in (st, rbind r (\<lambda>_. Inr p)))"

definition list_peers :: "peer_store \<Rightarrow> peer list" where
  "list_peers st = sort_key pr_name (dvals (peers st))"

section \<open>Configuration texts\<close>

definition comma :: "str list \<Rightarrow> str" where "comma = join '', ''"

definition peer_section :: "peer \<Rightarrow> str list" where
  "peer_section p =
     (if \<not> pr_enabled p then [[], ''# '' @ pr_name p @ '' (disabled)'']
      else [[], ''# '' @ pr_name p @ (if pr_note p \<noteq> [] then '' -- '' @ pr_note p else []) @ '' ['' @ pr_profile p @ '']'',
            ''[Peer]'', ''PublicKey = '' @ pr_public p]
           @ (if pr_psk p \<noteq> [] then [''PresharedKey = '' @ pr_psk p] else [])
           @ [''AllowedIPs = '' @ comma ((pr_address p @ ''/32'') # pr_routed p)])"

definition interface_lines :: "wg_server \<Rightarrow> str list" where
  "interface_lines s =
     (let uplink = (if sv_uplink s \<noteq> [] then sv_uplink s else ''%i'');
          masquerade = (\<lambda>op. ''iptables -t nat -'' @ op @ '' POSTROUTING -s '' @ net_text (sv_subnet s) @ '' -o '' @ uplink @ '' -j MASQUERADE'');
          forward = (\<lambda>op. ''iptables -'' @ op @ '' FORWARD -i %i -o '' @ uplink @ '' -j ACCEPT'');
          related = (\<lambda>op. ''iptables -'' @ op @ '' FORWARD -m state --state RELATED,ESTABLISHED -j ACCEPT'');
          dnat = (\<lambda>op proto. ''iptables -t nat -'' @ op @ '' PREROUTING -i %i -p '' @ proto @ '' --dport 53 -j DNAT --to ''
                    @ sv_resolver s @ '':53'')
      in [''# SymbiVPN tunnel endpoint. Generated file -- edit the peer list'',
          ''# with `symbivpn vpn add-peer` rather than by hand.'',
          ''[Interface]'',
          ''Address = '' @ sv_address s @ ''/'' @ dec (prefixlen (sv_subnet s)),
          ''ListenPort = '' @ dec (sv_port s),
          ''PrivateKey = '' @ sv_private s,
          [],
          ''# Route client traffic out to the internet and back. The DNS'',
          ''# redirect is what stops a peer using a resolver other than ours.'',
          ''PostUp = sysctl -q -w net.ipv4.ip_forward=1'',
          ''PostUp = '' @ masquerade ''A'', ''PostUp = '' @ forward ''A'', ''PostUp = '' @ related ''A'',
          ''PostUp = '' @ dnat ''A'' ''udp'', ''PostUp = '' @ dnat ''A'' ''tcp'',
          ''PostDown = '' @ masquerade ''D'', ''PostDown = '' @ forward ''D'', ''PostDown = '' @ related ''D'',
          ''PostDown = '' @ dnat ''D'' ''udp'', ''PostDown = '' @ dnat ''D'' ''tcp''])"

definition newline :: str where "newline = [CHR 0x0A]"

definition server_config :: "peer_store \<Rightarrow> str res" where
  "server_config st =
     (case ps_server st of None \<Rightarrow> Inl WireGuardError
      | Some s \<Rightarrow> Inr (join newline (interface_lines s @ concat (map peer_section (list_peers st))) @ newline))"

definition allowed_ips_for :: "str \<Rightarrow> wg_server \<Rightarrow> str list \<Rightarrow> str res" where
  "allowed_ips_for profile s local_networks =
     (if profile = ''full'' \<or> profile = ''hotspot-relay'' then Inr ''0.0.0.0/0, ::/0''
      else if profile = ''lan'' then
        Inr (comma (fold (\<lambda>n routes. if n \<in> set routes then routes else routes @ [n]) local_networks [net_text (sv_subnet s)]))
      else if profile = ''dns-only'' then Inr (sv_resolver s @ ''/32'')
      else Inl WireGuardError)"

definition peer_resolvers :: "wg_server \<Rightarrow> str list \<Rightarrow> str list" where
  "peer_resolvers s resolvers =
     (let servers = filter (\<lambda>a. a \<noteq> []) resolvers;
          servers = (if sv_resolver s \<in> set servers then servers else sv_resolver s # servers)
      in take 3 servers)"

text \<open>The text of each profile's help is a parameter; an unknown profile has failed before it is asked for.\<close>

definition peer_lines :: "(str \<Rightarrow> str) \<Rightarrow> str list \<Rightarrow> wg_server \<Rightarrow> peer \<Rightarrow> str \<Rightarrow> str list" where
  "peer_lines help resolvers s p allowed =
     [''# SymbiVPN :: '' @ pr_name p, ''# '' @ help (pr_profile p), ''[Interface]'',
      ''PrivateKey = '' @ pr_private p, ''Address = '' @ pr_address p @ ''/32'',
      ''DNS = '' @ comma (peer_resolvers s resolvers), ''MTU = '' @ dec (pr_mtu p), [], ''[Peer]'',
      ''PublicKey = '' @ sv_public s]
     @ (if pr_psk p \<noteq> [] then [''PresharedKey = '' @ pr_psk p] else [])
     @ [''AllowedIPs = '' @ allowed, ''Endpoint = '' @ sv_endpoint s @ '':'' @ dec (sv_port s),
        ''PersistentKeepalive = '' @ dec (pr_keepalive p)]"

definition peer_config :: "(str \<Rightarrow> str) \<Rightarrow> str list \<Rightarrow> str list \<Rightarrow> str \<Rightarrow> peer_store \<Rightarrow> str res" where
  "peer_config help resolvers local_networks name st =
     (case ps_server st of None \<Rightarrow> Inl WireGuardError
      | Some s \<Rightarrow>
        (case dget (peers st) name of None \<Rightarrow> Inl WireGuardError
         | Some p \<Rightarrow> rbind (allowed_ips_for (pr_profile p) s local_networks) (\<lambda>allowed.
             Inr (join newline (peer_lines help resolvers s p allowed) @ newline))))"

section \<open>Free addresses\<close>

lemma digit_char_16: "d < 16 \<Longrightarrow> digit_char d \<noteq> CHR ''/'' \<and> digit_char d \<noteq> CHR 0x0A"
proof -
  assume "d < 16"
  then have "code_pt (digit_char d) = (if d < 10 then 48 + d else 87 + d)" by (simp add: digit_char_def code_pt_def)
  with \<open>d < 16\<close> show ?thesis by (auto simp: code_pt_def split: if_splits)
qed

lemma number_chars: "c \<in> set (dec n) \<or> c \<in> set (hex n) \<Longrightarrow> c \<noteq> CHR ''/'' \<and> c \<noteq> CHR 0x0A"
proof (elim disjE)
  assume "c \<in> set (dec n)"
  then obtain d where d: "d \<in> set (digits 10 n)" "c = digit_char d" unfolding dec_def by auto
  have "d < 16" using digits_lt [OF _ d(1)] by simp
  then show ?thesis unfolding d(2) by (rule digit_char_16)
next
  assume "c \<in> set (hex n)"
  then obtain d where d: "d \<in> set (digits 16 n)" "c = digit_char d" unfolding hex_def by auto
  have "d < 16" using digits_lt [OF _ d(1)] by simp
  then show ?thesis unfolding d(2) by (rule digit_char_16)
qed

lemma ip_str_chars: "c \<in> set (ip_str a) \<Longrightarrow> c \<noteq> CHR ''/'' \<and> c \<noteq> CHR 0x0A"
proof (cases a)
  case (V4 n)
  moreover assume "c \<in> set (ip_str a)"
  ultimately have "c = CHR ''.'' \<or> (\<exists>m. c \<in> set (dec m))"
    by (auto simp only: ip_str.simps ip_str4.simps set_map list.set dest!: join_set)
  then show ?thesis using number_chars by auto
next
  case (V6 n)
  have j: "c = CHR '':'' \<or> (\<exists>h. c \<in> set (hex h))" if "c \<in> set (join '':'' (map hex hs))" for hs
    using join_set [OF that] by auto
  assume "c \<in> set (ip_str a)"
  then have "c = CHR '':'' \<or> (\<exists>h. c \<in> set (hex h))"
    unfolding V6 ip_str.simps ip_str6_def Let_def by (auto simp: case_prod_beta split: if_splits dest!: j)
  then show ?thesis using number_chars by auto
qed

lemma host_text_plain [simp]: "CHR ''/'' \<notin> set (host_text n v)" "CHR 0x0A \<notin> set (host_text n v)"
  using ip_str_chars unfolding host_text_def by metis+

lemma ip_str4_inj: "a < 2 ^ 32 \<Longrightarrow> b < 2 ^ 32 \<Longrightarrow> ip_str4 a = ip_str4 b \<Longrightarrow> a = b"
  using inet_aton_canonical [of a] inet_aton_canonical [of b] be_value_be_bytes [of a 4] be_value_be_bytes [of b 4]
  by (simp del: ip_str4.simps be_bytes.simps)

lemma first_free_Some: "first_free n used v hi = Some a \<Longrightarrow> a \<notin> used \<and> (\<exists>u. v \<le> u \<and> u \<le> hi \<and> a = host_text n u)"
proof (induction n used v hi rule: first_free.induct)
  case (1 n used v hi)
  show ?case
  proof (cases "hi < v \<or> host_text n v \<notin> used")
    case True
    then show ?thesis using "1.prems" by (subst (asm) first_free.simps) (auto split: if_splits)
  next
    case False
    then have "first_free n used (v + 1) hi = Some a" using "1.prems" by (subst (asm) first_free.simps) simp
    then show ?thesis using "1.IH" False by (meson add_leD1 not_less)
  qed
qed

lemma first_free_None: "first_free n used v hi = None \<Longrightarrow> v \<le> u \<Longrightarrow> u \<le> hi \<Longrightarrow> host_text n u \<in> used"
proof (induction n used v hi rule: first_free.induct)
  case (1 n used v hi)
  then have v: "\<not> hi < v" by simp
  then have "host_text n v \<in> used" using "1.prems"(1) by (subst (asm) first_free.simps) (auto split: if_splits)
  moreover from this have "first_free n used (v + 1) hi = None" using "1.prems"(1) v by (subst (asm) first_free.simps) simp
  ultimately show ?case using "1.IH" v "1.prems"(2,3) by (cases "u = v") auto
qed

section \<open>The peer table\<close>

definition placed :: "wg_server option \<Rightarrow> str \<Rightarrow> bool" where
  "placed sv a =
     (case sv of None \<Rightarrow> False
      | Some s \<Rightarrow> a \<noteq> sv_address s \<and> (\<exists>v. fst (host_span (sv_subnet s)) \<le> v \<and> v \<le> snd (host_span (sv_subnet s))
          \<and> a = host_text (sv_subnet s) v))"

definition wg_inv :: "peer_store \<Rightarrow> bool" where
  "wg_inv st \<longleftrightarrow> dict_ok (peers st)
     \<and> (\<forall>k p. dget (peers st) k = Some p \<longrightarrow> pr_name p = k \<and> usable_name k \<and> placed (ps_server st) (pr_address p))
     \<and> (\<forall>k p k' p'. dget (peers st) k = Some p \<longrightarrow> dget (peers st) k' = Some p' \<longrightarrow> k \<noteq> k' \<longrightarrow> pr_address p \<noteq> pr_address p')"

lemma wg_invD:
  assumes "wg_inv st" "dget (peers st) k = Some p"
  shows "pr_name p = k" "usable_name k"
    "placed (ps_server st) (pr_address p)"
    "dget (peers st) k' = Some p' \<Longrightarrow> k \<noteq> k' \<Longrightarrow> pr_address p \<noteq> pr_address p'"
  using assms unfolding wg_inv_def by blast+

lemma placed_plain: "placed sv a \<Longrightarrow> CHR ''/'' \<notin> set a"
  by (auto simp: placed_def split: option.splits)

text \<open>Saving touches neither peers nor server, whatever comes of it.\<close>

lemma save_keeps:
  "peers (fst (save_store cd w st)) = peers st" "ps_server (fst (save_store cd w st)) = ps_server st"
  "ps_locked (fst (save_store cd w st)) = ps_locked st" "ps_key (fst (save_store cd w st)) = ps_key st"
  by (simp_all add: save_store_def Let_def split: option.split sum.split)

lemma wg_inv_cong: "peers st' = peers st \<Longrightarrow> ps_server st' = ps_server st \<Longrightarrow> wg_inv st' = wg_inv st"
  by (simp add: wg_inv_def)

lemma wg_inv_save [simp]: "wg_inv (fst (save_store cd w st)) = wg_inv st"
  by (rule wg_inv_cong) (simp_all add: save_keeps)

lemma wg_inv_no_peers [simp]: "peers st = [] \<Longrightarrow> wg_inv st"
  by (simp add: wg_inv_def dict_ok_def)

lemma sv_address_endpoint [simp]: "sv_address (s\<lparr>sv_endpoint := e\<rparr>) = sv_address s"
  by (simp add: sv_address_def)

lemma inv_initialise:
  assumes "wg_inv st"
  shows "wg_inv (fst (initialise_server cd w keypair rq st))"
proof (cases "ps_server st")
  case None
  have "dget (peers st) k = None" for k using wg_invD(3) [OF assms, of k] by (cases "dget (peers st) k") (simp_all add: None placed_def)
  then have "map_of (peers st) = Map.empty" by (intro ext) simp
  then have "peers st = []" by simp
  then show ?thesis using assms None
    by (auto simp: initialise_server_def Let_def case_prod_beta split: option.split bool.split)
next
  case (Some s)
  show ?thesis
  proof (cases "rq_force rq")
    case True
    then show ?thesis using assms Some
      by (auto simp: initialise_server_def Let_def case_prod_beta split: option.split)
  next
    case False
    have "wg_inv (st\<lparr>ps_server := Some (s\<lparr>sv_endpoint := rq_endpoint rq\<rparr>)\<rparr>)"
      using assms Some by (simp add: wg_inv_def placed_def)
    then show ?thesis using Some False by (simp add: initialise_server_def Let_def case_prod_beta)
  qed
qed

lemma plan_peer_facts:
  assumes "plan_peer now ks rq st = Inr p"
  obtains s v where "ps_server st = Some s" "dget (peers st) (pq_name rq) = None" "usable_name (pq_name rq)"
    "pr_name p = pq_name rq" "pr_address p = host_text (sv_subnet s) v" "pr_address p \<notin> used_addresses s st"
    "fst (host_span (sv_subnet s)) \<le> v" "v \<le> snd (host_span (sv_subnet s))" "pr_enabled p"
proof -
  obtain s routed a where s: "ps_server st = Some s" "dget (peers st) (pq_name rq) = None" "usable_name (pq_name rq)"
    "next_address s st = Inr a" "p = make_peer now ks rq routed a"
    using assms by (auto simp: plan_peer_def res_simps split: option.splits if_splits)
  obtain lo hi where h: "host_span (sv_subnet s) = (lo, hi)" by (cases "host_span (sv_subnet s)")
  have "first_free (sv_subnet s) (used_addresses s st) lo hi = Some a"
    using s(4) by (simp add: next_address_def h split: option.splits)
  from first_free_Some [OF this] s h show ?thesis by (auto intro!: that simp: make_peer_def)
qed

lemma used_address: "dget (peers st) k = Some p \<Longrightarrow> CHR ''/'' \<notin> set (pr_address p) \<Longrightarrow> pr_address p \<in> used_addresses s st"
proof -
  assume p: "dget (peers st) k = Some p" "CHR ''/'' \<notin> set (pr_address p)"
  have "p \<in> set (dvals (peers st))" using map_of_SomeD [OF p(1)] by force
  moreover have "hd (split_on CHR ''/'' (pr_address p)) = pr_address p" by (simp add: split_on_no_sep [OF p(2)])
  ultimately show ?thesis unfolding used_addresses_def set_map by (metis imageI insertI2)
qed

lemma inv_add:
  assumes "wg_inv st"
  shows "wg_inv (fst (add_peer cd w now ks rq st))"
proof (cases "plan_peer now ks rq st")
  case (Inr p)
  obtain s v where p: "ps_server st = Some s" "dget (peers st) (pq_name rq) = None" "usable_name (pq_name rq)"
    "pr_name p = pq_name rq" "pr_address p = host_text (sv_subnet s) v" "pr_address p \<notin> used_addresses s st"
    "fst (host_span (sv_subnet s)) \<le> v" "v \<le> snd (host_span (sv_subnet s))" "pr_enabled p"
    by (rule plan_peer_facts [OF Inr])
  have ok: "dict_ok (peers st)" using assms by (simp add: wg_inv_def)
  have new: "pr_address q \<noteq> pr_address p" if "dget (peers st) k = Some q" for k q
  proof -
    have "CHR ''/'' \<notin> set (pr_address q)" using placed_plain [OF wg_invD(3) [OF assms that]] .
    then show ?thesis using used_address [OF that, of s] p(6) by auto
  qed
  have "pr_address p \<noteq> sv_address s" using p(6) by (auto simp: used_addresses_def)
  then have pl: "placed (ps_server st) (pr_address p)" unfolding placed_def p(1) using p(5,7,8) by auto
  have "wg_inv (st\<lparr>peers := dset (pq_name rq) p (peers st)\<rparr>)"
    unfolding wg_inv_def
  proof (intro conjI allI impI)
    let ?t = "st\<lparr>peers := dset (pq_name rq) p (peers st)\<rparr>"
    have g: "dget (peers ?t) k = (if k = pq_name rq then Some p else dget (peers st) k)" for k using ok by simp
    show "dict_ok (peers ?t)" using ok by simp
    fix k q assume k: "dget (peers ?t) k = Some q"
    then show "pr_name q = k" "usable_name k" "placed (ps_server ?t) (pr_address q)"
      using wg_invD(1-3) [OF assms, of k q] p(3,4) pl unfolding g by (simp_all split: if_splits)
    fix k' q' assume k': "dget (peers ?t) k' = Some q'" "k \<noteq> k'"
    show "pr_address q \<noteq> pr_address q'"
    proof (cases "k = pq_name rq")
      case True
      then have "q = p" "dget (peers st) k' = Some q'" using k k' unfolding g by simp_all
      then show ?thesis using new by metis
    next
      case False
      then have q: "dget (peers st) k = Some q" using k unfolding g by simp
      then show ?thesis using k' new [OF q] wg_invD(4) [OF assms q, of k' q'] unfolding g by (simp split: if_splits)
    qed
  qed
  then show ?thesis by (simp add: add_peer_def Inr Let_def case_prod_beta)
qed (simp add: add_peer_def assms)

lemma inv_remove_peer: "wg_inv st \<Longrightarrow> wg_inv (fst (remove_peer cd w name st))"
proof (cases "dget (peers st) name")
  case (Some p)
  assume "wg_inv st"
  then have "wg_inv (st\<lparr>peers := ddel name (peers st)\<rparr>)" unfolding wg_inv_def by (simp split: if_splits)
  then show ?thesis by (simp add: remove_peer_def Some)
qed (simp add: remove_peer_def)

lemma inv_set_enabled:
  assumes "wg_inv st"
  shows "wg_inv (fst (set_enabled cd w name enabled st))"
proof (cases "dget (peers st) name")
  case (Some p)
  have "wg_inv (st\<lparr>peers := dset name (p\<lparr>pr_enabled := enabled\<rparr>) (peers st)\<rparr>)"
    using assms Some unfolding wg_inv_def by (auto split: if_splits)
  then show ?thesis by (simp add: set_enabled_def Some Let_def case_prod_beta)
qed (simp add: set_enabled_def assms)

section \<open>Runs of the manager\<close>

datatype wg_op =
    Init writing "str \<times> str" server_request
  | AddPeer writing time new_keys peer_request
  | RemovePeer writing str
  | SetEnabled writing str bool

fun wg_step :: "'j state_codec \<Rightarrow> wg_op \<Rightarrow> peer_store \<Rightarrow> peer_store" where
  "wg_step cd (Init w keypair rq) st = fst (initialise_server cd w keypair rq st)"
| "wg_step cd (AddPeer w now ks rq) st = fst (add_peer cd w now ks rq st)"
| "wg_step cd (RemovePeer w name) st = fst (remove_peer cd w name st)"
| "wg_step cd (SetEnabled w name enabled) st = fst (set_enabled cd w name enabled st)"

lemma wg_inv_step: "wg_inv st \<Longrightarrow> wg_inv (wg_step cd op st)"
  by (cases op) (simp_all add: inv_initialise inv_add inv_remove_peer inv_set_enabled)

lemma wg_inv_run: "wg_inv st \<Longrightarrow> wg_inv (fold (wg_step cd) ops st)"
  by (induction ops arbitrary: st) (simp_all add: wg_inv_step)

text \<open>A locked store keeps its file, and stays locked.\<close>

lemma locked_save: "ps_locked st \<Longrightarrow> save_store cd w st = (st, Inl WireGuardError)"
  by (simp add: save_store_def)

lemma wg_locked_step: "ps_locked st \<Longrightarrow> ps_locked (wg_step cd op st) \<and> ps_file (wg_step cd op st) = ps_file st"
  by (cases op) (auto simp: initialise_server_def add_peer_def remove_peer_def set_enabled_def Let_def locked_save
      split: option.split bool.split sum.split)

lemma wg_locked_run: "ps_locked st \<Longrightarrow> ps_file (fold (wg_step cd) ops st) = ps_file st"
  by (induction ops arbitrary: st) (simp_all add: wg_locked_step)

section \<open>A free address is found\<close>

lemma host_text_inj:
  assumes "net_base n = V4 b" "b + 2 ^ host_bits (net_base n) (prefixlen n) \<le> 2 ^ 32"
  shows "inj_on (host_text n) {fst (host_span n)..snd (host_span n)}"
proof (rule inj_onI)
  fix x y assume xy: "x \<in> {fst (host_span n)..snd (host_span n)}" "y \<in> {fst (host_span n)..snd (host_span n)}" "host_text n x = host_text n y"
  have "snd (host_span n) < 2 ^ 32"
    using assms by (auto simp: host_span_def Let_def less_eq_Suc_le)
  then have "x < 2 ^ 32" "y < 2 ^ 32" using xy(1,2) by simp_all
  then show "x = y" using xy(3) assms(1) by (intro ip_str4_inj) (simp_all add: host_text_def del: ip_str4.simps)
qed

lemma next_address_finds:
  assumes "net_base (sv_subnet s) = V4 b" "b + 2 ^ host_bits (V4 b) (prefixlen (sv_subnet s)) \<le> 2 ^ 32"
    and "Suc (length (peers st)) + fst (host_span (sv_subnet s)) \<le> snd (host_span (sv_subnet s))"
  shows "\<exists>a. next_address s st = Inr a"
proof (rule ccontr)
  let ?n = "sv_subnet s" and ?used = "used_addresses s st"
  let ?I = "{fst (host_span ?n)..snd (host_span ?n)}"
  assume "\<not> ?thesis"
  then have "first_free ?n ?used (fst (host_span ?n)) (snd (host_span ?n)) = None"
    by (auto simp: next_address_def case_prod_beta split: option.splits)
  then have sub: "host_text ?n ` ?I \<subseteq> ?used" by (auto dest: first_free_None)
  have "finite ?used" by (simp add: used_addresses_def)
  then have "card ?I \<le> card ?used"
    using card_mono [OF _ sub] card_image [OF host_text_inj [of ?n b]] assms(1,2) by simp
  also have "\<dots> \<le> Suc (length (peers st))"
  proof -
    have "card (insert a (set xs)) \<le> Suc (length xs)" for a :: str and xs
      using card_length [of xs] by (simp add: card_insert_if)
    from this [of _ "map (\<lambda>p. hd (split_on CHR ''/'' (pr_address p))) (dvals (peers st))"] show ?thesis
      unfolding used_addresses_def by simp
  qed
  finally show False using assms(3) by simp
qed

section \<open>The file\<close>

text \<open>What is written out reads back, strictly or not, and does not look sealed.\<close>

definition codec_ok :: "'j state_codec \<Rightarrow> wg_server option \<Rightarrow> peer list \<Rightarrow> bool" where
  "codec_ok cd sv ps \<longleftrightarrow> \<not> looks_sealed (dump_state cd sv ps) \<and>
     (\<exists>tx j js. utf8_strict cd (dump_state cd sv ps) = Inr tx \<and> utf8_replace cd (dump_state cd sv ps) = tx
        \<and> json_loads cd tx = Inr j \<and> server_entry cd j = Inr sv \<and> peer_entries cd j = Inr js \<and> rmap (peer_entry cd) js = Inr ps)"

lemma read_peers_all:
  "rmap (peer_entry cd) js = Inr ps \<Longrightarrow> read_peers cd js st = (st\<lparr>peers := fold (\<lambda>p. dset (pr_name p) p) ps (peers st)\<rparr>, Inr ())"
  by (induction js arbitrary: st ps) (auto simp: res_simps)

lemma dset_snoc: "k \<notin> set (dkeys d) \<Longrightarrow> dset k v d = d @ [(k, v)]"
  by (induction d) auto

lemma fold_dset_pairs:
  "distinct (dkeys d @ dkeys e) \<Longrightarrow> \<forall>(k, p) \<in> set e. pr_name p = k \<Longrightarrow> fold (\<lambda>p. dset (pr_name p) p) (dvals e) d = d @ e"
proof (induction e arbitrary: d)
  case (Cons kp e)
  obtain k p where "kp = (k, p)" by (cases kp)
  then show ?case using Cons.prems Cons.IH [of "d @ [(k, p)]"] by (auto simp: dset_snoc)
qed simp

lemma read_dump:
  assumes "codec_ok cd (ps_server st) (dvals (peers st))" "wg_inv st" "peers st0 = []" "ps_server st0 = None"
  shows "\<exists>tx. utf8_strict cd (dump_state cd (ps_server st) (dvals (peers st))) = Inr tx
     \<and> utf8_replace cd (dump_state cd (ps_server st) (dvals (peers st))) = tx
     \<and> read_text cd tx st0 = (st0\<lparr>ps_server := ps_server st, peers := peers st\<rparr>, Inr ())"
proof -
  obtain tx j js where c: "utf8_strict cd (dump_state cd (ps_server st) (dvals (peers st))) = Inr tx"
    "utf8_replace cd (dump_state cd (ps_server st) (dvals (peers st))) = tx" "json_loads cd tx = Inr j"
    "server_entry cd j = Inr (ps_server st)" "peer_entries cd j = Inr js" "rmap (peer_entry cd) js = Inr (dvals (peers st))"
    using assms(1) unfolding codec_ok_def by blast
  have ok: "dict_ok (peers st)" using assms(2) by (simp add: wg_inv_def)
  have "\<forall>(k, p) \<in> set (peers st). pr_name p = k" using wg_invD(1) [OF assms(2)] ok by (auto simp: dget_iff)
  then have f: "fold (\<lambda>p. dset (pr_name p) p) (dvals (peers st)) [] = peers st"
    using fold_dset_pairs [of "[]" "peers st"] ok by (simp add: dict_ok_def)
  have "read_text cd tx st0 = (st0\<lparr>ps_server := ps_server st, peers := peers st\<rparr>, Inr ())"
    using assms(3,4) by (cases "ps_server st") (simp_all add: read_text_def c read_peers_all [OF c(6)] f)
  with c(1,2) show ?thesis by blast
qed

lemma seal_looks_sealed:
  assumes "seal key nonce pt ctx = Inr blob"
  shows "looks_sealed blob"
proof -
  obtain h ct tag where h: "vault_header ctx = Inr h" "blob = h @ nonce @ tag @ ct" by (rule seal_parts [OF assms])
  have "prefix MAGIC h" using h(1) by (auto simp: vault_header_def split: if_splits)
  then show ?thesis by (auto simp: looks_sealed_def h(2) prefix_def)
qed

lemma saved_file:
  assumes "save_store cd w st = (st', Inr ())"
  shows "\<exists>f. \<not> ps_locked st \<and> ps_file st' = Some f \<and> ps_key st' = ps_key st
     \<and> (case ps_key st of None \<Rightarrow> st_bytes f = dump_state cd (ps_server st) (dvals (peers st))
        | Some k \<Rightarrow> seal k (w_nonce w) (dump_state cd (ps_server st) (dvals (peers st))) peers_context = Inr (st_bytes f))"
  using assms
  by (cases "ps_key st") (auto simp: save_store_def Let_def seal_file_def res_simps split: if_splits sum.splits)

lemma load_saved:
  assumes "codec_ok cd (ps_server st) (dvals (peers st))" "wg_inv st" "save_store cd w st = (st', Inr ())"
    and "peers st0 = []" "ps_server st0 = None" "ps_file st0 = ps_file st'" "ps_key st0 = ps_key st"
  shows "\<exists>b. load_store cd False st0 = (st0\<lparr>ps_server := ps_server st, peers := peers st, needs_sealing := b\<rparr>, Inr ())"
proof -
  obtain f where f: "ps_file st' = Some f"
    "case ps_key st of None \<Rightarrow> st_bytes f = dump_state cd (ps_server st) (dvals (peers st))
     | Some k \<Rightarrow> seal k (w_nonce w) (dump_state cd (ps_server st) (dvals (peers st))) peers_context = Inr (st_bytes f)"
    using saved_file [OF assms(3)] by blast
  show ?thesis
  proof (cases "ps_key st")
    case None
    let ?st0 = "st0\<lparr>needs_sealing := False\<rparr>"
    have "peers ?st0 = []" "ps_server ?st0 = None" using assms(4,5) by simp_all
    from read_dump [OF assms(1,2) this] obtain tx where
      "utf8_replace cd (dump_state cd (ps_server st) (dvals (peers st))) = tx"
      "read_text cd tx ?st0 = (?st0\<lparr>ps_server := ps_server st, peers := peers st\<rparr>, Inr ())" by blast
    moreover have "\<not> looks_sealed (st_bytes f)" using assms(1) f(2) None by (simp add: codec_ok_def)
    ultimately have "load_store cd False st0 = (?st0\<lparr>ps_server := ps_server st, peers := peers st\<rparr>, Inr ())"
      using assms(6,7) f None by (simp add: load_store_def)
    then show ?thesis by (intro exI [of _ False]) simp
  next
    case (Some k)
    have sl: "seal k (w_nonce w) (dump_state cd (ps_server st) (dvals (peers st))) peers_context = Inr (st_bytes f)"
      using f(2) Some by simp
    from read_dump [OF assms(1,2,4,5)] obtain tx where
      "utf8_strict cd (dump_state cd (ps_server st) (dvals (peers st))) = Inr tx"
      "read_text cd tx st0 = (st0\<lparr>ps_server := ps_server st, peers := peers st\<rparr>, Inr ())" by blast
    then have "load_store cd False st0 = (st0\<lparr>ps_server := ps_server st, peers := peers st\<rparr>, Inr ())"
      using assms(6,7) f(1) Some seal_looks_sealed [OF sl] unseal_seal [OF sl]
      by (simp add: load_store_def)
    then show ?thesis by (intro exI [of _ "needs_sealing st0"]) simp
  qed
qed

section \<open>Lines of a configuration\<close>

definition one_line :: "str \<Rightarrow> bool" where "one_line s \<longleftrightarrow> CHR 0x0A \<notin> set s"

lemma one_line_simps [simp]: "one_line []" "one_line (x @ y) \<longleftrightarrow> one_line x \<and> one_line y" "one_line (c # x) \<longleftrightarrow> c \<noteq> CHR 0x0A \<and> one_line x"
  "one_line (dec n)" "one_line (host_text nt v)" "one_line (net_text nt)" "one_line (sv_address s)"
  using number_chars ip_str_chars by (auto simp: one_line_def net_text_def sv_address_def)

lemma strip_last: "strip p s \<noteq> [] \<Longrightarrow> \<not> p (last (strip p s))"
  using hd_dropWhile [of p "rev (lstrip p s)"] by (simp add: strip_def rstrip_def last_rev)

lemma usable_name_one_line: "usable_name s \<Longrightarrow> one_line s"
proof -
  assume u: "usable_name s"
  then obtain c cs where s: "s = c # cs" by (cases s) (simp_all add: usable_name_def name_match_def)
  have nl: "is_space (CHR 0x0A)" by code_simp
  have plain: "c' \<noteq> CHR 0x0A" if "is_name_char c'" for c' using that
    by (auto simp: is_name_char_def is_alnum_def Let_def code_pt_def)
  have "is_name_char c" using u by (simp add: usable_name_def name_match_def s is_name_char_def Let_def)
  then have "c \<noteq> CHR 0x0A" by (rule plain)
  moreover have "one_line cs"
  proof (cases "cs \<noteq> [] \<and> last cs = CHR 0x0A")
    case True
    then have "is_space (last s)" using nl by (simp add: s)
    moreover have "s = strip is_space s" using u by (simp add: usable_name_def)
    ultimately show ?thesis using strip_last [of is_space s] by (simp add: s)
  next
    case False
    then have "list_all is_name_char cs" using u by (auto simp: usable_name_def name_match_def s Let_def split: if_splits)
    then show ?thesis using plain by (auto simp: one_line_def list_all_iff)
  qed
  ultimately show ?thesis by (simp add: s)
qed

definition server_one_line :: "wg_server \<Rightarrow> bool" where
  "server_one_line s \<longleftrightarrow> one_line (sv_private s) \<and> one_line (sv_uplink s) \<and> one_line (sv_dns s)"

definition peer_one_line :: "peer \<Rightarrow> bool" where
  "peer_one_line p \<longleftrightarrow> one_line (pr_public p) \<and> one_line (pr_psk p) \<and> one_line (pr_profile p) \<and> one_line (pr_note p)
     \<and> list_all one_line (pr_routed p)"

lemma interface_lines_one_line: "server_one_line s \<Longrightarrow> l \<in> set (interface_lines s) \<Longrightarrow> one_line l"
  unfolding interface_lines_def Let_def server_one_line_def sv_resolver_def by (auto split: if_splits)

lemma join_one_line: "one_line sep \<Longrightarrow> list_all one_line xs \<Longrightarrow> one_line (join sep xs)"
  by (induction sep xs rule: join.induct) auto

lemma peer_section_one_line:
  assumes "one_line (pr_name p)" "one_line (pr_address p)" "peer_one_line p" "l \<in> set (peer_section p)"
  shows "one_line l"
proof -
  have "one_line (comma ((pr_address p @ ''/32'') # pr_routed p))"
    unfolding comma_def using assms(2,3) by (intro join_one_line) (auto simp: peer_one_line_def)
  then show ?thesis using assms unfolding peer_section_def peer_one_line_def by (auto split: if_splits)
qed

lemma join_last_empty: "ls \<noteq> [] \<Longrightarrow> join newline ls @ newline = join newline (ls @ [[]])"
  by (induction newline ls rule: join.induct) (auto simp: newline_def)

lemma sections_counted:
  "length (filter (\<lambda>l. l = ''[Peer]'') (concat (map peer_section ps))) = length (filter pr_enabled ps)"
  "filter (\<lambda>l. l = ''[Interface]'') (concat (map peer_section ps)) = []"
  by (induction ps) (simp_all add: peer_section_def)

lemma interface_counted:
  "filter (\<lambda>l. l = ''[Peer]'') (interface_lines s) = []" "filter (\<lambda>l. l = ''[Interface]'') (interface_lines s) = [''[Interface]'']"
  by (simp_all add: interface_lines_def Let_def)

lemma server_config_lines:
  assumes "wg_inv st" "ps_server st = Some s" "server_one_line s" "list_all peer_one_line (dvals (peers st))"
  shows "\<exists>t. server_config st = Inr t
     \<and> split_on CHR 0x0A t = interface_lines s @ concat (map peer_section (list_peers st)) @ [[]]"
proof -
  let ?ls = "interface_lines s @ concat (map peer_section (list_peers st))"
  have ok: "dict_ok (peers st)" using assms(1) by (simp add: wg_inv_def)
  have p: "one_line (pr_name p)" "one_line (pr_address p)" "peer_one_line p" if "p \<in> set (list_peers st)" for p
  proof -
    have "p \<in> set (dvals (peers st))" using that by (simp add: list_peers_def)
    then obtain k where "(k, p) \<in> set (peers st)" by auto
    then have d: "dget (peers st) k = Some p" using ok by (simp add: dget_iff)
    show "one_line (pr_name p)" using wg_invD(1,2) [OF assms(1) d] usable_name_one_line by blast
    show "one_line (pr_address p)" using wg_invD(3) [OF assms(1) d] by (auto simp: placed_def split: option.splits)
    show "peer_one_line p" using assms(4) that by (auto simp: list_peers_def list_all_iff)
  qed
  have l: "one_line l" if "l \<in> set (?ls @ [[]])" for l
    using that interface_lines_one_line [OF assms(3)] peer_section_one_line [OF p] by auto
  have "?ls \<noteq> []" by (simp add: interface_lines_def Let_def)
  then have "server_config st = Inr (join newline (?ls @ [[]]))" by (simp add: server_config_def assms(2) join_last_empty)
  moreover have "split_on CHR 0x0A (join [CHR 0x0A] (?ls @ [[]])) = ?ls @ [[]]"
    using l by (intro split_on_join) (auto simp: one_line_def)
  ultimately show ?thesis by (simp add: newline_def)
qed

section \<open>What the tunnel promises\<close>

text \<open>C13: Whatever servers and peers are set up, removed, enabled and disabled, and however the writes to disk go,
  every peer is kept under its own usable name, has an address of the tunnel's subnet that is not the
  gateway's, and no two peers share an address.
\<close>

theorem peer_table_invariant:
  assumes "wg_inv st"
  shows "wg_inv (fold (wg_step cd) ops st)"
  by (rule wg_inv_run [OF assms])

text \<open>While the state is locked nothing the manager does touches the file with the sealed peers.
\<close>

theorem locked_file_untouched:
  assumes "ps_locked st"
  shows "ps_file (fold (wg_step cd) ops st) = ps_file st"
  by (rule wg_locked_run [OF assms])


text \<open>When no text it is made of holds a line break, the server's configuration has exactly the lines it is
  made of: one interface, one peer section for every enabled peer, and none for a disabled one.
\<close>

theorem config_sections:
  assumes "wg_inv st" "ps_server st = Some s" "server_one_line s" "list_all peer_one_line (dvals (peers st))"
  shows "\<exists>t. server_config st = Inr t
     \<and> split_on CHR 0x0A t = interface_lines s @ concat (map peer_section (list_peers st)) @ [[]]
     \<and> length (filter (\<lambda>l. l = ''[Interface]'') (split_on CHR 0x0A t)) = 1
     \<and> length (filter (\<lambda>l. l = ''[Peer]'') (split_on CHR 0x0A t)) = length (filter pr_enabled (dvals (peers st)))"
proof -
  obtain t where t: "server_config st = Inr t"
    "split_on CHR 0x0A t = interface_lines s @ concat (map peer_section (list_peers st)) @ [[]]"
    using server_config_lines [OF assms] by blast
  have "length (filter pr_enabled (list_peers st)) = length (filter pr_enabled (dvals (peers st)))"
    by (simp add: list_peers_def filter_sort)
  then show ?thesis using t by (simp add: interface_counted sections_counted)
qed

section \<open>Two slips\<close>

lemma split_on_two: "split_on c (x @ c # y) = split_on c x @ split_on c y"
proof (induction x)
  case (Cons d x)
  obtain p ps where "split_on c x = p # ps" by (cases "split_on c x") auto
  then show ?case using Cons by simp
qed simp

lemma split_on_middle: "c \<notin> set l \<Longrightarrow> l \<in> set (split_on c (x @ c # l @ c # y))"
  by (simp add: split_on_two split_on_no_sep)

lemma join_element:
  "l \<in> set ls \<Longrightarrow> \<exists>x y. join sep ls = x @ l @ y"
proof (induction sep ls rule: join.induct)
  case (3 sep a b ls)
  show ?case
  proof (cases "l = a")
    case True
    then show ?thesis by (intro exI [of _ "[]"] exI [of _ "sep @ join sep (b # ls)"]) simp
  next
    case False
    then obtain x y where "join sep (b # ls) = x @ l @ y" using 3 by auto
    then have "join sep (a # b # ls) = (a @ sep @ x) @ l @ y" by simp
    then show ?thesis by blast
  qed
qed (auto intro: exI [of _ "[]"])

text \<open>The name of a peer is checked before it goes into the configuration; its note is not.  A note with a
  line break adds whatever line it likes to the server's configuration, another interface section with a
  \<open>PostUp\<close> command included.
\<close>

theorem note_adds_lines:
  assumes "server_config st = Inr t" "p \<in> set (dvals (peers st))" "pr_enabled p"
    "pr_note p = a @ newline @ l @ newline @ b" "one_line l"
  shows "l \<in> set (split_on CHR 0x0A t)"
proof -
  obtain s where s: "ps_server st = Some s" using assms(1) by (cases "ps_server st") (simp_all add: server_config_def)
  let ?head = "''# '' @ pr_name p @ '' -- '' @ pr_note p @ '' ['' @ pr_profile p @ '']''"
  let ?ls = "interface_lines s @ concat (map peer_section (list_peers st))"
  have "pr_note p \<noteq> []" using assms(4) by (simp add: newline_def)
  then have "?head \<in> set (peer_section p)" using assms(3) by (simp add: peer_section_def)
  then have "?head \<in> set ?ls" using assms(2) by (auto simp: list_peers_def)
  from join_element [OF this, of newline] obtain x y where "join newline ?ls = x @ ?head @ y" by blast
  then have t: "t = (x @ ''# '' @ pr_name p @ '' -- '' @ a) @ CHR 0x0A # l @ CHR 0x0A # (b @ '' ['' @ pr_profile p @ '']'' @ y @ newline)"
    using assms(1) by (simp add: server_config_def s assms(4) newline_def)
  show ?thesis unfolding t by (rule split_on_middle) (use assms(5) in \<open>simp add: one_line_def\<close>)
qed

text \<open>
  A key that opens the file but meets an entry that cannot be read, as one a newer version wrote: the
  error leaves the store unlocked, with the key and without the peers, so the next write replaces them.
\<close>

lemma read_peers_key: "ps_key (fst (read_peers cd js st)) = ps_key st \<and> ps_locked (fst (read_peers cd js st)) = ps_locked st"
  by (induction js arbitrary: st) (simp_all split: sum.split)

lemma read_text_key: "ps_key (fst (read_text cd tx st)) = ps_key st \<and> ps_locked (fst (read_text cd tx st)) = ps_locked st"
  by (auto simp: read_text_def Let_def read_peers_key split: sum.split option.split)

lemma load_store_key: "ps_key st = Some k \<Longrightarrow> ps_key (fst (load_store cd u st)) = Some k \<and> ps_locked (fst (load_store cd u st)) = ps_locked st"
  by (auto simp: load_store_def read_text_key split: option.split sum.split)

lemma unlock_error_unlocks:
  assumes "ps_locked st" "unlock cd u key st = (st', Inl e)" "e \<noteq> WireGuardError"
  shows "\<not> ps_locked st' \<and> ps_key st' = Some key"
  using assms load_store_key [of "st\<lparr>ps_key := Some key, ps_locked := False, peers := [], ps_server := None\<rparr>" key cd u]
  by (auto simp: unlock_def split: prod.splits sum.splits if_splits)

text \<open>Three resolvers before it, and the tunnel's own is cut off.\<close>

lemma own_resolver_dropped:
  assumes "a \<noteq> []" "b \<noteq> []" "c \<noteq> []" "sv_resolver s \<noteq> []" "sv_resolver s \<notin> {a, b, c}"
  shows "sv_resolver s \<notin> set (peer_resolvers s [a, b, c, sv_resolver s])"
  using assms by (simp add: peer_resolvers_def)


section \<open>The properties at concrete inputs\<close>

definition demo_net :: network where "demo_net = \<lparr>net_base = V4 168361984, prefixlen = 24\<rparr>"

definition demo_server :: wg_server where
  "demo_server = \<lparr>sv_endpoint = ''home.example'', sv_private = ''k'', sv_public = ''K'', sv_subnet = demo_net, sv_port = 51820,
     sv_interface = ''wg0'', sv_dns = [], sv_uplink = ''eth0''\<rparr>"

definition demo_peer :: peer where
  "demo_peer = \<lparr>pr_name = ''phone'', pr_public = ''P'', pr_address = host_text demo_net 168361986, pr_private = ''p'', pr_psk = [],
     pr_profile = ''full'', pr_routed = [], pr_mtu = 1280, pr_keepalive = 25, pr_created = 0, pr_enabled = True, pr_note = []\<rparr>"

definition demo_store :: peer_store where
  "demo_store = \<lparr>ps_key = Some (replicate 32 0), peers = [(''phone'', demo_peer)], ps_server = Some demo_server,
     needs_sealing = False, ps_locked = False, ps_file = None\<rparr>"

definition demo_writing :: writing where
  "demo_writing = \<lparr>w_umask = 0, w_temporary = None, w_nonce = replicate 12 0\<rparr>"

definition demo_codec :: "nat state_codec" where
  "demo_codec = \<lparr>utf8_strict = (\<lambda>_. Inr []), utf8_replace = (\<lambda>_. []), json_loads = (\<lambda>_. Inr 0),
     server_entry = (\<lambda>_. Inr (Some demo_server)), peer_entries = (\<lambda>_. Inr [1]), peer_entry = (\<lambda>_. Inr demo_peer),
     dump_state = (\<lambda>_ _. [0x7B])\<rparr>"

lemma demo_span: "host_span demo_net = (168361985, 168362238)"
  by (simp add: host_span_def demo_net_def host_bits_def Let_def)

lemma demo_placed: "placed (Some demo_server) (host_text demo_net 168361986)"
proof -
  have "host_text demo_net 168361986 \<noteq> host_text demo_net 168361985"
    using ip_str4_inj [of 168361986 168361985] by (auto simp: host_text_def demo_net_def simp del: ip_str4.simps)
  then show ?thesis by (auto simp: placed_def sv_address_def demo_server_def demo_span intro!: exI [of _ 168361986])
qed

lemma demo_inv: "wg_inv demo_store"
proof -
  have "usable_name ''phone''" by code_simp
  then show ?thesis using demo_placed by (auto simp: wg_inv_def demo_store_def demo_peer_def dict_ok_def)
qed

lemma demo_codec_ok: "codec_ok demo_codec (ps_server demo_store) (dvals (peers demo_store))"
  by (auto simp: codec_ok_def demo_codec_def demo_store_def looks_sealed_def MAGIC_def)

theorem peer_table_invariant_witness:
  "wg_inv (fold (wg_step demo_codec) [RemovePeer demo_writing ''phone'', SetEnabled demo_writing ''tv'' False] demo_store)"
  by (rule peer_table_invariant [OF demo_inv])

theorem locked_file_untouched_witness:
  "ps_file (fold (wg_step demo_codec) [RemovePeer demo_writing ''phone''] (demo_store\<lparr>ps_locked := True\<rparr>)) = None"
  using locked_file_untouched [of "demo_store\<lparr>ps_locked := True\<rparr>" demo_codec "[RemovePeer demo_writing ''phone'']"]
  by (simp add: demo_store_def)


theorem config_sections_witness:
  "\<exists>t. server_config demo_store = Inr t \<and> length (filter (\<lambda>l. l = ''[Peer]'') (split_on CHR 0x0A t)) = 1"
proof -
  have "ps_server demo_store = Some demo_server" "server_one_line demo_server" "list_all peer_one_line (dvals (peers demo_store))"
    by (simp_all add: demo_store_def demo_server_def demo_peer_def server_one_line_def peer_one_line_def)
  from config_sections [OF demo_inv this] show ?thesis by (auto simp: demo_store_def demo_peer_def)
qed

text \<open>A peer added with such a note is accepted, and the command is in the file.\<close>

definition evil_note :: str where
  "evil_note = [] @ newline @ ''[Interface]'' @ newline @ ''PostUp = sh''"

lemma evil_peer_accepted:
  "\<exists>st' p. add_peer demo_codec demo_writing 0 \<lparr>nk_private = ''p'', nk_public = ''P'', nk_psk = []\<rparr>
      \<lparr>pq_name = ''tv'', pq_profile = ''full'', pq_preshared = False, pq_mobile = False, pq_tether = [], pq_note = evil_note\<rparr>
      (demo_store\<lparr>ps_key := None, peers := []\<rparr>) = (st', Inr p)
    \<and> p \<in> set (dvals (peers st')) \<and> pr_enabled p \<and> pr_note p = evil_note \<and> (\<exists>t. server_config st' = Inr t)"
proof -
  have "usable_name ''tv''" by code_simp
  moreover obtain a where "next_address demo_server (demo_store\<lparr>ps_key := None, peers := []\<rparr>) = Inr a"
    using next_address_finds [of demo_server 168361984 "demo_store\<lparr>ps_key := None, peers := []\<rparr>"]
    by (auto simp: demo_server_def demo_net_def demo_span [unfolded demo_net_def] host_bits_def)
  ultimately show ?thesis
    by (simp add: add_peer_def plan_peer_def routed_of_def tether_of_def demo_store_def save_store_def Let_def make_peer_def server_config_def)
qed

theorem note_adds_lines_witness:
  "\<exists>st t. server_config st = Inr t \<and> ''[Interface]'' \<in> set (split_on CHR 0x0A t)
     \<and> (\<exists>p \<in> set (dvals (peers st)). pr_note p = evil_note)"
proof -
  obtain st p t where "p \<in> set (dvals (peers st))" "pr_enabled p" "pr_note p = evil_note" "server_config st = Inr t"
    using evil_peer_accepted by blast
  with note_adds_lines [of st t p "[]" "''[Interface]''" "''PostUp = sh''"] show ?thesis by (auto simp: evil_note_def)
qed

end
