(* ===== verification/RateLimit.thy ===== *)
theory RateLimit
  imports Prelude
begin

text \<open>
  \<open>RateLimiter\<close> of \<open>symbivpn/server.py\<close>: a token bucket for each client address, used by the DNS
  listeners and by the time server.  The clock reading is an argument.  What its users rely on is
  stated as a locale over the balance of a client, which only the passing of time may raise.
\<close>

section \<open>The limiter\<close>

record rate_limiter =
  rl_rate :: rat
  rl_burst :: rat
  buckets :: "(str, rat \<times> time) dict"
  last_sweep :: time

definition new_rate_limiter :: "rat \<Rightarrow> rat \<Rightarrow> time \<Rightarrow> rate_limiter" where
  "new_rate_limiter rate burst now =
     \<lparr>rl_rate = rate, rl_burst = burst, buckets = [], last_sweep = now\<rparr>"

definition sweep :: "time \<Rightarrow> rate_limiter \<Rightarrow> rate_limiter" where
  "sweep now l =
     (if 60 < now - last_sweep l then
        l\<lparr>buckets := filter (\<lambda>(_, v). now - 300 < snd v) (buckets l), last_sweep := now\<rparr>
      else l)"

definition allow :: "time \<Rightarrow> str \<Rightarrow> rate_limiter \<Rightarrow> rate_limiter \<times> bool" where
  "allow now client l =
     (if rl_rate l \<le> 0 then (l, True)
      else
        let (tokens, updated) =
              (case dget (buckets l) client of None \<Rightarrow> (rl_burst l, now) | Some b \<Rightarrow> b);
            tokens = min (rl_burst l) (tokens + (now - updated) * rl_rate l)
        in if tokens < 1 then (l\<lparr>buckets := dset client (tokens, now) (buckets l)\<rparr>, False)
           else (sweep now (l\<lparr>buckets := dset client (tokens - 1, now) (buckets l)\<rparr>), True))"

section \<open>Requests\<close>

text \<open>A run of requests, each a time and a client; the result lists who was let through.\<close>

fun requests :: "(time \<Rightarrow> str \<Rightarrow> 'l \<Rightarrow> 'l \<times> bool) \<Rightarrow> (time \<times> str) list \<Rightarrow> 'l \<Rightarrow> 'l \<times> bool list" where
  "requests f [] l = (l, [])"
| "requests f ((t, c) # rs) l =
     (let (l, b) = f t c l; (l, bs) = requests f rs l in (l, b # bs))"

definition let_through :: "str \<Rightarrow> (time \<times> str) list \<Rightarrow> bool list \<Rightarrow> nat" where
  "let_through c rs bs = length (filter (\<lambda>((_, c'), b). b \<and> c' = c) (zip rs bs))"

fun in_order :: "time \<Rightarrow> (time \<times> str) list \<Rightarrow> bool" where
  "in_order t [] = True"
| "in_order t ((t', _) # rs) = (t \<le> t' \<and> in_order t' rs)"

definition end_time :: "time \<Rightarrow> (time \<times> str) list \<Rightarrow> time" where
  "end_time t rs = (if rs = [] then t else fst (last rs))"

lemma end_time_Cons [simp]: "end_time t ((t', c) # rs) = end_time t' rs"
  by (simp add: end_time_def)

lemma end_time_Nil [simp]: "end_time t [] = t"
  by (simp add: end_time_def)

lemma let_through_Nil [simp]: "let_through c [] bs = 0"
  by (simp add: let_through_def)

lemma let_through_Cons [simp]:
  "let_through c ((t, c') # rs) (b # bs) = (if b \<and> c' = c then 1 else 0) + let_through c rs bs"
  by (simp add: let_through_def)

lemma in_order_end: "in_order t rs \<Longrightarrow> t \<le> end_time t rs"
  by (induction rs arbitrary: t) (force intro: order_trans)+

lemma min_refill: "0 \<le> q \<Longrightarrow> min b (min b x + q) = min b (x + (q :: rat))"
  by (auto simp: min_def)

section \<open>The contract\<close>

text \<open>
  \<open>level t c l\<close> is what client \<open>c\<close> could spend at time \<open>t\<close>.  It rises with time at the configured
  rate and never above the burst, a request let through costs its sender one, and a request of
  another client costs nothing.
\<close>

locale token_bucket =
  fixes take_token :: "time \<Rightarrow> str \<Rightarrow> 'l \<Rightarrow> 'l \<times> bool"
    and level :: "time \<Rightarrow> str \<Rightarrow> 'l \<Rightarrow> rat"
    and valid :: "time \<Rightarrow> 'l \<Rightarrow> bool"
    and rate :: rat and burst :: rat
  assumes rate_pos: "0 < rate"
    and level_nonneg: "valid t l \<Longrightarrow> t \<le> t' \<Longrightarrow> 0 \<le> level t' c l"
    and level_burst: "valid t l \<Longrightarrow> level t' c l \<le> burst"
    and level_grows: "valid t l \<Longrightarrow> t \<le> t' \<Longrightarrow> level t' c l = min burst (level t c l + rate * (t' - t))"
    and take_valid: "valid t l \<Longrightarrow> t \<le> t' \<Longrightarrow> valid t' (fst (take_token t' c l))"
    and take_iff: "valid t l \<Longrightarrow> t \<le> t' \<Longrightarrow> snd (take_token t' c l) \<longleftrightarrow> 1 \<le> level t' c l"
    and take_costs: "valid t l \<Longrightarrow> t \<le> t' \<Longrightarrow>
      level t' c (fst (take_token t' c l)) = level t' c l - (if snd (take_token t' c l) then 1 else 0)"
    and take_other: "valid t l \<Longrightarrow> t \<le> t' \<Longrightarrow> c' \<noteq> c \<Longrightarrow>
      level t' c' (fst (take_token t' c l)) = level t' c' l"
begin

lemma span: "rate * (z - x) = rate * (y - x) + rate * (z - y)"
  by (simp add: algebra_simps)

lemma level_step:
  assumes "valid t l" and "t \<le> t'"
  shows "level t' c (fst (take_token t' c' l)) + (if snd (take_token t' c' l) \<and> c' = c then 1 else 0)
    = min burst (level t c l + rate * (t' - t))"
  using take_costs [OF assms, of c] take_other [OF assms, of c c'] level_grows [OF assms, of c]
  by (cases "c' = c") auto

lemma requests_valid:
  "valid t l \<Longrightarrow> in_order t rs \<Longrightarrow> valid (end_time t rs) (fst (requests take_token rs l))"
proof (induction rs arbitrary: t l)
  case (Cons r rs)
  obtain t' c where r: "r = (t', c)" by (cases r)
  have "valid t' (fst (take_token t' c l))" using Cons.prems by (intro take_valid [OF Cons.prems(1)]) (simp add: r)
  from Cons.IH [OF this] Cons.prems show ?case by (simp add: r case_prod_unfold Let_def)
qed simp

text \<open>Nobody gets more than the balance at the start and what the rate adds since.\<close>

lemma let_through_bound:
  assumes "valid t l" and "in_order t rs"
  shows "of_nat (let_through c rs (snd (requests take_token rs l)))
    \<le> level t c l + rate * (end_time t rs - t)"
  using assms
proof (induction rs arbitrary: t l)
  case Nil
  then show ?case by (simp add: level_nonneg)
next
  case (Cons r rs)
  obtain t' c' where r: "r = (t', c')" by (cases r)
  let ?l = "fst (take_token t' c' l)"
  have le: "t \<le> t'" using Cons.prems by (simp add: r)
  have "of_nat (let_through c rs (snd (requests take_token rs ?l)))
      \<le> level t' c ?l + rate * (end_time t' rs - t')"
    using Cons.prems take_valid [OF Cons.prems(1) le] by (intro Cons.IH) (simp_all add: r)
  moreover have "level t' c ?l + (if snd (take_token t' c' l) \<and> c' = c then 1 else 0)
      \<le> level t c l + rate * (t' - t)"
    using level_step [OF Cons.prems(1) le, of c c'] by simp
  ultimately have "of_nat (let_through c rs (snd (requests take_token rs ?l)))
      + (if snd (take_token t' c' l) \<and> c' = c then 1 else 0)
    \<le> level t c l + rate * (end_time t' rs - t)"
    unfolding span [of "end_time t' rs" t t'] by linarith
  moreover have "let_through c (r # rs) (snd (requests take_token (r # rs) l))
      = (if snd (take_token t' c' l) \<and> c' = c then 1 else 0)
        + let_through c rs (snd (requests take_token rs ?l))"
    by (simp add: r case_prod_unfold Let_def)
  ultimately show ?case by (auto simp: r)
qed

text \<open>Requests of other clients leave a client's balance to grow as if they were not there.\<close>

lemma others_cost_nothing:
  assumes "valid t l" and "in_order t rs" and "c \<notin> snd ` set rs" and "end_time t rs \<le> t'"
  shows "level t' c (fst (requests take_token rs l)) = min burst (level t c l + rate * (t' - t))"
  using assms
proof (induction rs arbitrary: t l)
  case Nil
  then show ?case by (simp add: level_grows [of t l t' c])
next
  case (Cons r rs)
  obtain u c' where r: "r = (u, c')" by (cases r)
  let ?l = "fst (take_token u c' l)"
  have le: "t \<le> u" and ne: "c' \<noteq> c" using Cons.prems by (auto simp: r)
  have u: "u \<le> t'"
    using Cons.prems in_order_end [of u rs] by (auto simp: r)
  have "level t' c (fst (requests take_token rs ?l)) = min burst (level u c ?l + rate * (t' - u))"
    using Cons.prems take_valid [OF Cons.prems(1) le] by (intro Cons.IH) (auto simp: r)
  also have "level u c ?l = min burst (level t c l + rate * (u - t))"
    using level_step [OF Cons.prems(1) le, of c c'] ne by simp
  also have "min burst (min burst (level t c l + rate * (u - t)) + rate * (t' - u))
      = min burst (level t c l + rate * (t' - t))"
  proof -
    have "0 \<le> rate * (t' - u)" using u rate_pos by simp
    from min_refill [OF this, of burst "level t c l + rate * (u - t)"] show ?thesis
      unfolding span [of t' t u] by (simp only: add.assoc)
  qed
  finally show ?case by (simp add: r case_prod_unfold Let_def)
qed

lemma idle_client_served:
  assumes "valid t l" and "in_order t rs" and "c \<notin> snd ` set rs" and "end_time t rs \<le> t'"
    and "1 \<le> burst" and "1 \<le> rate * (t' - t)"
  shows "snd (take_token t' c (fst (requests take_token rs l)))"
proof -
  let ?l = "fst (requests take_token rs l)"
  have v: "valid (end_time t rs) ?l" by (rule requests_valid [OF assms(1,2)])
  have "0 \<le> level t c l" by (rule level_nonneg [OF assms(1) order_refl])
  with assms(5,6) others_cost_nothing [OF assms(1-4)] have "1 \<le> level t' c ?l" by auto
  with take_iff [OF v assms(4)] show ?thesis by simp
qed

end

section \<open>The limiter keeps the contract\<close>

text \<open>What a client could spend now: the tokens on record and what has been added since.\<close>

definition balance :: "time \<Rightarrow> str \<Rightarrow> rate_limiter \<Rightarrow> rat" where
  "balance now c l =
     (case dget (buckets l) c of
        None \<Rightarrow> rl_burst l
      | Some (tokens, updated) \<Rightarrow> min (rl_burst l) (tokens + (now - updated) * rl_rate l))"

definition limiter_ok :: "rat \<Rightarrow> rat \<Rightarrow> time \<Rightarrow> rate_limiter \<Rightarrow> bool" where
  "limiter_ok rate burst t l =
     (rl_rate l = rate \<and> rl_burst l = burst \<and> dict_ok (buckets l)
      \<and> list_all (\<lambda>(_, tokens, updated). 0 \<le> tokens \<and> tokens \<le> burst \<and> updated \<le> t) (buckets l))"

lemma dget_filter:
  "dict_ok d \<Longrightarrow> dget (filter (\<lambda>(_, v). P v) d) k =
     (case dget d k of None \<Rightarrow> None | Some v \<Rightarrow> if P v then Some v else None)"
proof (induction d)
  case (Cons p d)
  obtain k' v' where p: "p = (k', v')" by (cases p)
  from Cons.prems have "dict_ok d" and fresh: "k' \<notin> set (dkeys d)" by (simp_all add: dict_ok_def p)
  from fresh have "dget d k' = None" by (simp only: dget_None_iff not_False_eq_True)
  with Cons.IH [OF \<open>dict_ok d\<close>] show ?case by (auto simp: p)
qed simp

lemma bucket_bounds:
  assumes "limiter_ok rate burst t l" and "dget (buckets l) c = Some (k, u)"
  shows "0 \<le> k" "k \<le> burst" "u \<le> t"
  using map_of_SomeD [OF assms(2)] assms(1) by (auto simp: limiter_ok_def list_all_iff)

lemma allow_eq:
  assumes "0 < rl_rate l"
  shows "allow now c l =
     (if balance now c l < 1 then (l\<lparr>buckets := dset c (balance now c l, now) (buckets l)\<rparr>, False)
      else (sweep now (l\<lparr>buckets := dset c (balance now c l - 1, now) (buckets l)\<rparr>), True))"
  using assms by (auto simp: allow_def balance_def Let_def split: option.split prod.split)

lemma balance_grows:
  assumes "limiter_ok rate burst t l" and "t \<le> t'" and "0 < rate"
  shows "balance t' c l = min burst (balance t c l + rate * (t' - t))"
proof (cases "dget (buckets l) c")
  case None
  with assms show ?thesis by (simp add: balance_def limiter_ok_def)
next
  case (Some b)
  obtain k u where b: "b = (k, u)" by (cases b)
  have "(t' - u) * rate = (t - u) * rate + rate * (t' - t)" by (simp add: algebra_simps)
  moreover have "0 \<le> rate * (t' - t)" using assms(2,3) by simp
  ultimately have "min burst (k + (t' - u) * rate)
      = min burst (min burst (k + (t - u) * rate) + rate * (t' - t))"
    using min_refill [of "rate * (t' - t)" burst "k + (t - u) * rate"] by (simp add: add.assoc)
  with assms(1) Some b show ?thesis by (simp add: balance_def limiter_ok_def)
qed

lemma balance_nonneg:
  assumes "limiter_ok rate burst t l" and "t \<le> t'" and "0 < rate" and "0 \<le> burst"
  shows "0 \<le> balance t' c l"
proof (cases "dget (buckets l) c")
  case None
  with assms show ?thesis by (simp add: balance_def limiter_ok_def)
next
  case (Some b)
  obtain k u where b: "b = (k, u)" by (cases b)
  from bucket_bounds [OF assms(1)] Some b have "0 \<le> k" "u \<le> t" by auto
  moreover from this assms(2,3) have "0 \<le> (t' - u) * rate" by (intro mult_nonneg_nonneg) simp_all
  ultimately show ?thesis using assms(1,4) Some b by (simp add: balance_def limiter_ok_def)
qed

lemma balance_le: "limiter_ok rate burst t l \<Longrightarrow> balance t' c l \<le> burst"
  by (auto simp: balance_def limiter_ok_def split: option.split)

lemma limiter_ok_set:
  assumes "limiter_ok rate burst t l" and "t \<le> t'" and "0 \<le> k" and "k \<le> burst"
  shows "limiter_ok rate burst t' (l\<lparr>buckets := dset c (k, t') (buckets l)\<rparr>)"
proof -
  have "set (dset c (k, t') (buckets l)) \<subseteq> insert (c, k, t') (set (buckets l))" by (rule set_dset_subset)
  with assms show ?thesis by (fastforce simp: limiter_ok_def list_all_iff)
qed

lemma sweep_fields [simp]: "rl_rate (sweep now l) = rl_rate l" "rl_burst (sweep now l) = rl_burst l"
  by (simp_all add: sweep_def)

lemma limiter_ok_sweep: "limiter_ok rate burst t l \<Longrightarrow> limiter_ok rate burst t (sweep now l)"
  by (auto simp: sweep_def limiter_ok_def list_all_iff)

text \<open>A bucket idle for 300 seconds is full again, so dropping it gives nobody anything.\<close>

lemma balance_sweep:
  assumes "limiter_ok rate burst now l" and "0 < rate" and "burst \<le> 300 * rate"
  shows "balance now c (sweep now l) = balance now c l"
proof (cases "60 < now - last_sweep l")
  case True
  have d: "dict_ok (buckets l)" and r: "rl_rate l = rate" "rl_burst l = burst"
    using assms(1) by (simp_all add: limiter_ok_def)
  have full: "burst \<le> k + (now - u) * rate" if "dget (buckets l) c = Some (k, u)" "u \<le> now - 300" for k u
  proof -
    have "300 * rate \<le> (now - u) * rate" using that assms(2) by (intro mult_right_mono) simp_all
    with assms(3) bucket_bounds(1) [OF assms(1) that(1)] show ?thesis by linarith
  qed
  show ?thesis
  proof (cases "dget (buckets l) c")
    case None
    then show ?thesis by (simp add: balance_def sweep_def dget_filter [OF d])
  next
    case (Some b)
    obtain k u where b: "b = (k, u)" by (cases b)
    show ?thesis
    proof (cases "now - 300 < u")
      case True
      then show ?thesis using Some b by (simp add: balance_def sweep_def dget_filter [OF d])
    next
      case False
      with full [of k u] Some b \<open>60 < now - last_sweep l\<close> show ?thesis
        by (simp add: balance_def sweep_def dget_filter [OF d] r)
    qed
  qed
qed (simp add: sweep_def)

lemma allow_ok:
  assumes "limiter_ok rate burst t l" and "t \<le> t'" and "0 < rate" and "0 \<le> burst"
  shows "limiter_ok rate burst t' (fst (allow t' c l))"
proof -
  have r: "0 < rl_rate l" using assms(1,3) by (simp add: limiter_ok_def)
  have "0 \<le> balance t' c l" "balance t' c l \<le> burst"
    using balance_nonneg [OF assms] balance_le [OF assms(1)] by auto
  then show ?thesis
    by (auto simp: allow_eq [OF r] intro!: limiter_ok_sweep limiter_ok_set [OF assms(1,2)])
qed

lemma balance_set:
  "balance now c' (l\<lparr>buckets := dset c (k, now) (buckets l)\<rparr>)
    = (if c' = c then min (rl_burst l) k else balance now c' l)"
  by (simp add: balance_def split: option.split prod.split)

lemma balance_allow:
  assumes "limiter_ok rate burst t l" and "t \<le> t'" and "0 < rate" and "0 \<le> burst" and "burst \<le> 300 * rate"
  shows "balance t' c' (fst (allow t' c l))
    = balance t' c' l - (if c' = c \<and> snd (allow t' c l) then 1 else 0)"
proof -
  let ?b = "balance t' c l"
  have r: "0 < rl_rate l" "rl_burst l = burst" using assms(1,3) by (simp_all add: limiter_ok_def)
  have b: "0 \<le> ?b" "?b \<le> burst" using balance_nonneg [OF assms(1-4)] balance_le [OF assms(1)] by auto
  show ?thesis
  proof (cases "?b < 1")
    case True
    then show ?thesis using b by (simp add: allow_eq [OF r(1)] balance_set r min_def)
  next
    case False
    have "limiter_ok rate burst t' (l\<lparr>buckets := dset c (?b - 1, t') (buckets l)\<rparr>)"
      using False b by (intro limiter_ok_set [OF assms(1,2)]) simp_all
    from balance_sweep [OF this assms(3,5), of c'] False b show ?thesis
      by (simp add: allow_eq [OF r(1)] balance_set r min_def)
  qed
qed

lemma bucket_contract:
  assumes "0 < rate" and "0 \<le> burst" and "burst \<le> 300 * rate"
  shows "token_bucket allow balance (limiter_ok rate burst) rate burst"
proof
  fix t t' :: time and c c' :: str and l :: rate_limiter
  assume v: "limiter_ok rate burst t l"
  show "balance t' c l \<le> burst" by (rule balance_le [OF v])
  assume le: "t \<le> t'"
  have r: "0 < rl_rate l" using v assms(1) by (simp add: limiter_ok_def)
  show "0 \<le> balance t' c l" by (rule balance_nonneg [OF v le assms(1,2)])
  show "balance t' c l = min burst (balance t c l + rate * (t' - t))"
    by (rule balance_grows [OF v le assms(1)])
  show "limiter_ok rate burst t' (fst (allow t' c l))" by (rule allow_ok [OF v le assms(1,2)])
  show "snd (allow t' c l) \<longleftrightarrow> 1 \<le> balance t' c l" by (auto simp: allow_eq [OF r])
  show "balance t' c (fst (allow t' c l)) = balance t' c l - (if snd (allow t' c l) then 1 else 0)"
    by (simp add: balance_allow [OF v le assms])
  show "balance t' c' (fst (allow t' c l)) = balance t' c' l" if "c' \<noteq> c"
    using that by (simp add: balance_allow [OF v le assms])
qed (rule assms(1))

text \<open>The limits the DNS listeners have by default.\<close>

interpretation dns_bucket: token_bucket allow balance "limiter_ok 100 300" 100 300
  by (rule bucket_contract) simp_all

lemma new_rate_limiter_ok: "limiter_ok rate burst t (new_rate_limiter rate burst t0)"
  by (simp add: limiter_ok_def new_rate_limiter_def)

lemma new_balance: "balance t c (new_rate_limiter rate burst t0) = burst"
  by (simp add: balance_def new_rate_limiter_def)

section \<open>Memory\<close>

text \<open>No bucket is older than the last sweep allowed it to be.\<close>

definition recent :: "time \<Rightarrow> rate_limiter \<Rightarrow> bool" where
  "recent t l = (last_sweep l \<le> t \<and> list_all (\<lambda>(_, _, u). last_sweep l - 300 < u) (buckets l))"

lemma recent_set:
  assumes "recent t l" and "t \<le> t'"
  shows "recent t' (l\<lparr>buckets := dset c (k, t') (buckets l)\<rparr>)"
proof -
  have "set (dset c (k, t') (buckets l)) \<subseteq> insert (c, k, t') (set (buckets l))" by (rule set_dset_subset)
  with assms show ?thesis by (fastforce simp: recent_def list_all_iff)
qed

lemma recent_sweep: "recent t l \<Longrightarrow> recent t (sweep t l)"
  by (auto simp: recent_def sweep_def list_all_iff)

lemma recent_allow:
  assumes "recent t l" and "t \<le> t'"
  shows "recent t' (fst (allow t' c l))"
  using assms recent_set [OF assms, of c] recent_sweep [OF recent_set [OF assms], of c]
  by (auto simp: allow_def Let_def recent_def split: prod.split option.split)

lemma recent_requests:
  "recent t l \<Longrightarrow> in_order t rs \<Longrightarrow> recent (end_time t rs) (fst (requests allow rs l))"
proof (induction rs arbitrary: t l)
  case (Cons r rs)
  obtain t' c where r: "r = (t', c)" by (cases r)
  have "recent t' (fst (allow t' c l))"
    using Cons.prems by (intro recent_allow [OF Cons.prems(1)]) (simp add: r)
  from Cons.IH [OF this] Cons.prems show ?case by (simp add: r case_prod_unfold Let_def)
qed simp

lemma sweep_due: "last_sweep l \<le> t \<Longrightarrow> t - 60 \<le> last_sweep (sweep t l)"
  by (auto simp: sweep_def)

lemma allow_recent:
  assumes "recent t l" and "t \<le> t'" and "0 < rl_rate l" and "snd (allow t' c l)"
    and "(k, b, u) \<in> set (buckets (fst (allow t' c l)))"
  shows "t' - 360 < u"
proof -
  have "t' - 60 \<le> last_sweep (fst (allow t' c l))"
    using assms(1-4) by (auto simp: allow_eq [OF assms(3)] recent_def intro!: sweep_due split: if_splits)
  with recent_allow [OF assms(1,2), of c] assms(5) show ?thesis by (auto simp: recent_def list_all_iff)
qed

lemma requests_keep_rate: "rl_rate (fst (requests allow rs l)) = rl_rate l"
  by (induction rs arbitrary: l)
     (auto simp: case_prod_unfold Let_def allow_def sweep_def)

section \<open>Properties\<close>



text \<open>the limiter cannot be used to silence somebody: whatever the other clients send, a client that
  has itself sent nothing for as long as one token takes to arrive is let through.\<close>

theorem quiet_client_is_served:
  assumes "0 < rate" and "1 \<le> burst" and "burst \<le> 300 * rate"
    and "in_order t0 before" and "in_order (end_time t0 before) rs" and "c \<notin> snd ` set rs"
    and "end_time (end_time t0 before) rs \<le> now" and "1 \<le> rate * (now - end_time t0 before)"
  shows "snd (allow now c (fst (requests allow rs
           (fst (requests allow before (new_rate_limiter rate burst t0))))))"
proof -
  have nn: "0 \<le> burst" using assms(2) by simp
  note b = bucket_contract [OF assms(1) nn assms(3)]
  show ?thesis
    by (rule token_bucket.idle_client_served
        [OF b token_bucket.requests_valid [OF b new_rate_limiter_ok assms(4)] assms(5-7,2,8)])
qed

theorem quiet_client_is_served_witness:
  "snd (allow 2 ''a'' (fst (requests allow [(1, ''b''), (3/2, ''b'')]
     (fst (requests allow [(1, ''a''), (1, ''a'')] (new_rate_limiter 1 1 0))))))"
  by (rule quiet_client_is_served) (simp_all add: end_time_def)

text \<open>the table of buckets forgets: after a request is let through, every bucket left was touched
  within the last six minutes, so a scan of many source addresses cannot make it grow for ever.\<close>

theorem buckets_are_recent:
  assumes "0 < rate" and "in_order t0 rs" and "end_time t0 rs \<le> now"
    and "snd (allow now c (fst (requests allow rs (new_rate_limiter rate burst t0))))"
    and "(k, b, u) \<in> set (buckets (fst (allow now c (fst (requests allow rs (new_rate_limiter rate burst t0))))))"
  shows "now - 360 < u"
proof (rule allow_recent [OF _ assms(3) _ assms(4,5)])
  have "recent t0 (new_rate_limiter rate burst t0)" by (simp add: recent_def new_rate_limiter_def)
  then show "recent (end_time t0 rs) (fst (requests allow rs (new_rate_limiter rate burst t0)))"
    by (rule recent_requests [OF _ assms(2)])
  show "0 < rl_rate (fst (requests allow rs (new_rate_limiter rate burst t0)))"
    by (simp add: requests_keep_rate assms(1)) (simp add: new_rate_limiter_def assms(1))
qed

theorem buckets_are_recent_witness:
  "(1000 :: rat) - 360 < 1000"
  by (rule buckets_are_recent [of 1 0 "[(0, ''a'')]" 1000 "''b''" 2 "''b''" 1 1000])
     (simp_all add: allow_def new_rate_limiter_def sweep_def)

text \<open>
  A burst that takes longer than 300 seconds to refill is handed out again too early: the client has
  spent both tokens at time 0, gains a third of one until 301, and gets both again after a request of
  somebody else has swept its bucket away.
\<close>

lemma early_refill:
  "snd (requests allow [(0, ''a''), (0, ''a''), (301, ''b''), (301, ''a''), (301, ''a'')]
     (new_rate_limiter (1 / 1000) 2 0)) = [True, True, True, True, True]"
  by (simp add: allow_def new_rate_limiter_def sweep_def)

end
