(* ===== verification/Listener.thy ===== *)
theory Listener
  imports Engine CacheFile Resolver RateLimit
begin

unbundle bit_operations_syntax

text \<open>
  The DNS front end, \<open>DNSServer\<close> of \<open>symbivpn/server.py\<close>: who is admitted, what a datagram or a
  framed message is answered with, and the slots that bound TCP connections.  Sockets are streams of
  received chunks and lists of what is sent.  The listener threads only admit and queue; the workers
  handle later and in any order, so the run of a server is a step relation over the queue and the open
  connections.
\<close>

section \<open>The server\<close>

definition MAX_UDP_MESSAGE :: u16 where "MAX_UDP_MESSAGE = 4096"

record dns_server_config =
  allowed_networks :: "str list"
  rate_limit :: rat
  rate_burst :: rat
  tcp_max_connections :: int
  tcp_max_per_client :: int

definition default_server_config :: dns_server_config where
  "default_server_config =
     \<lparr>allowed_networks = [''127.0.0.0/8'', ''::1/128'', ''10.0.0.0/8'', ''172.16.0.0/12'',
        ''192.168.0.0/16'', ''fc00::/7'', ''fe80::/10''],
      rate_limit = 100, rate_burst = 300, tcp_max_connections = 64, tcp_max_per_client = 8\<rparr>"

record server =
  filter_engine :: engine
  sconf :: dns_server_config
  tcp_open :: int
  tcp_per_client :: "(str, int) dict"
  client_limiter :: rate_limiter
  admitted_nets :: "network list"
  refused :: nat
  rate_limited :: nat
  tcp_rejected :: nat

text \<open>An entry that is no network makes the constructor raise.\<close>

definition new_server :: "time \<Rightarrow> engine \<Rightarrow> dns_server_config \<Rightarrow> server res" where
  "new_server now e conf =
     rbind (rmap (\<lambda>entry. case ip_network entry of None \<Rightarrow> Inl ValueError | Some n \<Rightarrow> Inr n)
              (allowed_networks conf)) (\<lambda>nets.
       Inr \<lparr>filter_engine = e, sconf = conf, tcp_open = 0, tcp_per_client = [],
            client_limiter = new_rate_limiter (rate_limit conf) (rate_burst conf) now,
            admitted_nets = nets, refused = 0, rate_limited = 0, tcp_rejected = 0\<rparr>)"

section \<open>Admission\<close>

definition permitted :: "network list \<Rightarrow> str \<Rightarrow> bool" where
  "permitted nets client =
     (nets = [] \<or> (case ip_address client of None \<Rightarrow> False | Some a \<Rightarrow> list_ex (in_net a) nets))"

definition admit :: "time \<Rightarrow> str \<Rightarrow> server \<Rightarrow> server \<times> bool" where
  "admit now client s =
     (if \<not> permitted (admitted_nets s) client then (s\<lparr>refused := refused s + 1\<rparr>, False)
      else let (l, okay) = allow now client (client_limiter s); s = s\<lparr>client_limiter := l\<rparr>
           in if \<not> okay then (s\<lparr>rate_limited := rate_limited s + 1\<rparr>, False) else (s, True))"

definition claim_tcp_slot :: "str \<Rightarrow> server \<Rightarrow> server \<times> bool" where
  "claim_tcp_slot client s =
     (if tcp_max_connections (sconf s) \<le> tcp_open s then (s, False)
      else let held = (case dget (tcp_per_client s) client of None \<Rightarrow> 0 | Some n \<Rightarrow> n)
           in if tcp_max_per_client (sconf s) \<le> held then (s, False)
              else (s\<lparr>tcp_open := tcp_open s + 1,
                      tcp_per_client := dset client (held + 1) (tcp_per_client s)\<rparr>, True))"

definition release_tcp_slot :: "str \<Rightarrow> server \<Rightarrow> server" where
  "release_tcp_slot client s =
     (let remaining = (case dget (tcp_per_client s) client of None \<Rightarrow> 1 | Some n \<Rightarrow> n) - 1
      in s\<lparr>tcp_open := max 0 (tcp_open s - 1),
           tcp_per_client := (if 0 < remaining then dset client remaining (tcp_per_client s)
                              else ddel client (tcp_per_client s))\<rparr>)"

section \<open>Answers\<close>

text \<open>
  Any exception of the engine becomes SERVFAIL; when not even that can be built, nothing is sent.
\<close>

definition engine_answer :: "env \<Rightarrow> engine \<Rightarrow> bytes \<Rightarrow> str \<Rightarrow> engine \<times> bytes option res" where
  "engine_answer v e payload client =
     (case handle v e payload client of
        (e, Inr r) \<Rightarrow> (e, Inr r)
      | (e, Inl _) \<Rightarrow>
          (e, case build_error_response payload RCODE_SERVFAIL of
                Inr w \<Rightarrow> Inr (Some w)
              | Inl x \<Rightarrow> if x = DNSFormatError then Inr None else Inl x))"

definition client_udp_limit :: "bytes \<Rightarrow> nat" where
  "client_udp_limit query =
     (case find (\<lambda>rr. rtype rr = TYPE_OPT) (fst (iter_records query)) of
        Some rr \<Rightarrow> max 512 (unat (min (rclass rr) MAX_UDP_MESSAGE))
      | None \<Rightarrow> 512)"

definition truncate_response :: "bytes \<Rightarrow> bytes" where
  "truncate_response response =
     (case rbind (parse_header response) (\<lambda>h.
             rbind (parse_questions response) (\<lambda>(_, question_end). Inr (h, question_end))) of
        Inl _ \<Rightarrow> response
      | Inr (h, question_end) \<Rightarrow>
          pack_header \<lparr>msg_id = msg_id h, flags = flags h OR 0x0200, qdcount = qdcount h,
                       ancount = 0, nscount = 0, arcount = 0\<rparr>
          @ slice HEADER_LEN question_end response)"

definition fit_datagram :: "bytes \<Rightarrow> bytes \<Rightarrow> bytes" where
  "fit_datagram query response =
     (if client_udp_limit query < length response then truncate_response response else response)"

text \<open>What a worker does with a queued datagram: the reply handed to the socket, if any.\<close>

definition handle_udp :: "env \<Rightarrow> bytes \<Rightarrow> str \<Rightarrow> server \<Rightarrow> server \<times> bytes option" where
  "handle_udp v payload client s =
     (let (e, r) = engine_answer v (filter_engine s) payload client in
      (s\<lparr>filter_engine := e\<rparr>,
       case r of Inr (Some w) \<Rightarrow> Some (fit_datagram payload w) | _ \<Rightarrow> None))"

section \<open>TCP\<close>

text \<open>\<open>_read_exactly\<close>: an empty chunk is the end of the stream, no chunk a timeout or an error.\<close>

definition recv_exactly :: "nat \<Rightarrow> bytes list \<Rightarrow> (bytes \<times> bytes list) option" where
  "recv_exactly n chunks = (case read_exactly n chunks of Inl _ \<Rightarrow> None | Inr r \<Rightarrow> Some r)"

text \<open>One turn of the loop of \<open>_handle_tcp\<close>: the next query of the connection, if one arrives whole.\<close>

definition next_query :: "bytes list \<Rightarrow> (bytes \<times> bytes list) option" where
  "next_query chunks =
     (case recv_exactly 2 chunks of
        None \<Rightarrow> None
      | Some (head, chunks) \<Rightarrow>
          if unat (unpack_H head 0) = 0 then None else recv_exactly (unat (unpack_H head 0)) chunks)"

text \<open>
  The turn itself: the engine's new state, and \<^const>\<open>None\<close> when the connection ends or the message
  sent with the rest of the stream.  An answer longer than 65535 bytes cannot be framed; the exception
  ends the connection, as a failing \<open>sendall\<close> does.
\<close>

record turn =
  t_env :: env
  t_stopped :: bool
  t_sent :: bool

definition tcp_turn :: "turn \<Rightarrow> engine \<Rightarrow> bytes list \<Rightarrow> str \<Rightarrow> engine \<times> (bytes \<times> bytes list) option" where
  "tcp_turn v e chunks client =
     (if t_stopped v then (e, None)
      else case next_query chunks of
        None \<Rightarrow> (e, None)
      | Some (payload, chunks) \<Rightarrow>
          (let (e, r) = engine_answer (t_env v) e payload client in
           (e, case r of
                 Inr (Some w) \<Rightarrow>
                   (case framed w of
                      Inr out \<Rightarrow> if t_sent v then Some (out, chunks) else None
                    | Inl _ \<Rightarrow> None)
               | _ \<Rightarrow> None)))"

text \<open>
  A whole connection with nothing else running: the environment of each turn is an argument, the
  frames sent are the result.
\<close>

lemma recv_some [simp]: "recv_exactly n chunks = Some x \<longleftrightarrow> read_exactly n chunks = Inr x"
  by (simp add: recv_exactly_def split: sum.split)

lemma read_exactly_shrinks:
  "read_exactly n chunks = Inr (r, rest) \<Longrightarrow> length (concat rest) + n = length (concat chunks)"
proof (induction n chunks arbitrary: r rule: read_exactly.induct)
  case (1 n chunks)
  show ?case
  proof (cases "n = 0")
    case True
    with "1.prems" show ?thesis by (simp add: read_exactly.simps [of 0])
  next
    case False
    with "1.prems" obtain c cs where ch: "chunks = c # cs" "c \<noteq> []"
      by (cases chunks) (auto simp: read_exactly.simps [of n] split: if_splits)
    let ?cs = "if n < length c then drop n c # cs else cs"
    from "1.prems" False ch obtain r' where r': "read_exactly (n - length (take n c)) ?cs = Inr (r', rest)"
      by (auto simp: read_exactly.simps [of n] res_simps)
    from "1.IH" [OF False ch r'] ch False show ?thesis by (auto split: if_splits)
  qed
qed

lemma next_query_shrinks:
  "next_query chunks = Some (q, rest) \<Longrightarrow> length (concat rest) < length (concat chunks)"
  by (auto simp: next_query_def split: option.splits if_splits dest!: read_exactly_shrinks)

lemma tcp_turn_shrinks:
  "tcp_turn v e chunks client = (e', Some (out, rest)) \<Longrightarrow> length (concat rest) < length (concat chunks)"
  by (auto simp: tcp_turn_def dest!: next_query_shrinks
      split: option.splits prod.splits sum.splits if_splits)

function handle_tcp :: "(nat \<Rightarrow> turn) \<Rightarrow> nat \<Rightarrow> engine \<Rightarrow> bytes list \<Rightarrow> str \<Rightarrow> engine \<times> bytes list" where
  "handle_tcp vs i e chunks client =
     (case tcp_turn (vs i) e chunks client of
        (e, None) \<Rightarrow> (e, [])
      | (e, Some (out, rest)) \<Rightarrow>
          (let (e, outs) = handle_tcp vs (Suc i) e rest client in (e, out # outs)))"
  by pat_completeness auto
termination
  by (relation "measure (\<lambda>(vs, i, e, chunks, client). length (concat chunks))")
     (auto dest: tcp_turn_shrinks [OF sym])

declare handle_tcp.simps [simp del]

section \<open>The running server\<close>

text \<open>
  \<open>queue\<close> holds the datagrams submitted to the workers, \<open>conns\<close> the open TCP connections with what
  their streams will still deliver, \<open>replies\<close> every datagram sent, with its destination.  \<open>clock\<close> is
  the last reading of the monotonic clock and \<open>seen\<close> the readings at which a permitted client asked
  to be admitted; the last two only record the past.
\<close>

record listening =
  serv :: server
  queue :: "(bytes \<times> str) list"
  conns :: "(str \<times> bytes list) list"
  replies :: "(str \<times> bytes) list"
  clock :: time
  seen :: "(time \<times> str) list"

definition admission :: "time \<Rightarrow> str \<Rightarrow> listening \<Rightarrow> listening" where
  "admission now client w =
     w\<lparr>serv := fst (admit now client (serv w)), clock := now,
       seen := (if permitted (admitted_nets (serv w)) client then seen w @ [(now, client)] else seen w)\<rparr>"

text \<open>One round of each listener thread, and one of each kind of worker.\<close>

definition serve_udp :: "time \<Rightarrow> bytes \<Rightarrow> str \<Rightarrow> listening \<Rightarrow> listening" where
  "serve_udp now payload client w =
     (let okay = snd (admit now client (serv w)); w = admission now client w
      in if okay then w\<lparr>queue := queue w @ [(payload, client)]\<rparr> else w)"

definition work_udp :: "env \<Rightarrow> bytes \<Rightarrow> str \<Rightarrow> listening \<Rightarrow> listening" where
  "work_udp v payload client w =
     (let (s, r) = handle_udp v payload client (serv w)
      in w\<lparr>serv := s, queue := remove1 (payload, client) (queue w),
           replies := (case r of None \<Rightarrow> replies w | Some d \<Rightarrow> replies w @ [(client, d)])\<rparr>)"

definition serve_tcp :: "time \<Rightarrow> str \<Rightarrow> bytes list \<Rightarrow> listening \<Rightarrow> listening" where
  "serve_tcp now client stream w =
     (let okay = snd (admit now client (serv w)); w = admission now client w
      in if \<not> okay then w
         else (case claim_tcp_slot client (serv w) of
                 (s, False) \<Rightarrow> w\<lparr>serv := s\<lparr>tcp_rejected := tcp_rejected s + 1\<rparr>\<rparr>
               | (s, True) \<Rightarrow> w\<lparr>serv := s, conns := conns w @ [(client, stream)]\<rparr>))"

definition work_tcp :: "turn \<Rightarrow> nat \<Rightarrow> listening \<Rightarrow> listening" where
  "work_tcp v i w =
     (let (client, stream) = conns w ! i; s = serv w;
          (e, r) = tcp_turn v (filter_engine s) stream client;
          s = s\<lparr>filter_engine := e\<rparr>
      in case r of
           None \<Rightarrow> w\<lparr>serv := release_tcp_slot client s,
                     conns := take i (conns w) @ drop (Suc i) (conns w)\<rparr>
         | Some (out, rest) \<Rightarrow> w\<lparr>serv := s, conns := (conns w)[i := (client, rest)]\<rparr>)"

inductive listens :: "listening \<Rightarrow> listening \<Rightarrow> bool" where
  datagram: "clock w \<le> now \<Longrightarrow> listens w (serve_udp now payload client w)"
| answer: "(payload, client) \<in> set (queue w) \<Longrightarrow> listens w (work_udp v payload client w)"
| connect: "clock w \<le> now \<Longrightarrow> listens w (serve_tcp now client stream w)"
| turn: "i < length (conns w) \<Longrightarrow> listens w (work_tcp v i w)"

inductive running :: "time \<Rightarrow> server \<Rightarrow> listening \<Rightarrow> bool" for t0 s0 where
  start: "running t0 s0 \<lparr>serv = s0, queue = [], conns = [], replies = [], clock = t0, seen = []\<rparr>"
| step: "running t0 s0 w \<Longrightarrow> listens w w' \<Longrightarrow> running t0 s0 w'"

section \<open>Frame facts\<close>

lemma admit_keeps [simp]:
  "filter_engine (fst (admit now c s)) = filter_engine s" "sconf (fst (admit now c s)) = sconf s"
  "tcp_open (fst (admit now c s)) = tcp_open s" "tcp_per_client (fst (admit now c s)) = tcp_per_client s"
  "admitted_nets (fst (admit now c s)) = admitted_nets s"
  by (simp_all add: admit_def Let_def split: prod.split)

lemma admit_permitted: "snd (admit now c s) \<Longrightarrow> permitted (admitted_nets s) c"
  by (simp add: admit_def split: if_splits)

lemma admit_limiter:
  "client_limiter (fst (admit now c s)) =
     (if permitted (admitted_nets s) c then fst (allow now c (client_limiter s)) else client_limiter s)"
  by (simp add: admit_def Let_def split: prod.split)

lemma admit_token:
  "snd (admit now c s) \<longleftrightarrow> permitted (admitted_nets s) c \<and> snd (allow now c (client_limiter s))"
  by (simp add: admit_def Let_def split: prod.split)

lemma claim_keeps [simp]:
  "filter_engine (fst (claim_tcp_slot c s)) = filter_engine s" "sconf (fst (claim_tcp_slot c s)) = sconf s"
  "client_limiter (fst (claim_tcp_slot c s)) = client_limiter s"
  "admitted_nets (fst (claim_tcp_slot c s)) = admitted_nets s"
  by (simp_all add: claim_tcp_slot_def Let_def)

lemma release_slot_keeps [simp]:
  "filter_engine (release_tcp_slot c s) = filter_engine s" "sconf (release_tcp_slot c s) = sconf s"
  "client_limiter (release_tcp_slot c s) = client_limiter s"
  "admitted_nets (release_tcp_slot c s) = admitted_nets s"
  by (simp_all add: release_tcp_slot_def Let_def)

lemma udp_keeps [simp]:
  "sconf (fst (handle_udp v p c s)) = sconf s" "client_limiter (fst (handle_udp v p c s)) = client_limiter s"
  "admitted_nets (fst (handle_udp v p c s)) = admitted_nets s"
  "tcp_open (fst (handle_udp v p c s)) = tcp_open s"
  "tcp_per_client (fst (handle_udp v p c s)) = tcp_per_client s"
  by (simp_all add: handle_udp_def split: prod.split)

section \<open>Connection slots\<close>

definition held_by :: "str \<Rightarrow> (str \<times> bytes list) list \<Rightarrow> nat" where
  "held_by c cs = length (filter (\<lambda>(c', _). c' = c) cs)"

definition counted :: "server \<Rightarrow> (str \<times> bytes list) list \<Rightarrow> bool" where
  "counted s cs \<longleftrightarrow> tcp_open s = int (length cs)
     \<and> (\<forall>c. dget (tcp_per_client s) c = (if held_by c cs = 0 then None else Some (int (held_by c cs))))"

definition within_limits :: "server \<Rightarrow> (str \<times> bytes list) list \<Rightarrow> bool" where
  "within_limits s cs \<longleftrightarrow> int (length cs) \<le> max 0 (tcp_max_connections (sconf s))
     \<and> (\<forall>c. int (held_by c cs) \<le> max 0 (tcp_max_per_client (sconf s)))"

lemma held_by_append [simp]: "held_by c (cs @ ds) = held_by c cs + held_by c ds"
  by (simp add: held_by_def)

lemma held_by_Nil [simp]: "held_by c [] = 0" by (simp add: held_by_def)

lemma held_by_Cons [simp]: "held_by c ((c', x) # cs) = (if c' = c then 1 else 0) + held_by c cs"
  by (simp add: held_by_def)

lemma counted_lookup:
  "counted s cs \<Longrightarrow> (case dget (tcp_per_client s) c of None \<Rightarrow> 0 | Some n \<Rightarrow> n) = int (held_by c cs)"
  by (simp add: counted_def)

lemma claim_counted:
  assumes "counted s cs" and "within_limits s cs" and "claim_tcp_slot c s = (s', True)"
  shows "counted s' (cs @ [(c, x)])" and "within_limits s' (cs @ [(c, x)])"
proof -
  from assms(3) have free: "tcp_open s < tcp_max_connections (sconf s)"
      "int (held_by c cs) < tcp_max_per_client (sconf s)"
    and s': "s' = s\<lparr>tcp_open := tcp_open s + 1,
        tcp_per_client := dset c (int (held_by c cs) + 1) (tcp_per_client s)\<rparr>"
    by (auto simp: claim_tcp_slot_def Let_def counted_lookup [OF assms(1)] split: if_splits)
  show "counted s' (cs @ [(c, x)])" using assms(1) by (auto simp: counted_def s')
  show "within_limits s' (cs @ [(c, x)])" using assms(1,2) free by (auto simp: within_limits_def counted_def s')
qed

lemma claim_refused: "claim_tcp_slot c s = (s', False) \<Longrightarrow> s' = s"
  by (auto simp: claim_tcp_slot_def Let_def split: if_splits)

lemma release_counted:
  assumes "counted s (pre @ (c, x) # post)" and "within_limits s (pre @ (c, x) # post)"
  shows "counted (release_tcp_slot c s) (pre @ post)" and "within_limits (release_tcp_slot c s) (pre @ post)"
proof -
  have held: "dget (tcp_per_client s) c = Some (1 + int (held_by c (pre @ post)))"
    using assms(1) by (simp add: counted_def)
  show "counted (release_tcp_slot c s) (pre @ post)"
    using assms(1) by (auto simp: counted_def release_tcp_slot_def Let_def held)
  show "within_limits (release_tcp_slot c s) (pre @ post)"
    using assms(2) unfolding within_limits_def
    by (auto simp: release_tcp_slot_def Let_def) (smt (verit) of_nat_0_le_iff)+
qed

definition listening_inv :: "server \<Rightarrow> listening \<Rightarrow> bool" where
  "listening_inv s0 w \<longleftrightarrow> sconf (serv w) = sconf s0 \<and> admitted_nets (serv w) = admitted_nets s0
     \<and> counted (serv w) (conns w) \<and> within_limits (serv w) (conns w)
     \<and> (\<forall>c \<in> snd ` set (queue w) \<union> fst ` set (conns w) \<union> fst ` set (replies w).
          permitted (admitted_nets s0) c)"

lemma counted_cong:
  "tcp_open s' = tcp_open s \<Longrightarrow> tcp_per_client s' = tcp_per_client s \<Longrightarrow> counted s' cs = counted s cs"
  by (simp add: counted_def)

lemma within_cong: "sconf s' = sconf s \<Longrightarrow> within_limits s' cs = within_limits s cs"
  by (simp add: within_limits_def)

lemma admission_fields [simp]:
  "serv (admission now c w) = fst (admit now c (serv w))" "queue (admission now c w) = queue w"
  "conns (admission now c w) = conns w" "replies (admission now c w) = replies w"
  by (simp_all add: admission_def)

lemma inv_serve_udp: "listening_inv s0 w \<Longrightarrow> listening_inv s0 (serve_udp now payload c w)"
  by (auto simp: listening_inv_def serve_udp_def Let_def counted_def within_limits_def dest: admit_permitted)

lemma inv_work_udp:
  assumes "listening_inv s0 w" and "(payload, c) \<in> set (queue w)"
  shows "listening_inv s0 (work_udp v payload c w)"
proof -
  have c: "permitted (admitted_nets s0) c" using assms by (force simp: listening_inv_def)
  obtain s r where h: "handle_udp v payload c (serv w) = (s, r)" by (cases "handle_udp v payload c (serv w)")
  have s: "sconf s = sconf (serv w)" "admitted_nets s = admitted_nets (serv w)"
      "tcp_open s = tcp_open (serv w)" "tcp_per_client s = tcp_per_client (serv w)"
    using udp_keeps [of v payload c "serv w"] by (simp_all add: h)
  have q: "set (remove1 (payload, c) (queue w)) \<subseteq> set (queue w)" by (rule set_remove1_subset)
  have b: "counted s (conns w)" "within_limits s (conns w)"
    using assms(1) by (simp_all add: listening_inv_def counted_cong [OF s(3,4)] within_cong [OF s(1)])
  have all: "\<forall>c \<in> snd ` set (remove1 (payload, c) (queue w)) \<union> fst ` set (conns w)
      \<union> fst ` set (replies w @ [(c, d)]). permitted (admitted_nets s0) c" for d :: bytes
    using assms(1) c image_mono [OF q, of snd] by (simp add: listening_inv_def) blast
  show ?thesis using assms(1) b all
    by (cases r) (simp_all add: listening_inv_def work_udp_def h s)
qed

lemma inv_serve_tcp:
  assumes "listening_inv s0 w"
  shows "listening_inv s0 (serve_tcp now c stream w)"
proof (cases "snd (admit now c (serv w))")
  case False
  then show ?thesis using assms
    by (auto simp: serve_tcp_def listening_inv_def counted_def within_limits_def)
next
  case True
  let ?s = "fst (admit now c (serv w))"
  have base: "counted ?s (conns w)" "within_limits ?s (conns w)"
    using assms by (auto simp: listening_inv_def counted_def within_limits_def)
  have c: "permitted (admitted_nets s0) c"
    using admit_permitted [OF True] assms by (simp add: listening_inv_def)
  obtain s' b where cl: "claim_tcp_slot c ?s = (s', b)" by (cases "claim_tcp_slot c ?s")
  have s': "sconf s' = sconf (serv w)" "admitted_nets s' = admitted_nets (serv w)"
    using claim_keeps [of c ?s] by (simp_all add: cl)
  show ?thesis
  proof (cases b)
    case True
    with cl have cl': "claim_tcp_slot c ?s = (s', True)" by simp
    from claim_counted [OF base cl', of stream] assms c \<open>snd (admit now c (serv w))\<close> True
    show ?thesis by (auto simp: serve_tcp_def Let_def cl listening_inv_def s')
  next
    case False
    with claim_refused [of c ?s s'] cl have "s' = ?s" by simp
    with assms \<open>snd (admit now c (serv w))\<close> False show ?thesis
      by (auto simp: serve_tcp_def Let_def cl listening_inv_def counted_def within_limits_def)
  qed
qed

lemma held_by_clients: "held_by c cs = length (filter (\<lambda>c'. c' = c) (map fst cs))"
  by (induction cs) auto

lemma counted_clients:
  assumes "map fst cs = map fst ds"
  shows "counted s cs = counted s ds" "within_limits s cs = within_limits s ds"
  using map_eq_imp_length_eq [OF assms]
  by (simp_all only: counted_def within_limits_def held_by_clients assms)

lemma ball_subset: "A \<subseteq> B \<Longrightarrow> \<forall>x \<in> B. P x \<Longrightarrow> \<forall>x \<in> A. P x"
  by blast

lemma work_tcp_closed:
  assumes "conns w ! i = (c, x)" and "tcp_turn v (filter_engine (serv w)) x c = (e, None)"
  shows "work_tcp v i w = w\<lparr>serv := release_tcp_slot c (serv w\<lparr>filter_engine := e\<rparr>),
           conns := take i (conns w) @ drop (Suc i) (conns w)\<rparr>"
  by (simp only: work_tcp_def assms Let_def prod.case option.case)

lemma work_tcp_answered:
  assumes "conns w ! i = (c, x)" and "tcp_turn v (filter_engine (serv w)) x c = (e, Some (out, rest))"
  shows "work_tcp v i w = w\<lparr>serv := serv w\<lparr>filter_engine := e\<rparr>, conns := (conns w)[i := (c, rest)]\<rparr>"
  by (simp only: work_tcp_def assms Let_def prod.case option.case)

lemma listening_inv_upd:
  "listening_inv s0 (w\<lparr>serv := s, conns := cs\<rparr>) \<longleftrightarrow>
     sconf s = sconf s0 \<and> admitted_nets s = admitted_nets s0 \<and> counted s cs \<and> within_limits s cs
     \<and> (\<forall>c \<in> snd ` set (queue w) \<union> fst ` set cs \<union> fst ` set (replies w). permitted (admitted_nets s0) c)"
  by (simp add: listening_inv_def)

lemma inv_work_tcp:
  assumes "listening_inv s0 w" and "i < length (conns w)"
  shows "listening_inv s0 (work_tcp v i w)"
proof -
  obtain c x where ci: "conns w ! i = (c, x)" by (cases "conns w ! i")
  obtain e r where t: "tcp_turn v (filter_engine (serv w)) x c = (e, r)"
    by (cases "tcp_turn v (filter_engine (serv w)) x c")
  let ?pre = "take i (conns w)" and ?post = "drop (Suc i) (conns w)"
  have split: "conns w = ?pre @ (c, x) # ?post" by (fold ci) (rule id_take_nth_drop [OF assms(2)])
  let ?s = "serv w\<lparr>filter_engine := e\<rparr>"
  have base: "counted ?s (?pre @ (c, x) # ?post)" "within_limits ?s (?pre @ (c, x) # ?post)"
    unfolding split [symmetric] using assms(1)
    by (simp_all add: listening_inv_def counted_cong [of ?s "serv w"] within_cong [of ?s "serv w"])
  have clients: "\<forall>c \<in> snd ` set (queue w) \<union> fst ` set (conns w) \<union> fst ` set (replies w).
      permitted (admitted_nets s0) c" "sconf (serv w) = sconf s0" "admitted_nets (serv w) = admitted_nets s0"
    using assms(1) by (simp_all add: listening_inv_def)
  have sub: "set ?pre \<subseteq> set (conns w)" "set ?post \<subseteq> set (conns w)" "(c, x) \<in> set (conns w)"
    using nth_mem [OF assms(2)] by (simp_all add: ci set_take_subset set_drop_subset)
  show ?thesis
  proof (cases r)
    case None
    have "fst ` set (?pre @ ?post) \<subseteq> fst ` set (conns w)" using sub(1,2) by (simp add: image_Un image_mono)
    then have "snd ` set (queue w) \<union> fst ` set (?pre @ ?post) \<union> fst ` set (replies w)
        \<subseteq> snd ` set (queue w) \<union> fst ` set (conns w) \<union> fst ` set (replies w)"
      by (intro Un_mono subset_refl)
    from this clients(1)
    have "\<forall>c \<in> snd ` set (queue w) \<union> fst ` set (?pre @ ?post) \<union> fst ` set (replies w).
        permitted (admitted_nets s0) c" by (rule ball_subset)
    then show ?thesis
      unfolding work_tcp_closed [OF ci t [unfolded None]] listening_inv_upd
      using release_counted [OF base] clients(2,3) by (intro conjI) simp_all
  next
    case (Some p)
    obtain out rest where p: "p = (out, rest)" by (cases p)
    have same: "map fst ((conns w)[i := (c, rest)]) = map fst (conns w)"
      by (simp only: map_update fst_conv list_update_same_conv [OF assms(2) [folded length_map [of fst]]]
          nth_map [OF assms(2)] ci)
    then have "fst ` set ((conns w)[i := (c, rest)]) = fst ` set (conns w)"
      by (simp only: set_map [symmetric])
    moreover have "counted ?s ((conns w)[i := (c, rest)])" "within_limits ?s ((conns w)[i := (c, rest)])"
      using base unfolding split [symmetric] counted_clients [OF same] .
    ultimately show ?thesis
      unfolding work_tcp_answered [OF ci t [unfolded Some p]] listening_inv_upd
      using clients by (intro conjI) simp_all
  qed
qed

lemma inv_listens: "listens w w' \<Longrightarrow> listening_inv s0 w \<Longrightarrow> listening_inv s0 w'"
proof (induction rule: listens.induct)
  case datagram
  then show ?case by (intro inv_serve_udp)
next
  case answer
  then show ?case by (intro inv_work_udp)
next
  case connect
  then show ?case by (intro inv_serve_tcp)
next
  case turn
  then show ?case by (intro inv_work_tcp)
qed

lemma inv_running:
  assumes "running t0 s0 w" and "tcp_open s0 = 0" and "tcp_per_client s0 = []"
  shows "listening_inv s0 w"
  using assms(1)
proof induction
  case start
  then show ?case using assms(2,3)
    by (simp add: listening_inv_def counted_def within_limits_def)
qed (blast intro: inv_listens)

section \<open>Replies and tokens\<close>

lemma requests_snoc:
  "requests f (rs @ [(t, c)]) l =
     (let (l1, bs) = requests f rs l; (l2, b) = f t c l1 in (l2, bs @ [b]))"
  by (induction rs arbitrary: l) (auto simp: case_prod_unfold Let_def)

lemma length_requests: "length (snd (requests f rs l)) = length rs"
  by (induction rs arbitrary: l) (auto simp: case_prod_unfold Let_def)

lemma let_through_snoc:
  "length bs = length rs \<Longrightarrow>
     let_through c (rs @ [(t, c')]) (bs @ [b]) = let_through c rs bs + (if b \<and> c' = c then 1 else 0)"
  by (simp add: let_through_def)

lemma in_order_snoc: "in_order t (rs @ [(t', c)]) \<longleftrightarrow> in_order t rs \<and> end_time t rs \<le> t'"
  by (induction rs arbitrary: t) auto

lemma end_time_snoc [simp]: "end_time t (rs @ [(t', c)]) = t'"
  by (simp add: end_time_def)

text \<open>What has been sent to a client and what is still queued for it.\<close>

definition sent_to :: "str \<Rightarrow> listening \<Rightarrow> nat" where
  "sent_to c w = length (filter (\<lambda>(c', _). c' = c) (replies w))"

definition outstanding :: "str \<Rightarrow> listening \<Rightarrow> nat" where
  "outstanding c w = sent_to c w + length (filter (\<lambda>(_, c'). c' = c) (queue w))"

definition tokens_paid :: "rate_limiter \<Rightarrow> str \<Rightarrow> listening \<Rightarrow> nat" where
  "tokens_paid l0 c w = let_through c (seen w) (snd (requests allow (seen w) l0))"

definition paid_for :: "time \<Rightarrow> rate_limiter \<Rightarrow> listening \<Rightarrow> bool" where
  "paid_for t0 l0 w \<longleftrightarrow>
     client_limiter (serv w) = fst (requests allow (seen w) l0)
     \<and> in_order t0 (seen w) \<and> end_time t0 (seen w) \<le> clock w
     \<and> (\<forall>c. outstanding c w \<le> tokens_paid l0 c w)"

lemma admission_clock [simp]: "clock (admission now c w) = now" by (simp add: admission_def)

lemma outstanding_admission [simp]: "outstanding d (admission now c w) = outstanding d w"
  by (simp add: outstanding_def sent_to_def)

lemma length_filter_remove1:
  "x \<in> set xs \<Longrightarrow> length (filter P (remove1 x xs)) + (if P x then 1 else 0) = length (filter P xs)"
  by (induction xs) auto

lemma tokens_admission:
  assumes "client_limiter (serv w) = fst (requests allow (seen w) l0)"
  shows "tokens_paid l0 d (admission now c w)
    = tokens_paid l0 d w + (if snd (admit now c (serv w)) \<and> c = d then 1 else 0)"
proof (cases "permitted (admitted_nets (serv w)) c")
  case True
  obtain l bs where r: "requests allow (seen w) l0 = (l, bs)" by (cases "requests allow (seen w) l0")
  obtain l' b where a: "allow now c l = (l', b)" by (cases "allow now c l")
  have lim: "client_limiter (serv w) = l" and len: "length bs = length (seen w)"
    using assms length_requests [of allow "seen w" l0] by (simp_all add: r)
  show ?thesis
    by (simp add: tokens_paid_def admission_def True requests_snoc r a let_through_snoc [OF len] admit_token lim)
next
  case False
  then show ?thesis by (simp add: tokens_paid_def admission_def admit_token)
qed

lemma paid_admission:
  assumes "paid_for t0 l0 w" and "clock w \<le> now"
  shows "paid_for t0 l0 (admission now c w)"
proof -
  have lim: "client_limiter (serv w) = fst (requests allow (seen w) l0)" and le: "end_time t0 (seen w) \<le> now"
    and ord: "in_order t0 (seen w)" and bound: "\<And>d. outstanding d w \<le> tokens_paid l0 d w"
    using assms by (auto simp: paid_for_def)
  have "client_limiter (serv (admission now c w)) = fst (requests allow (seen (admission now c w)) l0)"
    using lim by (simp add: admission_def admit_limiter requests_snoc case_prod_unfold Let_def)
  moreover have "in_order t0 (seen (admission now c w))" "end_time t0 (seen (admission now c w)) \<le> now"
    using ord le by (simp_all add: admission_def in_order_snoc)
  moreover have "outstanding d w \<le> tokens_paid l0 d (admission now c w)" for d
    using bound [of d] by (simp add: tokens_admission [OF lim])
  ultimately show ?thesis by (simp add: paid_for_def)
qed

lemma paid_serve_udp:
  assumes "paid_for t0 l0 w" and "clock w \<le> now"
  shows "paid_for t0 l0 (serve_udp now payload c w)"
proof (cases "snd (admit now c (serv w))")
  case True
  let ?w = "admission now c w"
  let ?w' = "?w\<lparr>queue := queue ?w @ [(payload, c)]\<rparr>"
  have lim: "client_limiter (serv w) = fst (requests allow (seen w) l0)"
    and bound: "\<And>d. outstanding d w \<le> tokens_paid l0 d w"
    using assms by (auto simp: paid_for_def)
  have "outstanding d ?w' = outstanding d w + (if c = d then 1 else 0)" for d
    by (simp add: outstanding_def sent_to_def)
  moreover have "tokens_paid l0 d ?w' = tokens_paid l0 d w + (if c = d then 1 else 0)" for d
    using tokens_admission [OF lim, of d now c] True by (simp add: tokens_paid_def)
  ultimately have "outstanding d ?w' \<le> tokens_paid l0 d ?w'" for d using bound [of d] by simp
  then have "paid_for t0 l0 ?w'" using paid_admission [OF assms, of c] by (simp add: paid_for_def)
  then show ?thesis by (simp add: serve_udp_def True)
next
  case False
  then show ?thesis using paid_admission [OF assms, of c] by (simp add: serve_udp_def)
qed

lemma paid_cong:
  assumes "client_limiter (serv w') = client_limiter (serv w)" and "seen w' = seen w" and "clock w' = clock w"
    and "\<And>c. outstanding c w' \<le> outstanding c w" and "paid_for t0 l0 w"
  shows "paid_for t0 l0 w'"
  using assms by (auto simp: paid_for_def tokens_paid_def intro: order_trans)

lemma serve_tcp_shape:
  obtains s' cs where "serve_tcp now c stream w = (admission now c w)\<lparr>serv := s', conns := cs\<rparr>"
    and "client_limiter s' = client_limiter (serv (admission now c w))"
proof (cases "snd (admit now c (serv w))")
  case False
  then show ?thesis
    by (intro that [of "conns (admission now c w)" "serv (admission now c w)"]) (simp_all add: serve_tcp_def)
next
  case True
  let ?w = "admission now c w"
  obtain s' b where cl: "claim_tcp_slot c (serv ?w) = (s', b)" by (cases "claim_tcp_slot c (serv ?w)")
  have lim: "client_limiter s' = client_limiter (serv ?w)"
    using claim_keeps(3) [of c "serv ?w"] unfolding cl fst_conv .
  show ?thesis
  proof (cases b)
    case True
    have "serve_tcp now c stream w = ?w\<lparr>serv := s', conns := conns ?w @ [(c, stream)]\<rparr>"
      using \<open>snd (admit now c (serv w))\<close> cl True
      by (simp only: serve_tcp_def Let_def prod.case bool.case not_True_eq_False if_False)
    from this lim show ?thesis by (rule that)
  next
    case False
    have "serve_tcp now c stream w = ?w\<lparr>serv := s'\<lparr>tcp_rejected := tcp_rejected s' + 1\<rparr>\<rparr>"
      using \<open>snd (admit now c (serv w))\<close> cl False
      by (simp only: serve_tcp_def Let_def prod.case bool.case not_True_eq_False if_False)
    with lim show ?thesis
      by (intro that [of "conns ?w" "s'\<lparr>tcp_rejected := tcp_rejected s' + 1\<rparr>"]) simp_all
  qed
qed

lemma paid_serve_tcp:
  assumes "paid_for t0 l0 w" and "clock w \<le> now"
  shows "paid_for t0 l0 (serve_tcp now c stream w)"
proof -
  obtain s' cs where eq: "serve_tcp now c stream w = (admission now c w)\<lparr>serv := s', conns := cs\<rparr>"
    and "client_limiter s' = client_limiter (serv (admission now c w))"
    by (rule serve_tcp_shape)
  then show ?thesis
    unfolding eq by (intro paid_cong [OF _ _ _ _ paid_admission [OF assms, of c]])
      (simp_all add: outstanding_def sent_to_def)
qed

lemma paid_work_udp:
  assumes "paid_for t0 l0 w" and "(payload, c) \<in> set (queue w)"
  shows "paid_for t0 l0 (work_udp v payload c w)"
proof (rule paid_cong [OF _ _ _ _ assms(1)])
  obtain s r where h: "handle_udp v payload c (serv w) = (s, r)" by (cases "handle_udp v payload c (serv w)")
  show "client_limiter (serv (work_udp v payload c w)) = client_limiter (serv w)"
    using udp_keeps(2) [of v payload c "serv w"] by (simp add: work_udp_def h)
  show "seen (work_udp v payload c w) = seen w" "clock (work_udp v payload c w) = clock w"
    by (simp_all add: work_udp_def h)
  show "outstanding d (work_udp v payload c w) \<le> outstanding d w" for d
    using length_filter_remove1 [OF assms(2), of "\<lambda>(_, c'). c' = d"]
    by (simp add: work_udp_def h outstanding_def sent_to_def split: option.split if_splits)
qed

lemma paid_work_tcp:
  assumes "paid_for t0 l0 w"
  shows "paid_for t0 l0 (work_tcp v i w)"
proof -
  obtain c x where ci: "conns w ! i = (c, x)" by (cases "conns w ! i")
  obtain e r where t: "tcp_turn v (filter_engine (serv w)) x c = (e, r)"
    by (cases "tcp_turn v (filter_engine (serv w)) x c")
  show ?thesis
  proof (cases r)
    case None
    show ?thesis
      by (rule paid_cong [OF _ _ _ _ assms])
         (simp_all add: work_tcp_closed [OF ci t [unfolded None]] outstanding_def sent_to_def)
  next
    case (Some p)
    obtain out rest where p: "p = (out, rest)" by (cases p)
    show ?thesis
      by (rule paid_cong [OF _ _ _ _ assms])
         (simp_all add: work_tcp_answered [OF ci t [unfolded Some p]] outstanding_def sent_to_def)
  qed
qed

lemma paid_running:
  assumes "running t0 s0 w"
  shows "paid_for t0 (client_limiter s0) w"
  using assms
proof induction
  case start
  then show ?case by (simp add: paid_for_def outstanding_def sent_to_def)
next
  case (step w w')
  from step.hyps(2) step.IH show ?case
  proof cases
    case datagram
    then show ?thesis using paid_serve_udp [OF step.IH] by simp
  next
    case answer
    then show ?thesis using paid_work_udp [OF step.IH] by simp
  next
    case connect
    then show ?thesis using paid_serve_tcp [OF step.IH] by simp
  next
    case turn
    then show ?thesis using paid_work_tcp [OF step.IH] by simp
  qed
qed

section \<open>Sizes\<close>

lemma read_loop_end_bound:
  "read_loop data c t j en ls = Inr (ls', e) \<Longrightarrow> t \<le> 255 \<Longrightarrow>
     (case en of None \<Rightarrow> e \<le> c + (255 - t) + 2 | Some x \<Rightarrow> e = x)"
  by (induction rule: read_loop_induct) (auto split: option.splits)

lemma read_name_end: "read_name data c = Inr (n, e) \<Longrightarrow> e \<le> c + 257"
  by (auto simp: read_name_def res_simps dest!: read_loop_end_bound)

lemma one_question_end:
  assumes "parse_questions data = Inr ([q], e)"
  shows "e \<le> 273"
proof -
  from assms obtain h :: header where "questions_loop data (unat (qdcount h)) 12 = Inr ([q], e)"
    by (auto simp: parse_questions_def rbind_Inr_iff HEADER_LEN_def)
  moreover obtain n where "unat (qdcount h) = n" by simp
  ultimately have loop: "questions_loop data n 12 = Inr ([q], e)" by simp
  then obtain m where n: "n = Suc m" by (cases n) auto
  from loop obtain nm o2 qs' where rd: "read_name data 12 = Inr (nm, o2)"
    and rec: "questions_loop data m (o2 + 4) = Inr (qs', e)" and "qs' = []"
    by (auto simp: n rbind_Inr_iff split: if_splits)
  then have "e = o2 + 4" by (cases m) (auto simp: rbind_Inr_iff split: if_splits)
  with read_name_end [OF rd] show ?thesis by simp
qed

lemma udp_limit_bounds: "512 \<le> client_udp_limit query \<and> client_udp_limit query \<le> 4096"
proof -
  have "unat (min r (4096 :: u16)) \<le> 4096" for r
    using word_le_nat_alt [of "min r 4096" "4096 :: u16"] by simp
  then show ?thesis by (simp add: client_udp_limit_def MAX_UDP_MESSAGE_def split: option.split)
qed

lemma truncate_eq:
  assumes "parse_header response = Inr h" and "parse_questions response = Inr (qs, e)"
  shows "truncate_response response =
    pack_header \<lparr>msg_id = msg_id h, flags = flags h OR 0x0200, qdcount = qdcount h,
                 ancount = 0, nscount = 0, arcount = 0\<rparr> @ slice 12 e response"
  using assms by (simp add: truncate_response_def HEADER_LEN_def)

section \<open>Connections\<close>

text \<open>Reading depends on the bytes that arrive, not on where the stream is cut.\<close>

lemma read_exactly_short:
  assumes "length (concat chunks) < n"
  shows "recv_exactly n chunks = None"
proof (cases "read_exactly n chunks")
  case (Inr r)
  obtain a rest where "r = (a, rest)" by (cases r)
  with read_exactly_shrinks [of n chunks a rest] Inr assms show ?thesis by simp
qed (simp add: recv_exactly_def)

definition same_stream :: "bytes list \<Rightarrow> bytes list \<Rightarrow> bool" where
  "same_stream a b \<longleftrightarrow> concat a = concat b \<and> [] \<notin> set a \<and> [] \<notin> set b"

lemma recv_exactly_cut:
  assumes "same_stream a b"
  shows "(recv_exactly n a = None \<and> recv_exactly n b = None)
    \<or> (\<exists>r ra rb. recv_exactly n a = Some (r, ra) \<and> recv_exactly n b = Some (r, rb) \<and> same_stream ra rb)"
proof (cases "n \<le> length (concat a)")
  case True
  have e: "[] \<notin> set a" "[] \<notin> set b" "concat a = concat b" "n \<le> length (concat b)"
    using assms True by (simp_all add: same_stream_def)
  obtain ra where "read_exactly n a = Inr (take n (concat a), ra)" "[] \<notin> set ra" "concat ra = drop n (concat a)"
    using read_exactly_stream [OF e(1) True] by blast
  moreover obtain rb where "read_exactly n b = Inr (take n (concat b), rb)" "[] \<notin> set rb" "concat rb = drop n (concat b)"
    using read_exactly_stream [OF e(2,4)] by blast
  ultimately show ?thesis using e(3) by (auto simp: same_stream_def)
next
  case False
  with assms read_exactly_short [of a n] read_exactly_short [of b n] show ?thesis
    by (simp add: same_stream_def)
qed

lemma next_query_cut:
  assumes "same_stream a b"
  shows "(next_query a = None \<and> next_query b = None)
    \<or> (\<exists>q ra rb. next_query a = Some (q, ra) \<and> next_query b = Some (q, rb) \<and> same_stream ra rb)"
proof -
  from recv_exactly_cut [OF assms, of 2] consider
      (none) "recv_exactly 2 a = None" "recv_exactly 2 b = None"
    | (head) r ra rb where "recv_exactly 2 a = Some (r, ra)" "recv_exactly 2 b = Some (r, rb)" "same_stream ra rb"
    by (auto simp del: recv_some)
  then show ?thesis
  proof cases
    case none
    then show ?thesis by (simp add: next_query_def)
  next
    case head
    show ?thesis
      using recv_exactly_cut [OF head(3), of "unat (unpack_H r 0)"]
      by (simp only: next_query_def head(1,2) option.case prod.case) (simp del: recv_some)
  qed
qed

lemma tcp_turn_cut:
  assumes "same_stream a b"
  shows "\<exists>e' r r'. tcp_turn v e a c = (e', r) \<and> tcp_turn v e b c = (e', r')
    \<and> ((r = None \<and> r' = None) \<or> (\<exists>out ra rb. r = Some (out, ra) \<and> r' = Some (out, rb) \<and> same_stream ra rb))"
proof (cases "t_stopped v")
  case True
  then show ?thesis by (simp add: tcp_turn_def)
next
  case False
  from next_query_cut [OF assms] show ?thesis
  proof
    assume "next_query a = None \<and> next_query b = None"
    then show ?thesis by (simp add: tcp_turn_def)
  next
    assume "\<exists>q ra rb. next_query a = Some (q, ra) \<and> next_query b = Some (q, rb) \<and> same_stream ra rb"
    then obtain q ra rb where q: "next_query a = Some (q, ra)" "next_query b = Some (q, rb)" "same_stream ra rb"
      by blast
    obtain e' r where an: "engine_answer (t_env v) e q c = (e', r)" by (cases "engine_answer (t_env v) e q c")
    show ?thesis using q(3) False
      by (simp add: tcp_turn_def q(1,2) an split: sum.split option.split)
  qed
qed

lemma handle_tcp_cut:
  "same_stream a b \<Longrightarrow> handle_tcp vs i e a c = handle_tcp vs i e b c"
proof (induction vs i e a c arbitrary: b rule: handle_tcp.induct)
  case (1 vs i e a c)
  from tcp_turn_cut [OF "1.prems", of "vs i" e c] obtain e' r r' where
    t: "tcp_turn (vs i) e a c = (e', r)" "tcp_turn (vs i) e b c = (e', r')"
    and rr: "(r = None \<and> r' = None) \<or> (\<exists>out ra rb. r = Some (out, ra) \<and> r' = Some (out, rb) \<and> same_stream ra rb)"
    by blast
  from rr show ?case
  proof
    assume "r = None \<and> r' = None"
    with t show ?thesis by (simp add: handle_tcp.simps [of vs i e])
  next
    assume "\<exists>out ra rb. r = Some (out, ra) \<and> r' = Some (out, rb) \<and> same_stream ra rb"
    then obtain out ra rb where o: "r = Some (out, ra)" "r' = Some (out, rb)" "same_stream ra rb" by blast
    have "handle_tcp vs (Suc i) e' ra c = handle_tcp vs (Suc i) e' rb c"
      by (rule "1.IH" [OF t(1) [symmetric] o(1) refl o(3)])
    with t o show ?thesis by (simp add: handle_tcp.simps [of vs i e])
  qed
qed

text \<open>The same connection as a list of queries: answered one after the other until one is not.\<close>

definition frame :: "bytes \<Rightarrow> bytes" where "frame q = pack_H (of_nat (length q)) @ q"

fun answer_all :: "(nat \<Rightarrow> turn) \<Rightarrow> nat \<Rightarrow> engine \<Rightarrow> bytes list \<Rightarrow> str \<Rightarrow> engine \<times> bytes list" where
  "answer_all vs i e [] c = (e, [])"
| "answer_all vs i e (q # qs) c =
     (if t_stopped (vs i) then (e, [])
      else case engine_answer (t_env (vs i)) e q c of
        (e, Inr (Some w)) \<Rightarrow>
          if length w < 65536 \<and> t_sent (vs i)
          then (let (e, outs) = answer_all vs (Suc i) e qs c in (e, frame w # outs))
          else (e, [])
      | (e, _) \<Rightarrow> (e, []))"

lemma framed_frame: "framed w = (if length w < 65536 then Inr (frame w) else Inl StructError)"
  by (simp add: framed_def frame_def)

lemma next_query_frame:
  assumes "0 < length q" and "length q < 65536"
  shows "next_query [frame q @ rest] = Some (q, if rest = [] then [] else [rest])"
proof -
  have n: "unat (of_nat (length q) :: u16) = length q"
    using assms(2) by (simp add: unat_of_nat take_bit_nat_eq_self)
  have head: "recv_exactly 2 [frame q @ rest] = Some (pack_H (of_nat (length q)), [q @ rest])"
    using assms(1) by (auto simp: frame_def read_exactly.simps)
  have body: "recv_exactly (length q) [q @ rest] = Some (q, if rest = [] then [] else [rest])"
    using assms(1) by (auto simp: read_exactly.simps [of "length q"] read_exactly.simps [of 0])
  have "unpack_H (pack_H (of_nat (length q))) 0 = (of_nat (length q) :: u16)"
    using unpack_pack_H [of 0 "[]" "of_nat (length q)" "[]"] by simp
  then have len: "unat (unpack_H (pack_H (of_nat (length q) :: u16)) 0) = length q" by (simp only: n)
  show ?thesis using assms(1)
    by (simp only: next_query_def head option.case prod.case len body neq0_conv [symmetric] if_False simp_thms)
qed

definition one_chunk :: "bytes \<Rightarrow> bytes list" where "one_chunk s = (if s = [] then [] else [s])"

lemma next_query_none: "next_query [] = None"
  by (simp add: next_query_def recv_exactly_def read_exactly.simps)

lemma answer_all_stream:
  assumes "\<forall>q \<in> set qs. 0 < length q \<and> length q < 65536"
  shows "handle_tcp vs i e (one_chunk (concat (map frame qs))) c = answer_all vs i e qs c"
  using assms
proof (induction qs arbitrary: i e)
  case Nil
  show ?case
    by (simp add: one_chunk_def handle_tcp.simps [of vs i e] tcp_turn_def next_query_none)
next
  case (Cons q qs)
  let ?rest = "concat (map frame qs)"
  have q: "0 < length q" "length q < 65536" using Cons.prems by simp_all
  have chunk: "one_chunk (concat (map frame (q # qs))) = [frame q @ ?rest]"
    by (simp add: one_chunk_def frame_def pack_H_def)
  have nq: "next_query [frame q @ ?rest] = Some (q, one_chunk ?rest)"
    by (simp add: next_query_frame [OF q] one_chunk_def)
  have IH: "handle_tcp vs i e (one_chunk ?rest) c = answer_all vs i e qs c" for i e
    using Cons.prems by (intro Cons.IH) simp
  obtain e' r where an: "engine_answer (t_env (vs i)) e q c = (e', r)"
    by (cases "engine_answer (t_env (vs i)) e q c")
  show ?case
    unfolding chunk
    by (cases r) (auto simp: handle_tcp.simps [of vs i e] tcp_turn_def nq an IH framed_frame
        split: option.split)
qed

lemma error_answers:
  assumes "build_error_response query rc = Inr out" and "rc AND 0x000F = rc"
  shows "\<exists>h qs e. parse_header query = Inr h \<and> parse_questions query = Inr (qs, e) \<and> answers_query h e query rc out"
  using error_response_answers_query [OF assms] by blast

section \<open>Properties\<close>

lemma new_server_fields:
  assumes "new_server now e conf = Inr s"
  shows "tcp_open s = 0" "tcp_per_client s = []" "sconf s = conf"
    "client_limiter s = new_rate_limiter (rate_limit conf) (rate_burst conf) now"
  using assms by (auto simp: new_server_def rbind_Inr_iff)

text \<open>C5: however datagrams, connections, queries and the work on them interleave, the slot counters are
  exactly the open connections, in all and of each client, and never above the ceilings; and every
  datagram queued, connection held and reply sent belongs to a client of the allowed networks.\<close>

theorem listener_invariant:
  assumes "new_server t0 e conf = Inr s0" and "running t0 s0 w"
  shows "tcp_open (serv w) = int (length (conns w))
    \<and> tcp_open (serv w) \<le> max 0 (tcp_max_connections conf)
    \<and> (\<forall>c. dget (tcp_per_client (serv w)) c = (if held_by c (conns w) = 0 then None else Some (int (held_by c (conns w))))
          \<and> int (held_by c (conns w)) \<le> max 0 (tcp_max_per_client conf))
    \<and> (\<forall>c \<in> snd ` set (queue w) \<union> fst ` set (conns w) \<union> fst ` set (replies w). permitted (admitted_nets s0) c)"
  using inv_running [OF assms(2) new_server_fields(1,2) [OF assms(1)]] new_server_fields(3) [OF assms(1)]
  by (auto simp: listening_inv_def counted_def within_limits_def)

definition tiny_server_config :: dns_server_config where
  "tiny_server_config = \<lparr>allowed_networks = [''0.0.0.5/32''], rate_limit = 1, rate_burst = 2,
     tcp_max_connections = 1, tcp_max_per_client = 1\<rparr>"

definition tiny_server :: server where
  "tiny_server = \<lparr>filter_engine = plain_engine, sconf = tiny_server_config, tcp_open = 0, tcp_per_client = [],
     client_limiter = new_rate_limiter 1 2 0, admitted_nets = [\<lparr>net_base = V4 5, prefixlen = 32\<rparr>], refused = 0,
     rate_limited = 0, tcp_rejected = 0\<rparr>"

lemma tiny_server_new: "new_server 0 plain_engine tiny_server_config = Inr tiny_server"
proof -
  have "ip_network ''0.0.0.5/32'' = Some \<lparr>net_base = V4 5, prefixlen = 32\<rparr>" by code_simp
  then show ?thesis by (simp add: new_server_def tiny_server_config_def tiny_server_def)
qed

lemma tiny_permitted: "permitted [\<lparr>net_base = V4 5, prefixlen = 32\<rparr>] ''0.0.0.5''"
  by code_simp

lemma clocks [simp]:
  "clock (serve_udp now p c w) = now" "clock (work_udp v p c w) = clock w"
  "clock (serve_tcp now c stream w) = now"
proof -
  show "clock (serve_udp now p c w) = now" by (simp add: serve_udp_def Let_def)
  show "clock (work_udp v p c w) = clock w" by (simp add: work_udp_def split: prod.split)
  show "clock (serve_tcp now c stream w) = now" by (rule serve_tcp_shape [of now c stream w]) simp
qed

abbreviation idle_state :: "time \<Rightarrow> server \<Rightarrow> listening" where
  "idle_state t s \<equiv> \<lparr>serv = s, queue = [], conns = [], replies = [], clock = t, seen = []\<rparr>"

theorem listener_invariant_witness:
  "tcp_open (serv (serve_tcp 2 ''0.0.0.5'' [] (serve_tcp 1 ''0.0.0.5'' [] (idle_state 0 tiny_server)))) \<le> 1"
proof -
  have "running 0 tiny_server (serve_tcp 2 ''0.0.0.5'' [] (serve_tcp 1 ''0.0.0.5'' [] (idle_state 0 tiny_server)))"
    by (rule running.step [OF running.step [OF running.start listens.connect] listens.connect]) simp_all
  from listener_invariant [OF tiny_server_new this] show ?thesis by (simp add: tiny_server_config_def)
qed



lemma truncation_bits:
  "(w OR 0x0200 :: u16) AND 0x0200 = 0x0200" "(w OR 0x0200 :: u16) AND 0x8000 = w AND 0x8000"
  "(w OR 0x0200 :: u16) AND 0x000F = w AND 0x000F"
  by (rule u16_eqI; auto simp: bit_simps)+


text \<open>A client without EDNS, and an answer with one question and 512 bytes of padding behind it.\<close>

definition long_answer :: bytes where
  "long_answer = [0, 7, 0x81, 0x80, 0, 1, 0, 0, 0, 0, 0, 0, 1, 97, 0, 0, 1, 0, 1] @ replicate 512 0"

lemma long_answer_parse:
  "parse_header long_answer = Inr \<lparr>msg_id = 7, flags = 0x8180, qdcount = 1, ancount = 0, nscount = 0, arcount = 0\<rparr>"
  "parse_questions long_answer = Inr ([\<lparr>qname = ''a'', qtype = 1, qclass = 1\<rparr>], 19)"
  by code_simp+


text \<open>C17: queries sent one after the other on a connection are answered in order and each as if it came
  alone, however the stream is cut into segments: the loop over the socket computes what the plain
  recursion over the list of queries computes.\<close>

theorem pipelined_queries_answered:
  assumes "\<forall>q \<in> set qs. 0 < length q \<and> length q < 65536"
    and "concat chunks = concat (map frame qs)" and "[] \<notin> set chunks"
  shows "handle_tcp vs i e chunks client = answer_all vs i e qs client"
proof -
  have "same_stream chunks (one_chunk (concat (map frame qs)))"
    using assms(2,3) by (simp add: same_stream_def one_chunk_def)
  from handle_tcp_cut [OF this] answer_all_stream [OF assms(1)] show ?thesis by simp
qed

theorem pipelined_queries_answered_witness:
  "handle_tcp (\<lambda>_. \<lparr>t_env = sample_env [], t_stopped = False, t_sent = True\<rparr>) 0 plain_engine
       [[0], [2, 7], [8, 0, 1], [9]] ''c''
     = answer_all (\<lambda>_. \<lparr>t_env = sample_env [], t_stopped = False, t_sent = True\<rparr>) 0 plain_engine
       [[7, 8], [9]] ''c''"
  by (rule pipelined_queries_answered) (simp_all add: frame_def pack_H_def)

lemma parse_questions_err: "parse_questions data = Inl x \<Longrightarrow> x = DNSFormatError"
  by (auto simp: parse_questions_def rbind_Inl_iff dest: parse_header_err questions_loop_err)

lemma build_error_err:
  assumes "build_error_response query rc = Inl x"
  shows "x = DNSFormatError" "\<not> ok (parse_questions query)"
proof -
  show "\<not> ok (parse_questions query)" using assms build_error_ok [of query rc] by auto
  show "x = DNSFormatError" using assms
    by (auto simp: build_error_response_def response_skeleton_def rbind_Inl_iff Let_def
        dest: parse_header_err parse_questions_err split: option.splits)
qed

text \<open>one bad query cannot stop the server or leave its sender waiting without reason: whatever exception
  the engine raises, the worker raises none, and a sender whose question can be read gets SERVFAIL
  with its own ID and question.\<close>

theorem failures_become_servfail:
  assumes "handle v e payload client = (e', Inl x)"
  shows "(\<exists>h qs qend w. parse_header payload = Inr h \<and> parse_questions payload = Inr (qs, qend)
            \<and> engine_answer v e payload client = (e', Inr (Some w))
            \<and> answers_query h qend payload RCODE_SERVFAIL w)
       \<or> (\<not> ok (parse_questions payload) \<and> engine_answer v e payload client = (e', Inr None))"
proof (cases "build_error_response payload RCODE_SERVFAIL")
  case (Inl y)
  with build_error_err [OF Inl] assms show ?thesis by (simp add: engine_answer_def)
next
  case (Inr w)
  have "RCODE_SERVFAIL AND 0x000F = RCODE_SERVFAIL" by (simp add: RCODE_SERVFAIL_def)
  from error_answers [OF Inr this] assms Inr show ?thesis by (auto simp: engine_answer_def)
qed

theorem failures_become_servfail_witness:
  "engine_answer (sample_env []) plain_engine [0, 1, 1, 0, 0, 1, 0, 0, 0, 0, 0, 0, 0xC0] ''c'' = (plain_engine, Inr None)"
proof -
  let ?q = "[0, 1, 1, 0, 0, 1, 0, 0, 0, 0, 0, 0, 0xC0] :: bytes"
  have h: "parse_header ?q = Inr \<lparr>msg_id = 1, flags = 0x0100, qdcount = 1, ancount = 0, nscount = 0, arcount = 0\<rparr>"
    and q: "parse_questions ?q = Inl DNSFormatError" by code_simp+
  have f: "\<not> is_response \<lparr>msg_id = 1, flags = 0x0100, qdcount = 1, ancount = 0, nscount = 0, arcount = 0\<rparr>"
    "opcode \<lparr>msg_id = 1, flags = 0x0100, qdcount = 1, ancount = 0, nscount = 0, arcount = 0\<rparr> = 0" by code_simp+
  have "handle (sample_env []) plain_engine ?q ''c'' = (plain_engine, Inl DNSFormatError)"
    by (simp only: handle_def h f sum.case if_False simp_thms first_question_def q rbind.simps
        build_error_response_def response_skeleton_def refl if_True)
  from failures_become_servfail [OF this] q show ?thesis by simp
qed

text \<open>The queries of a TCP connection after it was admitted cost nothing.\<close>

lemma tcp_queries_unmetered: "client_limiter (serv (work_tcp v i w)) = client_limiter (serv w)"
  by (simp add: work_tcp_def Let_def split: prod.split option.split)

text \<open>
  \<open>stop\<close> clears the slot counters while connections may still be served, so after a restart their
  releases take away slots that new connections hold.
\<close>

definition stop_counters :: "server \<Rightarrow> server" where
  "stop_counters s = s\<lparr>tcp_open := 0, tcp_per_client := []\<rparr>"

lemma restart_forgets_connections:
  assumes "counted s [(c, x)]" and "0 < tcp_max_connections (sconf s)" and "0 < tcp_max_per_client (sconf s)"
  shows "tcp_open (release_tcp_slot c (fst (claim_tcp_slot c (stop_counters s)))) = 0
    \<and> snd (claim_tcp_slot c (stop_counters s))"
  using assms by (simp add: stop_counters_def claim_tcp_slot_def release_tcp_slot_def)

end
