(* ===== verification/TimeServer.thy ===== *)
theory TimeServer
  imports RateLimit
begin

unbundle bit_operations_syntax

text \<open>
  The SNTP server, \<open>symbivpn/gateway/timeserver.py\<close>: NTP timestamps, the reply to a request, and one
  round of the serving thread with its rate limit.  Clock readings are arguments; the thread reads the
  wall clock up to three times while it answers one packet.
\<close>

section \<open>Timestamps\<close>

definition NTP_EPOCH_OFFSET :: int where "NTP_EPOCH_OFFSET = 2208988800"
definition PACKET_SIZE :: nat where "PACKET_SIZE = 48"
definition MODE_CLIENT :: byte where "MODE_CLIENT = 3"
definition MODE_SERVER :: byte where "MODE_SERVER = 4"
definition MINIMUM_PLAUSIBLE_TIME :: time where "MINIMUM_PLAUSIBLE_TIME = 1735689600"
definition NTP_RATE :: rat where "NTP_RATE = 10"
definition NTP_BURST :: rat where "NTP_BURST = 40"

lemmas ntp_consts = NTP_EPOCH_OFFSET_def PACKET_SIZE_def MODE_CLIENT_def MODE_SERVER_def
  MINIMUM_PLAUSIBLE_TIME_def NTP_RATE_def NTP_BURST_def

text \<open>Masking a Python integer with \<open>0xFFFFFFFF\<close> is taking it modulo \<open>2 ^ 32\<close>.\<close>

definition to_ntp_timestamp :: "time \<Rightarrow> bytes" where
  "to_ntp_timestamp unix_time =
     (let seconds = py_int unix_time + NTP_EPOCH_OFFSET;
          fraction = py_int ((unix_time - of_int (py_int unix_time)) * 2 ^ 32)
      in pack_I (word_of_int seconds) @ pack_I (word_of_int fraction))"

definition from_ntp_timestamp :: "bytes \<Rightarrow> time res" where
  "from_ntp_timestamp raw =
     (if length raw < 8 then Inl StructError
      else let seconds = uint (unpack_I raw 0); fraction = uint (unpack_I raw 4)
           in Inr (if seconds = 0 \<and> fraction = 0 then 0
                   else of_int (seconds - NTP_EPOCH_OFFSET) + of_int fraction / 2 ^ 32))"

section \<open>The server\<close>

record time_server =
  stratum :: int
  reference :: bytes
  served :: nat
  ts_refused :: nat
  ts_rate_limited :: nat
  ts_limiter :: rate_limiter

definition pad_right :: "nat \<Rightarrow> bytes \<Rightarrow> bytes" where
  "pad_right n bs = bs @ replicate (n - length bs) 0"

definition new_time_server :: "time \<Rightarrow> int \<Rightarrow> bytes \<Rightarrow> time_server" where
  "new_time_server now strat ref =
     \<lparr>stratum = strat, reference = pad_right 4 (take 4 ref), served = 0, ts_refused = 0, ts_rate_limited = 0,
      ts_limiter = new_rate_limiter NTP_RATE NTP_BURST now\<rparr>"

definition clock_is_plausible :: "time \<Rightarrow> bool" where
  "clock_is_plausible now = (MINIMUM_PLAUSIBLE_TIME < now)"

text \<open>Storing an integer into a \<open>bytearray\<close> raises unless it is a byte.\<close>

definition byte_of :: "int \<Rightarrow> byte res" where
  "byte_of n = (if 0 \<le> n \<and> n < 256 then Inr (word_of_int n) else Inl ValueError)"

text \<open>
  \<open>checked\<close> is the clock as the plausibility check reads it, \<open>sent\<close> as the transmit timestamp does.  The
  packet is written field by field: leap indicator, version and mode, stratum, poll, precision, root
  delay and dispersion, reference, and the four timestamps.
\<close>

definition build_ntp_reply :: "time_server \<Rightarrow> bytes \<Rightarrow> time \<Rightarrow> time \<Rightarrow> time \<Rightarrow> bytes option res" where
  "build_ntp_reply s payload received checked sent =
     (if length payload < PACKET_SIZE then Inr None
      else
        let first = payload ! 0; version = drop_bit 3 first AND 0x07; mode = first AND 0x07
        in if mode \<noteq> MODE_CLIENT then Inr None
           else if \<not> (1 \<le> version \<and> version \<le> 4) then Inr None
           else if \<not> clock_is_plausible checked then Inr None
           else rbind (byte_of (stratum s)) (\<lambda>strat.
             Inr (Some ([push_bit 3 version OR MODE_SERVER, strat,
                         if payload ! 2 \<noteq> 0 then payload ! 2 else 6, 0xEC]
                        @ pack_I 0 @ pack_I 0x100 @ reference s
                        @ to_ntp_timestamp (received - 1) @ slice 40 48 payload
                        @ to_ntp_timestamp received @ to_ntp_timestamp sent))))"

text \<open>
  One packet of \<open>_serve\<close>; \<open>sends\<close> tells whether \<open>sendto\<close> succeeds.  The result is the reply that went
  out.
\<close>

record instant =
  monotonic :: time
  received :: time
  checked :: time
  transmitted :: time
  sends :: bool

definition serve_time :: "instant \<Rightarrow> bytes \<Rightarrow> str \<Rightarrow> time_server \<Rightarrow> time_server \<times> bytes option" where
  "serve_time t payload client s =
     (let (l, okay) = allow (monotonic t) client (ts_limiter s); s = s\<lparr>ts_limiter := l\<rparr> in
      if \<not> okay then (s\<lparr>ts_rate_limited := ts_rate_limited s + 1\<rparr>, None)
      else case build_ntp_reply s payload (received t) (checked t) (transmitted t) of
        Inl _ \<Rightarrow> (s\<lparr>ts_refused := ts_refused s + 1\<rparr>, None)
      | Inr None \<Rightarrow> (s\<lparr>ts_refused := ts_refused s + 1\<rparr>, None)
      | Inr (Some reply) \<Rightarrow> if sends t then (s\<lparr>served := served s + 1\<rparr>, Some reply) else (s, None))"

text \<open>A run of the thread: what arrives with the clocks of its moment, and the replies sent, each with
  its destination.\<close>

fun serve_times :: "(instant \<times> bytes \<times> str) list \<Rightarrow> time_server \<Rightarrow> time_server \<times> (str \<times> bytes) list" where
  "serve_times [] s = (s, [])"
| "serve_times ((t, payload, client) # ps) s =
     (let (s, r) = serve_time t payload client s; (s, rs) = serve_times ps s
      in (s, (case r of None \<Rightarrow> rs | Some reply \<Rightarrow> (client, reply) # rs)))"

section \<open>Facts\<close>

lemma length_timestamp [simp]: "length (to_ntp_timestamp t) = 8"
  by (simp add: to_ntp_timestamp_def Let_def)

lemma byte_bits_eqI:
  assumes "\<And>n. n \<in> {0, 1, 2, 3, 4, 5, 6, 7} \<Longrightarrow> bit a n = bit b n"
  shows "(a :: byte) = b"
proof (rule bit_word_eqI)
  fix n assume "n < LENGTH(8)"
  then have "n \<in> {0, 1, 2, 3, 4, 5, 6, 7}" by (simp only: insert_iff empty_iff len_of_numeral_defs) auto
  then show "bit a n = bit b n" by (rule assms)
qed

lemma version_bits:
  "drop_bit 3 (push_bit 3 (drop_bit 3 (b :: byte) AND 0x07) OR 4) AND 0x07 = drop_bit 3 b AND 0x07"
  "(push_bit 3 (drop_bit 3 (b :: byte) AND 0x07) OR 4) AND 0x07 = 4"
  by (rule byte_bits_eqI; auto simp: bit_simps)+

interpretation ntp_bucket: token_bucket allow balance "limiter_ok NTP_RATE NTP_BURST" NTP_RATE NTP_BURST
  by (rule bucket_contract) (simp_all add: ntp_consts)

lemma serve_time_limiter: "ts_limiter (fst (serve_time t p c s)) = fst (allow (monotonic t) c (ts_limiter s))"
  by (simp add: serve_time_def case_prod_beta Let_def split: sum.split option.split)

lemma serve_time_reply: "snd (serve_time t p c s) \<noteq> None \<Longrightarrow> snd (allow (monotonic t) c (ts_limiter s))"
  by (simp add: serve_time_def case_prod_beta Let_def split: if_splits)

definition arrivals :: "(instant \<times> bytes \<times> str) list \<Rightarrow> (time \<times> str) list" where
  "arrivals ps = map (\<lambda>(t, _, c). (monotonic t, c)) ps"

lemma replies_let_through:
  "length (filter (\<lambda>(c', _). c' = c) (snd (serve_times ps s)))
     \<le> let_through c (arrivals ps) (snd (requests allow (arrivals ps) (ts_limiter s)))"
proof (induction ps arbitrary: s)
  case (Cons p ps)
  obtain t payload client where p: "p = (t, payload, client)" by (cases p)
  obtain s' r where sv: "serve_time t payload client s = (s', r)" by (cases "serve_time t payload client s")
  obtain l b where a: "allow (monotonic t) client (ts_limiter s) = (l, b)"
    by (cases "allow (monotonic t) client (ts_limiter s)")
  have l: "ts_limiter s' = l" using serve_time_limiter [of t payload client s] by (simp add: sv a)
  have b: "b" if "r \<noteq> None" using serve_time_reply [of t payload client s] that by (simp add: sv a)
  show ?case using Cons.IH [of s'] b
    by (cases r) (auto simp: p sv a l arrivals_def case_prod_unfold Let_def)
qed (simp add: arrivals_def)

section \<open>Properties\<close>

lemma uint_small_int: "0 \<le> x \<Longrightarrow> x < 2 ^ 32 \<Longrightarrow> uint (word_of_int x :: u32) = x"
  by (simp add: uint_word_of_int)

text \<open>a timestamp written and read back loses less than one part in \<open>2 ^ 32\<close> of a second, for every
  time of the first NTP era, which ends in February 2036.\<close>

theorem timestamp_round_trip:
  assumes "0 \<le> t" and "t < 2 ^ 32 - 2208988800"
  shows "\<exists>r. from_ntp_timestamp (to_ntp_timestamp t) = Inr r \<and> r \<le> t \<and> t < r + 1 / 2 ^ 32"
proof -
  let ?s = "\<lfloor>t\<rfloor>"
  define F where "F = \<lfloor>(t - of_int ?s) * 2 ^ 32\<rfloor>"
  have fr: "0 \<le> t - of_int ?s" "t - of_int ?s < 1" by linarith+
  then have pos: "0 \<le> (t - of_int ?s) * 2 ^ 32" and lt: "(t - of_int ?s) * 2 ^ 32 < 2 ^ 32" by simp_all
  have s: "0 \<le> ?s" "?s + 2208988800 < 2 ^ 32"
    using assms floor_less_iff [of t "2 ^ 32 - 2208988800"] by (simp_all add: algebra_simps)
  have f: "0 \<le> F" "F < 2 ^ 32" using pos lt by (simp_all add: F_def floor_less_iff)
  have pi: "py_int t = ?s" "py_int ((t - of_int (py_int t)) * 2 ^ 32) = F"
    using assms(1) pos by (simp_all add: py_int_def F_def)
  define S where "S = ?s + 2208988800"
  have u: "uint (word_of_int S :: u32) = S" "uint (word_of_int F :: u32) = F"
    by (rule uint_small_int; use s f in \<open>simp add: S_def\<close>)+
  let ?r = "of_int ?s + of_int F / 2 ^ 32 :: rat"
  have ts: "to_ntp_timestamp t = pack_I (word_of_int S) @ pack_I (word_of_int F)"
    using pi by (simp only: to_ntp_timestamp_def NTP_EPOCH_OFFSET_def Let_def S_def)
  have un: "unpack_I (to_ntp_timestamp t) 0 = word_of_int S"
      "unpack_I (to_ntp_timestamp t) 4 = word_of_int F"
    using unpack_pack_I [of 0 "[]" "word_of_int S" "pack_I (word_of_int F)"]
      unpack_pack_I [of 4 "pack_I (word_of_int S)" "word_of_int F" "[]"]
    by (simp_all add: ts)
  have "S \<noteq> 0" "S - 2208988800 = ?s" using s(1) unfolding S_def by linarith+
  then have rd: "from_ntp_timestamp (to_ntp_timestamp t) = Inr ?r"
    by (simp only: from_ntp_timestamp_def un u NTP_EPOCH_OFFSET_def length_timestamp Let_def) simp
  have "of_int F \<le> (t - of_int ?s) * 2 ^ 32" "(t - of_int ?s) * 2 ^ 32 < of_int F + 1"
    unfolding F_def by linarith+
  then have "?r \<le> t" "t < ?r + 1 / 2 ^ 32" by (simp_all add: field_simps)
  with rd show ?thesis by blast
qed

theorem timestamp_round_trip_witness:
  "\<exists>r. from_ntp_timestamp (to_ntp_timestamp (1735689600 + 1 / 3)) = Inr r \<and> r \<le> 1735689600 + 1 / 3
     \<and> 1735689600 + 1 / 3 < r + 1 / 2 ^ 32"
  by (rule timestamp_round_trip) simp_all

text \<open>what is answered, and with what: exactly the client requests of a known version, while the clock
  is plausible.  The reply is as long as the request must be, in server mode and the client's version,
  with the client's transmit time as its origin and the arrival as its receive time.\<close>

theorem reply_answers_request:
  assumes "0 \<le> stratum s" and "stratum s < 256" and "length (reference s) = 4"
  shows "build_ntp_reply s payload rcv chk snt =
      Inr (if 48 \<le> length payload \<and> payload ! 0 AND 0x07 = 3
              \<and> 1 \<le> drop_bit 3 (payload ! 0) AND 0x07 \<and> drop_bit 3 (payload ! 0) AND 0x07 \<le> 4
              \<and> clock_is_plausible chk
           then Some ([push_bit 3 (drop_bit 3 (payload ! 0) AND 0x07) OR 4, word_of_int (stratum s),
                       if payload ! 2 \<noteq> 0 then payload ! 2 else 6, 0xEC] @ pack_I 0 @ pack_I 0x100 @ reference s
                      @ to_ntp_timestamp (rcv - 1) @ slice 40 48 payload @ to_ntp_timestamp rcv @ to_ntp_timestamp snt)
           else None)"
  using assms by (auto simp: build_ntp_reply_def ntp_consts byte_of_def Let_def)

lemma reply_shape:
  assumes "build_ntp_reply s payload rcv chk snt = Inr (Some reply)" and "length (reference s) = 4"
  shows "48 \<le> length payload" "length reply = 48" "reply ! 0 AND 0x07 = 4"
    "drop_bit 3 (reply ! 0) AND 0x07 = drop_bit 3 (payload ! 0) AND 0x07"
    "slice 24 32 reply = slice 40 48 payload" "slice 32 40 reply = to_ntp_timestamp rcv"
    "payload ! 0 AND 0x07 = 3" "clock_is_plausible chk"
proof -
  obtain st where reply: "reply = [push_bit 3 (drop_bit 3 (payload ! 0) AND 0x07) OR 4, st,
        if payload ! 2 \<noteq> 0 then payload ! 2 else 6, 0xEC] @ pack_I 0 @ pack_I 0x100 @ reference s
        @ to_ntp_timestamp (rcv - 1) @ slice 40 48 payload @ to_ntp_timestamp rcv @ to_ntp_timestamp snt"
      (is "_ = ?head @ ?delay @ ?disp @ _ @ ?t1 @ ?o @ ?t2 @ ?t3")
    and len: "48 \<le> length payload" and mode: "payload ! 0 AND 0x07 = 3" and pl: "clock_is_plausible chk"
    using assms(1) by (auto simp: build_ntp_reply_def ntp_consts Let_def res_simps split: if_splits)
  have o: "length ?o = 8" using len by (simp add: length_slice)
  show "48 \<le> length payload" "payload ! 0 AND 0x07 = 3" "clock_is_plausible chk" by (rule len mode pl)+
  show "length reply = 48" using assms(2) o by (simp add: reply)
  show "reply ! 0 AND 0x07 = 4" "drop_bit 3 (reply ! 0) AND 0x07 = drop_bit 3 (payload ! 0) AND 0x07"
    unfolding reply append_Cons nth_Cons_0 by (rule version_bits)+
  have "slice 24 32 ((?head @ ?delay @ ?disp @ reference s @ ?t1) @ ?o @ (?t2 @ ?t3)) = ?o"
    using assms(2) o by (intro slice_append_mid) simp_all
  then show "slice 24 32 reply = ?o" by (simp add: reply)
  have "slice 32 40 ((?head @ ?delay @ ?disp @ reference s @ ?t1 @ ?o) @ ?t2 @ ?t3) = ?t2"
    using assms(2) o by (intro slice_append_mid) simp_all
  then show "slice 32 40 reply = ?t2" by (simp add: reply)
qed

text \<open>a reply is never answered and never longer than its request: two of these servers cannot be set
  on each other, and a forged sender gets no more bytes than were spent in its name.  The client finds
  its own transmit time in the reply.\<close>

theorem replies_end_there:
  assumes "build_ntp_reply s payload rcv chk snt = Inr (Some reply)" and "length (reference s) = 4"
  shows "build_ntp_reply s' reply rcv' chk' snt' = Inr None \<and> length reply \<le> length payload
    \<and> slice 24 32 reply = slice 40 48 payload"
  using reply_shape [OF assms] by (simp add: build_ntp_reply_def ntp_consts Let_def)

definition sample_request :: bytes where "sample_request = 0x23 # replicate 47 9"

definition sample_time_server :: time_server where
  "sample_time_server = new_time_server 0 3 [76, 79, 67, 76]"

lemma sample_request_facts:
  "length sample_request = 48" "sample_request ! 0 AND 0x07 = 3" "drop_bit 3 (sample_request ! 0) AND 0x07 = 4"
  by code_simp+

theorem reply_answers_request_witness:
  "\<exists>reply. build_ntp_reply sample_time_server sample_request 1800000000 1800000000 1800000001 = Inr (Some reply)"
  using reply_answers_request [of sample_time_server sample_request 1800000000 1800000000 1800000001]
    sample_request_facts
  by (simp add: sample_time_server_def new_time_server_def pad_right_def clock_is_plausible_def ntp_consts)

theorem replies_end_there_witness:
  "\<exists>reply. build_ntp_reply sample_time_server sample_request 1800000000 1800000000 1800000001 = Inr (Some reply)
     \<and> build_ntp_reply sample_time_server reply 1800000002 1800000002 1800000002 = Inr None"
proof -
  obtain reply where r: "build_ntp_reply sample_time_server sample_request 1800000000 1800000000 1800000001 = Inr (Some reply)"
    using sample_request_facts
    by (auto simp: build_ntp_reply_def Let_def clock_is_plausible_def ntp_consts byte_of_def sample_time_server_def
        new_time_server_def)
  have "length (reference sample_time_server) = 4" by (simp add: sample_time_server_def new_time_server_def pad_right_def)
  from replies_end_there [OF r this] r show ?thesis by blast
qed

text \<open>while the thread runs, an address gets at most forty replies and ten more for every second, whatever
  is asked in its name.\<close>

theorem time_replies_bounded:
  assumes "in_order t0 (arrivals ps)"
  shows "of_nat (length (filter (\<lambda>(c', _). c' = c) (snd (serve_times ps (new_time_server t0 strat ref)))))
    \<le> 40 + 10 * (end_time t0 (arrivals ps) - t0)"
proof -
  let ?l = "new_rate_limiter NTP_RATE NTP_BURST t0"
  have "of_nat (length (filter (\<lambda>(c', _). c' = c) (snd (serve_times ps (new_time_server t0 strat ref)))))
      \<le> (of_nat (let_through c (arrivals ps) (snd (requests allow (arrivals ps) ?l))) :: rat)"
    using replies_let_through [of c ps "new_time_server t0 strat ref"] by (simp add: new_time_server_def)
  also have "\<dots> \<le> balance t0 c ?l + NTP_RATE * (end_time t0 (arrivals ps) - t0)"
    by (rule ntp_bucket.let_through_bound [OF new_rate_limiter_ok assms])
  finally show ?thesis by (simp add: new_balance ntp_consts)
qed

theorem time_replies_bounded_witness:
  "of_nat (length (filter (\<lambda>(c', _). c' = ''a'') (snd (serve_times
      [(\<lparr>monotonic = 1, received = 1800000000, checked = 1800000000, transmitted = 1800000000, sends = True\<rparr>,
        sample_request, ''a'')] sample_time_server)))) \<le> (40 + 10 * (1 - 0) :: rat)"
  using time_replies_bounded [of 0 "[(\<lparr>monotonic = 1, received = 1800000000, checked = 1800000000,
      transmitted = 1800000000, sends = True\<rparr>, sample_request, ''a'')]" "''a''" 3 "[76, 79, 67, 76]"]
  by (simp add: arrivals_def sample_time_server_def)

end
