(* ===== verification/Reflector.thy ===== *)
theory Reflector
  imports RateLimit
begin

text \<open>
  The multicast reflector, \<open>symbivpn/gateway/reflector.py\<close>: which packets it copies to which networks,
  and the memory of digests that keeps a reflection from being reflected again.  The digest function
  (of a group's encoded name and a payload) and the outcome of each \<open>sendto\<close> are parameters.
\<close>

section \<open>State\<close>

record multicast_group =
  mg_name :: str
  mg_address :: str
  mg_port :: nat
  mg_ttl :: nat
  mg_why :: str

definition MDNS :: multicast_group where
  "MDNS = \<lparr>mg_name = ''mDNS'', mg_address = ''224.0.0.251'', mg_port = 5353, mg_ttl = 255,
     mg_why = ''Chromecast, AirPlay, AirPrint, Spotify Connect, HomeKit, most network printers''\<rparr>"

definition SSDP :: multicast_group where
  "SSDP = \<lparr>mg_name = ''SSDP'', mg_address = ''239.255.255.250'', mg_port = 1900, mg_ttl = 4,
     mg_why = ''DLNA, Roku, smart TVs, UPnP media servers''\<rparr>"

definition DEFAULT_GROUPS :: "multicast_group list" where "DEFAULT_GROUPS = [MDNS, SSDP]"

definition DEDUPE_SECONDS :: time where "DEDUPE_SECONDS = 2"
definition MAX_REMEMBERED :: nat where "MAX_REMEMBERED = 4096"
definition REFLECT_RATE :: rat where "REFLECT_RATE = 50"
definition REFLECT_BURST :: rat where "REFLECT_BURST = 200"

record reflector_stats =
  rs_received :: nat
  rs_reflected :: nat
  rs_self_originated :: nat
  rs_duplicates :: nat
  rs_rate_limited :: nat
  rs_errors :: nat
  rs_by_group :: "(str, nat) dict"

record reflector =
  rf_interfaces :: "str list"
  own_addresses :: "str list"
  rf_sockets :: "(str \<times> str) list"
  digests :: "(bytes, time) dict"
  rf_limiter :: rate_limiter
  rf_stats :: reflector_stats

definition zero_reflector_stats :: reflector_stats where
  "zero_reflector_stats = \<lparr>rs_received = 0, rs_reflected = 0, rs_self_originated = 0, rs_duplicates = 0,
     rs_rate_limited = 0, rs_errors = 0, rs_by_group = []\<rparr>"

text \<open>The interfaces without repetitions, in order of first appearance.\<close>

definition new_reflector :: "time \<Rightarrow> str list \<Rightarrow> str list \<Rightarrow> reflector" where
  "new_reflector now interfaces own =
     \<lparr>rf_interfaces = rev (remdups (rev interfaces)), own_addresses = own, rf_sockets = [], digests = [],
      rf_limiter = new_rate_limiter REFLECT_RATE REFLECT_BURST now, rf_stats = zero_reflector_stats\<rparr>"

text \<open>\<open>start\<close>, where \<open>opens\<close> tells which sockets can be opened.\<close>

definition start_reflector ::
  "multicast_group list \<Rightarrow> (multicast_group \<Rightarrow> str \<Rightarrow> bool) \<Rightarrow> reflector \<Rightarrow> reflector" where
  "start_reflector groups opens r =
     (if length (rf_interfaces r) < 2 then r
      else r\<lparr>rf_sockets := fold (\<lambda>k ks. if k \<in> set ks then ks else ks @ [k])
               (concat (map (\<lambda>g. map (\<lambda>i. (mg_name g, i)) (filter (opens g) (rf_interfaces r))) groups))
               (rf_sockets r)\<rparr>)"

section \<open>Digests\<close>

text \<open>The clean-up once there are too many: first by age, then the newest half.\<close>

definition trim_digests :: "time \<Rightarrow> (bytes, time) dict \<Rightarrow> (bytes, time) dict" where
  "trim_digests now seen =
     (if MAX_REMEMBERED < length seen then
        let seen = filter (\<lambda>(_, t). now - DEDUPE_SECONDS < t) seen
        in if MAX_REMEMBERED < length seen then
             let newest = sort_key snd seen
             in drop (length newest - MAX_REMEMBERED div 2) newest
           else seen
      else seen)"

definition already_seen ::
  "(str \<Rightarrow> bytes \<Rightarrow> bytes) \<Rightarrow> time \<Rightarrow> str \<Rightarrow> bytes \<Rightarrow> (bytes, time) dict \<Rightarrow> (bytes, time) dict \<times> bool" where
  "already_seen digest now group_name payload seen =
     (let d = digest group_name payload in
      case dget seen d of
        Some previous \<Rightarrow>
          if now - previous < DEDUPE_SECONDS then (seen, True)
          else (trim_digests now (dset d now seen), False)
      | None \<Rightarrow> (trim_digests now (dset d now seen), False))"

section \<open>Reflection\<close>

text \<open>The loop over the other interfaces: the statistics and the interfaces the packet went out on.\<close>

fun send_each ::
  "(str \<Rightarrow> bool) \<Rightarrow> str \<Rightarrow> str \<Rightarrow> (str \<times> str) list \<Rightarrow> str list \<Rightarrow> reflector_stats \<Rightarrow> reflector_stats \<times> str list" where
  "send_each sends gname source socks [] st = (st, [])"
| "send_each sends gname source socks (i # is) st =
     (if i = source then send_each sends gname source socks is st
      else if (gname, i) \<notin> set socks then send_each sends gname source socks is st
      else if sends i then
        (let n = (case dget (rs_by_group st) gname of None \<Rightarrow> 0 | Some n \<Rightarrow> n);
             (st, out) = send_each sends gname source socks is
               (st\<lparr>rs_reflected := rs_reflected st + 1, rs_by_group := dset gname (n + 1) (rs_by_group st)\<rparr>)
         in (st, i # out))
      else send_each sends gname source socks is (st\<lparr>rs_errors := rs_errors st + 1\<rparr>))"

record packet =
  pk_group :: str
  pk_interface :: str
  pk_payload :: bytes
  pk_sender :: str
  pk_at :: time
  pk_sends :: "str \<Rightarrow> bool"

definition reflect :: "(str \<Rightarrow> bytes \<Rightarrow> bytes) \<Rightarrow> packet \<Rightarrow> reflector \<Rightarrow> reflector \<times> str list" where
  "reflect digest p r =
     (let st = (rf_stats r)\<lparr>rs_received := rs_received (rf_stats r) + 1\<rparr>; r = r\<lparr>rf_stats := st\<rparr> in
      if pk_sender p \<in> set (own_addresses r) then
        (r\<lparr>rf_stats := st\<lparr>rs_self_originated := rs_self_originated st + 1\<rparr>\<rparr>, [])
      else if pk_payload p = [] then (r, [])
      else
        let (l, okay) = allow (pk_at p) (pk_sender p) (rf_limiter r); r = r\<lparr>rf_limiter := l\<rparr> in
        if \<not> okay then (r\<lparr>rf_stats := st\<lparr>rs_rate_limited := rs_rate_limited st + 1\<rparr>\<rparr>, [])
        else
          let (ds, dup) = already_seen digest (pk_at p) (pk_group p) (pk_payload p) (digests r);
              r = r\<lparr>digests := ds\<rparr>
          in if dup then (r\<lparr>rf_stats := st\<lparr>rs_duplicates := rs_duplicates st + 1\<rparr>\<rparr>, [])
             else let (st, out) = send_each (pk_sends p) (pk_group p) (pk_interface p) (rf_sockets r)
                                    (rf_interfaces r) st
                  in (r\<lparr>rf_stats := st\<rparr>, out))"

text \<open>A run: the packets in the order they are taken up, and for each the networks it went out on.\<close>

fun reflect_all :: "(str \<Rightarrow> bytes \<Rightarrow> bytes) \<Rightarrow> packet list \<Rightarrow> reflector \<Rightarrow> reflector \<times> str list list" where
  "reflect_all digest [] r = (r, [])"
| "reflect_all digest (p # ps) r =
     (let (r, out) = reflect digest p r; (r, outs) = reflect_all digest ps r in (r, out # outs))"

section \<open>Where a packet goes\<close>

lemma send_each_targets:
  assumes "send_each sends g src socks nets st = (st', out)"
  shows "out = filter (\<lambda>i. i \<noteq> src \<and> (g, i) \<in> set socks \<and> sends i) nets"
  using assms
  by (induction nets arbitrary: st st' out) (auto simp: Let_def split: if_splits prod.splits)

lemma reflect_cases:
  obtains (silent) "snd (reflect digest p r) = []" "digests (fst (reflect digest p r)) = digests r"
  | (seen) ds where "already_seen digest (pk_at p) (pk_group p) (pk_payload p) (digests r) = (ds, True)"
      "snd (reflect digest p r) = []" "digests (fst (reflect digest p r)) = ds"
  | (fresh) ds where "already_seen digest (pk_at p) (pk_group p) (pk_payload p) (digests r) = (ds, False)"
      "pk_sender p \<notin> set (own_addresses r)" "pk_payload p \<noteq> []"
      "snd (allow (pk_at p) (pk_sender p) (rf_limiter r))"
      "snd (reflect digest p r) = filter (\<lambda>i. i \<noteq> pk_interface p \<and> (pk_group p, i) \<in> set (rf_sockets r) \<and> pk_sends p i)
         (rf_interfaces r)"
      "digests (fst (reflect digest p r)) = ds"
proof -
  obtain l okay where a: "allow (pk_at p) (pk_sender p) (rf_limiter r) = (l, okay)"
    by (cases "allow (pk_at p) (pk_sender p) (rf_limiter r)")
  obtain ds dup where s: "already_seen digest (pk_at p) (pk_group p) (pk_payload p) (digests r) = (ds, dup)"
    by (cases "already_seen digest (pk_at p) (pk_group p) (pk_payload p) (digests r)")
  show ?thesis
  proof (cases "pk_sender p \<in> set (own_addresses r) \<or> pk_payload p = [] \<or> \<not> okay")
    case True
    then show ?thesis by (intro silent) (auto simp: reflect_def Let_def a)
  next
    case False
    show ?thesis
    proof (cases dup)
      case True
      with False show ?thesis by (intro seen [of ds]) (simp_all add: reflect_def Let_def a s)
    next
      case f: False
      let ?st = "(rf_stats r)\<lparr>rs_received := Suc (rs_received (rf_stats r))\<rparr>"
      obtain st out where e: "send_each (pk_sends p) (pk_group p) (pk_interface p) (rf_sockets r) (rf_interfaces r) ?st = (st, out)"
        by (cases "send_each (pk_sends p) (pk_group p) (pk_interface p) (rf_sockets r) (rf_interfaces r) ?st")
      show ?thesis using False f send_each_targets [OF e]
        by (intro fresh [of ds]) (simp_all add: reflect_def Let_def a s e)
    qed
  qed
qed

lemma reflect_keeps:
  "rf_interfaces (fst (reflect digest p r)) = rf_interfaces r"
  "own_addresses (fst (reflect digest p r)) = own_addresses r"
  "rf_sockets (fst (reflect digest p r)) = rf_sockets r"
  by (simp_all add: reflect_def Let_def split: prod.split)

text \<open>a packet is copied at most once to each network, never back to the one it came from, only where
  the group is served, and never when one of the gateway's own addresses sent it.\<close>

theorem reflection_leaves_by_other_networks:
  assumes "reflect digest p r = (r', out)" and "distinct (rf_interfaces r)"
  shows "distinct out \<and> pk_interface p \<notin> set out \<and> set out \<subseteq> set (rf_interfaces r)
    \<and> (\<forall>i \<in> set out. (pk_group p, i) \<in> set (rf_sockets r))
    \<and> (out \<noteq> [] \<longrightarrow> pk_sender p \<notin> set (own_addresses r) \<and> pk_payload p \<noteq> [])"
proof -
  have out: "out = snd (reflect digest p r)" by (simp add: assms(1))
  show ?thesis
    by (rule reflect_cases [of digest p r]) (use assms(2) in \<open>auto simp: out\<close>)
qed

section \<open>Memory\<close>

lemma digests_drop_ok: "dict_ok d \<Longrightarrow> dict_ok (drop n d)"
  by (simp add: dict_ok_def drop_map [symmetric])

lemma digests_trim_ok: "dict_ok d \<Longrightarrow> dict_ok (trim_digests now d)"
  by (auto simp: trim_digests_def Let_def intro!: digests_drop_ok)

lemma digests_trim_length: "length (trim_digests now d) \<le> MAX_REMEMBERED"
  by (auto simp: trim_digests_def Let_def MAX_REMEMBERED_def)

lemma already_seen_bounded:
  assumes "already_seen digest now g payload d = (d', b)" and "dict_ok d" and "length d \<le> MAX_REMEMBERED"
  shows "dict_ok d' \<and> length d' \<le> MAX_REMEMBERED"
  using assms digests_trim_ok [OF dict_ok_simps(2) [OF assms(2)]] digests_trim_length
  by (auto simp: already_seen_def Let_def split: option.splits if_splits)

definition remembers_ok :: "reflector \<Rightarrow> bool" where
  "remembers_ok r \<longleftrightarrow> dict_ok (digests r) \<and> length (digests r) \<le> MAX_REMEMBERED"

lemma remembers_reflect: "remembers_ok r \<Longrightarrow> remembers_ok (fst (reflect digest p r))"
  by (rule reflect_cases [of digest p r]) (auto simp: remembers_ok_def dest: already_seen_bounded)

text \<open>the memory of digests has one entry per digest and never more than 4096, whatever the traffic.\<close>

theorem digest_memory_bounded:
  "dict_ok (digests (fst (reflect_all digest ps (new_reflector now is own))))
    \<and> length (digests (fst (reflect_all digest ps (new_reflector now is own)))) \<le> 4096"
proof -
  have "remembers_ok (fst (reflect_all digest ps r))" if "remembers_ok r" for r
    using that
  proof (induction ps arbitrary: r)
    case (Cons p ps)
    from Cons.IH [OF remembers_reflect [OF Cons.prems]] show ?case
      by (simp add: case_prod_beta Let_def)
  qed simp
  moreover have "remembers_ok (new_reflector now is own)" by (simp add: remembers_ok_def new_reflector_def)
  ultimately show ?thesis by (simp add: remembers_ok_def MAX_REMEMBERED_def)
qed

section \<open>Loops\<close>

definition remembered_since :: "bytes \<Rightarrow> time \<Rightarrow> reflector \<Rightarrow> bool" where
  "remembered_since d t r \<longleftrightarrow> (\<exists>t'. dget (digests r) d = Some t' \<and> t \<le> t')"

lemma already_seen_grows:
  assumes "already_seen digest now g payload d = (d', b)" and "length d < MAX_REMEMBERED"
  shows "length d' \<le> Suc (length d)"
    and "dget d k = Some t \<Longrightarrow> \<exists>t'. dget d' k = Some t' \<and> t \<le> t'"
proof -
  have len: "length (dset (digest g payload) now d) \<le> MAX_REMEMBERED"
    using assms(2) by (simp add: length_dset)
  then have keep: "trim_digests now (dset (digest g payload) now d) = dset (digest g payload) now d"
    by (simp add: trim_digests_def)
  show "length d' \<le> Suc (length d)"
    using assms(1) by (auto simp: already_seen_def Let_def keep length_dset split: option.splits if_splits)
  show "\<exists>t'. dget d' k = Some t' \<and> t \<le> t'" if "dget d k = Some t"
    using assms(1) that
    by (auto simp: already_seen_def Let_def keep DEDUPE_SECONDS_def split: option.splits if_splits)
qed

lemma reflect_remembers:
  assumes "length (digests r) < MAX_REMEMBERED"
  shows "length (digests (fst (reflect digest p r))) \<le> Suc (length (digests r))"
    and "remembered_since d t r \<Longrightarrow> remembered_since d t (fst (reflect digest p r))"
proof -
  show "length (digests (fst (reflect digest p r))) \<le> Suc (length (digests r))"
    by (rule reflect_cases [of digest p r]) (auto dest: already_seen_grows(1) [OF _ assms])
  show "remembered_since d t (fst (reflect digest p r))" if "remembered_since d t r"
  proof (rule reflect_cases [of digest p r])
    assume "digests (fst (reflect digest p r)) = digests r"
    with that show ?thesis by (simp add: remembered_since_def)
  next
    fix ds assume *: "already_seen digest (pk_at p) (pk_group p) (pk_payload p) (digests r) = (ds, True)"
      "digests (fst (reflect digest p r)) = ds"
    from that already_seen_grows(2) [OF *(1) assms] *(2) show ?thesis
      by (auto simp: remembered_since_def intro: order_trans) (meson order_trans)
  next
    fix ds assume *: "already_seen digest (pk_at p) (pk_group p) (pk_payload p) (digests r) = (ds, False)"
      "digests (fst (reflect digest p r)) = ds"
    from that already_seen_grows(2) [OF *(1) assms] *(2) show ?thesis
      by (auto simp: remembered_since_def intro: order_trans) (meson order_trans)
  qed
qed

lemma dedupe:
  assumes "remembered_since (digest (pk_group p) (pk_payload p)) t r" and "pk_at p < t + DEDUPE_SECONDS"
  shows "snd (reflect digest p r) = []"
proof (rule reflect_cases [of digest p r])
  fix ds assume "already_seen digest (pk_at p) (pk_group p) (pk_payload p) (digests r) = (ds, False)"
  with assms show ?thesis by (auto simp: remembered_since_def already_seen_def Let_def split: if_splits)
qed

lemma fresh_remembered:
  assumes "snd (reflect digest p r) \<noteq> []" and "length (digests r) < MAX_REMEMBERED"
  shows "remembered_since (digest (pk_group p) (pk_payload p)) (pk_at p) (fst (reflect digest p r))"
proof (rule reflect_cases [of digest p r])
  fix ds assume *: "already_seen digest (pk_at p) (pk_group p) (pk_payload p) (digests r) = (ds, False)"
    "digests (fst (reflect digest p r)) = ds"
  have "length (dset (digest (pk_group p) (pk_payload p)) (pk_at p) (digests r)) \<le> MAX_REMEMBERED"
    using assms(2) by (simp add: length_dset)
  then have "trim_digests (pk_at p) (dset (digest (pk_group p) (pk_payload p)) (pk_at p) (digests r))
      = dset (digest (pk_group p) (pk_payload p)) (pk_at p) (digests r)" by (simp add: trim_digests_def)
  with *(1) have "ds = dset (digest (pk_group p) (pk_payload p)) (pk_at p) (digests r)"
    by (auto simp: already_seen_def Let_def split: option.splits if_splits)
  then show ?thesis by (simp add: remembered_since_def *(2))
qed (use assms(1) in auto)

lemma run_remembers:
  "length (digests r) + length ps \<le> MAX_REMEMBERED \<Longrightarrow> remembered_since d t r \<Longrightarrow>
     remembered_since d t (fst (reflect_all digest ps r))"
proof (induction ps arbitrary: r)
  case (Cons p ps)
  have "length (digests r) < MAX_REMEMBERED" using Cons.prems(1) by simp
  from reflect_remembers [OF this, where digest = digest and p = p] Cons.prems
  have "remembered_since d t (fst (reflect_all digest ps (fst (reflect digest p r))))"
    by (intro Cons.IH) auto
  then show ?case by (simp add: case_prod_beta Let_def)
qed simp

text \<open>C25: reflections do not go round.  A packet that was copied on is not copied again when it comes back
  within two seconds of the copy, on whatever network and from whatever address, as long as the packets
  taken up meanwhile do not overflow the memory of digests.\<close>

theorem reflection_does_not_return:
  assumes "reflect digest p r = (r1, out)" and "out \<noteq> []"
    and "length (digests r) + length ps < 4096"
    and "pk_group q = pk_group p" and "pk_payload q = pk_payload p" and "pk_at q < pk_at p + 2"
  shows "snd (reflect digest q (fst (reflect_all digest ps r1))) = []"
proof -
  have room: "length (digests r) < MAX_REMEMBERED" using assms(3) by (simp add: MAX_REMEMBERED_def)
  have "length (digests r1) + length ps \<le> MAX_REMEMBERED"
    using reflect_remembers(1) [OF room, of digest p] assms(1,3) by (simp add: MAX_REMEMBERED_def)
  moreover have "remembered_since (digest (pk_group p) (pk_payload p)) (pk_at p) r1"
    using fresh_remembered [OF _ room, of digest p] assms(1,2) by simp
  ultimately have "remembered_since (digest (pk_group p) (pk_payload p)) (pk_at p) (fst (reflect_all digest ps r1))"
    by (rule run_remembers)
  then show ?thesis by (intro dedupe [where t = "pk_at p"]) (simp_all add: assms(4-6) DEDUPE_SECONDS_def)
qed

definition demo_reflector :: reflector where
  "demo_reflector = start_reflector DEFAULT_GROUPS (\<lambda>_ _. True) (new_reflector 0 [''a'', ''b'', ''c''] [''10.0.0.1''])"

definition demo_packet :: "str \<Rightarrow> str \<Rightarrow> time \<Rightarrow> packet" where
  "demo_packet i c t = \<lparr>pk_group = ''mDNS'', pk_interface = i, pk_payload = [1, 2, 3], pk_sender = c, pk_at = t,
     pk_sends = \<lambda>_. True\<rparr>"

lemma demo_first:
  "snd (reflect (\<lambda>g p. p) (demo_packet ''a'' ''10.0.0.9'' 1) demo_reflector) = [''b'', ''c'']"
  "rf_interfaces demo_reflector = [''a'', ''b'', ''c'']" "digests demo_reflector = []"
  by code_simp+

theorem reflection_leaves_by_other_networks_witness:
  "''a'' \<notin> set (snd (reflect (\<lambda>g p. p) (demo_packet ''a'' ''10.0.0.9'' 1) demo_reflector))"
  using reflection_leaves_by_other_networks
      [of "\<lambda>g p. p" "demo_packet ''a'' ''10.0.0.9'' 1" demo_reflector
        "fst (reflect (\<lambda>g p. p) (demo_packet ''a'' ''10.0.0.9'' 1) demo_reflector)"
        "snd (reflect (\<lambda>g p. p) (demo_packet ''a'' ''10.0.0.9'' 1) demo_reflector)"]
    demo_first(2)
  by (simp add: demo_packet_def)

theorem reflection_does_not_return_witness:
  "snd (reflect (\<lambda>g p. p) (demo_packet ''b'' ''10.0.0.77'' 2)
     (fst (reflect_all (\<lambda>g p. p) [] (fst (reflect (\<lambda>g p. p) (demo_packet ''a'' ''10.0.0.9'' 1) demo_reflector))))) = []"
proof (rule reflection_does_not_return [OF surjective_pairing])
  show "snd (reflect (\<lambda>g p. p) (demo_packet ''a'' ''10.0.0.9'' 1) demo_reflector) \<noteq> []" by (simp add: demo_first)
qed (simp_all add: demo_first(3) demo_packet_def)

section \<open>Volume\<close>

interpretation reflect_bucket: token_bucket allow balance "limiter_ok REFLECT_RATE REFLECT_BURST"
    REFLECT_RATE REFLECT_BURST
  by (rule bucket_contract) (simp_all add: REFLECT_RATE_def REFLECT_BURST_def)

text \<open>The packets that ask the limiter, and those of a sender that were copied on.\<close>

definition offered :: "str list \<Rightarrow> packet list \<Rightarrow> (time \<times> str) list" where
  "offered own ps = map (\<lambda>p. (pk_at p, pk_sender p))
     (filter (\<lambda>p. pk_sender p \<notin> set own \<and> pk_payload p \<noteq> []) ps)"

definition copied :: "str \<Rightarrow> packet list \<Rightarrow> str list list \<Rightarrow> nat" where
  "copied c ps outs = length (filter (\<lambda>(p, out). pk_sender p = c \<and> out \<noteq> []) (zip ps outs))"

lemma reflect_limiter:
  "rf_limiter (fst (reflect digest p r)) =
     (if pk_sender p \<in> set (own_addresses r) \<or> pk_payload p = [] then rf_limiter r
      else fst (allow (pk_at p) (pk_sender p) (rf_limiter r)))"
  by (simp add: reflect_def Let_def split: prod.split)

lemma copied_let_through:
  "copied c ps (snd (reflect_all digest ps r))
     \<le> let_through c (offered (own_addresses r) ps)
         (snd (requests allow (offered (own_addresses r) ps) (rf_limiter r)))"
proof (induction ps arbitrary: r)
  case (Cons p ps)
  let ?r = "fst (reflect digest p r)"
  obtain l b where a: "allow (pk_at p) (pk_sender p) (rf_limiter r) = (l, b)"
    by (cases "allow (pk_at p) (pk_sender p) (rf_limiter r)")
  have sent: "pk_sender p \<notin> set (own_addresses r) \<and> pk_payload p \<noteq> [] \<and> b" if "snd (reflect digest p r) \<noteq> []"
    by (rule reflect_cases [of digest p r]) (use that in \<open>auto simp: a\<close>)
  have IH: "copied c ps (snd (reflect_all digest ps ?r))
     \<le> let_through c (offered (own_addresses r) ps)
         (snd (requests allow (offered (own_addresses r) ps) (rf_limiter ?r)))"
    using Cons.IH [of ?r] by (simp add: reflect_keeps)
  have here: "copied c (p # ps) (snd (reflect_all digest (p # ps) r))
      = (if pk_sender p = c \<and> snd (reflect digest p r) \<noteq> [] then 1 else 0)
        + copied c ps (snd (reflect_all digest ps ?r))"
    by (simp add: copied_def case_prod_beta Let_def)
  show ?case
  proof (cases "pk_sender p \<in> set (own_addresses r) \<or> pk_payload p = []")
    case True
    then have "offered (own_addresses r) (p # ps) = offered (own_addresses r) ps" "rf_limiter ?r = rf_limiter r"
      by (auto simp: offered_def reflect_limiter)
    with IH here sent True show ?thesis by auto
  next
    case False
    then have "offered (own_addresses r) (p # ps) = (pk_at p, pk_sender p) # offered (own_addresses r) ps"
      and "rf_limiter ?r = l" by (auto simp: offered_def reflect_limiter a)
    with IH here sent show ?thesis by (auto simp: a case_prod_beta Let_def)
  qed
qed (simp add: copied_def)

text \<open>a device is no multiplier: of the packets a sender offers, at most two hundred are copied on, and
  fifty more for every second.\<close>

theorem reflection_is_rate_bounded:
  assumes "in_order t0 (offered own ps)"
  shows "of_nat (copied c ps (snd (reflect_all digest ps (start_reflector groups opens (new_reflector t0 nets own)))))
    \<le> 200 + 50 * (end_time t0 (offered own ps) - t0)"
proof -
  let ?r = "start_reflector groups opens (new_reflector t0 nets own)"
  let ?l = "new_rate_limiter REFLECT_RATE REFLECT_BURST t0"
  have r: "own_addresses ?r = own" "rf_limiter ?r = ?l" by (simp_all add: start_reflector_def new_reflector_def)
  have "of_nat (copied c ps (snd (reflect_all digest ps ?r)))
      \<le> (of_nat (let_through c (offered own ps) (snd (requests allow (offered own ps) ?l))) :: rat)"
    using copied_let_through [of c ps digest ?r] by (simp add: r)
  also have "\<dots> \<le> balance t0 c ?l + REFLECT_RATE * (end_time t0 (offered own ps) - t0)"
    by (rule reflect_bucket.let_through_bound [OF new_rate_limiter_ok assms])
  finally show ?thesis by (simp add: new_balance REFLECT_RATE_def REFLECT_BURST_def)
qed

theorem reflection_is_rate_bounded_witness:
  "of_nat (copied ''10.0.0.9'' [demo_packet ''a'' ''10.0.0.9'' 1] (snd (reflect_all (\<lambda>g p. p)
     [demo_packet ''a'' ''10.0.0.9'' 1] demo_reflector))) \<le> (200 + 50 * (1 - 0) :: rat)"
  using reflection_is_rate_bounded [of 0 "[''10.0.0.1'']" "[demo_packet ''a'' ''10.0.0.9'' 1]" "''10.0.0.9''"
      "\<lambda>g p. p" DEFAULT_GROUPS "\<lambda>_ _. True" "[''a'', ''b'', ''c'']"]
  by (simp add: offered_def demo_packet_def demo_reflector_def end_time_def)

end
