(* ===== verification/X25519.thy ===== *)
theory X25519
  imports PyStr
begin

unbundle bit_operations_syntax

text \<open>
  The fallback key generation of \<open>symbivpn/vpn/crypto.py\<close>: the X25519 function as the code computes it,
  with conditional swaps, key generation, and the base64 form of keys.  Python integers are \<^typ>\<open>int\<close>,
  \<open>pow\<close> with a modulus is square-and-multiply, and \<open>base64\<close> is written out as the library decodes,
  skipping characters outside its alphabet.  Random bytes and the output of the \<open>wg\<close> tool are arguments.
\<close>

section \<open>Field arithmetic\<close>

definition P :: int where "P = 2 ^ 255 - 19"
definition A24 :: int where "A24 = 121665"
definition X_KEY_BYTES :: nat where "X_KEY_BYTES = 32"

lemma P_pos: "0 < P" by (simp add: P_def)

fun pow_mod :: "int \<Rightarrow> nat \<Rightarrow> int \<Rightarrow> int" where
  "pow_mod b e m =
     (if e = 0 then 1 mod m
      else let h = pow_mod (b * b mod m) (e div 2) m
           in if e mod 2 = 0 then h else b * h mod m)"

declare pow_mod.simps [simp del]

lemma pow_mod_eq: "pow_mod b e m = b ^ e mod m"
proof (induction b e m rule: pow_mod.induct)
  case (1 b e m)
  show ?case
  proof (cases "e = 0")
    case False
    have h: "pow_mod (b * b mod m) (e div 2) m = b ^ (2 * (e div 2)) mod m"
      using "1.IH" [OF False] by (simp add: power_mod power_mult power2_eq_square)
    show ?thesis
    proof (cases "e mod 2 = 0")
      case True
      then have "2 * (e div 2) = e" by presburger
      with h True False show ?thesis by (simp add: pow_mod.simps [of b e])
    next
      case odd: False
      then have e: "Suc (2 * (e div 2)) = e" by presburger
      have "b * (b ^ (2 * (e div 2)) mod m) mod m = b ^ Suc (2 * (e div 2)) mod m"
        by (simp add: mod_mult_right_eq)
      with h odd False show ?thesis by (simp only: pow_mod.simps [of b e] e Let_def if_False)
    qed
  qed (simp add: pow_mod.simps)
qed

section \<open>Scalars and coordinates\<close>

text \<open>\<open>int.from_bytes(..., "little")\<close> and \<open>to_bytes(n, "little")\<close>.\<close>

definition le_int :: "bytes \<Rightarrow> int" where
  "le_int bs = foldr (\<lambda>b v. uint b + 256 * v) bs 0"

fun int_le :: "nat \<Rightarrow> int \<Rightarrow> bytes" where
  "int_le 0 v = []"
| "int_le (Suc n) v = word_of_int v # int_le n (v div 256)"

definition clamped :: "bytes \<Rightarrow> bytes" where
  "clamped raw = raw[0 := raw ! 0 AND 248, 31 := (raw ! 31 AND 127) OR 64]"

definition decode_scalar :: "bytes \<Rightarrow> int res" where
  "decode_scalar scalar = (if length scalar \<noteq> X_KEY_BYTES then Inl ValueError else Inr (le_int (clamped scalar)))"

definition decode_u :: "bytes \<Rightarrow> int res" where
  "decode_u coordinate =
     (if length coordinate \<noteq> X_KEY_BYTES then Inl ValueError
      else Inr (le_int (coordinate[31 := coordinate ! 31 AND 127]) mod P))"

definition encode_u :: "int \<Rightarrow> bytes" where "encode_u value = int_le X_KEY_BYTES (value mod P)"

section \<open>The ladder\<close>

record ladder =
  x2 :: int
  z2 :: int
  x3 :: int
  z3 :: int
  swap :: bool

definition swap_points :: "ladder \<Rightarrow> ladder" where
  "swap_points l = l\<lparr>x2 := x3 l, x3 := x2 l, z2 := z3 l, z3 := z2 l\<rparr>"

text \<open>One turn of the loop, for the next bit of the scalar.\<close>

definition ladder_turn :: "int \<Rightarrow> bool \<Rightarrow> ladder \<Rightarrow> ladder" where
  "ladder_turn x1 b l =
     (let l = (if swap l \<noteq> b then swap_points l else l);
          a = (x2 l + z2 l) mod P; aa = (a * a) mod P;
          b' = (x2 l - z2 l) mod P; bb = (b' * b') mod P;
          e = (aa - bb) mod P;
          c = (x3 l + z3 l) mod P; d = (x3 l - z3 l) mod P;
          da = (d * a) mod P; cb = (c * b') mod P
      in \<lparr>x2 = (aa * bb) mod P, z2 = (e * ((aa + A24 * e) mod P)) mod P,
          x3 = pow_mod ((da + cb) mod P) 2 P, z3 = (x1 * pow_mod ((da - cb) mod P) 2 P) mod P, swap = b\<rparr>)"

definition scalar_bits :: "int \<Rightarrow> bool list" where
  "scalar_bits k = map (\<lambda>i. bit k i) (rev [0..<255])"

definition ladder_start :: "int \<Rightarrow> ladder" where
  "ladder_start u = \<lparr>x2 = 1, z2 = 0, x3 = u, z3 = 1, swap = False\<rparr>"

definition x25519 :: "bytes \<Rightarrow> bytes \<Rightarrow> bytes res" where
  "x25519 scalar u_coordinate =
     rbind (decode_scalar scalar) (\<lambda>k.
     rbind (decode_u u_coordinate) (\<lambda>u.
       let l = fold (ladder_turn u) (scalar_bits k) (ladder_start u);
           l = (if swap l then swap_points l else l)
       in Inr (encode_u (x2 l * pow_mod (z2 l) (nat (P - 2)) P mod P))))"

definition BASE_POINT :: bytes where "BASE_POINT = int_le X_KEY_BYTES 9"

section \<open>Base64\<close>

definition b64_alphabet :: str where
  "b64_alphabet = ''ABCDEFGHIJKLMNOPQRSTUVWXYZabcdefghijklmnopqrstuvwxyz0123456789+/''"

definition b64_char :: "nat \<Rightarrow> char" where "b64_char n = b64_alphabet ! n"

definition b64_index :: "char \<Rightarrow> nat option" where
  "b64_index c = List.find (\<lambda>n. b64_char n = c) [0..<64]"

fun b64encode :: "bytes \<Rightarrow> str" where
  "b64encode (a # b # c # rest) =
     (let n = unat a * 65536 + unat b * 256 + unat c
      in [b64_char (n div 262144), b64_char (n div 4096 mod 64), b64_char (n div 64 mod 64), b64_char (n mod 64)]
         @ b64encode rest)"
| "b64encode [a, b] =
     (let n = unat a * 1024 + unat b * 4
      in [b64_char (n div 4096), b64_char (n div 64 mod 64), b64_char (n mod 64), CHR ''=''])"
| "b64encode [a] =
     (let n = unat a * 16 in [b64_char (n div 64), b64_char (n mod 64), CHR ''='', CHR ''=''])"
| "b64encode [] = []"

text \<open>
  The decoder of the library: \<open>quad\<close> counts the characters of the group, \<open>left\<close> holds the bits not yet
  written, \<open>pads\<close> the padding characters in a row.  Enough padding ends the input; ending inside a group
  is an error.
\<close>

fun a2b :: "nat \<Rightarrow> nat \<Rightarrow> nat \<Rightarrow> str \<Rightarrow> bytes res" where
  "a2b quad left pads [] = (if quad \<noteq> 0 then Inl ValueError else Inr [])"
| "a2b quad left pads (c # cs) =
     (if c = CHR ''='' then
        (if 2 \<le> quad \<and> 4 \<le> quad + pads + 1 then Inr []
         else a2b quad left (if 2 \<le> quad then pads + 1 else pads) cs)
      else case b64_index c of
        None \<Rightarrow> a2b quad left pads cs
      | Some v \<Rightarrow>
          (if quad = 0 then a2b 1 v 0 cs
           else if quad = 1 then rbind (a2b 2 (v mod 16) 0 cs) (\<lambda>bs. Inr (of_nat (left * 4 + v div 16) # bs))
           else if quad = 2 then rbind (a2b 3 (v mod 4) 0 cs) (\<lambda>bs. Inr (of_nat (left * 16 + v div 4) # bs))
           else rbind (a2b 0 0 0 cs) (\<lambda>bs. Inr (of_nat (left * 64 + v) # bs))))"

section \<open>Keys\<close>

definition generate_private_key :: "bytes \<Rightarrow> bytes" where "generate_private_key random = clamped random"

definition public_key :: "bytes \<Rightarrow> bytes res" where "public_key private = x25519 private BASE_POINT"

definition encode_key :: "bytes \<Rightarrow> str" where "encode_key key = b64encode key"

definition decode_key :: "str \<Rightarrow> bytes res" where
  "decode_key encoded =
     rbind (if isascii (strip is_space encoded) then a2b 0 0 0 (strip is_space encoded) else Inl ValueError) (\<lambda>raw.
       if length raw \<noteq> X_KEY_BYTES then Inl ValueError else Inr raw)"

text \<open>\<open>tool\<close> is what the \<open>wg\<close> program printed, when it is installed and ran.\<close>

definition generate_keypair :: "(str \<times> str) option \<Rightarrow> bytes \<Rightarrow> (str \<times> str) res" where
  "generate_keypair tool random =
     (case tool of
        Some (private, public) \<Rightarrow> Inr (strip is_space private, strip is_space public)
      | None \<Rightarrow>
          let private_raw = generate_private_key random
          in rbind (public_key private_raw) (\<lambda>public. Inr (encode_key private_raw, encode_key public)))"

definition derive_public_key :: "str \<Rightarrow> str res" where
  "derive_public_key private =
     rbind (decode_key private) (\<lambda>raw. rbind (public_key raw) (\<lambda>public. Inr (encode_key public)))"

section \<open>The reference ladder\<close>

text \<open>
  Doubling and differential addition on \<open>y\<^sup>2 = x\<^sup>3 + 486662 x\<^sup>2 + x\<close> in projective \<open>x\<close>-coordinates, with
  the formulas of Montgomery, and the ladder with a branch on each bit.
\<close>

type_synonym point = "int \<times> int"

definition double_point :: "point \<Rightarrow> point" where
  "double_point p = (let (x, z) = p in
     ((x * x - z * z) ^ 2 mod P, 4 * x * z * (x * x + 486662 * x * z + z * z) mod P))"

definition add_points :: "int \<Rightarrow> point \<Rightarrow> point \<Rightarrow> point" where
  "add_points u p q = (let (x, z) = p; (x', z') = q in
     (4 * (x * x' - z * z') ^ 2 mod P, 4 * u * (x * z' - z * x') ^ 2 mod P))"

definition montgomery_step :: "int \<Rightarrow> bool \<Rightarrow> point \<times> point \<Rightarrow> point \<times> point" where
  "montgomery_step u b rs = (let (r, s) = rs in
     if b then (add_points u r s, double_point s) else (double_point r, add_points u r s))"

definition montgomery_ladder :: "int \<Rightarrow> bool list \<Rightarrow> point" where
  "montgomery_ladder u bs = fst (fold (montgomery_step u) bs ((1, 0), (u, 1)))"

definition points_of :: "ladder \<Rightarrow> point \<times> point" where
  "points_of l = (if swap l then ((x3 l, z3 l), (x2 l, z2 l)) else ((x2 l, z2 l), (x3 l, z3 l)))"

lemma add_points_swap: "add_points u p q = add_points u q p"
proof -
  have "(a * d - b * c) ^ 2 = (c * b - d * a) ^ 2" for a b c d :: int
    by (simp add: power2_eq_square algebra_simps)
  then show ?thesis by (simp add: add_points_def mult.commute split: prod.split)
qed

lemma turn_points:
  fixes X2 Z2 X3 Z3 :: int
  defines "a \<equiv> (X2 + Z2) mod P" and "b \<equiv> (X2 - Z2) mod P" and "c \<equiv> (X3 + Z3) mod P" and "d \<equiv> (X3 - Z3) mod P"
  defines "aa \<equiv> (a * a) mod P" and "bb \<equiv> (b * b) mod P"
  defines "e \<equiv> (aa - bb) mod P" and "da \<equiv> (d * a) mod P" and "cb \<equiv> (c * b) mod P"
  shows "((aa * bb) mod P, (e * ((aa + A24 * e) mod P)) mod P) = double_point (X2, Z2)"
    and "(pow_mod ((da + cb) mod P) 2 P, (u * pow_mod ((da - cb) mod P) 2 P) mod P) = add_points u (X2, Z2) (X3, Z3)"
proof -
  have "(aa * bb) mod P = ((X2 + Z2) * (X2 + Z2) * ((X2 - Z2) * (X2 - Z2))) mod P"
    by (simp add: assms(1-6) mod_simps)
  also have "(X2 + Z2) * (X2 + Z2) * ((X2 - Z2) * (X2 - Z2)) = (X2 * X2 - Z2 * Z2) ^ 2"
    by (simp add: power2_eq_square algebra_simps)
  finally have x: "(aa * bb) mod P = (X2 * X2 - Z2 * Z2) ^ 2 mod P" .
  have e: "e mod P = (4 * X2 * Z2) mod P"
  proof -
    have "e mod P = ((X2 + Z2) * (X2 + Z2) - (X2 - Z2) * (X2 - Z2)) mod P"
      by (simp add: assms(1-7) mod_simps)
    also have "(X2 + Z2) * (X2 + Z2) - (X2 - Z2) * (X2 - Z2) = 4 * X2 * Z2" by (simp add: algebra_simps)
    finally show ?thesis .
  qed
  have aa: "aa mod P = ((X2 + Z2) * (X2 + Z2)) mod P" by (simp add: assms(1,5) mod_simps)
  have inner: "(aa + A24 * e) mod P = ((X2 + Z2) * (X2 + Z2) + A24 * (4 * X2 * Z2)) mod P"
    using e aa by (metis mod_add_cong mod_mult_right_eq)
  have "(e * ((aa + A24 * e) mod P)) mod P = ((e mod P) * ((aa + A24 * e) mod P)) mod P"
    by (rule mod_mult_left_eq [symmetric])
  also have "\<dots> = (4 * X2 * Z2 * ((X2 + Z2) * (X2 + Z2) + A24 * (4 * X2 * Z2))) mod P"
    unfolding e inner by (rule mod_mult_eq)
  also have "(X2 + Z2) * (X2 + Z2) + A24 * (4 * X2 * Z2) = X2 * X2 + 486662 * X2 * Z2 + Z2 * Z2"
    by (simp add: A24_def algebra_simps)
  finally show "((aa * bb) mod P, (e * ((aa + A24 * e) mod P)) mod P) = double_point (X2, Z2)"
    by (simp add: double_point_def x)
  have "pow_mod ((da + cb) mod P) 2 P = ((X3 - Z3) * (X2 + Z2) + (X3 + Z3) * (X2 - Z2)) ^ 2 mod P"
    by (simp add: pow_mod_eq assms(1-4,8,9) mod_simps)
  also have "(X3 - Z3) * (X2 + Z2) + (X3 + Z3) * (X2 - Z2) = 2 * (X2 * X3 - Z2 * Z3)" by (simp add: algebra_simps)
  also have "(2 * (X2 * X3 - Z2 * Z3)) ^ 2 = 4 * (X2 * X3 - Z2 * Z3) ^ 2" by (simp add: power2_eq_square algebra_simps)
  finally have p: "pow_mod ((da + cb) mod P) 2 P = 4 * (X2 * X3 - Z2 * Z3) ^ 2 mod P" .
  have "(u * pow_mod ((da - cb) mod P) 2 P) mod P = u * ((X3 - Z3) * (X2 + Z2) - (X3 + Z3) * (X2 - Z2)) ^ 2 mod P"
    by (simp add: pow_mod_eq assms(1-4,8,9) mod_simps)
  also have "(X3 - Z3) * (X2 + Z2) - (X3 + Z3) * (X2 - Z2) = 2 * (X3 * Z2 - Z3 * X2)" by (simp add: algebra_simps)
  also have "(2 * (X3 * Z2 - Z3 * X2)) ^ 2 = 4 * (X2 * Z3 - Z2 * X3) ^ 2" by (simp add: power2_eq_square algebra_simps)
  finally show "(pow_mod ((da + cb) mod P) 2 P, (u * pow_mod ((da - cb) mod P) 2 P) mod P)
      = add_points u (X2, Z2) (X3, Z3)"
    by (simp add: add_points_def p mult.assoc mult.left_commute)
qed

lemma ladder_turn_point:
  "points_of (ladder_turn u b l) = montgomery_step u b (points_of l)"
proof -
  define m where "m = (if swap l \<noteq> b then swap_points l else l)"
  have d: "(x2 (ladder_turn u b l), z2 (ladder_turn u b l)) = double_point (x2 m, z2 m)"
    unfolding turn_points(1) [of "x2 m" "z2 m", symmetric]
    by (simp only: ladder_turn_def Let_def m_def [symmetric] ladder.select_convs)
  have a: "(x3 (ladder_turn u b l), z3 (ladder_turn u b l)) = add_points u (x2 m, z2 m) (x3 m, z3 m)"
    unfolding turn_points(2) [of "x3 m" "z3 m" "x2 m" "z2 m", symmetric]
    by (simp only: ladder_turn_def Let_def m_def [symmetric] ladder.select_convs)
  have s: "swap (ladder_turn u b l) = b"
    by (simp only: ladder_turn_def Let_def ladder.select_convs)
  have "points_of (ladder_turn u b l) = (if b then (add_points u (x2 m, z2 m) (x3 m, z3 m), double_point (x2 m, z2 m))
      else (double_point (x2 m, z2 m), add_points u (x2 m, z2 m) (x3 m, z3 m)))"
    unfolding points_of_def s d a ..
  then show ?thesis
    using add_points_swap [of u "(x2 l, z2 l)" "(x3 l, z3 l)"]
    by (cases b; cases "swap l") (simp_all add: points_of_def montgomery_step_def m_def swap_points_def)
qed

lemma ladder_points:
  "points_of (fold (ladder_turn u) bs l) = fold (montgomery_step u) bs (points_of l)"
  by (induction bs arbitrary: l) (simp_all add: ladder_turn_point)

lemma x25519_eq:
  assumes "decode_scalar s = Inr k" and "decode_u c = Inr u"
  shows "x25519 s c = Inr (encode_u (let (x, z) = montgomery_ladder u (scalar_bits k) in x * z ^ nat (P - 2)))"
proof -
  let ?l = "fold (ladder_turn u) (scalar_bits k) (ladder_start u)"
  have "points_of (ladder_start u) = ((1, 0), (u, 1))" by (simp add: points_of_def ladder_start_def)
  then have r: "montgomery_ladder u (scalar_bits k) = fst (points_of ?l)"
    by (simp add: montgomery_ladder_def ladder_points)
  show ?thesis
    by (cases "swap ?l") (simp_all add: x25519_def assms Let_def r points_of_def swap_points_def encode_u_def pow_mod_eq mod_simps)
qed

section \<open>Bytes and integers\<close>

lemma le_int_simps [simp]: "le_int [] = 0" "le_int (b # bs) = uint b + 256 * le_int bs"
  by (simp_all add: le_int_def)

lemma uint_byte: "0 \<le> uint (b :: byte)" "uint (b :: byte) < 256"
  using uint_lt2p [of b] by simp_all

lemma le_int_bounds: "0 \<le> le_int bs \<and> le_int bs < 256 ^ length bs"
proof (induction bs)
  case (Cons b bs)
  have "uint b + 256 * le_int bs < 256 * 256 ^ length bs" using Cons uint_byte(2) [of b] by linarith
  with Cons uint_byte(1) [of b] show ?case by simp
qed simp

lemma le_int_append: "le_int (xs @ ys) = le_int xs + 256 ^ length xs * le_int ys"
  by (induction xs) (simp_all add: algebra_simps)

lemma length_int_le [simp]: "length (int_le n v) = n"
  by (induction n arbitrary: v) simp_all

lemma le_int_int_le: "le_int (int_le n v) = v mod 256 ^ n"
proof (induction n arbitrary: v)
  case (Suc n)
  have "uint (word_of_int v :: byte) = v mod 256" by (simp add: uint_word_of_int)
  then show ?case using zmod_zmult2_eq [of "256 ^ n" v 256] by (simp add: Suc.IH)
qed simp

lemma int_le_le_int: "int_le (length bs) (le_int bs) = bs"
proof (induction bs)
  case (Cons b bs)
  have "(uint b + 256 * le_int bs) div 256 = le_int bs" using uint_byte [of b] by simp
  moreover have "word_of_int (uint b + 256 * le_int bs) = b"
  proof (rule word_uint_eqI)
    show "uint (word_of_int (uint b + 256 * le_int bs) :: byte) = uint b"
      using uint_byte [of b] by (subst uint_word_of_int) simp
  qed
  ultimately show ?case using Cons by simp
qed simp

lemma P_small: "P < 256 ^ 32" by (simp add: P_def)

lemma encode_u_canonical:
  "length (encode_u v) = 32" "le_int (encode_u v) = v mod P" "0 \<le> le_int (encode_u v)" "le_int (encode_u v) < P"
proof -
  have b: "0 \<le> v mod P" "v mod P < P" using P_pos by simp_all
  then show "le_int (encode_u v) = v mod P"
    using P_small by (simp add: encode_u_def X_KEY_BYTES_def le_int_int_le)
  with b show "0 \<le> le_int (encode_u v)" "le_int (encode_u v) < P" by simp_all
  show "length (encode_u v) = 32" by (simp add: encode_u_def X_KEY_BYTES_def)
qed

section \<open>Clamping\<close>

lemma byte_eqI:
  assumes "\<And>n. n \<in> {0, 1, 2, 3, 4, 5, 6, 7} \<Longrightarrow> bit a n = bit b n"
  shows "(a :: byte) = b"
proof (rule bit_word_eqI)
  fix n assume "n < LENGTH(8)"
  then have "n \<in> {0, 1, 2, 3, 4, 5, 6, 7}" by (simp only: insert_iff empty_iff len_of_numeral_defs) auto
  then show "bit a n = bit b n" by (rule assms)
qed

lemma clamp_bits:
  "(b AND 248) AND 248 = (b AND 248 :: byte)"
  "((b AND 127) OR 64) AND 127 OR 64 = ((b AND 127) OR 64 :: byte)"
  "(b OR 128) AND 127 = (b AND 127 :: byte)"
  by (rule byte_eqI; auto simp: bit_simps)+

lemma clamped_idem: "length raw = 32 \<Longrightarrow> clamped (clamped raw) = clamped raw"
  by (rule nth_equalityI) (auto simp: clamped_def nth_list_update clamp_bits)

lemma low_byte: "8 dvd uint (b AND 248 :: byte)"
proof -
  have "take_bit 3 (b AND 248 :: byte) = 0" by (rule byte_eqI) (auto simp: bit_simps)
  then have "take_bit 3 (uint (b AND 248)) = 0" by (metis unsigned_take_bit_eq unsigned_0)
  then show ?thesis by (simp add: take_bit_eq_0_iff)
qed

lemma power_numeral_sixty_four: "(2 :: int) ^ 6 = 64" "(2 :: int) ^ 7 = 128" by simp_all

lemma high_byte: "64 \<le> uint ((b AND 127) OR 64 :: byte) \<and> uint ((b AND 127) OR 64 :: byte) < 128"
proof -
  have "take_bit 7 ((b AND 127) OR 64 :: byte) = (b AND 127) OR 64" by (rule byte_eqI) (auto simp: bit_simps)
  then have "uint ((b AND 127) OR 64) = take_bit 7 (uint ((b AND 127) OR 64))" by (metis unsigned_take_bit_eq)
  moreover have "bit (uint ((b AND 127) OR 64 :: byte)) 6" by (simp add: bit_uint_iff bit_simps)
  ultimately show ?thesis
    using take_bit_int_eq_self [of "uint ((b AND 127) OR 64)" 6] take_bit_int_less_exp [of 7 "uint ((b AND 127) OR 64)"]
    by (metis bit_take_bit_iff linorder_not_less order_less_irrefl power_numeral_sixty_four uint_byte(1))
qed

lemma key_split:
  assumes "length raw = 32"
  obtains a ms z where "raw = a # ms @ [z]" and "length ms = 30"
proof -
  from assms obtain a rest where r: "raw = a # rest" "length rest = 31" by (cases raw) auto
  then have "rest \<noteq> []" by auto
  then have "rest = butlast rest @ [last rest]" by simp
  with r that [of a "butlast rest" "last rest"] show ?thesis by simp
qed

lemma clamped_split:
  "length ms = 30 \<Longrightarrow> clamped (a # ms @ [z]) = (a AND 248) # ms @ [(z AND 127) OR 64]"
  by (simp add: clamped_def nth_append list_update_append)

lemma top_split: "length ms = 30 \<Longrightarrow> (a # ms @ [z])[31 := y] = a # ms @ [y]"
  by (simp add: list_update_append)

lemma nth_top: "length ms = 30 \<Longrightarrow> (a # ms @ [z]) ! 31 = z"
  by (simp add: nth_append)

lemma clamped_value:
  assumes "length raw = 32"
  shows "8 dvd le_int (clamped raw)" "2 ^ 254 \<le> le_int (clamped raw)" "le_int (clamped raw) < 2 ^ 255"
proof -
  obtain a ms z where raw: "raw = a # ms @ [z]" and len: "length ms = 30" by (rule key_split [OF assms])
  let ?low = "uint (a AND 248)" and ?top = "uint ((z AND 127) OR 64)"
  have v: "le_int (clamped raw) = ?low + 256 * le_int ms + 256 ^ 31 * ?top"
    by (simp add: raw clamped_split [OF len] le_int_append len)
  have "8 dvd (256 :: int)" by presburger
  then show "8 dvd le_int (clamped raw)" unfolding v
    using low_byte [of a] by (intro dvd_add dvd_mult2) simp_all
  have m: "0 \<le> le_int ms" "le_int ms < 256 ^ 30" using le_int_bounds [of ms] by (simp_all add: len)
  have l: "0 \<le> ?low" "?low < 256" by (rule uint_byte)+
  have range: "2 ^ 254 \<le> L + 256 * M + 256 ^ 31 * T \<and> L + 256 * M + 256 ^ 31 * T < 2 ^ 255"
    if "0 \<le> L" "L < 256" "0 \<le> M" "M < 256 ^ 30" "64 \<le> T" "T < 128" for L M T :: int
    using that by simp
  from range [OF l m conjunct1 [OF high_byte] conjunct2 [OF high_byte]]
  show "2 ^ 254 \<le> le_int (clamped raw)" "le_int (clamped raw) < 2 ^ 255" unfolding v by blast+
qed

lemma length_clamped [simp]: "length (clamped raw) = length raw" by (simp add: clamped_def)

lemma decode_u_high_bit:
  assumes "length c = 32"
  shows "decode_u (c[31 := c ! 31 OR 128]) = decode_u c"
  using assms by (simp add: decode_u_def clamp_bits)

lemma decode_u_canonical:
  assumes "length c = 32" and "le_int c < P"
  shows "decode_u c = Inr (le_int c)"
proof -
  obtain a ms z where c: "c = a # ms @ [z]" and len: "length ms = 30" by (rule key_split [OF assms(1)])
  have v: "le_int c = uint a + 256 * le_int ms + 256 ^ 31 * uint z"
    by (simp add: c le_int_append len)
  have "0 \<le> le_int ms" "0 \<le> uint a" using le_int_bounds [of ms] uint_byte by simp_all
  with assms(2) have "256 ^ 31 * uint z < 2 ^ 255" unfolding v P_def by linarith
  then have z: "uint z < 2 ^ 7" by simp
  have "z AND 127 = z"
  proof -
    have "take_bit 7 z = z"
      using z take_bit_int_eq_self [of "uint z" 7] uint_byte(1) [of z]
      by (metis unsigned_take_bit_eq word_uint_eqI)
    moreover have "take_bit 7 z = z AND 127" by (rule byte_eqI) (auto simp: bit_simps)
    ultimately show ?thesis by simp
  qed
  then have "c[31 := c ! 31 AND 127] = c" unfolding c nth_top [OF len] top_split [OF len] by simp
  with assms le_int_bounds [of c] show ?thesis by (simp add: decode_u_def X_KEY_BYTES_def)
qed

section \<open>Base64 round trip\<close>

lemma b64_table:
  "list_all (\<lambda>n. b64_index (b64_char n) = Some n \<and> b64_char n \<noteq> CHR ''='' \<and> is_ascii (b64_char n)
     \<and> \<not> is_space (b64_char n)) [0..<64]"
  by code_simp

lemma b64_chars:
  assumes "n < 64"
  shows "b64_index (b64_char n) = Some n" "b64_char n \<noteq> CHR ''=''" "is_ascii (b64_char n)" "\<not> is_space (b64_char n)"
  using b64_table assms by (auto simp: list_all_iff)

lemma div_mod_unique: "x < k \<Longrightarrow> (k * q + x) div k = (q :: nat) \<and> (k * q + x) mod k = x"
  by simp

lemma byte_digits:
  fixes a b c :: nat
  assumes "a < 256" and "b < 256" and "c < 256"
  shows "(a * 65536 + b * 256 + c) div 262144 = a div 4"
    "(a * 65536 + b * 256 + c) div 4096 mod 64 = a mod 4 * 16 + b div 16"
    "(a * 65536 + b * 256 + c) div 64 mod 64 = b mod 16 * 4 + c div 64"
    "(a * 65536 + b * 256 + c) mod 64 = c mod 64"
proof -
  define qa ra qb rb qc rc where d: "qa = a div 4" "ra = a mod 4" "qb = b div 16" "rb = b mod 16"
    "qc = c div 64" "rc = c mod 64"
  have a: "a = 4 * qa + ra" and b: "b = 16 * qb + rb" and c: "c = 64 * qc + rc"
    by (simp_all add: d)
  have lt: "qa < 64" "ra < 4" "qb < 16" "rb < 16" "qc < 4" "rc < 64"
    using assms by (simp_all add: d less_mult_imp_div_less)
  let ?n = "a * 65536 + b * 256 + c"
  have n1: "?n = 262144 * qa + (65536 * ra + 4096 * qb + 256 * rb + 64 * qc + rc)" by (simp add: a b c)
  have n2: "?n = 4096 * (64 * qa + (16 * ra + qb)) + (256 * rb + 64 * qc + rc)" by (simp add: a b c)
  have n3: "?n = 64 * (64 * (64 * qa + 16 * ra + qb) + (4 * rb + qc)) + rc" by (simp add: a b c)
  show "?n div 262144 = a div 4"
    unfolding n1 d(1) [symmetric] by (rule div_mod_unique [THEN conjunct1]) (use lt in simp)
  have "?n div 4096 = 64 * qa + (16 * ra + qb)"
    unfolding n2 by (rule div_mod_unique [THEN conjunct1]) (use lt in simp)
  moreover have "(64 * qa + (16 * ra + qb)) mod 64 = 16 * ra + qb"
    by (rule div_mod_unique [THEN conjunct2]) (use lt in simp)
  ultimately show "?n div 4096 mod 64 = a mod 4 * 16 + b div 16"
    unfolding d(2,3) [symmetric] by (simp only: mult.commute)
  have "?n div 64 = 64 * (64 * qa + 16 * ra + qb) + (4 * rb + qc)"
    unfolding n3 by (rule div_mod_unique [THEN conjunct1]) (use lt in simp)
  moreover have "(64 * (64 * qa + 16 * ra + qb) + (4 * rb + qc)) mod 64 = 4 * rb + qc"
    by (rule div_mod_unique [THEN conjunct2]) (use lt in simp)
  ultimately show "?n div 64 mod 64 = b mod 16 * 4 + c div 64"
    unfolding d(4,5) [symmetric] by (simp only: mult.commute)
  show "?n mod 64 = c mod 64"
    unfolding n3 d(6) [symmetric] by (rule div_mod_unique [THEN conjunct2]) (use lt in simp)
qed

lemma a2b_char:
  "n < 64 \<Longrightarrow> a2b 0 l p (b64_char n # cs) = a2b 1 n 0 cs"
  "n < 64 \<Longrightarrow> a2b (Suc 0) l p (b64_char n # cs) = rbind (a2b 2 (n mod 16) 0 cs) (\<lambda>bs. Inr (of_nat (l * 4 + n div 16) # bs))"
  "n < 64 \<Longrightarrow> a2b 2 l p (b64_char n # cs) = rbind (a2b 3 (n mod 4) 0 cs) (\<lambda>bs. Inr (of_nat (l * 16 + n div 4) # bs))"
  "n < 64 \<Longrightarrow> a2b 3 l p (b64_char n # cs) = rbind (a2b 0 0 0 cs) (\<lambda>bs. Inr (of_nat (l * 64 + n) # bs))"
  by (simp_all add: b64_chars)

lemma byte_lt: "unat (b :: byte) < 256" using unsigned_less [of b] by simp

lemma div_mod_back:
  "y < k \<Longrightarrow> (x * k + y) div k = (x :: nat)" "y < k \<Longrightarrow> (x * k + y) mod k = (y :: nat)"
  by simp_all

text \<open>The sextets of a group of three bytes, and the bytes that come back from them.\<close>

lemma sextets:
  fixes a b c :: nat
  assumes "a < 256" and "b < 256" and "c < 256"
  shows "a div 4 < 64" "a mod 4 * 16 + b div 16 < 64" "b mod 16 * 4 + c div 64 < 64" "c mod 64 < 64"
    and "a div 4 * 4 + (a mod 4 * 16 + b div 16) div 16 = a"
    and "(a mod 4 * 16 + b div 16) mod 16 * 16 + (b mod 16 * 4 + c div 64) div 4 = b"
    and "(b mod 16 * 4 + c div 64) mod 4 * 64 + c mod 64 = c"
proof -
  have d: "a div 4 < 64" "b div 16 < 16" "c div 64 < 4" using assms by (simp_all add: less_mult_imp_div_less)
  have m: "a mod 4 < 4" "b mod 16 < 16" "c mod 64 < 64" by simp_all
  show "a div 4 < 64" "c mod 64 < 64" by (rule d m)+
  show "a mod 4 * 16 + b div 16 < 64" "b mod 16 * 4 + c div 64 < 64" using d m by linarith+
  show "a div 4 * 4 + (a mod 4 * 16 + b div 16) div 16 = a"
    unfolding div_mod_back(1) [OF d(2)] by (rule div_mult_mod_eq)
  show "(a mod 4 * 16 + b div 16) mod 16 * 16 + (b mod 16 * 4 + c div 64) div 4 = b"
    unfolding div_mod_back(1) [OF d(3)] div_mod_back(2) [OF d(2)] by (rule div_mult_mod_eq)
  show "(b mod 16 * 4 + c div 64) mod 4 * 64 + c mod 64 = c"
    unfolding div_mod_back(2) [OF d(3)] by (rule div_mult_mod_eq)
qed

lemma a2b_pad:
  "a2b 2 l 0 ''==''  = Inr []" "a2b 3 l 0 ''='' = Inr []"
  by simp_all

lemma zero_byte: "(0 :: nat) < 256" by simp

lemma b64_round_trip: "a2b 0 0 0 (b64encode bs) = Inr bs"
proof (induction bs rule: b64encode.induct)
  case (1 a b c rest)
  note s = sextets [OF byte_lt [of a] byte_lt [of b] byte_lt [of c]]
  show ?case
    unfolding b64encode.simps Let_def byte_digits [OF byte_lt byte_lt byte_lt] append_Cons append_Nil
      a2b_char(1) [OF s(1)] One_nat_def a2b_char(2) [OF s(2)] a2b_char(3) [OF s(3)] a2b_char(4) [OF s(4)] "1.IH" [OF refl]
    by (simp only: rbind.simps s(5-7)) simp
next
  case (2 a b)
  let ?n = "unat a * 1024 + unat b * 4"
  note s = sextets [OF byte_lt [of a] byte_lt [of b] zero_byte]
  have n: "(unat a * 65536 + unat b * 256 + 0) div 64 = ?n" by simp
  have d: "?n div 4096 = unat a div 4" "?n div 64 mod 64 = unat a mod 4 * 16 + unat b div 16"
      "?n mod 64 = unat b mod 16 * 4 + 0 div 64"
    using byte_digits [OF byte_lt [of a] byte_lt [of b] zero_byte] unfolding n [symmetric] div_mult2_eq [symmetric]
    by simp_all
  show ?case
    unfolding b64encode.simps Let_def d a2b_char(1) [OF s(1)] One_nat_def a2b_char(2) [OF s(2)]
      a2b_char(3) [OF s(3)] a2b_pad
    by (simp only: rbind.simps s(5-7)) simp
next
  case (3 a)
  let ?n = "unat a * 16"
  note s = sextets [OF byte_lt [of a] zero_byte zero_byte]
  have n: "(unat a * 65536 + 0 * 256 + 0) div 4096 = ?n" by simp
  have d: "?n div 64 = unat a div 4" "?n mod 64 = unat a mod 4 * 16 + 0 div 16"
    using byte_digits [OF byte_lt [of a] zero_byte zero_byte] unfolding n [symmetric] div_mult2_eq [symmetric]
    by simp_all
  show ?case
    unfolding b64encode.simps Let_def d a2b_char(1) [OF s(1)] One_nat_def a2b_char(2) [OF s(2)] a2b_pad
    by (simp only: rbind.simps s(5-7)) simp
qed simp

definition plain_char :: "char \<Rightarrow> bool" where "plain_char c \<longleftrightarrow> is_ascii c \<and> \<not> is_space c"

lemma plain_b64: "n < 64 \<Longrightarrow> plain_char (b64_char n)" "plain_char (CHR ''='')"
  using b64_chars(3,4) [of n] by (simp_all add: plain_char_def) code_simp

lemma b64encode_all:
  assumes "\<And>n. n < 64 \<Longrightarrow> good (b64_char n)" and "good (CHR ''='')"
  shows "list_all good (b64encode bs)"
proof (induction bs rule: b64encode.induct)
  case (1 a b c rest)
  have "(unat a * 65536 + unat b * 256 + unat c) div 262144 < 64"
    using byte_lt [of a] byte_lt [of b] byte_lt [of c] by (intro less_mult_imp_div_less) linarith
  with "1.IH" [OF refl] show ?case by (simp add: assms Let_def)
next
  case (2 a b)
  have "(unat a * 1024 + unat b * 4) div 4096 < 64"
    using byte_lt [of a] byte_lt [of b] by (intro less_mult_imp_div_less) linarith
  then show ?case by (simp add: assms Let_def)
next
  case (3 a)
  have "unat a * 16 div 64 < 64" using byte_lt [of a] by (intro less_mult_imp_div_less) linarith
  then show ?case by (simp add: assms Let_def)
qed simp

lemma b64encode_plain: "list_all plain_char (b64encode bs)"
  by (rule b64encode_all) (simp_all add: plain_b64)

lemma strip_plain: "list_all plain_char s \<Longrightarrow> strip is_space s = s"
proof -
  assume "list_all plain_char s"
  then have all: "\<And>c. c \<in> set s \<Longrightarrow> \<not> is_space c" by (auto simp: list_all_iff plain_char_def)
  have "dropWhile is_space s = s" using all by (cases s) auto
  moreover have "dropWhile is_space (rev s) = rev s" using all by (cases "rev s") (auto simp: rev_eq_Cons_iff)
  ultimately show ?thesis by (simp add: strip_def lstrip_def rstrip_def)
qed

lemma decode_encode_key:
  assumes "length key = 32"
  shows "decode_key (encode_key key) = Inr key"
proof -
  have "isascii (encode_key key)"
    using b64encode_plain [of key] by (auto simp: isascii_def encode_key_def plain_char_def list_all_iff)
  then show ?thesis
    using assms strip_plain [OF b64encode_plain [of key]] b64_round_trip [of key]
    by (simp add: decode_key_def encode_key_def X_KEY_BYTES_def)
qed

section \<open>Properties\<close>

lemma decodes:
  assumes "length s = 32" and "length c = 32"
  shows "decode_scalar s = Inr (le_int (clamped s))"
    and "\<exists>u. decode_u c = Inr u \<and> 0 \<le> u \<and> u < P"
  using assms P_pos by (simp_all add: decode_scalar_def decode_u_def X_KEY_BYTES_def)

text \<open>C20: the loop with conditional swaps is the Montgomery ladder with a branch on each bit, over the curve
  formulas: for a 32-byte scalar and coordinate the result is the normalised \<open>x\<close>-coordinate it ends with,
  the scalar is a multiple of 8 whose highest bit is bit 254, and other lengths raise.\<close>

theorem x25519_is_montgomery_ladder:
  "x25519 s c =
     (if length s = 32 \<and> length c = 32 then
        (let u = le_int (c[31 := c ! 31 AND 127]) mod P;
             (x, z) = montgomery_ladder u (scalar_bits (le_int (clamped s)))
         in Inr (encode_u (x * z ^ nat (P - 2))))
      else Inl ValueError)
   \<and> (length s = 32 \<longrightarrow> 8 dvd le_int (clamped s) \<and> 2 ^ 254 \<le> le_int (clamped s) \<and> le_int (clamped s) < 2 ^ 255)"
proof
  show "x25519 s c =
     (if length s = 32 \<and> length c = 32 then
        (let u = le_int (c[31 := c ! 31 AND 127]) mod P;
             (x, z) = montgomery_ladder u (scalar_bits (le_int (clamped s)))
         in Inr (encode_u (x * z ^ nat (P - 2))))
      else Inl ValueError)"
  proof (cases "length s = 32 \<and> length c = 32")
    case True
    have "decode_u c = Inr (le_int (c[31 := c ! 31 AND 127]) mod P)"
      using True by (simp add: decode_u_def X_KEY_BYTES_def)
    from x25519_eq [OF decodes(1) this, of s c] True show ?thesis by (simp add: case_prod_beta Let_def)
  next
    case False
    then show ?thesis by (auto simp: x25519_def decode_scalar_def decode_u_def X_KEY_BYTES_def)
  qed
qed (use clamped_value in blast)

theorem x25519_is_montgomery_ladder_witness: "x25519 [] BASE_POINT = Inl ValueError"
  using x25519_is_montgomery_ladder [of "[]" BASE_POINT] by simp

text \<open>a public key is canonical: 32 bytes whose value is below the prime, which the function reads back
  as that value.  Neither the bits that clamping fixes nor the unused top bit of the coordinate matter.\<close>

theorem x25519_output_canonical:
  assumes "x25519 s c = Inr out"
  shows "length out = 32 \<and> le_int out < P \<and> decode_u out = Inr (le_int out)
    \<and> x25519 (clamped s) c = Inr out \<and> x25519 s (c[31 := c ! 31 OR 128]) = Inr out"
proof -
  from assms have len: "length s = 32" "length c = 32"
    by (auto simp: x25519_def decode_scalar_def decode_u_def X_KEY_BYTES_def rbind_Inr_iff split: if_splits)
  obtain v where v: "out = encode_u v"
    using assms by (auto simp: x25519_def rbind_Inr_iff Let_def)
  have "decode_u out = Inr (le_int out)"
    unfolding v by (rule decode_u_canonical [OF encode_u_canonical(1,4)])
  moreover have "x25519 (clamped s) c = Inr out"
    using assms len by (simp add: x25519_def decode_scalar_def clamped_idem X_KEY_BYTES_def)
  moreover have "x25519 s (c[31 := c ! 31 OR 128]) = Inr out"
    using assms by (simp add: x25519_def decode_u_high_bit [OF len(2)])
  moreover have "length out = 32" "le_int out < P" unfolding v by (rule encode_u_canonical)+
  ultimately show ?thesis by blast
qed

text \<open>the key pair made without the \<open>wg\<close> tool is a pair: the private key reads back as the clamped random
  bytes, and the public key is what is derived from it later.\<close>

theorem fallback_keypair_matches:
  assumes "length random = 32"
  shows "\<exists>private public. generate_keypair None random = Inr (private, public)
    \<and> decode_key private = Inr (clamped random) \<and> derive_public_key private = Inr public
    \<and> (\<exists>raw. decode_key public = Inr raw \<and> length raw = 32)"
proof -
  have c: "length (clamped random) = 32" by (simp add: assms)
  have b: "length BASE_POINT = 32" by (simp add: BASE_POINT_def X_KEY_BYTES_def)
  have "\<exists>out. x25519 (clamped random) BASE_POINT = Inr out \<and> length out = 32"
    using decodes [OF c b] by (auto simp: x25519_def Let_def encode_u_canonical)
  then obtain out where out: "public_key (clamped random) = Inr out" "length out = 32"
    by (auto simp: public_key_def)
  have "generate_keypair None random = Inr (encode_key (clamped random), encode_key out)"
    by (simp add: generate_keypair_def generate_private_key_def out(1))
  with decode_encode_key [OF c] decode_encode_key [OF out(2)] out show ?thesis
    by (simp add: derive_public_key_def)
qed

theorem fallback_keypair_matches_witness:
  "\<exists>private public. generate_keypair None (replicate 32 7) = Inr (private, public)
     \<and> derive_public_key private = Inr public"
  using fallback_keypair_matches [of "replicate 32 7"] by auto

theorem x25519_output_canonical_witness:
  "\<exists>out. x25519 (replicate 32 7) BASE_POINT = Inr out \<and> x25519 (clamped (replicate 32 7)) BASE_POINT = Inr out"
proof -
  have "length (replicate 32 (7 :: byte)) = 32" "length BASE_POINT = 32"
    by (simp_all add: BASE_POINT_def X_KEY_BYTES_def)
  from decodes [OF this] obtain out where "x25519 (replicate 32 7) BASE_POINT = Inr out"
    by (auto simp: x25519_def Let_def)
  from x25519_output_canonical [OF this] this show ?thesis by blast
qed

end
