(* ===== verification/Stats.thy ===== *)
theory Stats
  imports PyStr
begin

text \<open>
  The query log, \<open>symbivpn/stats.py\<close>: the live counters and top tables, the ring of recent queries, and
  the queue whose entries one writer thread puts into the database in batches.  The table is the list of
  its rows in the order of insertion; whether a statement succeeds, and the clock, are arguments.
\<close>

section \<open>Records and counters\<close>

record query_record =
  qr_ts :: time
  qr_client :: str
  qr_name :: str
  qr_qtype :: str
  qr_action :: str
  qr_reason :: str
  qr_rule :: str
  qr_elapsed_ms :: rat
  qr_cached :: bool
  qr_group_name :: str

record counters =
  ct_total :: nat
  ct_blocked :: nat
  ct_cached :: nat
  ct_forwarded :: nat
  ct_errors :: nat
  ct_rewritten :: nat
  ct_upstream_queries_avoided :: nat
  ct_started_at :: time

definition block_rate :: "counters \<Rightarrow> rat" where
  "block_rate c = (if ct_total c = 0 then 0 else of_nat (ct_blocked c) / of_nat (ct_total c))"

definition cache_rate :: "counters \<Rightarrow> rat" where
  "cache_rate c = (if ct_total c = 0 then 0 else of_nat (ct_cached c) / of_nat (ct_total c))"

text \<open>A \<open>Counter\<close>: adding one, and its entries from the most frequent on, equal counts in insertion order.\<close>

type_synonym counter = "(str, nat) dict"

definition bump :: "str \<Rightarrow> counter \<Rightarrow> counter" where
  "bump k d = dset k ((case dget d k of None \<Rightarrow> 0 | Some n \<Rightarrow> n) + 1) d"

definition most_common :: "counter \<Rightarrow> counter" where
  "most_common d = sort_key (\<lambda>(_, n). - int n) d"

definition trim_counter :: "nat \<Rightarrow> counter \<Rightarrow> counter" where
  "trim_counter keep d = fold (\<lambda>(name, _). ddel name) (drop keep (most_common d)) d"

section \<open>The log\<close>

text \<open>\<open>rows\<close> is \<^const>\<open>None\<close> while no database is open.  A \<^const>\<open>None\<close> in the queue is the sentinel
  of \<open>stop\<close>.\<close>

record query_log =
  retention_days :: int
  recent_size :: nat
  batch_size :: nat
  live :: counters
  recent :: "query_record list"
  top_blocked :: counter
  top_allowed :: counter
  by_client :: counter
  waiting :: "query_record option list"
  batch :: "query_record list"
  rows :: "query_record list option"
  dropped :: nat

definition QUEUE_SIZE :: nat where "QUEUE_SIZE = 10000"

definition new_log :: "time \<Rightarrow> int \<Rightarrow> nat \<Rightarrow> nat \<Rightarrow> query_log" where
  "new_log now retention recents batches =
     \<lparr>retention_days = retention, recent_size = recents, batch_size = batches,
      live = \<lparr>ct_total = 0, ct_blocked = 0, ct_cached = 0, ct_forwarded = 0, ct_errors = 0, ct_rewritten = 0,
              ct_upstream_queries_avoided = 0, ct_started_at = now\<rparr>,
      recent = [], top_blocked = [], top_allowed = [], by_client = [], waiting = [], batch = [],
      rows = None, dropped = 0\<rparr>"

section \<open>Recording\<close>

definition count_action :: "query_record \<Rightarrow> counters \<Rightarrow> counters" where
  "count_action r c =
     (let c = c\<lparr>ct_total := ct_total c + 1\<rparr> in
      if qr_action r = ''block'' then
        c\<lparr>ct_blocked := ct_blocked c + 1, ct_upstream_queries_avoided := ct_upstream_queries_avoided c + 1\<rparr>
      else if qr_action r = ''rewrite'' then c\<lparr>ct_rewritten := ct_rewritten c + 1\<rparr>
      else if qr_action r = ''error'' then c\<lparr>ct_errors := ct_errors c + 1\<rparr>
      else c)"

definition count_origin :: "query_record \<Rightarrow> counters \<Rightarrow> counters" where
  "count_origin r c =
     (if qr_cached r then
        c\<lparr>ct_cached := ct_cached c + 1, ct_upstream_queries_avoided := ct_upstream_queries_avoided c + 1\<rparr>
      else if qr_action r \<notin> {''block'', ''error''} then c\<lparr>ct_forwarded := ct_forwarded c + 1\<rparr>
      else c)"

definition bounded_top :: "counter \<Rightarrow> counter" where
  "bounded_top d = (if 5000 < length d then trim_counter 2000 d else d)"

text \<open>A \<open>deque\<close> with a \<open>maxlen\<close> drops from the left.\<close>

definition ring_append :: "nat \<Rightarrow> 'a \<Rightarrow> 'a list \<Rightarrow> 'a list" where
  "ring_append n x xs = drop (length xs + 1 - n) (xs @ [x])"

definition enqueue :: "query_record \<Rightarrow> query_log \<Rightarrow> query_log" where
  "enqueue r s =
     (if rows s = None then s
      else if length (waiting s) < QUEUE_SIZE then s\<lparr>waiting := waiting s @ [Some r]\<rparr>
      else s\<lparr>dropped := dropped s + 1\<rparr>)"

definition record_query :: "query_record \<Rightarrow> query_log \<Rightarrow> query_log" where
  "record_query r s =
     (let blocked = (qr_action r = ''block'');
          other = (qr_action r \<notin> {''block'', ''rewrite'', ''error''})
      in enqueue r (s\<lparr>live := count_origin r (count_action r (live s)),
           top_blocked := bounded_top (if blocked then bump (qr_name r) (top_blocked s) else top_blocked s),
           top_allowed := bounded_top (if other then bump (qr_name r) (top_allowed s) else top_allowed s),
           by_client := (if qr_client r \<noteq> [] then bump (qr_client r) (by_client s) else by_client s),
           recent := ring_append (recent_size s) r (recent s)\<rparr>))"

section \<open>The writer\<close>

text \<open>\<open>okay\<close> tells whether the statement succeeds; a failed batch is lost.\<close>

definition flush_batch :: "bool \<Rightarrow> query_record list \<Rightarrow> query_log \<Rightarrow> query_log" where
  "flush_batch okay b s =
     (case rows s of None \<Rightarrow> s | Some rs \<Rightarrow> if okay then s\<lparr>rows := Some (rs @ b)\<rparr> else s)"

text \<open>One turn of the loop of \<open>_drain\<close>, and what follows the loop.\<close>

definition drain_turn :: "bool \<Rightarrow> bool \<Rightarrow> bool \<Rightarrow> query_log \<Rightarrow> query_log" where
  "drain_turn okay due stopping s =
     (let (got, rest) = (case waiting s of [] \<Rightarrow> (None, []) | r # rs \<Rightarrow> (r, rs));
          b = (case got of None \<Rightarrow> batch s | Some r \<Rightarrow> batch s @ [r]);
          s = s\<lparr>waiting := rest, batch := b\<rparr>
      in if b \<noteq> [] \<and> (batch_size s \<le> length b \<or> due \<or> stopping)
         then (flush_batch okay b s)\<lparr>batch := []\<rparr>
         else s)"

definition drain_end :: "bool \<Rightarrow> query_log \<Rightarrow> query_log" where
  "drain_end okay s = (if batch s \<noteq> [] then (flush_batch okay (batch s) s)\<lparr>batch := []\<rparr> else s)"

text \<open>The sentinel that \<open>stop\<close> puts into the queue, when there is room.\<close>

definition signal_stop :: "query_log \<Rightarrow> query_log" where
  "signal_stop s = (if length (waiting s) < QUEUE_SIZE then s\<lparr>waiting := waiting s @ [None]\<rparr> else s)"

lemma flush_waiting [simp]:
  "waiting (flush_batch okay b s) = waiting s" "batch (flush_batch okay b s) = batch s"
  by (simp_all add: flush_batch_def split: option.split)

lemma drain_turn_waiting [simp]: "waiting (drain_turn okay due st s) = tl (waiting s)"
  by (simp add: drain_turn_def Let_def split: list.split)

text \<open>The loop once the stop event is set: it ends when the queue is empty.\<close>

function drain_all :: "(nat \<Rightarrow> bool) \<Rightarrow> (nat \<Rightarrow> bool) \<Rightarrow> nat \<Rightarrow> query_log \<Rightarrow> query_log" where
  "drain_all okay due i s =
     (if waiting s = [] then drain_end (okay i) s
      else drain_all okay due (Suc i) (drain_turn (okay i) (due i) True s))"
  by pat_completeness auto

termination
  by (relation "measure (\<lambda>(okay, due, i, s). length (waiting s))") auto

declare drain_all.simps [simp del]

section \<open>Reading\<close>

definition prune_log :: "bool \<Rightarrow> time \<Rightarrow> query_log \<Rightarrow> query_log \<times> nat" where
  "prune_log okay now s =
     (case rows s of
        None \<Rightarrow> (s, 0)
      | Some rs \<Rightarrow>
          if retention_days s \<le> 0 \<or> \<not> okay then (s, 0)
          else let cutoff = now - of_int (retention_days s) * 86400;
                   kept = filter (\<lambda>r. \<not> qr_ts r < cutoff) rs
               in (s\<lparr>rows := Some kept\<rparr>, length rs - length kept))"

definition recent_queries :: "query_log \<Rightarrow> nat \<Rightarrow> str \<Rightarrow> str \<Rightarrow> query_record list" where
  "recent_queries s limit client action =
     (let rs = rev (recent s);
          rs = (if client \<noteq> [] then filter (\<lambda>r. qr_client r = client) rs else rs);
          rs = (if action \<noteq> [] then filter (\<lambda>r. qr_action r = action) rs else rs)
      in take limit rs)"

text \<open>
  The database's cast to INTEGER truncates; the rows selected are not before the start.  No buckets at
  all is a division by zero, \<^const>\<open>None\<close>.
\<close>

definition bucket_of :: "time \<Rightarrow> rat \<Rightarrow> query_record \<Rightarrow> int" where
  "bucket_of start width r = py_int ((qr_ts r - start) / width)"

definition history :: "query_log \<Rightarrow> time \<Rightarrow> nat \<Rightarrow> nat \<Rightarrow> (time \<times> nat \<times> nat) list option" where
  "history s now hours buckets =
     (case rows s of
        None \<Rightarrow> Some []
      | Some rs \<Rightarrow>
          if buckets = 0 then None
          else let window = of_nat (hours * 3600); start = now - window; width = window / of_nat buckets;
              rs = filter (\<lambda>r. start \<le> qr_ts r) rs
          in Some (map (\<lambda>i. (start + of_nat i * width,
                       length (filter (\<lambda>r. bucket_of start width r = int i \<and> qr_action r \<noteq> ''block'') rs),
                       length (filter (\<lambda>r. bucket_of start width r = int i \<and> qr_action r = ''block'') rs)))
               [0..<buckets]))"

definition top_names :: "query_log \<Rightarrow> str \<Rightarrow> nat \<Rightarrow> counter" where
  "top_names s action limit =
     take limit (most_common (if action = ''block'' then top_blocked s else top_allowed s))"

definition top_clients :: "query_log \<Rightarrow> nat \<Rightarrow> counter" where
  "top_clients s limit = take limit (most_common (by_client s))"

text \<open>SQL \<open>LIKE\<close>: \<open>%\<close> stands for any text, \<open>_\<close> for any character, and ASCII letters match in either case.\<close>

definition like_char :: "char \<Rightarrow> char" where
  "like_char c = (if is_ascii c \<and> is_upper c then lower_char c else c)"

fun sql_like :: "str \<Rightarrow> str \<Rightarrow> bool" where
  "sql_like [] s = (s = [])"
| "sql_like (p # ps) [] = (p = CHR ''%'' \<and> sql_like ps [])"
| "sql_like (p # ps) (c # s) =
     (if p = CHR ''%'' then sql_like ps (c # s) \<or> sql_like (p # ps) s
      else (p = CHR ''_'' \<or> like_char p = like_char c) \<and> sql_like ps s)"

definition search_log :: "query_log \<Rightarrow> str \<Rightarrow> nat \<Rightarrow> query_record list" where
  "search_log s term limit =
     (case rows s of
        None \<Rightarrow> filter (\<lambda>r. sublist term (qr_name r)) (recent_queries s limit [] [])
      | Some rs \<Rightarrow>
          take limit (sort_key (\<lambda>r. - qr_ts r)
            (filter (\<lambda>r. sql_like (''%'' @ term @ ''%'') (qr_name r)) rs)))"

section \<open>Counting\<close>

text \<open>The counters a list of records stands for.\<close>

definition tally :: "(query_record \<Rightarrow> bool) \<Rightarrow> query_record list \<Rightarrow> nat" where
  "tally p rs = length (filter p rs)"

definition counts_of :: "time \<Rightarrow> query_record list \<Rightarrow> counters" where
  "counts_of t rs =
     \<lparr>ct_total = length rs, ct_blocked = tally (\<lambda>r. qr_action r = ''block'') rs, ct_cached = tally qr_cached rs,
      ct_forwarded = tally (\<lambda>r. \<not> qr_cached r \<and> qr_action r \<notin> {''block'', ''error''}) rs,
      ct_errors = tally (\<lambda>r. qr_action r = ''error'') rs, ct_rewritten = tally (\<lambda>r. qr_action r = ''rewrite'') rs,
      ct_upstream_queries_avoided = tally (\<lambda>r. qr_action r = ''block'') rs + tally qr_cached rs,
      ct_started_at = t\<rparr>"

lemma counts_snoc: "count_origin r (count_action r (counts_of t rs)) = counts_of t (rs @ [r])"
  by (auto simp: count_origin_def count_action_def counts_of_def tally_def Let_def)

lemma record_fields [simp]:
  "live (record_query r s) = count_origin r (count_action r (live s))"
  "recent (record_query r s) = ring_append (recent_size s) r (recent s)"
  "recent_size (record_query r s) = recent_size s"
  "rows (record_query r s) = rows s" "batch (record_query r s) = batch s"
  by (simp_all add: record_query_def enqueue_def Let_def)

definition last_n :: "nat \<Rightarrow> 'a list \<Rightarrow> 'a list" where "last_n n xs = drop (length xs - n) xs"

lemma ring_last_n: "ring_append n x (last_n n xs) = last_n n (xs @ [x])"
  by (cases "n \<le> length xs") (auto simp: ring_append_def last_n_def Suc_diff_le)

lemma length_bump: "length (bump k d) \<le> Suc (length d)"
  by (simp add: bump_def length_dset)

lemma dict_ok_bump: "dict_ok d \<Longrightarrow> dict_ok (bump k d)"
  by (simp add: bump_def)

lemma mset_most_common: "set (most_common d) = set d" "length (most_common d) = length d"
  "dict_ok (most_common d) = dict_ok d"
  by (simp_all add: most_common_def)

lemma lookup_trim:
  "dget (trim_counter keep d) k = (if k \<in> fst ` set (drop keep (most_common d)) then None else dget d k)"
proof -
  have "dget (fold (\<lambda>(n, _). ddel n) ps d) k = (if k \<in> fst ` set ps then None else dget d k)" for ps :: counter
    by (induction ps arbitrary: d) auto
  then show ?thesis by (simp add: trim_counter_def)
qed

lemma dict_ok_trim: "dict_ok d \<Longrightarrow> dict_ok (trim_counter keep d)"
proof -
  have "dict_ok d \<Longrightarrow> dict_ok (fold (\<lambda>(n, _). ddel n) ps d)" for ps d :: counter
    by (induction ps arbitrary: d) auto
  then show "dict_ok d \<Longrightarrow> dict_ok (trim_counter keep d)" by (simp add: trim_counter_def)
qed

lemma keys_length: "dict_ok d \<Longrightarrow> length d = card (fst ` set d)"
  by (metis dict_ok_def distinct_card length_map list.set_map)

lemma keys_lookup: "fst ` set d = {k. dget d k \<noteq> None}"
  by (auto simp: dget_None_iff simp del: not_None_eq) 

lemma length_trim:
  assumes "dict_ok d" and "keep \<le> length d"
  shows "length (trim_counter keep d) = keep"
proof -
  let ?m = "most_common d"
  have m: "distinct (map fst ?m)" using assms(1) mset_most_common(3) [of d] by (simp add: dict_ok_def)
  have disj: "fst ` set (take keep ?m) \<inter> fst ` set (drop keep ?m) = {}"
    using m by (metis append_take_drop_id distinct_append list.set_map map_append)
  have all: "fst ` set d = fst ` set (take keep ?m) \<union> fst ` set (drop keep ?m)"
    by (metis append_take_drop_id image_Un mset_most_common(1) set_append)
  have "fst ` set (trim_counter keep d) = fst ` set d - fst ` set (drop keep ?m)"
    by (auto simp: keys_lookup lookup_trim simp del: not_None_eq)
  also have "\<dots> = fst ` set (take keep ?m)" using all disj by auto
  finally have "length (trim_counter keep d) = card (fst ` set (take keep ?m))"
    by (simp add: keys_length [OF dict_ok_trim [OF assms(1)]])
  also have "\<dots> = length (take keep ?m)"
    using m by (metis distinct_card distinct_take length_map list.set_map take_map)
  finally show ?thesis using assms(2) by (simp add: mset_most_common(2))
qed

lemma trim_keeps_frequent:
  assumes "dict_ok d" and "dget (trim_counter keep d) k = Some n" and "dget d k' = Some n'"
    and "dget (trim_counter keep d) k' = None"
  shows "n' \<le> n"
proof -
  let ?m = "most_common d"
  have sorted: "sorted (map (\<lambda>(_, n). - int n) ?m)" by (simp add: most_common_def)
  have m: "dict_ok ?m" using assms(1) by (simp add: mset_most_common)
  have kn: "(k, n) \<in> set ?m" and kn': "(k', n') \<in> set ?m"
    using assms(2,3) map_of_SomeD by (fastforce simp: mset_most_common lookup_trim split: if_splits)+
  have late: "k' \<in> fst ` set (drop keep ?m)" using assms(3,4) by (auto simp: lookup_trim split: if_splits)
  have early: "k \<notin> fst ` set (drop keep ?m)" using assms(2) by (auto simp: lookup_trim split: if_splits)
  have "(k, n) \<in> set (take keep ?m) \<union> set (drop keep ?m)" using kn by (metis append_take_drop_id set_append)
  then have "(k, n) \<in> set (take keep ?m)" using early by force
  moreover have "(k', n') \<in> set (drop keep ?m)"
  proof -
    from late obtain x where x: "(k', x) \<in> set (drop keep ?m)" by auto
    then have "(k', x) \<in> set ?m" by (rule in_set_dropD)
    with kn' m have "x = n'" by (metis dget_iff option.inject)
    with x show ?thesis by simp
  qed
  moreover have "sorted (map (\<lambda>(_, n). - int n) (take keep ?m) @ map (\<lambda>(_, n). - int n) (drop keep ?m))"
    using sorted by (metis append_take_drop_id map_append)
  ultimately show ?thesis by (fastforce simp: sorted_append)
qed

lemma bounded_top_ok:
  "dict_ok d \<Longrightarrow> dict_ok (bounded_top d)" "dict_ok d \<Longrightarrow> length (bounded_top d) \<le> 5000"
  by (simp_all add: bounded_top_def dict_ok_trim length_trim)

definition tops_ok :: "query_log \<Rightarrow> bool" where
  "tops_ok s \<longleftrightarrow> dict_ok (top_blocked s) \<and> length (top_blocked s) \<le> 5000
     \<and> dict_ok (top_allowed s) \<and> length (top_allowed s) \<le> 5000 \<and> dict_ok (by_client s)"

lemma record_tops:
  "top_blocked (record_query r s) =
     bounded_top (if qr_action r = ''block'' then bump (qr_name r) (top_blocked s) else top_blocked s)"
  "top_allowed (record_query r s) = bounded_top
     (if qr_action r \<notin> {''block'', ''rewrite'', ''error''} then bump (qr_name r) (top_allowed s) else top_allowed s)"
  "by_client (record_query r s) = (if qr_client r \<noteq> [] then bump (qr_client r) (by_client s) else by_client s)"
  by (simp_all add: record_query_def enqueue_def Let_def)

lemma tops_record: "tops_ok s \<Longrightarrow> tops_ok (record_query r s)"
  by (simp add: tops_ok_def record_tops bounded_top_ok dict_ok_bump)

lemma record_run:
  "live (fold record_query rs s) = counts_of t (qs @ rs) \<and> recent (fold record_query rs s) = last_n (recent_size s) (qs @ rs)
     \<and> tops_ok (fold record_query rs s)"
  if "live s = counts_of t qs" and "recent s = last_n (recent_size s) qs" and "tops_ok s"
  using that
proof (induction rs arbitrary: s qs)
  case (Cons r rs)
  from Cons.IH [of "record_query r s" "qs @ [r]"] Cons.prems show ?case
    by (simp add: counts_snoc ring_last_n tops_record)
qed simp

section \<open>The way to the database\<close>

text \<open>What happens to the log: a query is recorded, or the writer takes a turn, due or not.\<close>

datatype log_op = Record query_record | Turn bool

fun log_step :: "log_op \<Rightarrow> query_log \<Rightarrow> query_log" where
  "log_step (Record r) s = record_query r s"
| "log_step (Turn due) s = drain_turn True due False s"

text \<open>The records that found room in the queue.\<close>

fun accepted :: "log_op list \<Rightarrow> query_log \<Rightarrow> query_record list" where
  "accepted [] s = []"
| "accepted (Record r # ops) s =
     (if length (waiting s) < QUEUE_SIZE then r # accepted ops (record_query r s) else accepted ops (record_query r s))"
| "accepted (Turn due # ops) s = accepted ops (drain_turn True due False s)"

definition in_flight :: "query_log \<Rightarrow> query_record list" where
  "in_flight s = batch s @ concat (map (\<lambda>x. case x of None \<Rightarrow> [] | Some r \<Rightarrow> [r]) (waiting s))"

definition saved :: "query_log \<Rightarrow> query_record list" where
  "saved s = (case rows s of None \<Rightarrow> [] | Some rs \<Rightarrow> rs) @ in_flight s"

lemma enqueue_effect:
  "rows s \<noteq> None \<Longrightarrow> saved (record_query r s) =
     (if length (waiting s) < QUEUE_SIZE then saved s @ [r] else saved s)"
  "rows s \<noteq> None \<Longrightarrow> dropped (record_query r s) =
     (if length (waiting s) < QUEUE_SIZE then dropped s else dropped s + 1)"
  by (auto simp: record_query_def enqueue_def Let_def saved_def in_flight_def)

lemma turn_effect:
  assumes "rows s \<noteq> None"
  shows "saved (drain_turn True due st s) = saved s" and "rows (drain_turn True due st s) \<noteq> None"
    and "dropped (drain_turn True due st s) = dropped s"
  using assms
  by (auto simp: drain_turn_def Let_def flush_batch_def saved_def in_flight_def split: list.split option.split)

lemma run_effect:
  assumes "rows s \<noteq> None"
  shows "saved (fold log_step ops s) = saved s @ accepted ops s \<and> rows (fold log_step ops s) \<noteq> None
    \<and> length (accepted ops s) + dropped (fold log_step ops s)
      = dropped s + length (filter (\<lambda>op. case op of Record _ \<Rightarrow> True | Turn _ \<Rightarrow> False) ops)"
  using assms
proof (induction ops arbitrary: s)
  case (Cons op ops)
  show ?case
  proof (cases op)
    case (Record r)
    have "rows (record_query r s) \<noteq> None" using Cons.prems by simp
    from Cons.IH [OF this] enqueue_effect [OF Cons.prems, of r] show ?thesis by (simp add: Record)
  next
    case (Turn due)
    from Cons.IH [OF turn_effect(2) [OF Cons.prems, of due False]] turn_effect [OF Cons.prems, of due False]
    show ?thesis by (simp add: Turn)
  qed
qed simp

lemma drain_saves:
  assumes "rows s \<noteq> None" and "\<And>i. okay i"
  shows "rows (drain_all okay due i s) = Some (saved s) \<and> in_flight (drain_all okay due i s) = []
    \<and> dropped (drain_all okay due i s) = dropped s"
  using assms(1)
proof (induction "length (waiting s)" arbitrary: i s)
  case 0
  have t: "okay i = True" using assms(2) by simp
  have "drain_all okay due i s = drain_end True s" using 0 by (simp add: drain_all.simps [of okay due i s] t)
  then show ?case using 0
    by (auto simp: drain_end_def flush_batch_def saved_def in_flight_def)
next
  case (Suc n)
  have t: "okay i = True" using assms(2) by simp
  have "n = length (waiting (drain_turn True (due i) True s))" using Suc.hyps(2) by simp
  from Suc.hyps(1) [OF this turn_effect(2) [OF Suc.prems], of "Suc i"] turn_effect [OF Suc.prems, of "due i" True] Suc.hyps(2)
  show ?case by (auto simp: drain_all.simps [of okay due i s] t)
qed

lemma signal_effect: "saved (signal_stop s) = saved s" "rows (signal_stop s) = rows s" "dropped (signal_stop s) = dropped s"
  by (simp_all add: signal_stop_def saved_def in_flight_def)

section \<open>Properties\<close>

text \<open>after any queries, the counters are what counting the queries gives, the ring is the last of them,
  newest last, and the tables of names hold at most five thousand each.\<close>

theorem log_counts_queries:
  "live (fold record_query rs (new_log t days n bsz)) = counts_of t rs
    \<and> recent (fold record_query rs (new_log t days n bsz)) = last_n n rs
    \<and> length (top_blocked (fold record_query rs (new_log t days n bsz))) \<le> 5000
    \<and> length (top_allowed (fold record_query rs (new_log t days n bsz))) \<le> 5000"
proof -
  have "live (new_log t days n bsz) = counts_of t []" "recent (new_log t days n bsz) = last_n n []"
      "recent_size (new_log t days n bsz) = n" "tops_ok (new_log t days n bsz)"
    by (simp_all add: new_log_def counts_of_def tally_def last_n_def tops_ok_def)
  from record_run [of "new_log t days n bsz" t "[]" rs] this show ?thesis by (simp add: tops_ok_def)
qed

text \<open>when a table is cut down, the names that go were asked no more often than the names that stay.\<close>

theorem trimming_keeps_the_frequent:
  assumes "dict_ok d" and "keep \<le> length d"
  shows "length (trim_counter keep d) = keep
    \<and> (\<forall>k n k' n'. dget (trim_counter keep d) k = Some n \<longrightarrow> dget d k' = Some n'
          \<longrightarrow> dget (trim_counter keep d) k' = None \<longrightarrow> n' \<le> n)"
  using length_trim [OF assms] trim_keeps_frequent [OF assms(1)] by blast

theorem trimming_keeps_the_frequent_witness:
  "length (trim_counter 2 [(''a'', 3), (''b'', 1), (''c'', 2)]) = 2"
  using trimming_keeps_the_frequent [of "[(''a'', 3), (''b'', 1), (''c'', 2)]" 2] by (simp add: dict_ok_def)

text \<open>C37: nothing that was queued is lost, repeated or reordered: with the database open and its statements
  succeeding, a stop writes out, after the rows already there, exactly the records the queue had room
  for, in order, and every other record is counted as dropped.\<close>

theorem accepted_records_are_written:
  assumes "rows s = Some rs" and "in_flight s = []"
  shows "rows (drain_all (\<lambda>_. True) due i (signal_stop (fold log_step ops s))) = Some (rs @ accepted ops s)
    \<and> length (accepted ops s) + dropped (drain_all (\<lambda>_. True) due i (signal_stop (fold log_step ops s)))
      = dropped s + length (filter (\<lambda>op. case op of Record _ \<Rightarrow> True | Turn _ \<Rightarrow> False) ops)"
proof -
  have open_db: "rows s \<noteq> None" and saved: "saved s = rs" using assms by (simp_all add: saved_def)
  let ?t = "signal_stop (fold log_step ops s)"
  have "rows ?t \<noteq> None" using run_effect [OF open_db, of ops] by (simp add: signal_effect)
  from drain_saves [OF this, of "\<lambda>_. True" due i] run_effect [OF open_db, of ops] saved show ?thesis
    by (simp add: signal_effect)
qed

definition sample_record :: "str \<Rightarrow> query_record" where
  "sample_record n = \<lparr>qr_ts = 5, qr_client = ''c'', qr_name = n, qr_qtype = ''A'', qr_action = ''block'', qr_reason = [],
     qr_rule = [], qr_elapsed_ms = 1, qr_cached = False, qr_group_name = ''default''\<rparr>"

theorem accepted_records_are_written_witness:
  "rows (drain_all (\<lambda>_. True) (\<lambda>_. False) 0 (signal_stop (fold log_step
      [Record (sample_record ''a''), Turn False, Record (sample_record ''b'')] ((new_log 0 7 5 200)\<lparr>rows := Some []\<rparr>))))
   = Some [sample_record ''a'', sample_record ''b'']"
proof -
  let ?ops = "[Record (sample_record ''a''), Turn False, Record (sample_record ''b'')]"
  let ?s = "(new_log 0 7 5 200)\<lparr>rows := Some []\<rparr>"
  have "accepted ?ops ?s = [sample_record ''a'', sample_record ''b'']"
    by (simp add: new_log_def QUEUE_SIZE_def record_query_def enqueue_def drain_turn_def Let_def)
  moreover have "rows ?s = Some []" "in_flight ?s = []" by (simp_all add: new_log_def in_flight_def)
  ultimately show ?thesis using accepted_records_are_written [of ?s "[]" "\<lambda>_. False" 0 ?ops] by simp
qed

lemma bucket_sum:
  "sum_list (map (\<lambda>i. length (filter (\<lambda>r. f r = int i) rs)) [0..<n])
     = length (filter (\<lambda>r. 0 \<le> f r \<and> f r < int n) rs)"
proof (induction n)
  case (Suc n)
  have "length (filter (\<lambda>r. 0 \<le> f r \<and> f r < int (Suc n)) rs)
      = length (filter (\<lambda>r. 0 \<le> f r \<and> f r < int n) rs) + length (filter (\<lambda>r. f r = int n) rs)"
    by (induction rs) auto
  with Suc show ?case by simp
qed (induction rs, auto)

lemma bucket_range:
  assumes "0 < w" and "start \<le> qr_ts r"
  shows "0 \<le> bucket_of start w r" and "bucket_of start w r < int n \<longleftrightarrow> qr_ts r < start + of_nat n * w"
proof -
  have q: "0 \<le> (qr_ts r - start) / w" using assms by simp
  then show "0 \<le> bucket_of start w r" by (simp add: bucket_of_def py_int_def)
  have "bucket_of start w r < int n \<longleftrightarrow> (qr_ts r - start) / w < of_nat n"
    using q by (simp add: bucket_of_def py_int_def floor_less_iff)
  then show "bucket_of start w r < int n \<longleftrightarrow> qr_ts r < start + of_nat n * w"
    using assms(1) by (simp add: field_simps)
qed

text \<open>the history leaves nothing out and counts nothing twice: over all buckets, the queries allowed and
  blocked are together the rows of the last hours.\<close>

theorem history_is_complete:
  assumes "rows s = Some rs" and "0 < buckets" and "0 < hours"
  shows "\<exists>series. history s now hours buckets = Some series \<and> length series = buckets
    \<and> sum_list (map (\<lambda>(_, a, b). a + b) series)
      = length (filter (\<lambda>r. now - of_nat (hours * 3600) \<le> qr_ts r \<and> qr_ts r < now) rs)"
proof -
  let ?w = "of_nat (hours * 3600) / of_nat buckets :: rat" and ?start = "now - of_nat (hours * 3600)"
  let ?rs = "filter (\<lambda>r. ?start \<le> qr_ts r) rs"
  let ?row = "\<lambda>i. (?start + of_nat i * ?w,
      length (filter (\<lambda>r. bucket_of ?start ?w r = int i \<and> qr_action r \<noteq> ''block'') ?rs),
      length (filter (\<lambda>r. bucket_of ?start ?w r = int i \<and> qr_action r = ''block'') ?rs))"
  have w: "0 < ?w" using assms(2,3) by simp
  have "?start + of_nat buckets * ?w = now" using assms(2) by simp
  then have inside: "0 \<le> bucket_of ?start ?w r \<and> bucket_of ?start ?w r < int buckets \<longleftrightarrow> qr_ts r < now"
    if "r \<in> set ?rs" for r
    using bucket_range(1) [OF w, of ?start r] bucket_range(2) [OF w, of ?start r buckets] that by simp
  have h: "history s now hours buckets = Some (map ?row [0..<buckets])"
    using assms(1,2) by (simp add: history_def Let_def)
  have both: "(\<lambda>(_, a, b). a + b) (?row i) = length (filter (\<lambda>r. bucket_of ?start ?w r = int i) ?rs)" for i
    unfolding prod.case by (induction rs) auto
  have "sum_list (map (\<lambda>(_, a, b). a + b) (map ?row [0..<buckets]))
      = sum_list (map (\<lambda>i. length (filter (\<lambda>r. bucket_of ?start ?w r = int i) ?rs)) [0..<buckets])"
    unfolding map_map comp_def both ..
  also have "\<dots> = length (filter (\<lambda>r. 0 \<le> bucket_of ?start ?w r \<and> bucket_of ?start ?w r < int buckets) ?rs)"
    by (rule bucket_sum)
  also have "\<dots> = length (filter (\<lambda>r. qr_ts r < now) ?rs)"
    using inside by (metis (mono_tags, lifting) filter_cong)
  also have "\<dots> = length (filter (\<lambda>r. ?start \<le> qr_ts r \<and> qr_ts r < now) rs)"
    by (simp add: conj_commute)
  finally show ?thesis using h by auto
qed

theorem history_is_complete_witness:
  "\<exists>series. history ((new_log 0 7 5 200)\<lparr>rows := Some [sample_record ''a'']\<rparr>) 10 1 2 = Some series
     \<and> sum_list (map (\<lambda>(_, a, b). a + b) series) = 1"
  using history_is_complete [of "(new_log 0 7 5 200)\<lparr>rows := Some [sample_record ''a'']\<rparr>" "[sample_record ''a'']" 2 1 10]
  by (auto simp: sample_record_def)

text \<open>
  Without a database a search looks only among the newest \<open>limit\<close> queries, not for the newest \<open>limit\<close>
  matches: here the match is the second newest of two.
\<close>

lemma search_misses_older_match:
  "search_log (fold record_query [sample_record ''x.a'', sample_record ''y.b''] (new_log 0 7 5 200)) ''x'' 1 = []"
  "search_log (fold record_query [sample_record ''x.a'', sample_record ''y.b''] (new_log 0 7 5 200)) ''x'' 2
     = [sample_record ''x.a'']"
  by code_simp+

end
