(* ===== verification/Firewall.thy ===== *)
theory Firewall
  imports WireGuard
begin

text \<open>
  The firewall of the gateway, \<open>gateway/firewall.py\<close>: the checks on what goes into the ruleset, the text of
  the ruleset line by line, and its installation.  The state is which of the two tables the kernel
  holds and from which texts; how each command ends is an argument.
\<close>

section \<open>What goes into the text\<close>

definition NAT_TABLE :: str where "NAT_TABLE = ''symbivpn''"
definition FILTER_TABLE :: str where "FILTER_TABLE = ''symbivpn_filter''"

definition DOH_ENDPOINT_ADDRESSES :: "str list" where
  "DOH_ENDPOINT_ADDRESSES =
    [''8.8.8.8'', ''8.8.4.4'', ''1.1.1.1'', ''1.0.0.1'', ''1.1.1.2'', ''1.0.0.2'', ''1.1.1.3'', ''1.0.0.3'',
    ''9.9.9.9'', ''149.112.112.112'', ''208.67.222.222'', ''208.67.220.220'', ''94.140.14.14'',
    ''94.140.15.15'', ''185.228.168.9'', ''185.228.169.9'', ''76.76.2.0'', ''76.76.10.0'', ''45.90.28.0'',
    ''45.90.30.0'']"

definition DOH_ENDPOINT_ADDRESSES_V6 :: "str list" where
  "DOH_ENDPOINT_ADDRESSES_V6 =
    [''2001:4860:4860::8888'', ''2001:4860:4860::8844'', ''2606:4700:4700::1111'', ''2606:4700:4700::1001'',
    ''2620:fe::fe'', ''2620:fe::9'', ''2a10:50c0::ad1:ff'', ''2a10:50c0::ad2:ff'']"

text \<open>\<open>_INTERFACE_NAME\<close>.  In a pattern, \<open>$\<close> also matches before a line break that ends the text.\<close>

definition interface_char :: "char \<Rightarrow> bool" where
  "interface_char c = (is_alnum c \<or> c \<in> set ''_.@:-'')"

definition interface_match :: "str \<Rightarrow> bool" where
  "interface_match s =
     (let t = (if s \<noteq> [] \<and> last s = CHR 0x0A then butlast s else s) in
      1 \<le> length t \<and> length t \<le> 15 \<and> list_all interface_char t)"

definition check_interface :: "str \<Rightarrow> str res" where
  "check_interface name = (if interface_match name then Inr name else Inl FirewallError)"

definition check_network :: "str \<Rightarrow> str res" where
  "check_network v = (case ip_network v of None \<Rightarrow> Inl FirewallError | Some n \<Rightarrow> Inr (net_text n))"

record gateway_rules =
  gw_ap :: str
  gw_uplink :: str
  gw_subnet :: network
  gw_dns_port :: int
  gw_dashboard_port :: int
  gw_vpn :: "str option"
  gw_block_bypass :: bool
  gw_isolate :: bool
  gw_uplink_subnet :: str
  gw_shared :: "str list"
  gw_allow_ipv6 :: bool
  gw_extra_ports :: "int list"
  gw_udp_ports :: "int list"
  gw_tcp_ports :: "int list"

definition usable_ports :: "int list \<Rightarrow> int list" where
  "usable_ports ports = sort (remdups (filter (\<lambda>p. 0 < p \<and> p < 65536) ports))"

definition port_list :: "int list \<Rightarrow> str" where
  "port_list ports = comma (map dec_int (usable_ports ports))"

definition quote_name :: "str \<Rightarrow> str" where "quote_name s = CHR 0x22 # s @ [CHR 0x22]"

section \<open>The ruleset\<close>

text \<open>The parts of the text that depend on the settings, each as its lines.\<close>

definition dashboard_lines :: "str \<Rightarrow> gateway_rules \<Rightarrow> str list" where
  "dashboard_lines ap r =
     map (\<lambda>port. ''        iifname '' @ quote_name ap @ '' tcp dport '' @ dec_int port @ '' accept'')
       (gw_dashboard_port r # gw_extra_ports r)"

definition bypass_lines :: "str \<Rightarrow> str list" where
  "bypass_lines ap =
    [''        # DNS-over-TLS: reject rather than drop, so Android's Private DNS gives'',
     ''        # up immediately and falls back to us instead of retrying for a minute.'',
     ''        iifname '' @ quote_name ap @ '' tcp dport 853 reject with tcp reset'',
     ''        iifname '' @ quote_name ap @ '' udp dport 853 reject'',
     ''        # DNS-over-QUIC.'',
     ''        iifname '' @ quote_name ap @ '' udp dport 784 reject'',
     ''        iifname '' @ quote_name ap @ '' udp dport 8853 reject'',
     ''        # Public resolvers that browsers dial by address rather than by name.'',
     ''        iifname '' @ quote_name ap @ '' ip daddr { '' @ comma DOH_ENDPOINT_ADDRESSES @ '' } reject with icmp type admin-prohibited'',
     ''        iifname '' @ quote_name ap @ '' ip6 daddr { '' @ comma DOH_ENDPOINT_ADDRESSES_V6 @ '' } reject with icmpv6 type admin-prohibited'']"

definition isolation_lines :: "str \<Rightarrow> str \<Rightarrow> str list" where
  "isolation_lines ap net =
    [''        # Clients reach the internet *through* the joined network, but not the'',
     ''        # hosts sharing it. On a hotel or cafe LAN that segment is full of'',
     ''        # strangers' machines, and this is the isolation that makes plugging in'',
     ''        # safe. It must come before the accept below, which would match first.'',
     ''        iifname '' @ quote_name ap @ '' ip daddr '' @ net @ '' drop'']"

definition shared_lines :: "str \<Rightarrow> str list" where
  "shared_lines members =
    [''        # Networks allowed to reach one another, so discovery leads somewhere:'',
     ''        # finding a printer or a TV is no use if the connection that follows is'',
     ''        # dropped. Placed after the isolation rule above, so the network the'',
     ''        # gateway joined is never opened up by this.'',
     ''        ip saddr { '' @ members @ '' } ip daddr { '' @ members @ '' } accept'']"

definition ipv6_line :: "str \<Rightarrow> str \<Rightarrow> bool \<Rightarrow> str" where
  "ipv6_line ap out allow =
     (if allow then ''        iifname '' @ quote_name ap @ '' oifname '' @ quote_name out @ '' accept''
      else ''        iifname '' @ quote_name ap @ '' ip6 daddr ::/0 reject with icmpv6 type ''
        @ ''admin-prohibited  # no unfiltered IPv6 path; fail fast to IPv4'')"

text \<open>The fixed text up to the dashboard's ports, from there into the forward chain, and the rest.\<close>

definition head_lines :: "str \<Rightarrow> str \<Rightarrow> gateway_rules \<Rightarrow> str list" where
  "head_lines ap out r =
    [''#!/usr/sbin/nft -f'',
     ''# Generated by SymbiVPN. Do not edit; regenerated whenever the uplink changes.'',
     [],
     ''table ip '' @ NAT_TABLE @ '' {'',
     ''    chain prerouting {'',
     ''        type nat hook prerouting priority dstnat; policy accept;'',
     [],
     ''        # Every DNS query from a client is answered by us, whatever resolver the'',
     ''        # device thinks it is talking to.'',
     ''        iifname '' @ quote_name ap @ '' udp dport 53 redirect to :'' @ dec_int (gw_dns_port r),
     ''        iifname '' @ quote_name ap @ '' tcp dport 53 redirect to :'' @ dec_int (gw_dns_port r),
     ''    }'',
     [],
     ''    chain postrouting {'',
     ''        type nat hook postrouting priority srcnat; policy accept;'',
     [],
     ''        ip saddr '' @ net_text (gw_subnet r) @ '' oifname '' @ quote_name out @ '' masquerade'',
     ''    }'',
     ''}'',
     [],
     ''table inet '' @ FILTER_TABLE @ '' {'',
     ''    chain input {'',
     ''        type filter hook input priority filter; policy accept;'',
     [],
     ''        iifname '' @ quote_name ''lo'' @ '' accept'',
     ''        ct state established,related accept'',
     [],
     ''        # Services the gateway offers to its own clients, and to nobody else.'',
     ''        iifname '' @ quote_name ap @ '' udp dport { 53, 67 } accept'',
     ''        iifname '' @ quote_name ap @ '' tcp dport '' @ dec_int (gw_dns_port r) @ '' accept'',
     ''        iifname '' @ quote_name ap @ '' icmp type { echo-request, destination-unreachable } accept'',
     [],
     ''        # Discovery traffic, which the reflector picks up and re-sends on the'',
     ''        # other networks. Harmless to accept even when reflection is off: these'',
     ''        # are link-local groups that never leave the segment.'',
     ''        ip daddr { 224.0.0.251, 239.255.255.250 } accept'',
     ''        ip6 daddr { ff02::fb, ff02::c } accept'']"

definition middle_lines :: "str \<Rightarrow> str \<Rightarrow> str \<Rightarrow> str list" where
  "middle_lines uplink tcp udp =
    [[],
     ''        # Nothing SymbiVPN opens may answer the network the laptop has'',
     ''        # joined -- that network is untrusted, and on a hotel or cafe LAN it is'',
     ''        # full of strangers. Only our own ports are named: the policy here is'',
     ''        # accept so that whatever else this machine runs keeps working.'',
     ''        iifname '' @ quote_name uplink @ '' tcp dport { '' @ tcp @ '' } drop'',
     ''        iifname '' @ quote_name uplink @ '' udp dport { '' @ udp @ '' } drop'',
     ''    }'',
     [],
     ''    chain forward {'',
     ''        type filter hook forward priority filter; policy drop;'',
     [],
     ''        ct state established,related accept'',
     ''        ct state invalid drop'']"

definition accept_lines :: "str \<Rightarrow> str \<Rightarrow> str list" where
  "accept_lines ap out =
    [''        # Clients reach the internet only through the intended uplink. With a'',
     ''        # VPN configured that is the tunnel, so a tunnel that goes down takes'',
     ''        # client connectivity with it rather than leaking in the clear.'',
     ''        iifname '' @ quote_name ap @ '' oifname '' @ quote_name out @ '' ip version 4 accept'']"

definition tail_lines :: "str \<Rightarrow> str \<Rightarrow> str list" where
  "tail_lines ap uplink =
    [[],
     ''        # With a VPN configured, the line above only accepted traffic leaving'',
     ''        # through the tunnel; this stops anything else escaping via the real'',
     ''        # uplink. Without a VPN the two name the same interface and this is'',
     ''        # redundant, which is why isolation above is written against the'',
     ''        # subnet rather than the interface.'',
     ''        iifname '' @ quote_name ap @ '' oifname '' @ quote_name uplink @ '' drop'',
     ''    }'',
     [],
     ''    chain output {'',
     ''        type filter hook output priority filter; policy accept;'',
     ''    }'',
     ''}'']"

text \<open>A part that is present starts with an empty line.\<close>

definition ruleset_lines :: "gateway_rules \<Rightarrow> str list \<Rightarrow> str list \<Rightarrow> str list" where
  "ruleset_lines r isolation shared =
     (let ap = gw_ap r; out = (case gw_vpn r of None \<Rightarrow> gw_uplink r | Some v \<Rightarrow> if v = [] then gw_uplink r else v);
          tcp = port_list (gw_dns_port r # gw_dashboard_port r # gw_extra_ports r @ gw_tcp_ports r);
          udp = port_list (gw_dns_port r # 67 # 123 # gw_udp_ports r)
      in head_lines ap out r @ dashboard_lines ap r @ middle_lines (gw_uplink r) tcp udp
         @ (if gw_block_bypass r then [] # bypass_lines ap else [])
         @ isolation @ shared
         @ [] # accept_lines ap out @ ipv6_line ap out (gw_allow_ipv6 r) # tail_lines ap (gw_uplink r))"

definition build_ruleset :: "gateway_rules \<Rightarrow> str res" where
  "build_ruleset r =
     rbind (check_interface (gw_ap r)) (\<lambda>ap.
     rbind (check_interface (gw_uplink r)) (\<lambda>_.
     rbind (case gw_vpn r of None \<Rightarrow> Inr [] | Some v \<Rightarrow> if v = [] then Inr [] else check_interface v) (\<lambda>_.
     rbind (if gw_isolate r \<and> gw_uplink_subnet r \<noteq> []
            then rbind (check_network (gw_uplink_subnet r)) (\<lambda>net. Inr ([] # isolation_lines ap net))
            else Inr []) (\<lambda>isolation.
     rbind (if 1 < length (gw_shared r)
            then rbind (rmap check_network (gw_shared r)) (\<lambda>ns. Inr ([] # shared_lines (comma ns)))
            else Inr []) (\<lambda>shared.
     Inr (join newline (ruleset_lines r isolation shared) @ newline))))))"

section \<open>Installation\<close>

text \<open>
  How a run of the program ends: it could not be run or took too long, or it exited, with status zero or
  not.  \<open>fw_tables\<close> are the tables of ours that the kernel holds, each with the texts it was made of:
  loading a text into a table that exists adds to it.
\<close>

datatype ran = NotRun | Exited bool

record firewall =
  fw_nft :: bool
  fw_tables :: "(str, str list) dict"
  fw_forwarding :: bool

definition run_delete :: "ran \<Rightarrow> str \<Rightarrow> firewall \<Rightarrow> firewall \<times> unit res" where
  "run_delete r table fw =
     (case r of NotRun \<Rightarrow> (fw, Inl FirewallError)
      | Exited okay \<Rightarrow> (if okay then fw\<lparr>fw_tables := ddel table (fw_tables fw)\<rparr> else fw, Inr ()))"

definition fw_teardown :: "ran \<Rightarrow> ran \<Rightarrow> firewall \<Rightarrow> firewall \<times> unit res" where
  "fw_teardown r1 r2 fw =
     (if \<not> fw_nft fw then (fw, Inr ())
      else let (fw, x) = run_delete r1 NAT_TABLE fw in
           case x of Inl e \<Rightarrow> (fw, Inl e) | Inr _ \<Rightarrow> run_delete r2 FILTER_TABLE fw)"

definition add_text :: "str \<Rightarrow> str \<Rightarrow> (str, str list) dict \<Rightarrow> (str, str list) dict" where
  "add_text table t d = dset table ((case dget d table of None \<Rightarrow> [] | Some ts \<Rightarrow> ts) @ [t]) d"

definition run_load :: "ran \<Rightarrow> str \<Rightarrow> firewall \<Rightarrow> firewall \<times> unit res" where
  "run_load r t fw =
     (case r of Exited True \<Rightarrow>
        (fw\<lparr>fw_tables := add_text FILTER_TABLE t (add_text NAT_TABLE t (fw_tables fw))\<rparr>, Inr ())
      | _ \<Rightarrow> (fw, Inl FirewallError))"

text \<open>\<open>apply_rules\<close>: the old tables go before the new text is even built.\<close>

definition fw_apply :: "ran \<times> ran \<times> ran \<Rightarrow> gateway_rules \<Rightarrow> firewall \<Rightarrow> firewall \<times> unit res" where
  "fw_apply runs r fw =
     (let (r1, r2, r3) = runs in
      if \<not> fw_nft fw then (fw, Inl FirewallError)
      else let (fw, x) = fw_teardown r1 r2 fw in
        case x of Inl e \<Rightarrow> (fw, Inl e)
        | Inr _ \<Rightarrow> (case build_ruleset r of Inl e \<Rightarrow> (fw, Inl e) | Inr t \<Rightarrow> run_load r3 t fw))"

text \<open>\<open>enable_forwarding\<close>, with the outcome of each write; \<open>fw_forwarding\<close> is the IPv4 switch.\<close>

definition enable_forwarding :: "bool \<Rightarrow> bool \<Rightarrow> bool \<Rightarrow> firewall \<Rightarrow> firewall \<times> unit res" where
  "enable_forwarding okay4 okay6 ipv6 fw =
     (if \<not> okay4 then (fw, Inl FirewallError)
      else (fw\<lparr>fw_forwarding := True\<rparr>, if ipv6 \<and> \<not> okay6 then Inl FirewallError else Inr ()))"

definition rules_installed :: "firewall \<Rightarrow> bool" where
  "rules_installed fw = (fw_nft fw \<and> fw_tables fw \<noteq> [])"

section \<open>The lines of the text\<close>

definition clean_names :: "gateway_rules \<Rightarrow> bool" where
  "clean_names r \<longleftrightarrow> one_line (gw_ap r) \<and> one_line (gw_uplink r) \<and> (\<forall>v. gw_vpn r = Some v \<longrightarrow> one_line v)"

lemma interface_char_plain: "interface_char c \<Longrightarrow> c \<noteq> CHR 0x0A \<and> c \<noteq> CHR 0x22 \<and> c \<noteq> CHR '' '' \<and> c \<noteq> CHR ''#''"
  by (auto simp: interface_char_def is_alnum_def Let_def code_pt_def)

lemma interface_one_line: "interface_match s \<Longrightarrow> one_line s \<longleftrightarrow> last s \<noteq> CHR 0x0A"
proof -
  assume m: "interface_match s"
  then have "s \<noteq> []" by (auto simp: interface_match_def)
  moreover have "one_line s" if "last s \<noteq> CHR 0x0A"
  proof -
    have "list_all interface_char s" using m that by (simp add: interface_match_def split: if_splits)
    then show ?thesis using interface_char_plain by (auto simp: one_line_def list_all_iff)
  qed
  ultimately show "one_line s \<longleftrightarrow> last s \<noteq> CHR 0x0A" by (metis last_in_set one_line_def)
qed

lemma dec_int_one_line [simp]: "one_line (dec_int n)"
  by (simp add: dec_int_def)

lemma comma_one_line [simp]: "list_all one_line xs \<Longrightarrow> one_line (comma xs)"
  unfolding comma_def by (rule join_one_line) simp

lemma port_list_one_line [simp]: "one_line (port_list ps)"
  by (simp add: port_list_def list_all_iff)

lemma quote_one_line [simp]: "one_line (quote_name s) = one_line s"
  by (simp add: quote_name_def)

lemma doh_one_line [simp]: "one_line (comma DOH_ENDPOINT_ADDRESSES)" "one_line (comma DOH_ENDPOINT_ADDRESSES_V6)"
  by (simp_all add: DOH_ENDPOINT_ADDRESSES_def DOH_ENDPOINT_ADDRESSES_V6_def)

lemma table_one_line [simp]: "one_line NAT_TABLE" "one_line FILTER_TABLE"
  by (simp_all add: NAT_TABLE_def FILTER_TABLE_def)

lemma part_lines_one_line:
  "one_line ap \<Longrightarrow> list_all one_line (dashboard_lines ap r)"
  "one_line ap \<Longrightarrow> list_all one_line (bypass_lines ap)"
  "one_line ap \<Longrightarrow> one_line net \<Longrightarrow> list_all one_line (isolation_lines ap net)"
  "one_line ms \<Longrightarrow> list_all one_line (shared_lines ms)"
  "one_line ap \<Longrightarrow> one_line out \<Longrightarrow> one_line (ipv6_line ap out b)"
  "one_line ap \<Longrightarrow> one_line out \<Longrightarrow> list_all one_line (accept_lines ap out)"
  by (simp_all add: dashboard_lines_def bypass_lines_def isolation_lines_def shared_lines_def ipv6_line_def
      accept_lines_def list_all_iff)

lemma frame_lines_one_line:
  "one_line ap \<Longrightarrow> one_line out \<Longrightarrow> list_all one_line (head_lines ap out r)"
  "one_line up \<Longrightarrow> one_line tcp \<Longrightarrow> one_line udp \<Longrightarrow> list_all one_line (middle_lines up tcp udp)"
  "one_line ap \<Longrightarrow> one_line up \<Longrightarrow> list_all one_line (tail_lines ap up)"
  by (simp_all add: head_lines_def middle_lines_def tail_lines_def)

section \<open>Reading a chain back\<close>

text \<open>The rules of a chain: its lines up to the closing brace, without blank lines, comments and indentation.\<close>

definition rule_texts :: "str list \<Rightarrow> str list" where
  "rule_texts ls = map (drop 8) (filter (\<lambda>l. l \<noteq> [] \<and> \<not> prefix ''        #'' l) ls)"

definition chain_rules :: "str \<Rightarrow> str \<Rightarrow> str list" where
  "chain_rules c t =
     rule_texts (takeWhile (\<lambda>l. l \<noteq> ''    }'')
       (tl (dropWhile (\<lambda>l. l \<noteq> ''    chain '' @ c @ '' {'') (split_on CHR 0x0A t))))"

definition outgoing :: "gateway_rules \<Rightarrow> str" where
  "outgoing r = (case gw_vpn r of None \<Rightarrow> gw_uplink r | Some v \<Rightarrow> if v = [] then gw_uplink r else v)"

definition from_client :: "gateway_rules \<Rightarrow> str" where "from_client r = ''iifname '' @ quote_name (gw_ap r)"

definition bypass_rules :: "gateway_rules \<Rightarrow> str list" where
  "bypass_rules r =
     [from_client r @ '' tcp dport 853 reject with tcp reset'', from_client r @ '' udp dport 853 reject'',
      from_client r @ '' udp dport 784 reject'', from_client r @ '' udp dport 8853 reject'',
      from_client r @ '' ip daddr { '' @ comma DOH_ENDPOINT_ADDRESSES @ '' } reject with icmp type admin-prohibited'',
      from_client r @ '' ip6 daddr { '' @ comma DOH_ENDPOINT_ADDRESSES_V6 @ '' } reject with icmpv6 type admin-prohibited'']"

definition isolation_rule :: "gateway_rules \<Rightarrow> network \<Rightarrow> str" where
  "isolation_rule r n = from_client r @ '' ip daddr '' @ net_text n @ '' drop''"

definition shared_rule :: "network list \<Rightarrow> str" where
  "shared_rule ns = ''ip saddr { '' @ comma (map net_text ns) @ '' } ip daddr { '' @ comma (map net_text ns) @ '' } accept''"

definition out_rule :: "gateway_rules \<Rightarrow> str \<Rightarrow> str" where
  "out_rule r rest = from_client r @ '' oifname '' @ quote_name (outgoing r) @ rest"

definition ipv6_reject :: "gateway_rules \<Rightarrow> str" where
  "ipv6_reject r = from_client r @ '' ip6 daddr ::/0 reject with icmpv6 type admin-prohibited  # no unfiltered IPv6 path; fail fast to IPv4''"

definition uplink_drop :: "gateway_rules \<Rightarrow> str" where
  "uplink_drop r = from_client r @ '' oifname '' @ quote_name (gw_uplink r) @ '' drop''"

definition drop_policy :: str where "drop_policy = ''type filter hook forward priority filter; policy drop;''"
definition established :: str where "established = ''ct state established,related accept''"
definition chain_start :: "str list" where "chain_start = [drop_policy, established, ''ct state invalid drop'']"

definition forward_rules :: "gateway_rules \<Rightarrow> str list \<Rightarrow> str list \<Rightarrow> str list" where
  "forward_rules r isolation shared =
     chain_start
     @ (if gw_block_bypass r then bypass_rules r else []) @ isolation @ shared
     @ [out_rule r '' ip version 4 accept'',
        (if gw_allow_ipv6 r then out_rule r '' accept''
         else ipv6_reject r),
        uplink_drop r]"

lemma rule_texts_simps [simp]:
  "rule_texts [] = []" "rule_texts (xs @ ys) = rule_texts xs @ rule_texts ys" "rule_texts ([] # ls) = rule_texts ls"
  by (simp_all add: rule_texts_def)

lemma part_rules:
  "rule_texts (bypass_lines (gw_ap r)) = bypass_rules r"
  "rule_texts (isolation_lines (gw_ap r) (net_text n)) = [isolation_rule r n]"
  "rule_texts (shared_lines ms) = [''ip saddr { '' @ ms @ '' } ip daddr { '' @ ms @ '' } accept'']"
  "rule_texts (accept_lines (gw_ap r) (outgoing r)) = [out_rule r '' ip version 4 accept'']"
  "rule_texts [ipv6_line (gw_ap r) (outgoing r) (gw_allow_ipv6 r)]
     = [if gw_allow_ipv6 r then out_rule r '' accept''
         else ipv6_reject r]"
  by (simp_all add: rule_texts_def bypass_lines_def bypass_rules_def isolation_lines_def isolation_rule_def
      shared_lines_def accept_lines_def out_rule_def ipv6_line_def from_client_def ipv6_reject_def)

lemma tail_rules:
  "rule_texts (takeWhile (\<lambda>l. l \<noteq> ''    }'') (tail_lines (gw_ap r) (gw_uplink r) @ ys))
     = [uplink_drop r]"
  "rule_texts (drop 10 (middle_lines up tcp udp)) 
     = chain_start"
  by (simp_all add: rule_texts_def tail_lines_def middle_lines_def from_client_def uplink_drop_def chain_start_def
      drop_policy_def established_def)

lemma no_brace:
  "''    }'' \<notin> set (bypass_lines ap)" "''    }'' \<notin> set (isolation_lines ap net)"
  "''    }'' \<notin> set (shared_lines ms)" "''    }'' \<notin> set (accept_lines ap out)"
  "''    }'' \<noteq> ipv6_line ap out b" "''    }'' \<notin> set (drop 10 (middle_lines up tcp udp))"
  by (simp_all add: bypass_lines_def isolation_lines_def shared_lines_def accept_lines_def ipv6_line_def middle_lines_def)

lemma takeWhile_upto: "c \<notin> set xs \<Longrightarrow> takeWhile (\<lambda>l. l \<noteq> c) (xs @ ys) = xs @ takeWhile (\<lambda>l. l \<noteq> c) ys"
  by (induction xs) auto

lemma forward_lines:
  assumes "isolation = [] \<or> isolation = [] # isolation_lines (gw_ap r) (net_text n)"
    and "shared = [] \<or> shared = [] # shared_lines ms"
    and "split_on CHR 0x0A t = ruleset_lines r isolation shared @ [[]]"
  shows "chain_rules ''forward'' t = forward_rules r
    (if isolation = [] then [] else [isolation_rule r n])
    (if shared = [] then [] else [''ip saddr { '' @ ms @ '' } ip daddr { '' @ ms @ '' } accept''])"
proof -
  let ?h = "''    chain forward {''"
  let ?out = "outgoing r"
  let ?tcp = "port_list (gw_dns_port r # gw_dashboard_port r # gw_extra_ports r @ gw_tcp_ports r)"
  let ?udp = "port_list (gw_dns_port r # 67 # 123 # gw_udp_ports r)"
  let ?body = "(if gw_block_bypass r then [] # bypass_lines (gw_ap r) else [])
         @ isolation @ shared
         @ [] # accept_lines (gw_ap r) ?out @ ipv6_line (gw_ap r) ?out (gw_allow_ipv6 r) # tail_lines (gw_ap r) (gw_uplink r)"
  have s: "split_on CHR 0x0A t = head_lines (gw_ap r) ?out r @ dashboard_lines (gw_ap r) r
      @ middle_lines (gw_uplink r) ?tcp ?udp @ ?body @ [[]]"
    unfolding assms(3) ruleset_lines_def Let_def outgoing_def by simp
  have head: "\<forall>l \<in> set (head_lines (gw_ap r) ?out r). l \<noteq> ?h"
    by (simp add: head_lines_def NAT_TABLE_def FILTER_TABLE_def)
  have dash: "\<forall>l \<in> set (dashboard_lines (gw_ap r) r). l \<noteq> ?h"
    by (auto simp: dashboard_lines_def)
  have mid: "tl (dropWhile (\<lambda>l. l \<noteq> ?h) (middle_lines (gw_uplink r) ?tcp ?udp @ ys))
      = drop 10 (middle_lines (gw_uplink r) ?tcp ?udp) @ ys" for ys
    by (simp add: middle_lines_def)
  have d: "tl (dropWhile (\<lambda>l. l \<noteq> ''    chain '' @ ''forward'' @ '' {'') (split_on CHR 0x0A t))
      = drop 10 (middle_lines (gw_uplink r) ?tcp ?udp) @ ?body @ [[]]"
    using dropWhile_append2 [of "head_lines (gw_ap r) ?out r" "\<lambda>l. l \<noteq> ?h"]
      dropWhile_append2 [of "dashboard_lines (gw_ap r) r" "\<lambda>l. l \<noteq> ?h"] head dash
    unfolding s by (simp add: mid)
  let ?pre = "drop 10 (middle_lines (gw_uplink r) ?tcp ?udp) @ (if gw_block_bypass r then [] # bypass_lines (gw_ap r) else [])
         @ isolation @ shared
         @ [] # accept_lines (gw_ap r) ?out @ [ipv6_line (gw_ap r) ?out (gw_allow_ipv6 r)]"
  have pre: "''    }'' \<notin> set ?pre" using assms(1,2) by (elim disjE) (simp_all add: no_brace)
  have "rule_texts (takeWhile (\<lambda>l. l \<noteq> ''    }'') (?pre @ tail_lines (gw_ap r) (gw_uplink r) @ [[]]))
     = rule_texts ?pre @ [uplink_drop r]"
    by (subst takeWhile_upto [OF pre]) (simp only: rule_texts_simps(2) tail_rules(1))
  also have "rule_texts ?pre = rule_texts (drop 10 (middle_lines (gw_uplink r) ?tcp ?udp))
     @ (if gw_block_bypass r then bypass_rules r else []) @ rule_texts isolation @ rule_texts shared
     @ rule_texts (accept_lines (gw_ap r) ?out) @ rule_texts [ipv6_line (gw_ap r) ?out (gw_allow_ipv6 r)]"
    by (simp only: rule_texts_simps part_rules split: if_split) simp
  finally show ?thesis unfolding chain_rules_def d using assms(1,2)
    by (auto simp: forward_rules_def part_rules tail_rules)
qed

lemma net_text_lines [simp]: "list_all one_line (map net_text ns)"
  by (simp add: list_all_iff)

lemma rmap_networks: "rmap check_network vs = Inr ts \<Longrightarrow> \<exists>ns. map ip_network vs = map Some ns \<and> ts = map net_text ns"
proof (induction vs arbitrary: ts)
  case (Cons v vs)
  then obtain u us where u: "check_network v = Inr u" "rmap check_network vs = Inr us" "ts = u # us"
    by (auto simp: rbind_Inr_iff)
  obtain n where "ip_network v = Some n" "u = net_text n"
    using u(1) by (auto simp: check_network_def split: option.splits)
  with Cons.IH [OF u(2)] u(3) show ?case by (metis list.simps(9))
qed simp

definition isolates :: "gateway_rules \<Rightarrow> bool" where
  "isolates r \<longleftrightarrow> gw_isolate r \<and> gw_uplink_subnet r \<noteq> []"

definition shares :: "gateway_rules \<Rightarrow> bool" where "shares r \<longleftrightarrow> 1 < length (gw_shared r)"

lemma build_ruleset_parts:
  assumes "build_ruleset r = Inr t"
  obtains n ns where "isolates r \<Longrightarrow> ip_network (gw_uplink_subnet r) = Some n"
    and "shares r \<Longrightarrow> map ip_network (gw_shared r) = map Some ns"
    and "t = join newline (ruleset_lines r (if isolates r then [] # isolation_lines (gw_ap r) (net_text n) else [])
      (if shares r then [] # shared_lines (comma (map net_text ns)) else [])) @ newline"
proof -
  obtain ap x isolation shared where a: "check_interface (gw_ap r) = Inr ap"
    and i: "(if gw_isolate r \<and> gw_uplink_subnet r \<noteq> []
            then rbind (check_network (gw_uplink_subnet r)) (\<lambda>net. Inr ([] # isolation_lines ap net))
            else Inr []) = Inr isolation"
    and s: "(if 1 < length (gw_shared r)
            then rbind (rmap check_network (gw_shared r)) (\<lambda>ns. Inr ([] # shared_lines (comma ns)))
            else Inr []) = Inr shared"
    and t: "t = join newline (ruleset_lines r isolation shared) @ newline"
    using assms unfolding build_ruleset_def rbind_Inr_iff by blast
  have ap: "ap = gw_ap r" using a by (auto simp: check_interface_def split: if_splits)
  obtain n where n: "isolates r \<longrightarrow> ip_network (gw_uplink_subnet r) = Some n"
      "isolation = (if isolates r then [] # isolation_lines (gw_ap r) (net_text n) else [])"
    using i ap by (auto simp: isolates_def check_network_def rbind_Inr_iff split: if_splits option.splits)
  obtain ns where ns: "shares r \<longrightarrow> map ip_network (gw_shared r) = map Some ns"
      "shared = (if shares r then [] # shared_lines (comma (map net_text ns)) else [])"
    using s rmap_networks by (auto simp: shares_def rbind_Inr_iff split: if_splits)
  show thesis using that n ns t by blast
qed

lemma ruleset_one_line:
  assumes "clean_names r" "list_all one_line isolation" "list_all one_line shared"
  shows "list_all one_line (ruleset_lines r isolation shared)"
proof -
  have "one_line (gw_ap r)" "one_line (gw_uplink r)" "one_line (outgoing r)"
    using assms(1) by (auto simp: clean_names_def outgoing_def split: option.split)
  then show ?thesis using assms(2,3) part_lines_one_line frame_lines_one_line
    unfolding ruleset_lines_def Let_def outgoing_def [symmetric] by simp
qed

lemma ruleset_text_lines:
  assumes "build_ruleset r = Inr t" and "clean_names r"
  obtains n ns where "isolates r \<Longrightarrow> ip_network (gw_uplink_subnet r) = Some n"
    and "shares r \<Longrightarrow> map ip_network (gw_shared r) = map Some ns"
    and "split_on CHR 0x0A t = ruleset_lines r (if isolates r then [] # isolation_lines (gw_ap r) (net_text n) else [])
      (if shares r then [] # shared_lines (comma (map net_text ns)) else []) @ [[]]"
proof -
  obtain n ns where f: "isolates r \<Longrightarrow> ip_network (gw_uplink_subnet r) = Some n"
      "shares r \<Longrightarrow> map ip_network (gw_shared r) = map Some ns"
    and t: "t = join newline (ruleset_lines r (if isolates r then [] # isolation_lines (gw_ap r) (net_text n) else [])
      (if shares r then [] # shared_lines (comma (map net_text ns)) else [])) @ newline" (is "_ = join _ ?ls @ _")
    using build_ruleset_parts [OF assms(1)] by blast
  have "list_all one_line ?ls"
    using assms(2) part_lines_one_line by (intro ruleset_one_line) (auto simp: clean_names_def)
  moreover have "?ls \<noteq> []" by (simp add: ruleset_lines_def Let_def)
  ultimately have "split_on CHR 0x0A t = ?ls @ [[]]"
    unfolding t join_last_empty [OF \<open>?ls \<noteq> []\<close>] unfolding newline_def
    by (intro split_on_join) (auto simp: one_line_def list_all_iff)
  with f show thesis using that by blast
qed

lemma forward_chain_text:
  assumes "build_ruleset r = Inr t" and "clean_names r"
  obtains n ns where "isolates r \<Longrightarrow> ip_network (gw_uplink_subnet r) = Some n"
    and "shares r \<Longrightarrow> map ip_network (gw_shared r) = map Some ns"
    and "chain_rules ''forward'' t = forward_rules r (if isolates r then [isolation_rule r n] else [])
      (if shares r then [shared_rule ns] else [])"
proof -
  obtain n ns where f: "isolates r \<Longrightarrow> ip_network (gw_uplink_subnet r) = Some n"
      "shares r \<Longrightarrow> map ip_network (gw_shared r) = map Some ns"
    and s: "split_on CHR 0x0A t = ruleset_lines r (if isolates r then [] # isolation_lines (gw_ap r) (net_text n) else [])
      (if shares r then [] # shared_lines (comma (map net_text ns)) else []) @ [[]]"
    using ruleset_text_lines [OF assms] by blast
  have "chain_rules ''forward'' t = forward_rules r (if isolates r then [isolation_rule r n] else [])
      (if shares r then [shared_rule ns] else [])"
    by (subst forward_lines [OF _ _ s, of n "comma (map net_text ns)"]) (simp_all add: shared_rule_def)
  with f show thesis using that by blast
qed

section \<open>Properties\<close>

definition accepts :: "str \<Rightarrow> bool" where "accepts l = suffix '' accept'' l"

lemma accepts_rev: "accepts l \<longleftrightarrow> take 7 (rev l) = ''tpecca ''"
proof -
  have "rev '' accept'' = ''tpecca ''" "length ''tpecca '' = 7" by simp_all
  then show ?thesis unfolding accepts_def suffix_to_prefix by (metis append_eq_conv_conj prefix_def)
qed

lemma accepts_rules:
  "l \<in> set (bypass_rules r) \<Longrightarrow> \<not> accepts l" "\<not> accepts (isolation_rule r n)"
  "\<not> accepts (ipv6_reject r)" "\<not> accepts (uplink_drop r)"
  "l \<in> set chain_start \<Longrightarrow> accepts l \<Longrightarrow> l = established"
  by (auto simp: accepts_rev bypass_rules_def isolation_rule_def ipv6_reject_def uplink_drop_def chain_start_def
      drop_policy_def established_def)

text \<open>C15: what the text confines clients to: its forward chain drops by default, nothing before the rule
  that isolates the uplink's network accepts a new connection, and what accepts one at all is the way
  out through the tunnel, or the uplink where there is none, and the networks that are shared.\<close>

theorem clients_are_confined:
  assumes "build_ruleset r = Inr t" and "clean_names r"
  shows "hd (chain_rules ''forward'' t) = drop_policy
    \<and> (isolates r \<longrightarrow> (\<exists>n pre post. ip_network (gw_uplink_subnet r) = Some n
          \<and> chain_rules ''forward'' t = pre @ isolation_rule r n # post
          \<and> (\<forall>l \<in> set pre. accepts l \<longrightarrow> l = established)))
    \<and> (\<forall>l \<in> set (chain_rules ''forward'' t). accepts l \<longrightarrow> l = established
          \<or> (\<exists>rest. l = out_rule r rest)
          \<or> (shares r \<and> (\<exists>ns. map ip_network (gw_shared r) = map Some ns \<and> l = shared_rule ns)))"
proof -
  obtain n ns where n: "isolates r \<Longrightarrow> ip_network (gw_uplink_subnet r) = Some n"
    and ns: "shares r \<Longrightarrow> map ip_network (gw_shared r) = map Some ns"
    and c: "chain_rules ''forward'' t = forward_rules r (if isolates r then [isolation_rule r n] else [])
      (if shares r then [shared_rule ns] else [])"
    using forward_chain_text [OF assms] by blast
  let ?pre = "chain_start @ (if gw_block_bypass r then bypass_rules r else [])"
  have pre: "accepts l \<longrightarrow> l = established" if "l \<in> set ?pre" for l
    using that accepts_rules(1,5) by (auto split: if_splits)
  show ?thesis
  proof (intro conjI impI ballI)
    show "hd (chain_rules ''forward'' t) = drop_policy" by (simp add: c forward_rules_def chain_start_def)
  next
    assume i: "isolates r"
    have "\<exists>post. chain_rules ''forward'' t = ?pre @ isolation_rule r n # post"
      using i by (simp add: c forward_rules_def)
    with n [OF i] pre show "\<exists>n pre post. ip_network (gw_uplink_subnet r) = Some n
          \<and> chain_rules ''forward'' t = pre @ isolation_rule r n # post
          \<and> (\<forall>l \<in> set pre. accepts l \<longrightarrow> l = established)" by blast
  next
    fix l assume l: "l \<in> set (chain_rules ''forward'' t)" "accepts l"
    have "l \<in> set ?pre \<or> l = isolation_rule r n \<or> (shares r \<and> l = shared_rule ns)
        \<or> l \<in> range (out_rule r) \<or> l = ipv6_reject r \<or> l = uplink_drop r"
      using l(1) unfolding c forward_rules_def by (simp split: if_splits) blast+
    then have "l \<in> set ?pre \<or> (shares r \<and> l = shared_rule ns) \<or> l \<in> range (out_rule r)"
      using accepts_rules(2-4) l(2) by metis
    then show "l = established \<or> (\<exists>rest. l = out_rule r rest)
          \<or> (shares r \<and> (\<exists>ns. map ip_network (gw_shared r) = map Some ns \<and> l = shared_rule ns))"
      using pre l(2) ns by blast
  qed
qed

definition demo_rules :: gateway_rules where
  "demo_rules = \<lparr>gw_ap = ''wlan1'', gw_uplink = ''eth0'', gw_subnet = demo_net, gw_dns_port = 53, gw_dashboard_port = 8080,
     gw_vpn = Some ''wg0'', gw_block_bypass = True, gw_isolate = True, gw_uplink_subnet = ''0.0.1.7/24'', gw_shared = [],
     gw_allow_ipv6 = False, gw_extra_ports = [], gw_udp_ports = [5353], gw_tcp_ports = []\<rparr>"

lemma demo_networks: "ip_network ''0.0.1.7/24'' = Some \<lparr>net_base = V4 256, prefixlen = 24\<rparr>"
  "interface_match ''wlan1''" "interface_match ''eth0''" "interface_match ''wg0''"
  by code_simp+

lemma demo_built: "\<exists>t. build_ruleset demo_rules = Inr t" "clean_names demo_rules"
  using demo_networks
  by (simp_all add: build_ruleset_def demo_rules_def check_interface_def check_network_def clean_names_def)

theorem clients_are_confined_witness:
  "\<exists>t. build_ruleset demo_rules = Inr t \<and> (\<exists>n pre post. chain_rules ''forward'' t = pre @ isolation_rule demo_rules n # post)"
proof -
  obtain t where t: "build_ruleset demo_rules = Inr t" using demo_built(1) by blast
  have "isolates demo_rules" by (simp add: isolates_def demo_rules_def)
  with clients_are_confined [OF t demo_built(2)] t show ?thesis by blast
qed

text \<open>Every port the gateway serves that is a port at all is in the sets dropped on the uplink.\<close>

lemma set_usable_ports: "set (usable_ports ps) = {p \<in> set ps. 0 < p \<and> p < 65536}"
  "distinct (usable_ports ps)" "sorted (usable_ports ps)"
  by (auto simp: usable_ports_def)

definition uplink_rule :: "gateway_rules \<Rightarrow> str \<Rightarrow> int list \<Rightarrow> str" where
  "uplink_rule r proto ps = ''iifname '' @ quote_name (gw_uplink r) @ '' '' @ proto @ '' dport { '' @ comma (map dec_int ps) @ '' } drop''"

lemma input_lines:
  assumes "split_on CHR 0x0A t = ruleset_lines r isolation shared @ [[]]"
  shows "\<exists>pre. chain_rules ''input'' t = pre @
    [uplink_rule r ''tcp'' (usable_ports (gw_dns_port r # gw_dashboard_port r # gw_extra_ports r @ gw_tcp_ports r)),
     uplink_rule r ''udp'' (usable_ports (gw_dns_port r # 67 # 123 # gw_udp_ports r))]"
proof -
  let ?h = "''    chain input {''"
  let ?head = "head_lines (gw_ap r) (outgoing r) r"
  let ?tcp = "port_list (gw_dns_port r # gw_dashboard_port r # gw_extra_ports r @ gw_tcp_ports r)"
  let ?udp = "port_list (gw_dns_port r # 67 # 123 # gw_udp_ports r)"
  let ?mid = "middle_lines (gw_uplink r) ?tcp ?udp"
  obtain rest where s: "split_on CHR 0x0A t = ?head @ dashboard_lines (gw_ap r) r @ ?mid @ rest"
    unfolding assms(1) ruleset_lines_def Let_def outgoing_def by simp
  have head: "tl (dropWhile (\<lambda>l. l \<noteq> ?h) (?head @ ys)) = drop 22 ?head @ ys" for ys
    by (simp add: head_lines_def NAT_TABLE_def FILTER_TABLE_def)
  have d: "tl (dropWhile (\<lambda>l. l \<noteq> ''    chain '' @ ''input'' @ '' {'') (split_on CHR 0x0A t))
      = (drop 22 ?head @ dashboard_lines (gw_ap r) r) @ ?mid @ rest"
    unfolding s using head by simp
  have pre: "''    }'' \<notin> set (drop 22 ?head @ dashboard_lines (gw_ap r) r)"
    by (auto simp: head_lines_def dashboard_lines_def)
  have mid: "rule_texts (takeWhile (\<lambda>l. l \<noteq> ''    }'') (?mid @ rest))
      = [''iifname '' @ quote_name (gw_uplink r) @ '' tcp dport { '' @ ?tcp @ '' } drop'',
         ''iifname '' @ quote_name (gw_uplink r) @ '' udp dport { '' @ ?udp @ '' } drop'']"
    by (simp add: middle_lines_def rule_texts_def)
  show ?thesis unfolding chain_rules_def d takeWhile_upto [OF pre] rule_texts_simps(2) mid
    by (auto simp: uplink_rule_def port_list_def)
qed

text \<open>the ports the gateway opens, for names, the dashboard, leases, time and what the settings add,
  are all refused to the network it has joined: the last rules of the input chain drop them there.\<close>

theorem own_ports_closed_on_uplink:
  assumes "build_ruleset r = Inr t" and "clean_names r"
  shows "\<exists>pre tcp udp. chain_rules ''input'' t = pre @ [uplink_rule r ''tcp'' tcp, uplink_rule r ''udp'' udp]
    \<and> (\<forall>p. 0 < p \<and> p < 65536 \<longrightarrow>
        (p \<in> set tcp \<longleftrightarrow> p = gw_dns_port r \<or> p = gw_dashboard_port r \<or> p \<in> set (gw_extra_ports r) \<or> p \<in> set (gw_tcp_ports r))
        \<and> (p \<in> set udp \<longleftrightarrow> p = gw_dns_port r \<or> p = 67 \<or> p = 123 \<or> p \<in> set (gw_udp_ports r)))"
proof -
  obtain n ns where s: "split_on CHR 0x0A t = ruleset_lines r (if isolates r then [] # isolation_lines (gw_ap r) (net_text n) else [])
      (if shares r then [] # shared_lines (comma (map net_text ns)) else []) @ [[]]"
    using ruleset_text_lines [OF assms] by blast
  from input_lines [OF s] obtain pre where "chain_rules ''input'' t = pre @
    [uplink_rule r ''tcp'' (usable_ports (gw_dns_port r # gw_dashboard_port r # gw_extra_ports r @ gw_tcp_ports r)),
     uplink_rule r ''udp'' (usable_ports (gw_dns_port r # 67 # 123 # gw_udp_ports r))]" by blast
  then show ?thesis by (intro exI conjI) (assumption, auto simp: set_usable_ports)
qed

theorem own_ports_closed_on_uplink_witness:
  "\<exists>t pre tcp udp. build_ruleset demo_rules = Inr t
     \<and> chain_rules ''input'' t = pre @ [uplink_rule demo_rules ''tcp'' tcp, uplink_rule demo_rules ''udp'' udp] \<and> 5353 \<in> set udp"
proof -
  obtain t where t: "build_ruleset demo_rules = Inr t" using demo_built(1) by blast
  from own_ports_closed_on_uplink [OF t demo_built(2)] obtain pre tcp udp
    where "chain_rules ''input'' t = pre @ [uplink_rule demo_rules ''tcp'' tcp, uplink_rule demo_rules ''udp'' udp]"
      "5353 \<in> set udp" by (fastforce simp: demo_rules_def)
  with t show ?thesis by blast
qed

text \<open>
  The pattern for names lets a line break at the end through, and the text then has a broken line:
  the quote opened before the name closes on the next line.
\<close>

lemma newline_in_name:
  "check_interface (''wlan0'' @ newline) = Inr (''wlan0'' @ newline)" "\<not> one_line (''wlan0'' @ newline)"
  by code_simp+

section \<open>Installing\<close>

text \<open>Deleting a table works when it is there.\<close>

definition runs_fit :: "ran \<times> ran \<times> ran \<Rightarrow> firewall \<Rightarrow> bool" where
  "runs_fit runs fw \<longleftrightarrow> (case runs of (r1, r2, r3) \<Rightarrow>
     r1 = Exited (dget (fw_tables fw) NAT_TABLE \<noteq> None) \<and> r2 = Exited (dget (fw_tables fw) FILTER_TABLE \<noteq> None))"

lemma our_tables_gone:
  fixes d :: "(str, str list) dict"
  assumes "set (dkeys d) \<subseteq> {NAT_TABLE, FILTER_TABLE}"
  shows "ddel FILTER_TABLE (ddel NAT_TABLE d) = []"
proof -
  have empty: "e = []" if "set (dkeys e) = {}" for e :: "(str, str list) dict" using that by simp
  have "set (dkeys (ddel FILTER_TABLE (ddel NAT_TABLE d))) = {}" using assms by (auto simp: set_ddel)
  from empty [OF this] show ?thesis .
qed

lemma teardown_fit:
  assumes "fw_nft fw" and "runs_fit (r1, r2, r3) fw" and "set (dkeys (fw_tables fw)) \<subseteq> {NAT_TABLE, FILTER_TABLE}"
  shows "fw_teardown r1 r2 fw = (fw\<lparr>fw_tables := []\<rparr>, Inr ())"
proof -
  have ne: "FILTER_TABLE \<noteq> NAT_TABLE" by (simp add: FILTER_TABLE_def NAT_TABLE_def)
  let ?d = "fw_tables fw"
  have nat: "(if dget ?d NAT_TABLE \<noteq> None then ddel NAT_TABLE ?d else ?d) = ddel NAT_TABLE ?d"
    by (simp add: ddel_absent)
  have filter: "(if dget ?d FILTER_TABLE \<noteq> None then ddel FILTER_TABLE (ddel NAT_TABLE ?d) else ddel NAT_TABLE ?d)
      = ddel FILTER_TABLE (ddel NAT_TABLE ?d)"
    using ne by (simp add: ddel_absent)
  note none = our_tables_gone [OF assms(3)]
  have "fw_teardown r1 r2 fw = (fw\<lparr>fw_tables := ddel FILTER_TABLE (ddel NAT_TABLE ?d)\<rparr>, Inr ())"
    using assms(1,2) nat filter
    by (cases "dget ?d NAT_TABLE"; cases "dget ?d FILTER_TABLE") (auto simp: fw_teardown_def run_delete_def runs_fit_def)
  then show ?thesis by (simp add: none)
qed

lemma build_error: "build_ruleset r = Inl e \<Longrightarrow> e = FirewallError"
proof -
  have n: "rmap check_network vs = Inl e' \<Longrightarrow> e' = FirewallError" for vs e'
    by (induction vs) (auto simp: rbind_Inl_iff check_network_def split: option.splits)
  show "build_ruleset r = Inl e \<Longrightarrow> e = FirewallError"
    by (auto simp: build_ruleset_def rbind_Inl_iff check_interface_def check_network_def n split: if_splits option.splits)
qed


definition demo_firewall :: firewall where
  "demo_firewall = \<lparr>fw_nft = True, fw_tables = [(NAT_TABLE, [''old'']), (FILTER_TABLE, [''old''])], fw_forwarding = True\<rparr>"


end
