(* ===== verification/Networks.thy ===== *)
theory Networks
  imports Firewall
begin

text \<open>
  The local networks of the host, \<open>gateway/networks.py\<close>, and the choices over interfaces of
  \<open>gateway/interfaces.py\<close>: which networks are served, listened on, allowed and routed to peers.  What the
  kernel reports is a record of the host: its interfaces, the default route and the prefix lengths.
\<close>

section \<open>Interfaces\<close>

record interface =
  if_name :: str
  if_addresses :: "str list"
  if_up :: bool
  if_wireless :: bool
  if_mac :: str

definition if_ipv4 :: "interface \<Rightarrow> str option" where
  "if_ipv4 i = List.find (\<lambda>a. CHR '':'' \<notin> set a) (if_addresses i)"

definition if_loopback :: "interface \<Rightarrow> bool" where
  "if_loopback i = (if_name i = ''lo'' \<or> if_ipv4 i = Some ''127.0.0.1'')"

text \<open>
  \<open>h_route\<close> is the device and gateway of the default route; \<open>h_ip_prefix\<close> and \<open>h_ioctl_prefix\<close> are the
  prefix lengths from \<open>ip addr\<close>, for an interface and address, and from the kernel, for an interface.
\<close>

record host =
  h_interfaces :: "interface list"
  h_route :: "str option \<times> str option"
  h_ip_prefix :: "str \<Rightarrow> str \<Rightarrow> nat option"
  h_ioctl_prefix :: "str \<Rightarrow> nat option"

definition get_interface :: "host \<Rightarrow> str \<Rightarrow> interface option" where
  "get_interface h name = List.find (\<lambda>i. if_name i = name) (h_interfaces h)"

definition or_dash :: "str option \<Rightarrow> str" where
  "or_dash x = (case x of None \<Rightarrow> ''-'' | Some s \<Rightarrow> if s = [] then ''-'' else s)"

definition uplink_fingerprint :: "host \<Rightarrow> str" where
  "uplink_fingerprint h =
     (let (device, gateway) = h_route h;
          address = (case device of None \<Rightarrow> None
                     | Some d \<Rightarrow> if d = [] then None else Option.bind (get_interface h d) if_ipv4)
      in or_dash device @ ''|'' @ or_dash address @ ''|'' @ or_dash gateway)"

definition pick_uplink :: "str list \<Rightarrow> host \<Rightarrow> str option" where
  "pick_uplink exclude h =
     (case fst (h_route h) of
        Some d \<Rightarrow> if d \<noteq> [] \<and> d \<notin> set exclude then Some d
                  else map_option if_name (List.find (\<lambda>i. if_name i \<notin> set exclude \<and> \<not> if_loopback i \<and> if_up i
                         \<and> if_ipv4 i \<notin> {None, Some []}) (h_interfaces h))
      | None \<Rightarrow> map_option if_name (List.find (\<lambda>i. if_name i \<notin> set exclude \<and> \<not> if_loopback i \<and> if_up i
                         \<and> if_ipv4 i \<notin> {None, Some []}) (h_interfaces h)))"

definition pick_access_point_interface :: "str list \<Rightarrow> host \<Rightarrow> str option" where
  "pick_access_point_interface exclude h =
     (let wireless = filter (\<lambda>i. if_wireless i \<and> if_name i \<notin> set exclude) (h_interfaces h);
          free = filter (\<lambda>i. Some (if_name i) \<noteq> fst (h_route h)) wireless
      in if wireless = [] then None else Some (if_name (hd (if free \<noteq> [] then free else wireless))))"

definition HOTSPOT_SUBNETS :: "str list" where
  "HOTSPOT_SUBNETS = [''10.42.7.0/24'', ''10.42.8.0/24'', ''172.30.44.0/24'', ''10.77.13.0/24'', ''192.168.173.0/24'']"

definition address_in_use :: "host \<Rightarrow> network \<Rightarrow> bool" where
  "address_in_use h n = list_ex (\<lambda>i. list_ex (\<lambda>a. CHR '':'' \<notin> set a
     \<and> (case ip_address a of None \<Rightarrow> False | Some x \<Rightarrow> in_net x n)) (if_addresses i)) (h_interfaces h)"

text \<open>The first candidate that is free, or the first of all.\<close>

fun first_unused :: "host \<Rightarrow> str list \<Rightarrow> network option res" where
  "first_unused h [] = Inr None"
| "first_unused h (c # cs) =
     (case strict_network c of
        None \<Rightarrow> Inl ValueError
      | Some n \<Rightarrow> if address_in_use h n then first_unused h cs else Inr (Some n))"

definition pick_hotspot_subnet :: "host \<Rightarrow> str list \<Rightarrow> network res" where
  "pick_hotspot_subnet h candidates =
     (let cs = (if candidates = [] then HOTSPOT_SUBNETS else candidates) in
      rbind (first_unused h cs) (\<lambda>r. case r of
        Some n \<Rightarrow> Inr n
      | None \<Rightarrow> (case strict_network (hd cs) of None \<Rightarrow> Inl ValueError | Some n \<Rightarrow> Inr n)))"

section \<open>Discovery\<close>

definition LOCAL_V4 :: "network list" where
  "LOCAL_V4 = [\<lparr>net_base = v4_of 10 0 0 0, prefixlen = 8\<rparr>, \<lparr>net_base = v4_of 172 16 0 0, prefixlen = 12\<rparr>,
     \<lparr>net_base = v4_of 192 168 0 0, prefixlen = 16\<rparr>, \<lparr>net_base = v4_of 100 64 0 0, prefixlen = 10\<rparr>,
     \<lparr>net_base = v4_of 169 254 0 0, prefixlen = 16\<rparr>]"

definition LINK_LOCAL_V6 :: network where
  "LINK_LOCAL_V6 = \<lparr>net_base = V6 (0xfe80 * 2 ^ 112), prefixlen = 10\<rparr>"

definition LOCAL_V6 :: "network list" where
  "LOCAL_V6 = [\<lparr>net_base = V6 (0xfc00 * 2 ^ 112), prefixlen = 7\<rparr>, LINK_LOCAL_V6]"

definition IGNORED_PREFIXES :: "str list" where
  "IGNORED_PREFIXES = [''lo'', ''docker'', ''br-'', ''veth'', ''virbr'', ''tailscale'', ''zt'', ''tun'']"

record local_network =
  ln_interface :: str
  ln_address :: str
  ln_network :: network
  ln_wireless :: bool
  ln_uplink :: bool

definition local_address :: "ipaddr \<Rightarrow> bool" where
  "local_address a = list_ex (in_net a) (if ip_version a = 6 then LOCAL_V6 else LOCAL_V4)"

definition prefix_for :: "host \<Rightarrow> interface \<Rightarrow> str \<Rightarrow> nat" where
  "prefix_for h i address =
     (case h_ip_prefix h (if_name i) address of
        Some p \<Rightarrow> p
      | None \<Rightarrow>
          (case (if CHR '':'' \<in> set address then None else h_ioctl_prefix h (if_name i)) of
             Some p \<Rightarrow> p
           | None \<Rightarrow> if CHR '':'' \<in> set address then 64 else 24))"

text \<open>Whether an address of an interface is looked at further, and the network it stands for.\<close>

definition served_address :: "bool \<Rightarrow> str \<Rightarrow> bool" where
  "served_address ipv6 address =
     (case ip_address address of
        None \<Rightarrow> False
      | Some a \<Rightarrow> (ip_version a = 6 \<longrightarrow> ipv6) \<and> local_address a
          \<and> \<not> (ip_version a = 6 \<and> in_net a LINK_LOCAL_V6))"

definition network_at :: "host \<Rightarrow> interface \<Rightarrow> str \<Rightarrow> network res" where
  "network_at h i address =
     (case ip_network (address @ ''/'' @ dec (prefix_for h i address)) of None \<Rightarrow> Inl ValueError | Some n \<Rightarrow> Inr n)"

definition served_interface :: "interface \<Rightarrow> bool" where
  "served_interface i = (\<not> list_ex (\<lambda>p. prefix p (if_name i)) IGNORED_PREFIXES \<and> \<not> if_loopback i \<and> if_up i)"

text \<open>The candidates in the order of the loops, and the loop over them: one entry per interface and network.\<close>

definition candidates :: "bool \<Rightarrow> host \<Rightarrow> (interface \<times> str) list" where
  "candidates ipv6 h =
     concat (map (\<lambda>i. map (\<lambda>a. (i, a)) (filter (served_address ipv6) (if_addresses i)))
       (filter served_interface (h_interfaces h)))"

fun collect_networks :: "host \<Rightarrow> (interface \<times> str) list \<Rightarrow> str list \<Rightarrow> local_network list res" where
  "collect_networks h [] seen = Inr []"
| "collect_networks h ((i, address) # cs) seen =
     rbind (network_at h i address) (\<lambda>n.
       let key = if_name i @ '':'' @ net_text n in
       if key \<in> set seen then collect_networks h cs seen
       else rbind (collect_networks h cs (key # seen)) (\<lambda>ls.
         Inr (\<lparr>ln_interface = if_name i, ln_address = address, ln_network = n, ln_wireless = if_wireless i,
               ln_uplink = (Some (if_name i) = fst (h_route h))\<rparr> # ls)))"

definition discover_local_networks :: "bool \<Rightarrow> host \<Rightarrow> local_network list res" where
  "discover_local_networks ipv6 h = collect_networks h (candidates ipv6 h) []"

section \<open>What is derived from it\<close>

definition add_missing :: "'a \<Rightarrow> 'a list \<Rightarrow> 'a list" where
  "add_missing x xs = (if x \<in> set xs then xs else xs @ [x])"

fun listen_loop :: "host \<Rightarrow> str list \<Rightarrow> str list \<Rightarrow> str list res" where
  "listen_loop h [] resolved = Inr resolved"
| "listen_loop h (entry # es) resolved =
     (if entry \<noteq> ''auto'' then listen_loop h es (add_missing entry resolved)
      else rbind (discover_local_networks False h) (\<lambda>ls.
        listen_loop h es (fold (\<lambda>l. add_missing (ln_address l)) ls (add_missing ''127.0.0.1'' resolved))))"

definition resolve_listen_addresses :: "host \<Rightarrow> str list \<Rightarrow> str list res" where
  "resolve_listen_addresses h configured =
     rbind (listen_loop h configured []) (\<lambda>r. Inr (if r = [] then [''127.0.0.1''] else r))"

definition last_value :: "network \<Rightarrow> nat" where
  "last_value n = ip_value (net_base n) + 2 ^ host_bits (net_base n) (prefixlen n) - 1"

text \<open>\<open>a.subnet_of(b)\<close>, for networks of one version.\<close>

definition subnet_of :: "network \<Rightarrow> network \<Rightarrow> bool" where
  "subnet_of a b = (ip_value (net_base b) \<le> ip_value (net_base a) \<and> last_value a \<le> last_value b)"

definition covered_by :: "network \<Rightarrow> network \<Rightarrow> bool" where
  "covered_by a b = (ip_version (net_base a) = ip_version (net_base b) \<and> subnet_of a b)"

fun widen :: "local_network list \<Rightarrow> str list \<times> network list \<Rightarrow> str list \<times> network list" where
  "widen [] (allowed, known) = (allowed, known)"
| "widen (l # ls) (allowed, known) =
     (if list_ex (covered_by (ln_network l)) known then widen ls (allowed, known)
      else widen ls (allowed @ [net_text (ln_network l)], known @ [ln_network l]))"

definition parsed_networks :: "str list \<Rightarrow> network list" where
  "parsed_networks es = List.map_filter ip_network es"

definition widened_networks :: "host \<Rightarrow> str list \<Rightarrow> bool \<Rightarrow> str list res" where
  "widened_networks h configured discover =
     (if \<not> discover then Inr configured
      else rbind (discover_local_networks True h) (\<lambda>ls.
        Inr (fst (widen ls (configured, parsed_networks configured)))))"

definition vpn_routed_networks :: "host \<Rightarrow> str list \<Rightarrow> bool \<Rightarrow> str list res" where
  "vpn_routed_networks h configured discover =
     (if \<not> discover then Inr configured
      else rbind (discover_local_networks False h) (\<lambda>ls.
        Inr (fold (\<lambda>l routes. if ln_uplink l then routes else add_missing (net_text (ln_network l)) routes) ls configured)))"

section \<open>What discovery finds\<close>

lemma collect_networks_sound:
  assumes "collect_networks h cs seen = Inr ls"
  shows "\<forall>l \<in> set ls. \<exists>i. (i, ln_address l) \<in> set cs \<and> network_at h i (ln_address l) = Inr (ln_network l)
      \<and> ln_interface l = if_name i \<and> ln_wireless l = if_wireless i
      \<and> ln_uplink l = (Some (if_name i) = fst (h_route h))"
  and "distinct (map (\<lambda>l. ln_interface l @ '':'' @ net_text (ln_network l)) ls)"
  and "\<forall>l \<in> set ls. ln_interface l @ '':'' @ net_text (ln_network l) \<notin> set seen"
  and "\<forall>(i, a) \<in> set cs. \<exists>n. network_at h i a = Inr n \<and> (if_name i @ '':'' @ net_text n \<in> set seen
      \<or> (\<exists>l \<in> set ls. ln_interface l @ '':'' @ net_text (ln_network l) = if_name i @ '':'' @ net_text n))"
proof -
  have "(\<forall>l \<in> set ls. \<exists>i. (i, ln_address l) \<in> set cs \<and> network_at h i (ln_address l) = Inr (ln_network l)
      \<and> ln_interface l = if_name i \<and> ln_wireless l = if_wireless i
      \<and> ln_uplink l = (Some (if_name i) = fst (h_route h)))
    \<and> distinct (map (\<lambda>l. ln_interface l @ '':'' @ net_text (ln_network l)) ls)
    \<and> (\<forall>l \<in> set ls. ln_interface l @ '':'' @ net_text (ln_network l) \<notin> set seen)
    \<and> (\<forall>(i, a) \<in> set cs. \<exists>n. network_at h i a = Inr n \<and> (if_name i @ '':'' @ net_text n \<in> set seen
      \<or> (\<exists>l \<in> set ls. ln_interface l @ '':'' @ net_text (ln_network l) = if_name i @ '':'' @ net_text n)))"
    using assms
  proof (induction h cs seen arbitrary: ls rule: collect_networks.induct)
    case (2 h i a cs seen)
    then obtain n where n: "network_at h i a = Inr n" by (auto simp: rbind_Inr_iff)
    let ?key = "if_name i @ '':'' @ net_text n"
    show ?case
    proof (cases "?key \<in> set seen")
      case True
      then have "collect_networks h cs seen = Inr ls" using "2.prems" n by (simp add: Let_def)
      from "2.IH"(1) [OF refl True this] n True show ?thesis by fastforce
    next
      case False
      then obtain ls' where ls': "collect_networks h cs (?key # seen) = Inr ls'"
        and ls: "ls = \<lparr>ln_interface = if_name i, ln_address = a, ln_network = n, ln_wireless = if_wireless i,
               ln_uplink = (Some (if_name i) = fst (h_route h))\<rparr> # ls'"
        using "2.prems" n by (auto simp: Let_def rbind_Inr_iff)
      note IH = "2.IH"(2) [OF refl False ls']
      show ?thesis unfolding ls using IH n False by (auto 0 4)
    qed
  qed simp
  then show "\<forall>l \<in> set ls. \<exists>i. (i, ln_address l) \<in> set cs \<and> network_at h i (ln_address l) = Inr (ln_network l)
      \<and> ln_interface l = if_name i \<and> ln_wireless l = if_wireless i
      \<and> ln_uplink l = (Some (if_name i) = fst (h_route h))"
    and "distinct (map (\<lambda>l. ln_interface l @ '':'' @ net_text (ln_network l)) ls)"
    and "\<forall>l \<in> set ls. ln_interface l @ '':'' @ net_text (ln_network l) \<notin> set seen"
    and "\<forall>(i, a) \<in> set cs. \<exists>n. network_at h i a = Inr n \<and> (if_name i @ '':'' @ net_text n \<in> set seen
      \<or> (\<exists>l \<in> set ls. ln_interface l @ '':'' @ net_text (ln_network l) = if_name i @ '':'' @ net_text n))"
    by blast+
qed

lemma discovered_are_local:
  assumes "discover_local_networks ipv6 h = Inr ls" and "l \<in> set ls"
  obtains i a where "i \<in> set (h_interfaces h)" "served_interface i" "ln_address l \<in> set (if_addresses i)"
    "ln_interface l = if_name i" "ip_address (ln_address l) = Some a" "local_address a" "ip_version a = 6 \<longrightarrow> ipv6"
    "network_at h i (ln_address l) = Inr (ln_network l)" "ln_uplink l = (Some (if_name i) = fst (h_route h))"
proof -
  from collect_networks_sound(1) [OF assms(1) [unfolded discover_local_networks_def]] assms(2) obtain i
    where i: "(i, ln_address l) \<in> set (candidates ipv6 h)" "network_at h i (ln_address l) = Inr (ln_network l)"
      "ln_interface l = if_name i" "ln_uplink l = (Some (if_name i) = fst (h_route h))" by blast
  then have "i \<in> set (h_interfaces h)" "served_interface i" "ln_address l \<in> set (if_addresses i)"
      "served_address ipv6 (ln_address l)" by (auto simp: candidates_def)
  with i that show thesis by (auto simp: served_address_def split: option.splits)
qed

section \<open>Widening the allowed networks\<close>

lemma covered_by_refl [simp]: "covered_by n n" by (simp add: covered_by_def subnet_of_def)

lemma widen_effect:
  "widen ls (allowed, known) = (allowed', known') \<Longrightarrow>
    \<exists>added. allowed' = allowed @ map (\<lambda>l. net_text (ln_network l)) added \<and> known' = known @ map ln_network added
      \<and> set added \<subseteq> set ls \<and> (\<forall>l \<in> set ls. \<exists>n \<in> set known'. covered_by (ln_network l) n)"
proof (induction ls arbitrary: allowed known)
  case (Cons l ls)
  show ?case
  proof (cases "list_ex (covered_by (ln_network l)) known")
    case True
    from Cons.IH [of allowed known] Cons.prems True obtain added where a: "allowed' = allowed @ map (\<lambda>l. net_text (ln_network l)) added"
      "known' = known @ map ln_network added" "set added \<subseteq> set ls" "\<forall>l \<in> set ls. \<exists>n \<in> set known'. covered_by (ln_network l) n"
      by auto
    moreover have "\<exists>n \<in> set known'. covered_by (ln_network l) n" using True a(2) by (auto simp: list_ex_iff)
    ultimately show ?thesis by (intro exI [of _ added]) auto
  next
    case False
    from Cons.IH [of "allowed @ [net_text (ln_network l)]" "known @ [ln_network l]"] Cons.prems False
    obtain added where a: "allowed' = (allowed @ [net_text (ln_network l)]) @ map (\<lambda>l. net_text (ln_network l)) added"
      "known' = (known @ [ln_network l]) @ map ln_network added" "set added \<subseteq> set ls"
      "\<forall>l \<in> set ls. \<exists>n \<in> set known'. covered_by (ln_network l) n" by auto
    have "\<exists>n \<in> set known'. covered_by (ln_network l) n" by (rule bexI [of _ "ln_network l"]) (simp_all add: a(2))
    then show ?thesis using a by (intro exI [of _ "l # added"]) auto
  qed
qed auto


section \<open>Routes of peers and listening addresses\<close>

lemma set_add_missing [simp]: "set (add_missing x xs) = insert x (set xs)" "distinct (add_missing x xs) = distinct xs"
  by (auto simp: add_missing_def)

lemma fold_add_missing:
  "set (fold (\<lambda>l. add_missing (f l)) ls xs) = set xs \<union> f ` set ls" "distinct (fold (\<lambda>l. add_missing (f l)) ls xs) = distinct xs"
  by (induction ls arbitrary: xs) auto

lemma fold_filtered: "fold (\<lambda>l xs. if p l then xs else f l xs) ls xs = fold f (filter (\<lambda>l. \<not> p l) ls) xs"
  by (induction ls arbitrary: xs) auto


lemma listen_loop_effect:
  assumes "listen_loop h es resolved = Inr r"
  shows "set resolved \<union> {e \<in> set es. e \<noteq> ''auto''} \<subseteq> set r" "distinct resolved \<Longrightarrow> distinct r"
    "''auto'' \<in> set es \<Longrightarrow> discover_local_networks False h = Inr ls \<Longrightarrow> insert ''127.0.0.1'' (ln_address ` set ls) \<subseteq> set r"
proof -
  have "set resolved \<union> {e \<in> set es. e \<noteq> ''auto''} \<subseteq> set r \<and> (distinct resolved \<longrightarrow> distinct r)
    \<and> (''auto'' \<in> set es \<longrightarrow> (\<forall>ls. discover_local_networks False h = Inr ls
          \<longrightarrow> insert ''127.0.0.1'' (ln_address ` set ls) \<subseteq> set r))"
    using assms
  proof (induction es arbitrary: resolved)
    case (Cons e es)
    show ?case
    proof (cases "e = ''auto''")
      case True
      with Cons.prems obtain ls where ls: "discover_local_networks False h = Inr ls"
          "listen_loop h es (fold (\<lambda>l. add_missing (ln_address l)) ls (add_missing ''127.0.0.1'' resolved)) = Inr r"
        by (auto simp: rbind_Inr_iff)
      from Cons.IH [OF ls(2)] True ls(1) show ?thesis by (auto simp: fold_add_missing)
    next
      case False
      then have "listen_loop h es (add_missing e resolved) = Inr r" using Cons.prems by simp
      from Cons.IH [OF this] False show ?thesis by auto
    qed
  qed simp
  then show "set resolved \<union> {e \<in> set es. e \<noteq> ''auto''} \<subseteq> set r" "distinct resolved \<Longrightarrow> distinct r"
    "''auto'' \<in> set es \<Longrightarrow> discover_local_networks False h = Inr ls \<Longrightarrow> insert ''127.0.0.1'' (ln_address ` set ls) \<subseteq> set r"
    by blast+
qed

text \<open>The resolver always listens somewhere, once per address, and with \<open>auto\<close> on every local address.\<close>

lemma listen_addresses_cover:
  assumes "resolve_listen_addresses h configured = Inr r"
  shows "r \<noteq> [] \<and> distinct r \<and> {e \<in> set configured. e \<noteq> ''auto''} \<subseteq> set r
    \<and> (\<forall>ls. ''auto'' \<in> set configured \<longrightarrow> discover_local_networks False h = Inr ls \<longrightarrow>
        insert ''127.0.0.1'' (ln_address ` set ls) \<subseteq> set r)"
proof -
  obtain r' where r': "listen_loop h configured [] = Inr r'" "r = (if r' = [] then [''127.0.0.1''] else r')"
    using assms by (auto simp: resolve_listen_addresses_def rbind_Inr_iff)
  note e = listen_loop_effect [OF r'(1)]
  have "distinct r'" using e(2) by simp
  moreover have "{x \<in> set configured. x \<noteq> ''auto''} \<subseteq> set r'" using e(1) by blast
  moreover have "set r' \<subseteq> set r" "r \<noteq> []" "distinct r' \<Longrightarrow> distinct r" using r'(2) by (auto split: if_splits)
  moreover have "insert ''127.0.0.1'' (ln_address ` set ls) \<subseteq> set r'"
    if "''auto'' \<in> set configured" "discover_local_networks False h = Inr ls" for ls using e(3) [OF that] .
  ultimately show ?thesis by (meson order_trans)
qed

section \<open>The hotspot's network\<close>

lemma first_unused_free:
  "first_unused h cs = Inr (Some n) \<Longrightarrow> \<not> address_in_use h n"
  "first_unused h cs = Inr None \<Longrightarrow> c \<in> set cs \<Longrightarrow> \<exists>m. strict_network c = Some m \<and> address_in_use h m"
  by (induction cs) (auto split: option.splits if_splits)

lemma hotspot_subnet_free:
  assumes "pick_hotspot_subnet h cs = Inr n" and "address_in_use h n"
  shows "\<forall>c \<in> set (if cs = [] then HOTSPOT_SUBNETS else cs). \<exists>m. strict_network c = Some m \<and> address_in_use h m"
proof -
  let ?cs = "if cs = [] then HOTSPOT_SUBNETS else cs"
  obtain x where x: "first_unused h ?cs = Inr x" "x = Some n \<or> x = None"
    using assms(1) by (auto simp: pick_hotspot_subnet_def Let_def rbind_Inr_iff simp del: first_unused.simps split: option.splits)
  with first_unused_free(1) [of h ?cs n] assms(2) have "first_unused h ?cs = Inr None" by metis
  with first_unused_free(2) show ?thesis by blast
qed

section \<open>Instances\<close>

definition demo_interface :: "str \<Rightarrow> str list \<Rightarrow> interface" where
  "demo_interface name addresses = \<lparr>if_name = name, if_addresses = addresses, if_up = True, if_wireless = False, if_mac = []\<rparr>"

text \<open>A laptop on a network of its own, \<open>eth1\<close>, and on one it has joined, \<open>wlan0\<close>; the prefix of \<open>eth1\<close> is 8.\<close>

definition demo_host :: host where
  "demo_host = \<lparr>h_interfaces = [demo_interface ''eth1'' [''172.16.0.1''], demo_interface ''wlan0'' [''10.0.0.1'']],
     h_route = (Some ''wlan0'', None), h_ip_prefix = (\<lambda>i a. if i = ''eth1'' then Some 8 else Some 24),
     h_ioctl_prefix = (\<lambda>_. None)\<rparr>"

lemma demo_octets: "parse_octet ''172'' = Some 172" "parse_octet ''16'' = Some 16" "parse_octet ''0'' = Some 0"
  "parse_octet ''1'' = Some 1" "parse_octet ''10'' = Some 10" "parse_prefix 32 ''8'' = Some 8" "parse_prefix 32 ''24'' = Some 24"
  "dec 8 = ''8''" "dec 24 = ''24''"
  by code_simp+

lemma demo_addresses: "ip_address ''172.16.0.1'' = Some (V4 2886729729)" "ip_address ''10.0.0.1'' = Some (V4 167772161)"
  by (simp_all add: ip_address_def parse_v4_def demo_octets)

lemma demo_parsed:
  "ip_network (''172.16.0.1'' @ ''/'' @ dec 8) = Some \<lparr>net_base = V4 2885681152, prefixlen = 8\<rparr>"
  "ip_network (''10.0.0.1'' @ ''/'' @ dec 24) = Some \<lparr>net_base = V4 167772160, prefixlen = 24\<rparr>"
  unfolding demo_octets
  by (simp_all add: ip_network_def ip_address_def parse_v4_def demo_octets network_prefix_def mask_host_def host_bits_def)

lemma demo_local: "local_address (V4 2886729729)" "local_address (V4 167772161)"
  by (simp_all add: local_address_def LOCAL_V4_def v4_of_def in_net_def host_bits_def)

definition demo_found :: "local_network list" where
  "demo_found = [\<lparr>ln_interface = ''eth1'', ln_address = ''172.16.0.1'', ln_network = \<lparr>net_base = V4 2885681152, prefixlen = 8\<rparr>,
       ln_wireless = False, ln_uplink = False\<rparr>,
     \<lparr>ln_interface = ''wlan0'', ln_address = ''10.0.0.1'', ln_network = \<lparr>net_base = V4 167772160, prefixlen = 24\<rparr>,
       ln_wireless = False, ln_uplink = True\<rparr>]"

lemma demo_candidates: "candidates ipv6 demo_host = [(demo_interface ''eth1'' [''172.16.0.1''], ''172.16.0.1''), (demo_interface ''wlan0'' [''10.0.0.1''], ''10.0.0.1'')]"
proof -
  have "served_address ipv6 ''172.16.0.1''" "served_address ipv6 ''10.0.0.1''"
    by (simp_all add: served_address_def demo_addresses demo_local)
  moreover have "served_interface (demo_interface ''eth1'' [''172.16.0.1''])" "served_interface (demo_interface ''wlan0'' [''10.0.0.1''])"
    by (simp_all add: served_interface_def demo_interface_def IGNORED_PREFIXES_def if_loopback_def if_ipv4_def)
  ultimately show ?thesis by (simp add: candidates_def demo_host_def) (simp add: demo_interface_def)
qed

lemma demo_discovered: "discover_local_networks ipv6 demo_host = Inr demo_found"
  unfolding discover_local_networks_def demo_candidates
  using demo_parsed by (simp add: network_at_def prefix_for_def demo_host_def demo_interface_def demo_found_def Let_def)


lemma single_list: "set xs = {x} \<Longrightarrow> distinct xs \<Longrightarrow> xs = [x]"
  by (cases xs) (auto simp: subset_singleton_iff)


text \<open>
  Only the address is checked to be private, not the network it stands for: with a short prefix, here that
  of \<open>eth1\<close>, a network is added that is mostly public, among others the address 172.217.0.1.
\<close>

lemma public_space_is_allowed:
  "\<exists>n. n \<in> ln_network ` set demo_found \<and> widened_networks demo_host [] True
      = Inr [net_text n, net_text \<lparr>net_base = V4 167772160, prefixlen = 24\<rparr>]
    \<and> in_net (v4_of 172 217 0 1) n \<and> \<not> local_address (v4_of 172 217 0 1)"
  by (rule exI [of _ "\<lparr>net_base = V4 2885681152, prefixlen = 8\<rparr>"])
    (simp add: demo_found_def widened_networks_def demo_discovered parsed_networks_def covered_by_def subnet_of_def
      last_value_def host_bits_def in_net_def v4_of_def local_address_def LOCAL_V4_def List.map_filter_def)

text \<open>An uplink on a bridge is not discovered, so its network is not known to the isolation rule.\<close>

lemma bridge_uplink_unknown:
  "candidates ipv6 (demo_host\<lparr>h_interfaces := [demo_interface ''br-lan'' [''10.0.0.1'']], h_route := (Some ''br-lan'', None)\<rparr>) = []"
  by (simp add: candidates_def served_interface_def demo_interface_def IGNORED_PREFIXES_def demo_host_def)

end
