(* ===== verification/Hotspot.thy ===== *)
theory Hotspot
  imports WireGuard
begin

text \<open>
  The access point, \<open>gateway/hotspot.py\<close>: the configuration text of hostapd with its checks, the process
  and what it leaves behind, the list of associated stations and the choice of a channel.  How the
  programs end and what they print are arguments.
\<close>

section \<open>The configuration\<close>

record hotspot_config =
  hc_interface :: str
  hc_ssid :: str
  hc_passphrase :: str
  hc_subnet :: network
  hc_channel :: int
  hc_band :: str
  hc_country_code :: str
  hc_hidden :: bool
  hc_wpa3_only :: bool
  hc_client_isolation :: bool

definition router_address :: "hotspot_config \<Rightarrow> str" where
  "router_address c = host_text (hc_subnet c) (fst (host_span (hc_subnet c)))"

definition is_control :: "char \<Rightarrow> bool" where
  "is_control c = (code_pt c < 0x20 \<or> code_pt c = 0x7F)"

definition reject_control_characters :: "str \<Rightarrow> unit res" where
  "reject_control_characters v = guard_err (list_ex is_control v) HotspotError"

text \<open>The length of the UTF-8 form: two bytes from code point 128 on.\<close>

definition utf8_length :: "str \<Rightarrow> nat" where
  "utf8_length s = sum_list (map (\<lambda>c. if code_pt c < 128 then 1 else 2) s)"

definition flag :: "bool \<Rightarrow> str" where "flag b = (if b then ''1'' else ''0'')"

definition band_lines :: "str \<Rightarrow> str list" where
  "band_lines band =
     (if band = ''5''
      then [''ieee80211ac=1'', ''vht_oper_chwidth=1'', ''vht_oper_centr_freq_seg0_idx=42'', ''vht_capab=[SHORT-GI-80]'']
      else [''ieee80211n=1'', ''wmm_enabled=1'', ''ht_capab=[HT40+][SHORT-GI-20][SHORT-GI-40]''])"

definition security_lines :: "bool \<Rightarrow> str \<Rightarrow> str list" where
  "security_lines wpa3 passphrase =
     (if wpa3 then [''wpa=2'', ''wpa_key_mgmt=SAE'', ''ieee80211w=2'', ''sae_password='' @ passphrase]
      else [''wpa=2'', ''wpa_key_mgmt=WPA-PSK WPA-PSK-SHA256 SAE'', ''ieee80211w=1'', ''sae_require_mfp=1'',
            ''wpa_passphrase='' @ passphrase, ''sae_password='' @ passphrase])"

definition hostapd_lines :: "hotspot_config \<Rightarrow> str list" where
  "hostapd_lines c =
     (let channel = (if hc_channel c = 0 then (if hc_band c = ''5'' then 36 else 6) else hc_channel c) in
      [''# Generated by SymbiVPN.'', ''interface='' @ hc_interface c, ''driver=nl80211'', ''ssid='' @ hc_ssid c,
       ''country_code='' @ hc_country_code c, ''ieee80211d=1'', ''hw_mode='' @ (if hc_band c = ''5'' then ''a'' else ''g''),
       ''channel='' @ dec_int channel]
      @ band_lines (hc_band c)
      @ [''auth_algs=1'', ''ignore_broadcast_ssid='' @ flag (hc_hidden c), ''ap_isolate='' @ flag (hc_client_isolation c),
         ''wpa_pairwise=CCMP'', ''rsn_pairwise=CCMP'']
      @ security_lines (hc_wpa3_only c) (hc_passphrase c)
      @ [''wpa_group_rekey=600'', ''wpa_gmk_rekey=86400'', ''disassoc_low_ack=1''])"

definition build_hostapd_config :: "hotspot_config \<Rightarrow> str res" where
  "build_hostapd_config c =
     rbind (rmap reject_control_characters [hc_interface c, hc_ssid c, hc_passphrase c, hc_country_code c]) (\<lambda>_.
     if length (hc_passphrase c) < 8 then Inl HotspotError
     else if \<not> hc_wpa3_only c \<and> 63 < length (hc_passphrase c) then Inl HotspotError
     else if \<not> (1 \<le> utf8_length (hc_ssid c) \<and> utf8_length (hc_ssid c) \<le> 32) then Inl HotspotError
     else Inr (join newline (hostapd_lines c) @ newline))"

section \<open>The process\<close>

text \<open>
  \<open>ap_process\<close> is whether hostapd has been started and is alive, \<open>ap_file\<close> the configuration file that
  exists, \<open>ap_stray\<close> the number of temporary files nothing refers to any more.
\<close>

record hotspot =
  ap_config :: hotspot_config
  ap_process :: bool
  ap_file :: "str option"
  ap_stray :: nat
  ap_address_added :: bool
  ap_nmcli :: bool

definition new_hotspot :: "hotspot_config \<Rightarrow> hotspot" where
  "new_hotspot c = \<lparr>ap_config = c, ap_process = False, ap_file = None, ap_stray = 0, ap_address_added = False, ap_nmcli = False\<rparr>"

definition ap_running :: "hotspot \<Rightarrow> bool" where "ap_running s = (ap_nmcli s \<or> ap_process s)"

text \<open>
  What happens on the machine: which programs are there, the exit status of \<open>ip addr add\<close>, whether
  hostapd is still alive after two seconds, and whether nmcli succeeded.
\<close>

record machine =
  hostapd_here :: bool
  nmcli_here :: bool
  addr_status :: int
  hostapd_stays :: bool
  nmcli_okay :: bool

definition configure_address :: "machine \<Rightarrow> hotspot \<Rightarrow> hotspot" where
  "configure_address m s = (if addr_status m \<in> {0, 2} then s\<lparr>ap_address_added := True\<rparr> else s)"

definition start_hostapd :: "machine \<Rightarrow> hotspot \<Rightarrow> hotspot \<times> unit res" where
  "start_hostapd m s =
     (case build_hostapd_config (ap_config s) of
        Inl e \<Rightarrow> (s\<lparr>ap_stray := ap_stray s + 1\<rparr>, Inl e)
      | Inr t \<Rightarrow>
          if hostapd_stays m then (s\<lparr>ap_file := Some t, ap_process := True\<rparr>, Inr ())
          else (s\<lparr>ap_file := None, ap_process := False\<rparr>, Inl HotspotError))"

definition start_hotspot :: "machine \<Rightarrow> hotspot \<Rightarrow> hotspot \<times> unit res" where
  "start_hotspot m s =
     (let s = configure_address m s in
      if hostapd_here m then start_hostapd m s
      else if nmcli_here m then (if nmcli_okay m then (s\<lparr>ap_nmcli := True\<rparr>, Inr ()) else (s, Inl HotspotError))
      else (s, Inl HotspotError))"

definition stop_hotspot :: "hotspot \<Rightarrow> hotspot" where
  "stop_hotspot s = s\<lparr>ap_process := False, ap_file := None, ap_nmcli := False, ap_address_added := False\<rparr>"

section \<open>Stations and channels\<close>

text \<open>\<open>clients\<close>: the printed list of stations, an address on a line and its attributes below it.\<close>

definition STATION_KEYS :: "str list" where
  "STATION_KEYS = [''signal'', ''rx_bytes'', ''tx_bytes'', ''connected_time'']"

fun station_loop :: "str list \<Rightarrow> (str, str) dict \<Rightarrow> (str, str) dict list \<Rightarrow> (str, str) dict list" where
  "station_loop [] current found = (if current = [] then found else found @ [current])"
| "station_loop (l # ls) current found =
     (let l = strip_ws l in
      if l = [] then station_loop ls current found
      else if CHR '':'' \<in> set l \<and> CHR ''='' \<notin> set l then
        station_loop ls [(''mac'', l)] (if current = [] then found else found @ [current])
      else if CHR ''='' \<in> set l \<and> current \<noteq> [] then
        (let (key, v) = partition_at CHR ''='' l in
         station_loop ls (if key \<in> set STATION_KEYS then dset key v current else current) found)
      else station_loop ls current found)"

definition stations :: "str list \<Rightarrow> (str, str) dict list" where "stations ls = station_loop ls [] []"

text \<open>\<open>min\<close> with a key takes the first of the least.\<close>

fun least_by :: "('a \<Rightarrow> 'b::linorder) \<Rightarrow> 'a \<Rightarrow> 'a list \<Rightarrow> 'a" where
  "least_by f x [] = x"
| "least_by f x (y # ys) = least_by f (if f y < f x then y else x) ys"

definition CHANNELS :: "int list" where "CHANNELS = [1, 6, 11]"

definition nearest_channel :: "int \<Rightarrow> int" where
  "nearest_channel n = least_by (\<lambda>c. \<bar>c - n\<bar>) 1 [6, 11]"

definition seen_channel :: "str \<Rightarrow> int option" where
  "seen_channel l =
     (let l = strip_ws l in
      if prefix ''DS Parameter set: channel'' l then py_int_text (last (split_ws l)) else None)"

definition count_channels :: "str list \<Rightarrow> int \<Rightarrow> nat" where
  "count_channels ls c = length (filter (\<lambda>l. map_option nearest_channel (seen_channel l) = Some c) ls)"

text \<open>\<open>device\<close> is the interface \<open>iw dev\<close> names, if \<open>iw\<close> is there and names one; \<open>scan\<close> its list of networks.\<close>

definition pick_channel :: "str \<Rightarrow> str option \<Rightarrow> str list \<Rightarrow> int" where
  "pick_channel band device scan =
     (if band = ''5'' then 36
      else case device of None \<Rightarrow> 6
      | Some _ \<Rightarrow> least_by (count_channels scan) 1 [6, 11])"

section \<open>What hostapd reads\<close>

text \<open>Its settings: the lines that are not comments, cut at the first \<open>=\<close>; the last value given for a key holds.\<close>

definition hostapd_settings :: "str \<Rightarrow> (str \<times> str) list" where
  "hostapd_settings t = map (partition_at CHR ''='') (filter (\<lambda>l. l \<noteq> [] \<and> \<not> prefix ''#'' l) (split_on CHR 0x0A t))"

definition setting :: "str \<Rightarrow> str \<Rightarrow> str option" where
  "setting t k = map_of (rev (hostapd_settings t)) k"

definition chosen_settings :: "hotspot_config \<Rightarrow> (str \<times> str) list" where
  "chosen_settings c =
     [(''interface'', hc_interface c), (''driver'', ''nl80211''), (''ssid'', hc_ssid c), (''country_code'', hc_country_code c),
      (''ieee80211d'', ''1''), (''hw_mode'', if hc_band c = ''5'' then ''a'' else ''g''),
      (''channel'', dec_int (if hc_channel c = 0 then (if hc_band c = ''5'' then 36 else 6) else hc_channel c))]
     @ (if hc_band c = ''5''
        then [(''ieee80211ac'', ''1''), (''vht_oper_chwidth'', ''1''), (''vht_oper_centr_freq_seg0_idx'', ''42''), (''vht_capab'', ''[SHORT-GI-80]'')]
        else [(''ieee80211n'', ''1''), (''wmm_enabled'', ''1''), (''ht_capab'', ''[HT40+][SHORT-GI-20][SHORT-GI-40]'')])
     @ [(''auth_algs'', ''1''), (''ignore_broadcast_ssid'', flag (hc_hidden c)), (''ap_isolate'', flag (hc_client_isolation c)),
        (''wpa_pairwise'', ''CCMP''), (''rsn_pairwise'', ''CCMP''), (''wpa'', ''2'')]
     @ (if hc_wpa3_only c
        then [(''wpa_key_mgmt'', ''SAE''), (''ieee80211w'', ''2''), (''sae_password'', hc_passphrase c)]
        else [(''wpa_key_mgmt'', ''WPA-PSK WPA-PSK-SHA256 SAE''), (''ieee80211w'', ''1''), (''sae_require_mfp'', ''1''),
              (''wpa_passphrase'', hc_passphrase c), (''sae_password'', hc_passphrase c)])
     @ [(''wpa_group_rekey'', ''600''), (''wpa_gmk_rekey'', ''86400''), (''disassoc_low_ack'', ''1'')]"

lemma no_control_one_line: "\<not> list_ex is_control v \<Longrightarrow> one_line v"
proof -
  have "is_control (CHR 0x0A)" by code_simp
  then show "\<not> list_ex is_control v \<Longrightarrow> one_line v" by (auto simp: one_line_def list_ex_iff)
qed

lemma dec_int_line [simp]: "one_line (dec_int n)" by (simp add: dec_int_def)

lemma flag_line [simp]: "one_line (flag b)" by (simp add: flag_def)

lemma hostapd_lines_one_line:
  assumes "one_line (hc_interface c)" "one_line (hc_ssid c)" "one_line (hc_passphrase c)" "one_line (hc_country_code c)"
  shows "list_all one_line (hostapd_lines c)"
  using assms by (simp add: hostapd_lines_def Let_def band_lines_def security_lines_def)

lemma hostapd_lines_read:
  "map (partition_at CHR ''='') (filter (\<lambda>l. l \<noteq> [] \<and> \<not> prefix ''#'' l) (hostapd_lines c)) = chosen_settings c"
  by (simp add: hostapd_lines_def Let_def band_lines_def security_lines_def chosen_settings_def partition_at_def)

lemma build_hostapd_Inr:
  assumes "build_hostapd_config c = Inr t"
  shows "t = join newline (hostapd_lines c) @ newline" "list_all one_line (hostapd_lines c)"
    "8 \<le> length (hc_passphrase c)" "\<not> hc_wpa3_only c \<longrightarrow> length (hc_passphrase c) \<le> 63"
    "1 \<le> utf8_length (hc_ssid c)" "utf8_length (hc_ssid c) \<le> 32"
  using assms no_control_one_line
  by (auto simp: build_hostapd_config_def rbind_Inr_iff reject_control_characters_def guard_err_iff
      intro!: hostapd_lines_one_line split: if_splits)

text \<open>C40: hostapd reads from the file exactly the settings that were chosen, in order and nothing else, so no
  name or passphrase can add a directive: the network is always WPA2 or WPA3 with that passphrase, of
  an allowed length, and the SSID takes at most 32 bytes.\<close>

theorem hostapd_reads_chosen_settings:
  assumes "build_hostapd_config c = Inr t"
  shows "hostapd_settings t = chosen_settings c \<and> setting t ''wpa'' = Some ''2''
    \<and> setting t ''ssid'' = Some (hc_ssid c) \<and> setting t ''sae_password'' = Some (hc_passphrase c)
    \<and> setting t ''wpa_passphrase'' = (if hc_wpa3_only c then None else Some (hc_passphrase c))
    \<and> 8 \<le> length (hc_passphrase c) \<and> 1 \<le> utf8_length (hc_ssid c) \<and> utf8_length (hc_ssid c) \<le> 32"
proof -
  note b = build_hostapd_Inr [OF assms]
  have ne: "hostapd_lines c \<noteq> []" by (simp add: hostapd_lines_def Let_def)
  have "split_on CHR 0x0A t = hostapd_lines c @ [[]]"
    unfolding b(1) join_last_empty [OF ne] unfolding newline_def
    using b(2) by (intro split_on_join) (auto simp: one_line_def list_all_iff)
  then have s: "hostapd_settings t = chosen_settings c"
    by (simp add: hostapd_settings_def hostapd_lines_read)
  show ?thesis unfolding setting_def s using b(3,5,6) by (simp add: chosen_settings_def)
qed

definition demo_hotspot :: hotspot_config where
  "demo_hotspot = \<lparr>hc_interface = ''wlan1'', hc_ssid = ''Home'', hc_passphrase = ''correct horse'', hc_subnet = demo_net,
     hc_channel = 0, hc_band = ''2.4'', hc_country_code = ''SE'', hc_hidden = False, hc_wpa3_only = False, hc_client_isolation = False\<rparr>"

theorem hostapd_reads_chosen_settings_witness:
  "\<exists>t. build_hostapd_config demo_hotspot = Inr t \<and> setting t ''wpa_passphrase'' = Some ''correct horse''"
proof -
  have "list_all (\<lambda>v. \<not> list_ex is_control v) [''wlan1'', ''Home'', ''correct horse'', ''SE'']" by code_simp
  moreover have "utf8_length ''Home'' = 4" by code_simp
  ultimately obtain t where t: "build_hostapd_config demo_hotspot = Inr t"
    by (simp add: build_hostapd_config_def demo_hotspot_def reject_control_characters_def guard_err_def)
  from hostapd_reads_chosen_settings [OF t] t show ?thesis by (simp add: demo_hotspot_def)
qed

section \<open>The process and the channel\<close>

text \<open>A start that fails leaves no process and no file with the passphrase, and a stop neither.\<close>

lemma failed_start_leaves_no_passphrase:
  assumes "start_hotspot m (new_hotspot c) = (s, Inl e)"
  shows "ap_file s = None \<and> \<not> ap_running s \<and> e = HotspotError"
  using assms by (auto simp: start_hotspot_def start_hostapd_def new_hotspot_def configure_address_def Let_def ap_running_def
      build_hostapd_config_def rbind_Inl_iff reject_control_characters_def guard_err_iff split: if_splits sum.splits)

lemma stop_leaves_nothing: "ap_file (stop_hotspot s) = None \<and> \<not> ap_running (stop_hotspot s)"
  by (simp add: stop_hotspot_def ap_running_def)

text \<open>A configuration that is refused leaves an empty temporary file behind, which nothing removes.\<close>

lemma refused_configuration_leaves_file:
  assumes "hostapd_here m" "build_hostapd_config c = Inl e" "start_hotspot m (new_hotspot c) = (s, r)"
  shows "ap_stray (stop_hotspot s) = 1"
  using assms by (auto simp: start_hotspot_def start_hostapd_def new_hotspot_def configure_address_def stop_hotspot_def Let_def split: if_splits)

lemma least_by_least: "least_by f x ys \<in> set (x # ys) \<and> (\<forall>y \<in> set (x # ys). f (least_by f x ys) \<le> f y)"
proof (induction ys arbitrary: x)
  case (Cons y ys)
  from Cons.IH [of "if f y < f x then y else x"] show ?case by (auto split: if_splits)
qed simp

lemma channel_least_crowded:
  assumes "band \<noteq> ''5''" and "device = Some d"
  shows "pick_channel band device scan \<in> set CHANNELS
    \<and> (\<forall>c \<in> set CHANNELS. count_channels scan (pick_channel band device scan) \<le> count_channels scan c)"
  using least_by_least [of "count_channels scan" 1 "[6, 11]"] assms by (simp add: pick_channel_def CHANNELS_def)

text \<open>Every station listed starts with its address.\<close>

lemma stations_have_address: "st \<in> set (stations ls) \<Longrightarrow> fst (hd st) = ''mac'' \<and> st \<noteq> []"
proof -
  have "(current = [] \<or> fst (hd current) = ''mac'') \<Longrightarrow> \<forall>st \<in> set found. fst (hd st) = ''mac'' \<and> st \<noteq> []
      \<Longrightarrow> st \<in> set (station_loop ls current found) \<Longrightarrow> fst (hd st) = ''mac'' \<and> st \<noteq> []" for current found
  proof (induction ls arbitrary: current found)
    case (Cons l ls)
    let ?l = "strip_ws l"
    have d: "fst (hd (dset k v current)) = ''mac''" if "current \<noteq> []" for k v
      using Cons.prems(1) that by (cases current) auto
    have same: "st \<in> set (station_loop ls current found) \<Longrightarrow> fst (hd st) = ''mac'' \<and> st \<noteq> []"
      by (rule Cons.IH [OF Cons.prems(1,2)])
    show ?case
    proof (cases "?l = []")
      case True
      with Cons.prems(3) same show ?thesis by (simp add: Let_def)
    next
      case l: False
      show ?thesis
      proof (cases "CHR '':'' \<in> set ?l \<and> CHR ''='' \<notin> set ?l")
        case True
        let ?f = "if current = [] then found else found @ [current]"
        have in_rest: "st \<in> set (station_loop ls [(''mac'', ?l)] ?f)" using True l Cons.prems(3) by (simp add: Let_def)
        have "\<forall>st \<in> set ?f. fst (hd st) = ''mac'' \<and> st \<noteq> []" using Cons.prems(1,2) by auto
        from Cons.IH [OF _ this in_rest] show ?thesis by simp
      next
        case name: False
        show ?thesis
        proof (cases "CHR ''='' \<in> set ?l \<and> current \<noteq> []")
          case True
          let ?c = "if fst (partition_at CHR ''='' ?l) \<in> set STATION_KEYS
              then dset (fst (partition_at CHR ''='' ?l)) (snd (partition_at CHR ''='' ?l)) current else current"
          have "st \<in> set (station_loop ls ?c found)" using True l Cons.prems(3) by (simp add: Let_def case_prod_beta)
          moreover have "?c = [] \<or> fst (hd ?c) = ''mac''" using d [OF conjunct2 [OF True]] Cons.prems(1) by simp
          ultimately show ?thesis by (intro Cons.IH [of ?c, OF _ Cons.prems(2)])
        next
          case False
          then have "station_loop (l # ls) current found = station_loop ls current found"
            using l name by (subst station_loop.simps) (simp only: Let_def if_False)
          with Cons.prems(3) same show ?thesis by metis
        qed
      qed
    qed
  qed (simp split: if_splits; blast)
  from this [of "[]" "[]"] show "st \<in> set (stations ls) \<Longrightarrow> fst (hd st) = ''mac'' \<and> st \<noteq> []"
    by (simp add: stations_def)
qed

end
