(* ===== verification/Tls.thy ===== *)
theory Tls
  imports X25519 IpAddr
begin

text \<open>
  The channel to encrypted resolvers, \<open>tlsutil.py\<close>: the spelling of host names and pins, the policy of a
  profile, the reader of DER that finds the public key of a certificate, and the check of a live
  connection against the pins.  SHA-256 and the certificate the connection presents are arguments; what
  the \<open>ssl\<close> module does with the context is not modelled, only what it is given.
\<close>

section \<open>Names and pins\<close>

definition COMPATIBLE_CIPHERS :: str where
  "COMPATIBLE_CIPHERS =
     ''ECDHE+AESGCM:ECDHE+CHACHA20:DHE+AESGCM:DHE+CHACHA20:!aNULL:!eNULL:!MD5:!DSS:!RC4:!3DES''"

definition STRICT_CIPHERS :: str where
  "STRICT_CIPHERS = ''ECDHE+AESGCM:ECDHE+CHACHA20:!aNULL:!eNULL:!MD5:!DSS:!RC4:!3DES''"

definition PIN_LENGTH :: nat where "PIN_LENGTH = 32"

definition normalise_hostname :: "str \<Rightarrow> str" where
  "normalise_hostname name = lower (rstrip is_dot (strip_ws name))"

definition normalise_pin :: "str \<Rightarrow> str" where
  "normalise_pin v =
     (let t = strip_ws v;
          t = (if prefix ''pin-sha256='' (lower t) then strip_ws (drop 11 t) else t)
      in strip_ws (strip (\<lambda>c. c = CHR 0x27) (strip (\<lambda>c. c = CHR 0x22) t)))"

text \<open>
  \<open>b64decode\<close> with \<open>validate\<close>: characters of the alphabet, then the padding that completes the last group
  of four.
\<close>

definition b64decode_strict :: "str \<Rightarrow> bytes res" where
  "b64decode_strict s =
     (let d = takeWhile (\<lambda>c. c \<noteq> CHR ''='') s; p = dropWhile (\<lambda>c. c \<noteq> CHR ''='') s in
      if list_all (\<lambda>c. b64_index c \<noteq> None) d \<and> p \<in> {[], ''='', ''==''} \<and> length s mod 4 = 0
      then a2b 0 0 0 s else Inl ValueError)"

definition parse_pin :: "str \<Rightarrow> bytes res" where
  "parse_pin v =
     (let t = normalise_pin v in
      if t = [] then Inl ValueError
      else rbind (b64decode_strict t) (\<lambda>raw. if length raw \<noteq> PIN_LENGTH then Inl ValueError else Inr raw))"

section \<open>The policy\<close>

record tls_policy =
  tp_profile :: str
  tp_pins :: "(str, str list) dict"

text \<open>Keys that are spelled differently but normalise alike fall together, and the last one stays.\<close>

definition new_tls_policy :: "str \<Rightarrow> (str, str list) dict \<Rightarrow> tls_policy" where
  "new_tls_policy profile pins =
     \<lparr>tp_profile = profile,
      tp_pins = fold (\<lambda>(h, ps). dset (normalise_hostname h) (map normalise_pin ps)) pins []\<rparr>"

definition pins_for :: "tls_policy \<Rightarrow> str \<Rightarrow> str list" where
  "pins_for p hostname = (case dget (tp_pins p) (normalise_hostname hostname) of None \<Rightarrow> [] | Some ps \<Rightarrow> ps)"

datatype tls_version = TLSv1_2 | TLSv1_3

definition minimum_version :: "tls_policy \<Rightarrow> tls_version" where
  "minimum_version p = (if tp_profile p = ''paranoid'' then TLSv1_3 else TLSv1_2)"

definition ciphers :: "tls_policy \<Rightarrow> str" where
  "ciphers p = (if tp_profile p = ''compatible'' then COMPATIBLE_CIPHERS else STRICT_CIPHERS)"

record tls_context =
  check_hostname :: bool
  verify_required :: bool
  floor_version :: tls_version
  no_compression :: bool
  single_dh_use :: bool
  cipher_list :: "str option"
  alpn :: "str list"

text \<open>\<open>ciphers_okay\<close> and \<open>alpn_okay\<close> tell whether the SSL library takes the two lists.\<close>

definition build_context :: "bool \<Rightarrow> bool \<Rightarrow> tls_policy option \<Rightarrow> tls_context" where
  "build_context ciphers_okay alpn_okay policy =
     (let p = (case policy of None \<Rightarrow> new_tls_policy ''strict'' [] | Some p \<Rightarrow> p) in
      \<lparr>check_hostname = True, verify_required = True, floor_version = minimum_version p, no_compression = True,
       single_dh_use = True, cipher_list = (if ciphers_okay then Some (ciphers p) else None),
       alpn = (if alpn_okay then [''h2'', ''http/1.1''] else [])\<rparr>)"

section \<open>Reading DER\<close>

definition read_tlv :: "bytes \<Rightarrow> nat \<Rightarrow> (byte \<times> nat \<times> nat \<times> nat) res" where
  "read_tlv data offset =
     (if length data \<le> offset then Inl ValueError
      else if length data \<le> offset + 1 then Inl ValueError
      else
        let tag = data ! offset; first = data ! (offset + 1); cursor = offset + 2 in
        rbind (if first AND 0x80 \<noteq> 0
               then (let k = unat (first AND 0x7F) in
                     if k = 0 then Inl ValueError
                     else if length data < cursor + k then Inl ValueError
                     else Inr (be_value (slice cursor (cursor + k) data), cursor + k))
               else Inr (unat first, cursor)) (\<lambda>(len, cursor).
          if length data < cursor + len then Inl ValueError
          else Inr (tag, cursor, cursor + len, cursor + len)))"

fun skip_elements :: "nat \<Rightarrow> bytes \<Rightarrow> nat \<Rightarrow> nat \<Rightarrow> nat res" where
  "skip_elements 0 data limit cursor = Inr cursor"
| "skip_elements (Suc k) data limit cursor =
     (if limit \<le> cursor then Inl ValueError
      else rbind (read_tlv data cursor) (\<lambda>(_, _, _, next). skip_elements k data limit next))"

definition extract_spki :: "bytes \<Rightarrow> bytes res" where
  "extract_spki der =
     rbind (read_tlv der 0) (\<lambda>(tag, header_end, _, _).
     if tag \<noteq> 0x30 then Inl ValueError
     else rbind (read_tlv der header_end) (\<lambda>(tag, tbs_start, tbs_end, _).
       if tag \<noteq> 0x30 then Inl ValueError
       else rbind (read_tlv der tbs_start) (\<lambda>(tag, _, _, next).
         rbind (skip_elements 5 der tbs_end (if tag = 0xA0 then next else tbs_start)) (\<lambda>cursor.
         rbind (read_tlv der cursor) (\<lambda>(tag, _, spki_end, _).
         if tag \<noteq> 0x30 then Inl ValueError
         else Inr (slice cursor spki_end der))))))"

definition spki_pin :: "(bytes \<Rightarrow> bytes) \<Rightarrow> bytes \<Rightarrow> str res" where
  "spki_pin sha der = rbind (extract_spki der) (\<lambda>spki. Inr (b64encode (sha spki)))"

text \<open>\<open>der\<close> is the certificate the connection presents, \<^const>\<open>None\<close> or empty for none.\<close>

definition verify_pin :: "(bytes \<Rightarrow> bytes) \<Rightarrow> bytes option \<Rightarrow> str \<Rightarrow> tls_policy \<Rightarrow> unit res" where
  "verify_pin sha der hostname policy =
     (let expected = pins_for policy hostname in
      if expected = [] then Inr ()
      else if der \<in> {None, Some []} then Inl PinMismatch
      else case spki_pin sha (the der) of
        Inl e \<Rightarrow> Inl (if e = ValueError then PinMismatch else e)
      | Inr actual \<Rightarrow> if actual \<notin> set expected then Inl PinMismatch else Inr ())"

text \<open>\<open>fetch_pin\<close>, where the connection presents \<open>der\<close>.\<close>

definition fetch_pin :: "(bytes \<Rightarrow> bytes) \<Rightarrow> bytes option \<Rightarrow> str res" where
  "fetch_pin sha der = (if der \<in> {None, Some []} then Inl ValueError else spki_pin sha (the der))"

section \<open>The public key of a certificate\<close>

text \<open>The forms of a length: one byte below 128, or a count of up to 127 bytes and the length in them.\<close>

definition der_length :: "bytes \<Rightarrow> nat \<Rightarrow> bool" where
  "der_length lb n \<longleftrightarrow> (\<exists>b. lb = [b] \<and> unat b = n \<and> n < 128)
     \<or> (\<exists>b bs. lb = b # bs \<and> bs \<noteq> [] \<and> unat b = 128 + length bs \<and> be_value bs = n)"

definition der_element :: "byte \<Rightarrow> bytes \<Rightarrow> bytes \<Rightarrow> bool" where
  "der_element tag content e \<longleftrightarrow> (\<exists>lb. der_length lb (length content) \<and> e = tag # lb @ content)"

lemma high_bit_table:
  "list_all (\<lambda>n. ((of_nat n :: byte) AND 0x80 = 0) = (n < 128)
     \<and> (128 \<le> n \<longrightarrow> unat ((of_nat n :: byte) AND 0x7F) = n - 128)) [0..<256]"
  by code_simp

lemma high_bit:
  fixes b :: byte
  shows "b AND 0x80 = 0 \<longleftrightarrow> unat b < 128" "128 \<le> unat b \<Longrightarrow> unat (b AND 0x7F) = unat b - 128"
proof -
  have "unat b \<in> set [0..<256]" using unsigned_less [of b, where ?'a = nat] by simp
  with high_bit_table have "((of_nat (unat b) :: byte) AND 0x80 = 0) = (unat b < 128)
     \<and> (128 \<le> unat b \<longrightarrow> unat ((of_nat (unat b) :: byte) AND 0x7F) = unat b - 128)"
    unfolding list_all_iff by blast
  then show "b AND 0x80 = 0 \<longleftrightarrow> unat b < 128" "128 \<le> unat b \<Longrightarrow> unat (b AND 0x7F) = unat b - 128" by simp_all
qed

lemma read_tlv_element:
  assumes "der_element tag content e"
  shows "\<exists>h. length e = h + length content \<and> drop h e = content \<and> read_tlv (pre @ e @ post) (length pre)
    = Inr (tag, length pre + h, length pre + length e, length pre + length e)"
proof -
  obtain lb where lb: "der_length lb (length content)" "e = tag # lb @ content"
    using assms by (auto simp: der_element_def)
  let ?d = "pre @ e @ post"
  from lb(1) consider b where "lb = [b]" "unat b = length content" "length content < 128"
    | b bs where "lb = b # bs" "bs \<noteq> []" "unat b = 128 + length bs" "be_value bs = length content"
    by (auto simp: der_length_def)
  then show ?thesis
  proof cases
    case 1
    then have d: "?d = pre @ tag # b # content @ post" by (simp add: lb(2))
    have "b AND 0x80 = 0" using 1 by (simp add: high_bit)
    then have "read_tlv ?d (length pre) = Inr (tag, length pre + 2, length pre + 2 + length content, length pre + 2 + length content)"
      unfolding d read_tlv_def using 1 by (simp add: nth_append)
    with 1 show ?thesis by (intro exI [of _ 2]) (simp add: lb(2) add.commute)
  next
    case 2
    then have d: "?d = pre @ tag # b # bs @ content @ post" by (simp add: lb(2))
    have b: "b AND 0x80 \<noteq> 0" "unat (b AND 0x7F) = length bs" using 2 by (simp_all add: high_bit)
    have "slice (length pre + 2) (length pre + 2 + length bs) ((pre @ [tag, b]) @ bs @ content @ post) = bs"
      by (rule slice_append_mid) simp_all
    then have s: "slice (length pre + 2) (length pre + 2 + length bs) (pre @ tag # b # bs @ content @ post) = bs" by simp
    have "read_tlv ?d (length pre) = Inr (tag, length pre + 2 + length bs, length pre + 2 + length bs + length content,
        length pre + 2 + length bs + length content)"
      unfolding d read_tlv_def Let_def using 2 b s by (simp add: nth_append)
    with 2 show ?thesis by (intro exI [of _ "2 + length bs"]) (simp add: lb(2) add.commute add.left_commute)
  qed
qed

lemma skip_elements_concat:
  assumes "list_all (\<lambda>e. \<exists>tag content. der_element tag content e) es" and "length pre + length (concat es) \<le> limit"
  shows "skip_elements (length es) (pre @ concat es @ post) limit (length pre) = Inr (length pre + length (concat es))"
  using assms
proof (induction es arbitrary: pre)
  case (Cons e es)
  then obtain tag content where e: "der_element tag content e" by auto
  have ne: "e \<noteq> []" using e by (auto simp: der_element_def)
  then have "length pre < limit" using Cons.prems(2) by (cases e) simp_all
  moreover obtain h where "read_tlv (pre @ e @ concat es @ post) (length pre) = Inr (tag, length pre + h, length pre + length e, length pre + length e)"
    using read_tlv_element [OF e] by blast
  moreover have "skip_elements (length es) ((pre @ e) @ concat es @ post) limit (length (pre @ e)) = Inr (length (pre @ e) + length (concat es))"
    using Cons.prems by (intro Cons.IH) auto
  ultimately show ?case by (simp add: add.assoc)
qed simp

text \<open>C36: in a certificate laid out as X.509 lays it out, with or without a version, with any encoding of the
  lengths and whatever follows the key, the reader finds exactly the element that holds the public key.\<close>

theorem key_of_certificate:
  assumes "list_all (\<lambda>e. \<exists>tag content. der_element tag content e) es" and "length es = 5"
    and "version = [] \<and> hd (concat es) \<noteq> 0xA0 \<or> (\<exists>c. der_element 0xA0 c version)"
    and "der_element 0x30 key_content key"
    and "der_element 0x30 (version @ concat es @ key @ extensions) tbs"
    and "der_element 0x30 (tbs @ signature) certificate"
  shows "extract_spki (certificate @ trailing) = Inr key"
proof -
  let ?body = "version @ concat es @ key @ extensions"
  obtain h1 where h1: "length certificate = h1 + length (tbs @ signature)" "drop h1 certificate = tbs @ signature"
      "read_tlv ([] @ certificate @ trailing) 0 = Inr (0x30, h1, length certificate, length certificate)"
    using read_tlv_element [OF assms(6), of "[]" trailing] by auto
  define p1 where "p1 = take h1 certificate"
  have p1: "certificate = p1 @ tbs @ signature" "length p1 = h1"
  proof -
    show "certificate = p1 @ tbs @ signature" unfolding p1_def h1(2) [symmetric] by simp
    show "length p1 = h1" using h1(1) by (simp add: p1_def)
  qed
  obtain h2 where h2: "length tbs = h2 + length ?body" "drop h2 tbs = ?body"
      "read_tlv (p1 @ tbs @ signature @ trailing) h1 = Inr (0x30, h1 + h2, h1 + length tbs, h1 + length tbs)"
    using read_tlv_element [OF assms(5), of p1 "signature @ trailing"] p1(2) by auto
  define p2 where "p2 = p1 @ take h2 tbs"
  have len2: "length p2 = h1 + h2" using p1(2) h2(1) by (simp add: p2_def)
  have tbs: "p1 @ tbs = p2 @ ?body" unfolding p2_def h2(2) [symmetric] by simp
  let ?d = "certificate @ trailing"
  let ?post = "key @ extensions @ signature @ trailing"
  have "?d = (p1 @ tbs) @ signature @ trailing" by (simp add: p1(1))
  then have d: "?d = p2 @ version @ concat es @ ?post" unfolding tbs by simp
  obtain e rest where es: "es = e # rest" using assms(2) by (cases es) auto
  obtain tag content where e: "der_element tag content e" using assms(1) by (auto simp: es)
  have first: "\<exists>t a b n. read_tlv ?d (h1 + h2) = Inr (t, a, b, n)
      \<and> (if t = 0xA0 then n else h1 + h2) = h1 + h2 + length version"
    using assms(3)
  proof (elim disjE exE conjE)
    assume v: "version = []" "hd (concat es) \<noteq> 0xA0"
    have "tag \<noteq> 0xA0" using e v(2) by (auto simp: der_element_def es)
    moreover obtain h where "read_tlv (p2 @ e @ concat rest @ ?post) (length p2) = Inr (tag, length p2 + h, length p2 + length e, length p2 + length e)"
      using read_tlv_element [OF e] by blast
    moreover have "?d = p2 @ e @ concat rest @ ?post" unfolding d by (simp add: v(1) es)
    ultimately show ?thesis using v(1) len2 by simp
  next
    fix c assume v: "der_element 0xA0 c version"
    obtain h where "read_tlv (p2 @ version @ concat es @ ?post) (length p2) = Inr (0xA0, length p2 + h, length p2 + length version, length p2 + length version)"
      using read_tlv_element [OF v] by blast
    then show ?thesis unfolding d [symmetric] len2 by simp
  qed
  then obtain t a b n where f: "read_tlv ?d (h1 + h2) = Inr (t, a, b, n)"
      "(if t = 0xA0 then n else h1 + h2) = length (p2 @ version)" unfolding length_append len2 by blast
  let ?c = "length (p2 @ version) + length (concat es)"
  have "?c \<le> h1 + length tbs" using h2(1) by (simp add: len2)
  then have skip: "skip_elements 5 ?d (h1 + length tbs) (length (p2 @ version)) = Inr ?c"
    using skip_elements_concat [OF assms(1), of "p2 @ version" "h1 + length tbs" ?post] unfolding assms(2) append_assoc d [symmetric]
    by blast
  obtain h where k: "read_tlv ((p2 @ version @ concat es) @ key @ extensions @ signature @ trailing) (length (p2 @ version @ concat es))
      = Inr (0x30, length (p2 @ version @ concat es) + h, length (p2 @ version @ concat es) + length key, length (p2 @ version @ concat es) + length key)"
    using read_tlv_element [OF assms(4)] by blast
  have d': "?d = (p2 @ version @ concat es) @ key @ extensions @ signature @ trailing" by (simp add: d)
  have c: "?c = length (p2 @ version @ concat es)" by simp
  have s: "slice ?c (?c + length key) ?d = key"
    unfolding d' c by (rule slice_append_mid) simp_all
  have k': "read_tlv ?d ?c = Inr (0x30, ?c + h, ?c + length key, ?c + length key)" unfolding d' c by (rule k)
  have r1: "read_tlv ?d 0 = Inr (0x30, h1, length certificate, length certificate)" using h1(3) unfolding append_Nil .
  have r2: "read_tlv ?d h1 = Inr (0x30, h1 + h2, h1 + length tbs, h1 + length tbs)" using h2(3) unfolding p1(1) append_assoc .
  show ?thesis unfolding extract_spki_def r1 r2 f(1) rbind.simps prod.case f(2) skip k' s by simp
qed

section \<open>Pins\<close>

definition pin_char :: "char \<Rightarrow> bool" where
  "pin_char c \<longleftrightarrow> \<not> is_space c \<and> c \<noteq> CHR 0x22 \<and> c \<noteq> CHR 0x27 \<and> c \<noteq> CHR ''-''"

lemma pin_chars: "list_all pin_char (b64encode bs)"
proof (rule b64encode_all)
  have "list_all (\<lambda>c. c \<noteq> CHR 0x22 \<and> c \<noteq> CHR 0x27 \<and> c \<noteq> CHR ''-'') b64_alphabet" "length b64_alphabet = 64"
    by (simp_all add: b64_alphabet_def)
  then show "pin_char (b64_char n)" if "n < 64" for n
    using b64_chars(4) [OF that] that by (simp add: pin_char_def b64_char_def list_all_length)
  show "pin_char (CHR ''='')" by code_simp
qed

lemma strip_none: "list_all (\<lambda>c. \<not> p c) s \<Longrightarrow> strip p s = s"
  by (rule strip_id) (simp_all add: list_all_iff)

lemma lower_char_dash: "lower_char c = CHR ''-'' \<Longrightarrow> c = CHR ''-''"
proof -
  assume l: "lower_char c = CHR ''-''"
  have "code_pt CHR ''-'' = 45" by (simp add: code_pt_def)
  moreover have "is_upper c \<Longrightarrow> code_pt (char_of (code_pt c + 32) :: char) = code_pt c + 32 \<and> 65 \<le> code_pt c"
    by (auto simp: is_upper_def Let_def intro!: code_pt_char_of)
  ultimately show ?thesis using l by (auto simp: lower_char_def split: if_splits)
qed

lemma normalise_encoded: "normalise_pin (b64encode bs) = b64encode bs"
proof -
  let ?s = "b64encode bs"
  have "list_all (\<lambda>c. \<not> is_space c) ?s" "list_all (\<lambda>c. \<not> c = CHR 0x22) ?s" "list_all (\<lambda>c. \<not> c = CHR 0x27) ?s"
    by (rule list.pred_mono_strong [OF pin_chars], simp add: pin_char_def)+
  then have strips: "strip_ws ?s = ?s" "strip (\<lambda>c. c = CHR 0x22) ?s = ?s" "strip (\<lambda>c. c = CHR 0x27) ?s = ?s"
    by (simp_all only: strip_none)
  have "\<not> prefix ''pin-sha256='' (lower ?s)"
  proof
    assume "prefix ''pin-sha256='' (lower ?s)"
    then have "set ''pin-sha256='' \<subseteq> set (lower ?s)" by (metis set_mono_prefix)
    then have "CHR ''-'' \<in> set (lower ?s)" by simp
    then obtain c where "c \<in> set ?s" "lower_char c = CHR ''-''" unfolding lower_def set_map by (metis imageE)
    with pin_chars [of bs] lower_char_dash show False by (auto simp: list_all_iff pin_char_def)
  qed
  with strips show ?thesis by (simp add: normalise_pin_def Let_def)
qed

lemma b64encode_inject: "b64encode x = b64encode y \<longleftrightarrow> x = y"
  using b64_round_trip by (metis sum.inject(2))

lemma extract_nonempty: "extract_spki c = Inr k \<Longrightarrow> c \<noteq> []"
  by (auto simp: extract_spki_def read_tlv_def)

text \<open>C39: the pin that is captured from a host protects it: under any spelling of its name that the settings
  and the connection use, a connection is accepted exactly if its certificate carries a key with the
  captured digest, and refused if it has no certificate or none that can be read.\<close>

theorem captured_pin_protects:
  assumes "fetch_pin sha (Some c0) = Inr pin" and "extract_spki c0 = Inr key0"
    and "normalise_hostname name = normalise_hostname host"
  shows "verify_pin sha der host (new_tls_policy profile [(name, [pin])]) = Inr ()
    \<longleftrightarrow> (\<exists>c key. der = Some c \<and> extract_spki c = Inr key \<and> sha key = sha key0)"
proof -
  have pin: "pin = b64encode (sha key0)" using assms(1,2) extract_nonempty by (auto simp: fetch_pin_def spki_pin_def split: if_splits)
  have e: "pins_for (new_tls_policy profile [(name, [pin])]) host = [pin]"
    unfolding pin using assms(3) by (simp add: pins_for_def new_tls_policy_def normalise_encoded)
  show ?thesis
  proof (cases "der \<in> {None, Some []}")
    case True
    then show ?thesis using extract_nonempty by (auto simp: verify_pin_def e Let_def)
  next
    case False
    then obtain c where c: "der = Some c" "c \<noteq> []" by auto
    have a: "b64encode (sha b) = pin \<longleftrightarrow> sha b = sha key0" for b by (simp add: pin b64encode_inject)
    from c show ?thesis
      by (cases "extract_spki c") (simp_all add: verify_pin_def e Let_def spki_pin_def a)
  qed
qed

definition demo_certificate :: "byte \<Rightarrow> bytes" where
  "demo_certificate k = [0x30, 17, 0x30, 13, 2, 0, 2, 0, 2, 0, 2, 0, 2, 0, 0x30, 1, k, 5, 0]"

definition demo_parts :: "bytes list" where "demo_parts = [[2, 0], [2, 0], [2, 0], [2, 0], [2, 0]]"

lemma demo_element: "der_element 2 [] [2, 0]" "der_element 0x30 [k] [0x30, 1, k]"
  by (auto simp: der_element_def der_length_def)

lemma demo_tbs: "der_element 0x30 ([] @ concat demo_parts @ [0x30, 1, k] @ []) [0x30, 13, 2, 0, 2, 0, 2, 0, 2, 0, 2, 0, 0x30, 1, k]"
  "der_element 0x30 ([0x30, 13, 2, 0, 2, 0, 2, 0, 2, 0, 2, 0, 0x30, 1, k] @ [5, 0]) (demo_certificate k)"
  unfolding der_element_def
  by (rule exI [of _ "[13]"], simp add: der_length_def demo_parts_def)
    (rule exI [of _ "[17]"], simp add: der_length_def demo_certificate_def)

theorem key_of_certificate_witness: "extract_spki (demo_certificate 7 @ [1, 2]) = Inr [0x30, 1, 7]"
proof -
  have "list_all (\<lambda>e. \<exists>tag content. der_element tag content e) demo_parts" "length demo_parts = 5"
    using demo_element(1) by (simp_all add: demo_parts_def) blast
  from key_of_certificate [OF this _ demo_element(2) demo_tbs] show ?thesis by (simp add: demo_parts_def)
qed

lemma demo_key: "extract_spki (demo_certificate 7) = Inr [0x30, 1, 7]" "extract_spki (demo_certificate 8) = Inr [0x30, 1, 8]"
  by code_simp+

theorem captured_pin_protects_witness:
  "verify_pin id (Some (demo_certificate 7)) ''Dns.Example.'' (new_tls_policy ''strict'' [('' dns.example'', [b64encode [0x30, 1, 7]])]) = Inr ()
    \<and> verify_pin id (Some (demo_certificate 8)) ''Dns.Example.'' (new_tls_policy ''strict'' [('' dns.example'', [b64encode [0x30, 1, 7]])]) \<noteq> Inr ()"
proof -
  have n: "normalise_hostname '' dns.example'' = normalise_hostname ''Dns.Example.''" by code_simp
  have f: "fetch_pin id (Some (demo_certificate 7)) = Inr (b64encode [0x30, 1, 7])"
    using demo_key(1) extract_nonempty [OF demo_key(1)] by (simp add: fetch_pin_def spki_pin_def)
  show ?thesis unfolding captured_pin_protects [OF f demo_key(1) n] by (simp add: demo_key)
qed

text \<open>
  A pin that decodes to the right digest but sets the bits its last character does not use passes the
  checks of the settings, and yet never matches, since pins are compared as text.
\<close>

lemma pin_with_spare_bits: "b64decode_strict ''AB=='' = b64decode_strict (b64encode [0])" "b64encode [0] = ''AA==''"
  by code_simp+

end
