(* ===== verification/Manager.thy ===== *)
theory Manager
  imports Networks Hotspot Reflector TimeServer Dhcp
begin

text \<open>
  The gateway as a whole, \<open>gateway/manager.py\<close>: starting and stopping its parts, and the watcher that
  rebuilds the firewall when the machine moves to another network.  What the kernel reports at each
  point where the code asks is an argument, so the network may change between any two questions; so is
  how each command and each socket ends.
\<close>

section \<open>State\<close>

text \<open>The fields of the configuration the manager reads.\<close>

record gateway_settings =
  gs_enabled :: bool
  gs_ssid :: str
  gs_passphrase :: str
  gs_interface :: str
  gs_uplink :: str
  gs_subnet :: str
  gs_channel :: int
  gs_band :: str
  gs_country_code :: str
  gs_hidden :: bool
  gs_wpa3_only :: bool
  gs_client_isolation :: bool
  gs_through_vpn :: bool
  gs_isolate :: bool
  gs_allow_ipv6 :: bool
  gs_serve_time :: bool
  gs_lease_seconds :: int
  gs_vpn_interface :: str
  gs_dns_port :: int
  gs_dashboard_port :: int
  gs_cluster_enabled :: bool
  gs_cluster_port :: int
  gs_share_discovery :: bool
  gs_discovery_networks :: "str list"
  gs_discovery_protocols :: "str list"
  gs_extra_networks :: "str list"

record gateway_state =
  gt_ap :: str
  gt_uplink :: str
  gt_fingerprint :: str
  gt_subnet :: "network option"
  gt_hotspot_running :: bool
  gt_rules_applied :: bool
  gt_vpn :: str
  gt_started_at :: time
  gt_last_change :: time
  gt_changes :: nat
  gt_errors :: "err list"

definition new_gateway_state :: gateway_state where
  "new_gateway_state =
     \<lparr>gt_ap = [], gt_uplink = [], gt_fingerprint = [], gt_subnet = None, gt_hotspot_running = False,
      gt_rules_applied = False, gt_vpn = [], gt_started_at = 0, gt_last_change = 0, gt_changes = 0, gt_errors = []\<rparr>"

text \<open>
  The manager with the parts it has created, whether the watcher runs, and the firewall of the kernel.
  A part that is present has been created; whether it serves is its own state.
\<close>

record gateway_manager =
  gm_conf :: gateway_settings
  gm_state :: gateway_state
  gm_hotspot :: "hotspot option"
  gm_dhcp :: "dhcp_config option"
  gm_time :: "time_server option"
  gm_reflector :: "reflector option"
  gm_watching :: bool
  gm_firewall :: firewall

definition new_manager :: "gateway_settings \<Rightarrow> firewall \<Rightarrow> gateway_manager" where
  "new_manager c fw =
     \<lparr>gm_conf = c, gm_state = new_gateway_state, gm_hotspot = None, gm_dhcp = None, gm_time = None,
      gm_reflector = None, gm_watching = False, gm_firewall = fw\<rparr>"

definition keep_error :: "err \<Rightarrow> gateway_state \<Rightarrow> gateway_state" where
  "keep_error e g = g\<lparr>gt_errors := take 5 (e # gt_errors g)\<rparr>"

definition first_address :: "network \<Rightarrow> str" where
  "first_address n = host_text n (fst (host_span n))"

section \<open>What the rules are made from\<close>

definition uplink_subnet :: "host \<Rightarrow> str \<Rightarrow> str res" where
  "uplink_subnet h uplink =
     rbind (discover_local_networks False h) (\<lambda>ls.
       Inr (case List.find (\<lambda>l. ln_interface l = uplink) ls of None \<Rightarrow> [] | Some l \<Rightarrow> net_text (ln_network l)))"

definition discovery_networks :: "gateway_settings \<Rightarrow> host \<Rightarrow> str \<Rightarrow> local_network list res" where
  "discovery_networks c h uplink =
     rbind (discover_local_networks False h) (\<lambda>ls.
       let cs = filter (\<lambda>l. \<not> ln_uplink l \<and> ln_interface l \<noteq> uplink) ls
       in Inr (if gs_discovery_networks c = [] then cs
               else filter (\<lambda>l. net_text (ln_network l) \<in> set (gs_discovery_networks c)) cs))"

definition shared_networks :: "gateway_settings \<Rightarrow> gateway_state \<Rightarrow> host \<Rightarrow> str \<Rightarrow> str list res" where
  "shared_networks c g h uplink =
     (case gt_subnet g of
        None \<Rightarrow> Inr []
      | Some n \<Rightarrow>
          if \<not> gs_share_discovery c then Inr []
          else rbind (discovery_networks c h uplink) (\<lambda>ls.
            let shared = fold (\<lambda>l. add_missing (net_text (ln_network l))) ls [net_text n]
            in Inr (if 1 < length shared then shared else [])))"

definition through_vpn :: "gateway_settings \<Rightarrow> str option" where
  "through_vpn c = (if gs_through_vpn c then Some (gs_vpn_interface c) else None)"

text \<open>
  The kernel at the points where the code asks: for the uplink, for its fingerprint, for the subnet of
  the uplink, for the networks to share, and for the fingerprint once more after the rules.
\<close>

record looks =
  at_pick :: host
  at_print :: host
  at_subnet :: host
  at_shared :: host
  at_after :: host

definition settled :: "host \<Rightarrow> looks" where
  "settled h = \<lparr>at_pick = h, at_print = h, at_subnet = h, at_shared = h, at_after = h\<rparr>"

definition rules_for :: "gateway_settings \<Rightarrow> gateway_state \<Rightarrow> looks \<Rightarrow> str \<Rightarrow> gateway_rules res" where
  "rules_for c g l uplink =
     (case gt_subnet g of
        None \<Rightarrow> Inl AssertionError
      | Some n \<Rightarrow>
          rbind (uplink_subnet (at_subnet l) uplink) (\<lambda>sub.
          rbind (shared_networks c g (at_shared l) uplink) (\<lambda>shared.
          Inr \<lparr>gw_ap = gt_ap g, gw_uplink = uplink, gw_subnet = n, gw_dns_port = gs_dns_port c,
               gw_dashboard_port = gs_dashboard_port c, gw_vpn = through_vpn c, gw_block_bypass = True,
               gw_isolate = gs_isolate c, gw_uplink_subnet = sub, gw_shared = shared,
               gw_allow_ipv6 = gs_allow_ipv6 c, gw_extra_ports = [],
               gw_udp_ports = (if gs_cluster_enabled c then [gs_cluster_port c] else []), gw_tcp_ports = []\<rparr>)))"

section \<open>Following the uplink\<close>

definition apply_rules :: "looks \<Rightarrow> ran \<times> ran \<times> ran \<Rightarrow> str \<Rightarrow> gateway_manager \<Rightarrow> gateway_manager \<times> unit res" where
  "apply_rules l runs uplink m =
     (case rules_for (gm_conf m) (gm_state m) l uplink of
        Inl e \<Rightarrow> (m, Inl e)
      | Inr r \<Rightarrow>
          let (fw, x) = fw_apply runs r (gm_firewall m); m = m\<lparr>gm_firewall := fw\<rparr> in
          case x of
            Inl e \<Rightarrow> (m, Inl e)
          | Inr _ \<Rightarrow> (m\<lparr>gm_state := (gm_state m)\<lparr>gt_uplink := uplink,
                gt_fingerprint := uplink_fingerprint (at_after l), gt_rules_applied := True,
                gt_vpn := (case gw_vpn r of None \<Rightarrow> [] | Some v \<Rightarrow> v)\<rparr>\<rparr>, Inr ()))"

definition on_uplink_change ::
  "time \<Rightarrow> looks \<Rightarrow> ran \<times> ran \<times> ran \<Rightarrow> str \<Rightarrow> str \<Rightarrow> gateway_manager \<Rightarrow> gateway_manager \<times> unit res" where
  "on_uplink_change now l runs uplink fp m =
     (let (m, x) = apply_rules l runs uplink m; g = gm_state m in
      case x of
        Inr _ \<Rightarrow> (m\<lparr>gm_state := g\<lparr>gt_fingerprint := fp, gt_changes := gt_changes g + 1,
                    gt_last_change := now\<rparr>\<rparr>, Inr ())
      | Inl e \<Rightarrow>
          if e = FirewallError then (m\<lparr>gm_state := keep_error e (g\<lparr>gt_rules_applied := False\<rparr>)\<rparr>, Inr ())
          else (m, Inl e))"

definition check_uplink :: "time \<Rightarrow> looks \<Rightarrow> ran \<times> ran \<times> ran \<Rightarrow> gateway_manager \<Rightarrow> gateway_manager \<times> unit res" where
  "check_uplink now l runs m =
     (let g = gm_state m; fp = uplink_fingerprint (at_print l) in
      if gs_uplink (gm_conf m) \<noteq> [] then
        (if fp \<noteq> gt_fingerprint g then on_uplink_change now l runs (gs_uplink (gm_conf m)) fp m
         else (m, Inr ()))
      else
        (case pick_uplink [gt_ap g] (at_pick l) of
           None \<Rightarrow>
             (if gt_uplink g \<noteq> [] then m\<lparr>gm_state := g\<lparr>gt_uplink := [], gt_fingerprint := fp\<rparr>\<rparr> else m, Inr ())
         | Some current \<Rightarrow>
             if current \<noteq> gt_uplink g \<or> fp \<noteq> gt_fingerprint g
             then on_uplink_change now l runs current fp m
             else (m, Inr ())))"

text \<open>
  The resolvers for new leases: \<open>ask\<close> is the callback, if one is set, and \<open>None\<close> from it that it raised.
\<close>

definition resolver_list :: "(str \<Rightarrow> str list option) option \<Rightarrow> str \<Rightarrow> str list" where
  "resolver_list ask router =
     (case ask of
        None \<Rightarrow> [router]
      | Some f \<Rightarrow>
          (case f router of
             None \<Rightarrow> [router]
           | Some servers \<Rightarrow> add_missing router (take 3 (filter (\<lambda>s. s \<noteq> []) servers))))"

definition refresh_resolvers :: "(str \<Rightarrow> str list option) option \<Rightarrow> gateway_manager \<Rightarrow> gateway_manager" where
  "refresh_resolvers ask m =
     (case (gm_dhcp m, ask, gt_subnet (gm_state m)) of
        (Some d, Some _, Some n) \<Rightarrow> m\<lparr>gm_dhcp := Some (d\<lparr>dns_servers := resolver_list ask (first_address n)\<rparr>)\<rparr>
      | _ \<Rightarrow> m)"

text \<open>
  One turn of the watcher.  \<open>published\<close> is how the callback that publishes the leases ends; whatever is
  raised is kept in the list of errors and ends the turn.
\<close>

record watch_turn =
  wt_now :: time
  wt_looks :: looks
  wt_runs :: "ran \<times> ran \<times> ran"
  wt_published :: "unit res"
  wt_ask :: "(str \<Rightarrow> str list option) option"

definition watch :: "watch_turn \<Rightarrow> gateway_manager \<Rightarrow> gateway_manager" where
  "watch w m =
     (let (m, x) = check_uplink (wt_now w) (wt_looks w) (wt_runs w) m in
      case rbind x (\<lambda>_. if gm_dhcp m = None then Inr () else wt_published w) of
        Inl e \<Rightarrow> m\<lparr>gm_state := keep_error e (gm_state m)\<rparr>
      | Inr _ \<Rightarrow> refresh_resolvers (wt_ask w) m)"

section \<open>Starting and stopping\<close>

definition groups_from_names :: "str list \<Rightarrow> multicast_group list res" where
  "groups_from_names names =
     (if names = [] then Inr DEFAULT_GROUPS
      else rmap (\<lambda>name. case List.find (\<lambda>g. lower (mg_name g) = lower (strip_ws name)) DEFAULT_GROUPS of
                   None \<Rightarrow> Inl ValueError | Some g \<Rightarrow> Inr g) names)"

text \<open>
  What the machine answers while the gateway starts: the kernel when the access point is chosen, when a
  subnet is chosen and when the reflector is set up, the scan for a channel, and how the access point,
  the DHCP socket, the reflector's sockets, the switches for forwarding and the commands fare.
\<close>

record startup =
  su_now :: time
  su_at_ap :: host
  su_at_free :: host
  su_at_reflector :: host
  su_looks :: looks
  su_device :: "str option"
  su_scan :: "str list"
  su_machine :: machine
  su_ask :: "(str \<Rightarrow> str list option) option"
  su_dhcp :: "unit res"
  su_opens :: "multicast_group \<Rightarrow> str \<Rightarrow> bool"
  su_forward4 :: bool
  su_forward6 :: bool
  su_runs :: "ran \<times> ran \<times> ran"

definition setup_reflector :: "startup \<Rightarrow> str \<Rightarrow> str \<Rightarrow> gateway_manager \<Rightarrow> gateway_manager \<times> unit res" where
  "setup_reflector u ap uplink m =
     (case discovery_networks (gm_conf m) (su_at_reflector u) uplink of
        Inl e \<Rightarrow> (m, Inl e)
      | Inr ls \<Rightarrow>
          let ifs = remdups (ap # map ln_interface ls) in
          if length ifs < 2 then (m, Inr ())
          else (case groups_from_names (gs_discovery_protocols (gm_conf m)) of
            Inl e \<Rightarrow> (m, Inr ())
          | Inr groups \<Rightarrow>
              let own = map ln_address ls @ (case gt_subnet (gm_state m) of None \<Rightarrow> [] | Some n \<Rightarrow> [first_address n])
              in (m\<lparr>gm_reflector := Some (start_reflector groups (su_opens u)
                     (new_reflector (su_now u) (ap # map ln_interface ls) own))\<rparr>, Inr ())))"

text \<open>The choices before anything is touched: access point, uplink and the subnet of the clients.\<close>

definition choose_parts :: "startup \<Rightarrow> gateway_manager \<Rightarrow> (str \<times> str \<times> network) res" where
  "choose_parts u m =
     (let c = gm_conf m;
          ap = (if gs_interface c \<noteq> [] then Some (gs_interface c) else pick_access_point_interface [] (su_at_ap u))
      in if ap \<in> {None, Some []} then Inl RuntimeError
      else let ap = the ap;
          uplink = (if gs_uplink c \<noteq> [] then Some (gs_uplink c) else pick_uplink [ap] (at_pick (su_looks u)))
      in if uplink \<in> {None, Some []} \<or> uplink = Some ap then Inl RuntimeError
      else rbind (if gs_subnet c \<noteq> []
                  then (case strict_network (gs_subnet c) of None \<Rightarrow> Inl ValueError | Some n \<Rightarrow> Inr n)
                  else pick_hotspot_subnet (su_at_free u) [])
             (\<lambda>n. Inr (ap, the uplink, n)))"

definition hotspot_settings :: "startup \<Rightarrow> gateway_settings \<Rightarrow> str \<Rightarrow> network \<Rightarrow> hotspot_config" where
  "hotspot_settings u c ap n =
     (let band = (if gs_band c \<noteq> ''auto'' then gs_band c else ''2.4'') in
      \<lparr>hc_interface = ap, hc_ssid = gs_ssid c, hc_passphrase = gs_passphrase c, hc_subnet = n,
       hc_channel = (if gs_channel c \<noteq> 0 then gs_channel c else pick_channel band (su_device u) (su_scan u)),
       hc_band = band, hc_country_code = gs_country_code c, hc_hidden = gs_hidden c,
       hc_wpa3_only = gs_wpa3_only c, hc_client_isolation = gs_client_isolation c\<rparr>)"

definition client_mtu :: "gateway_settings \<Rightarrow> int" where
  "client_mtu c = (if gs_through_vpn c then 1420 else 0)"

definition client_routes :: "gateway_settings \<Rightarrow> str \<Rightarrow> (str \<times> str) list" where
  "client_routes c router = map (\<lambda>n. (n, router)) (gs_extra_networks c)"

definition dhcp_settings :: "startup \<Rightarrow> gateway_settings \<Rightarrow> network \<Rightarrow> dhcp_config" where
  "dhcp_settings u c n =
     (let router = first_address n in
      \<lparr>subnet = n, server_ip = router, dns_servers = resolver_list (su_ask u) router,
       lease_seconds = gs_lease_seconds c, dc_domain = ''symbivpn.lan'',
       ntp_servers = (if gs_serve_time c then [router] else []), dc_mtu = client_mtu c,
       static_routes = client_routes c router, first_offset = 10, last_offset = 200\<rparr>)"

definition note_parts :: "startup \<Rightarrow> str \<times> str \<times> network \<Rightarrow> gateway_manager \<Rightarrow> gateway_manager" where
  "note_parts u p m =
     (let (ap, uplink, n) = p; c = gm_conf m in
      m\<lparr>gm_state := (gm_state m)\<lparr>gt_ap := ap, gt_uplink := uplink, gt_subnet := Some n,
        gt_started_at := su_now u, gt_vpn := (if gs_through_vpn c then gs_vpn_interface c else [])\<rparr>\<rparr>)"

definition start_access_point :: "startup \<Rightarrow> str \<Rightarrow> network \<Rightarrow> gateway_manager \<Rightarrow> gateway_manager \<times> unit res" where
  "start_access_point u ap n m =
     (let (h, x) = start_hotspot (su_machine u) (new_hotspot (hotspot_settings u (gm_conf m) ap n));
          m = m\<lparr>gm_hotspot := Some h\<rparr>
      in case x of Inl e \<Rightarrow> (m, Inl e)
         | Inr _ \<Rightarrow> (m\<lparr>gm_state := (gm_state m)\<lparr>gt_hotspot_running := True\<rparr>\<rparr>, Inr ()))"

definition start_services :: "startup \<Rightarrow> str \<Rightarrow> str \<Rightarrow> network \<Rightarrow> gateway_manager \<Rightarrow> gateway_manager \<times> unit res" where
  "start_services u ap uplink n m =
     (let c = gm_conf m; m = m\<lparr>gm_dhcp := Some (dhcp_settings u c n)\<rparr> in
      case su_dhcp u of Inl e \<Rightarrow> (m, Inl e)
      | Inr _ \<Rightarrow>
          let m = (if gs_serve_time c then m\<lparr>gm_time := Some (new_time_server (su_now u) 3 [0x4C, 0x4F, 0x43, 0x4C])\<rparr> else m)
          in if gs_share_discovery c then setup_reflector u ap uplink m else (m, Inr ()))"

text \<open>The steps in order; the first that fails ends the start and leaves what was done before it.\<close>

fun and_then :: "gateway_manager \<times> unit res \<Rightarrow> (gateway_manager \<Rightarrow> gateway_manager \<times> unit res) \<Rightarrow> gateway_manager \<times> unit res" where
  "and_then (m, Inl e) f = (m, Inl e)"
| "and_then (m, Inr _) f = f m"

definition turn_on_forwarding :: "startup \<Rightarrow> gateway_manager \<Rightarrow> gateway_manager \<times> unit res" where
  "turn_on_forwarding u m =
     (let (fw, x) = enable_forwarding (su_forward4 u) (su_forward6 u) (gs_allow_ipv6 (gm_conf m)) (gm_firewall m)
      in (m\<lparr>gm_firewall := fw\<rparr>, x))"

definition start_gateway :: "startup \<Rightarrow> gateway_manager \<Rightarrow> gateway_manager \<times> unit res" where
  "start_gateway u m =
     (if \<not> gs_enabled (gm_conf m) then (m, Inr ())
      else if \<not> fw_nft (gm_firewall m) then (m, Inl FirewallError)
      else case choose_parts u m of
        Inl e \<Rightarrow> (m, Inl e)
      | Inr (ap, uplink, n) \<Rightarrow>
          and_then (and_then (and_then (and_then (start_access_point u ap n (note_parts u (ap, uplink, n) m))
            (start_services u ap uplink n))
            (turn_on_forwarding u))
            (apply_rules (su_looks u) (su_runs u) uplink))
            (\<lambda>m. (m\<lparr>gm_watching := True\<rparr>, Inr ())))"

text \<open>
  The watcher is stopped first and every part is dropped; when nft cannot be run, the exception leaves
  the two flags as they were.
\<close>

definition stop_gateway :: "ran \<Rightarrow> ran \<Rightarrow> gateway_manager \<Rightarrow> gateway_manager \<times> unit res" where
  "stop_gateway r1 r2 m =
     (let (fw, x) = fw_teardown r1 r2 (gm_firewall m);
          m = m\<lparr>gm_watching := False, gm_reflector := None, gm_time := None, gm_dhcp := None,
                gm_hotspot := None, gm_firewall := fw\<rparr>
      in case x of Inl e \<Rightarrow> (m, Inl e)
         | Inr _ \<Rightarrow> (m\<lparr>gm_state := (gm_state m)\<lparr>gt_hotspot_running := False, gt_rules_applied := False\<rparr>\<rparr>, Inr ()))"

section \<open>The rules belong to the uplink\<close>

text \<open>The commands that delete a table either cannot be run or tell whether the table was there.\<close>

definition honest :: "ran \<times> ran \<times> ran \<Rightarrow> firewall \<Rightarrow> bool" where
  "honest runs fw \<longleftrightarrow> (case runs of (r1, r2, r3) \<Rightarrow>
     r1 \<in> {NotRun, Exited (dget (fw_tables fw) NAT_TABLE \<noteq> None)}
     \<and> r2 \<in> {NotRun, Exited (dget (fw_tables fw) FILTER_TABLE \<noteq> None)})"

definition only_ours :: "firewall \<Rightarrow> bool" where
  "only_ours fw \<longleftrightarrow> set (dkeys (fw_tables fw)) \<subseteq> {NAT_TABLE, FILTER_TABLE}"

text \<open>The kernel holds the text that is built for the uplink on record, and nothing else of ours.\<close>

definition installed_for_uplink :: "gateway_manager \<Rightarrow> bool" where
  "installed_for_uplink m \<longleftrightarrow> (\<exists>l r t.
     rules_for (gm_conf m) (gm_state m) l (gt_uplink (gm_state m)) = Inr r \<and> build_ruleset r = Inr t
     \<and> fw_tables (gm_firewall m) = [(NAT_TABLE, [t]), (FILTER_TABLE, [t])])"

definition gateway_inv :: "gateway_manager \<Rightarrow> bool" where
  "gateway_inv m \<longleftrightarrow> only_ours (gm_firewall m)
     \<and> (gm_watching m \<and> gt_rules_applied (gm_state m) \<and> gt_uplink (gm_state m) \<noteq> [] \<longrightarrow> installed_for_uplink m)"

lemma delete_effect:
  "only_ours fw \<Longrightarrow> run_delete r t fw = (fw', x) \<Longrightarrow>
    only_ours fw' \<and> fw_nft fw' = fw_nft fw \<and> fw_forwarding fw' = fw_forwarding fw
    \<and> x = (if r = NotRun then Inl FirewallError else Inr ())"
  by (auto simp: run_delete_def only_ours_def set_ddel split: ran.splits if_splits) force

lemma teardown_honest:
  assumes "only_ours fw" and "honest (r1, r2, r3) fw" and "fw_teardown r1 r2 fw = (fw', x)"
  shows "only_ours fw' \<and> fw_nft fw' = fw_nft fw \<and> fw_forwarding fw' = fw_forwarding fw
    \<and> (x = Inr () \<and> (fw_nft fw \<longrightarrow> fw_tables fw' = []) \<or> x = Inl FirewallError)"
proof (cases "fw_nft fw \<and> runs_fit (r1, r2, r3) fw")
  case True
  with teardown_fit [of fw r1 r2 r3] assms(1,3) show ?thesis by (auto simp: only_ours_def)
next
  case False
  obtain fw1 y where d: "run_delete r1 NAT_TABLE fw = (fw1, y)" by (cases "run_delete r1 NAT_TABLE fw")
  note e = delete_effect [OF assms(1) d]
  show ?thesis
  proof (cases "fw_nft fw \<and> y = Inr ()")
    case True
    with assms(3) d have "run_delete r2 FILTER_TABLE fw1 = (fw', x)" by (simp add: fw_teardown_def)
    moreover have "r2 = NotRun" using True False e assms(2) by (auto simp: honest_def runs_fit_def split: if_splits)
    ultimately show ?thesis using e delete_effect [of fw1 r2 FILTER_TABLE fw' x] by simp
  next
    case False
    with assms(1,3) d e show ?thesis by (auto simp: fw_teardown_def split: if_splits)
  qed
qed

lemma load_effect:
  "fw_tables fw = [] \<Longrightarrow> run_load r3 t fw = (fw', x) \<Longrightarrow>
    fw_nft fw' = fw_nft fw \<and> fw_forwarding fw' = fw_forwarding fw
    \<and> (x = Inr () \<and> fw_tables fw' = [(NAT_TABLE, [t]), (FILTER_TABLE, [t])]
       \<or> x = Inl FirewallError \<and> fw_tables fw' = [])"
  by (auto simp: run_load_def add_text_def NAT_TABLE_def FILTER_TABLE_def split: ran.splits bool.splits)

lemma fw_apply_honest:
  assumes "only_ours fw" and "honest runs fw" and "fw_apply runs r fw = (fw', x)"
  shows "only_ours fw' \<and> fw_nft fw' = fw_nft fw \<and> fw_forwarding fw' = fw_forwarding fw
    \<and> (x = Inl FirewallError \<or> x = Inr () \<and> (\<exists>t. build_ruleset r = Inr t
         \<and> fw_tables fw' = [(NAT_TABLE, [t]), (FILTER_TABLE, [t])]))"
proof -
  obtain r1 r2 r3 where runs: "runs = (r1, r2, r3)" by (cases runs)
  show ?thesis
  proof (cases "fw_nft fw")
    case True
    obtain fw1 y where y: "fw_teardown r1 r2 fw = (fw1, y)" by (cases "fw_teardown r1 r2 fw")
    note d = teardown_honest [OF assms(1) assms(2) [unfolded runs] y]
    show ?thesis
    proof (cases "y = Inr () \<and> (\<exists>t. build_ruleset r = Inr t)")
      case t: True
      then obtain t where t: "y = Inr ()" "build_ruleset r = Inr t" by blast
      with d True have e: "fw_tables fw1 = []" by simp
      have l: "run_load r3 t fw1 = (fw', x)" using assms(3) y t True by (simp add: fw_apply_def runs)
      from load_effect [OF e l] d t show ?thesis by (auto simp: only_ours_def)
    next
      case False
      with d assms(3) y True build_error show ?thesis
        by (auto simp: fw_apply_def runs split: sum.splits)
    qed
  next
    case False
    with assms show ?thesis by (simp add: fw_apply_def runs)
  qed
qed

lemma rules_for_state:
  "gt_ap g = gt_ap g' \<Longrightarrow> gt_subnet g = gt_subnet g' \<Longrightarrow> rules_for c g l u = rules_for c g' l u"
  by (simp add: rules_for_def shared_networks_def cong: option.case_cong)

lemma installed_same:
  assumes "gm_conf m' = gm_conf m" "gm_firewall m' = gm_firewall m" "gt_ap (gm_state m') = gt_ap (gm_state m)"
    "gt_subnet (gm_state m') = gt_subnet (gm_state m)" "gt_uplink (gm_state m') = gt_uplink (gm_state m)"
  shows "installed_for_uplink m' = installed_for_uplink m"
  using assms rules_for_state [OF assms(3,4)] by (simp add: installed_for_uplink_def)

section \<open>One turn of the watcher\<close>

definition same_setup :: "gateway_manager \<Rightarrow> gateway_manager \<Rightarrow> bool" where
  "same_setup m m' \<longleftrightarrow> gm_conf m' = gm_conf m \<and> gt_ap (gm_state m') = gt_ap (gm_state m)
     \<and> gt_subnet (gm_state m') = gt_subnet (gm_state m) \<and> gm_watching m' = gm_watching m
     \<and> fw_nft (gm_firewall m') = fw_nft (gm_firewall m) \<and> only_ours (gm_firewall m')"

lemma same_setup_keep:
  assumes "gm_conf m' = gm_conf m" "gm_firewall m' = gm_firewall m" "gm_watching m' = gm_watching m"
    "gt_ap (gm_state m') = gt_ap (gm_state m)" "gt_subnet (gm_state m') = gt_subnet (gm_state m)"
  shows "same_setup k m' = same_setup k m"
  using assms by (auto simp: same_setup_def)

text \<open>
  Applying rules ends in one of three ways: they are installed and recorded; nothing but the tables
  changed and an error of the firewall is reported; or nothing changed at all.
\<close>

lemma apply_rules_effect:
  assumes "only_ours (gm_firewall m)" "honest runs (gm_firewall m)" "apply_rules l runs u m = (m', x)"
  shows "same_setup m m'
    \<and> (x = Inr () \<and> installed_for_uplink m' \<and> gt_uplink (gm_state m') = u \<and> gt_rules_applied (gm_state m')
         \<and> gt_fingerprint (gm_state m') = uplink_fingerprint (at_after l) \<and> gt_changes (gm_state m') = gt_changes (gm_state m)
       \<or> x = Inl FirewallError \<and> gm_state m' = gm_state m
       \<or> (\<exists>e. x = Inl e \<and> e \<noteq> FirewallError) \<and> m' = m)"
proof (cases "rules_for (gm_conf m) (gm_state m) l u")
  case (Inl e)
  with assms show ?thesis by (auto simp: apply_rules_def same_setup_def)
next
  case (Inr r)
  obtain fw y where y: "fw_apply runs r (gm_firewall m) = (fw, y)" by (cases "fw_apply runs r (gm_firewall m)")
  note e = fw_apply_honest [OF assms(1,2) y]
  show ?thesis
  proof (cases "y = Inr ()")
    case True
    let ?g = "(gm_state m)\<lparr>gt_uplink := u, gt_fingerprint := uplink_fingerprint (at_after l), gt_rules_applied := True,
                gt_vpn := (case gw_vpn r of None \<Rightarrow> [] | Some v \<Rightarrow> v)\<rparr>"
    have m': "m' = m\<lparr>gm_firewall := fw, gm_state := ?g\<rparr>" "x = Inr ()"
      using assms(3) Inr y True by (simp_all add: apply_rules_def Let_def)
    have "rules_for (gm_conf m) ?g l u = Inr r" using Inr rules_for_state [of ?g "gm_state m"] by simp
    moreover from e True have "\<exists>t. build_ruleset r = Inr t \<and> fw_tables fw = [(NAT_TABLE, [t]), (FILTER_TABLE, [t])]" by simp
    ultimately have "installed_for_uplink m'" unfolding installed_for_uplink_def m' by auto
    with e m' show ?thesis by (simp add: same_setup_def)
  next
    case False
    with e have f: "y = Inl FirewallError" by blast
    then have "m' = m\<lparr>gm_firewall := fw\<rparr>" "x = Inl FirewallError"
      using assms(3) Inr y by (simp_all add: apply_rules_def Let_def)
    with e show ?thesis by (simp add: same_setup_def)
  qed
qed

lemma on_change_effect:
  assumes "only_ours (gm_firewall m)" "honest runs (gm_firewall m)" "on_uplink_change now l runs u p m = (m', x)"
  shows "same_setup m m'
    \<and> (x = Inr () \<and> installed_for_uplink m' \<and> gt_uplink (gm_state m') = u \<and> gt_rules_applied (gm_state m')
         \<and> gt_fingerprint (gm_state m') = p \<and> gt_changes (gm_state m') = gt_changes (gm_state m) + 1
       \<or> x = Inr () \<and> \<not> gt_rules_applied (gm_state m') \<and> gt_uplink (gm_state m') = gt_uplink (gm_state m)
         \<and> gt_fingerprint (gm_state m') = gt_fingerprint (gm_state m)
       \<or> (\<exists>e. x = Inl e) \<and> m' = m)"
proof -
  obtain m1 y where y: "apply_rules l runs u m = (m1, y)" by (cases "apply_rules l runs u m")
  consider (ok) "y = Inr ()" | (fw) "y = Inl FirewallError" | (no) e where "y = Inl e" "e \<noteq> FirewallError"
    by (cases y) auto
  then show ?thesis
  proof cases
    case ok
    with y assms(3) have m': "m' = m1\<lparr>gm_state := (gm_state m1)\<lparr>gt_fingerprint := p,
        gt_changes := gt_changes (gm_state m1) + 1, gt_last_change := now\<rparr>\<rparr>" "x = Inr ()"
      by (simp_all add: on_uplink_change_def Let_def)
    from apply_rules_effect [OF assms(1,2) y] ok m' installed_same [of m' m1] same_setup_keep [of m' m1 m]
    show ?thesis by simp
  next
    case fw
    with y assms(3) have m': "m' = m1\<lparr>gm_state := keep_error FirewallError ((gm_state m1)\<lparr>gt_rules_applied := False\<rparr>)\<rparr>"
        "x = Inr ()" by (simp_all add: on_uplink_change_def Let_def)
    from apply_rules_effect [OF assms(1,2) y] fw m' same_setup_keep [of m' m1 m]
    show ?thesis by (simp add: keep_error_def)
  next
    case no
    with apply_rules_effect [OF assms(1,2) y] y assms(3) show ?thesis by (auto simp: on_uplink_change_def)
  qed
qed

lemma check_inv:
  assumes "gateway_inv m" "honest runs (gm_firewall m)" "check_uplink now l runs m = (m', x)"
  shows "gateway_inv m' \<and> same_setup m m'"
proof -
  have o: "only_ours (gm_firewall m)" using assms(1) by (simp add: gateway_inv_def)
  have changed: "gateway_inv m' \<and> same_setup m m'" if "on_uplink_change now l runs u p m = (m', x)" for u p
    using on_change_effect [OF o assms(2) that] assms(1) by (auto simp: gateway_inv_def same_setup_def)
  have same: "gateway_inv m \<and> same_setup m m" using assms(1) o by (simp add: same_setup_def)
  have gone: "gateway_inv (m\<lparr>gm_state := (gm_state m)\<lparr>gt_uplink := [], gt_fingerprint := p\<rparr>\<rparr>)
      \<and> same_setup m (m\<lparr>gm_state := (gm_state m)\<lparr>gt_uplink := [], gt_fingerprint := p\<rparr>\<rparr>)" for p
    using o by (simp add: gateway_inv_def same_setup_def)
  show ?thesis using assms(3) changed same gone
    by (auto simp: check_uplink_def Let_def split: if_splits option.splits)
qed

lemma quiet_inv:
  assumes "gateway_inv m" "gm_conf m' = gm_conf m" "gm_firewall m' = gm_firewall m" "gm_watching m' = gm_watching m"
    "gt_ap (gm_state m') = gt_ap (gm_state m)" "gt_subnet (gm_state m') = gt_subnet (gm_state m)"
    "gt_uplink (gm_state m') = gt_uplink (gm_state m)" "gt_rules_applied (gm_state m') = gt_rules_applied (gm_state m)"
  shows "gateway_inv m'"
  using assms installed_same [OF assms(2,3,5,6,7)] by (simp add: gateway_inv_def)

lemma refresh_quiet:
  "gm_conf (refresh_resolvers a m) = gm_conf m" "gm_firewall (refresh_resolvers a m) = gm_firewall m"
  "gm_watching (refresh_resolvers a m) = gm_watching m" "gm_state (refresh_resolvers a m) = gm_state m"
  by (simp_all add: refresh_resolvers_def split: option.splits)

lemma watch_inv:
  assumes "gateway_inv m" "honest (wt_runs w) (gm_firewall m)"
  shows "gateway_inv (watch w m)"
proof -
  obtain m1 x where c: "check_uplink (wt_now w) (wt_looks w) (wt_runs w) m = (m1, x)"
    by (cases "check_uplink (wt_now w) (wt_looks w) (wt_runs w) m")
  with check_inv [OF assms c] have i: "gateway_inv m1" by blast
  have "gateway_inv (refresh_resolvers a m1)" for a by (rule quiet_inv [OF i]) (simp_all add: refresh_quiet)
  moreover have "gateway_inv (m1\<lparr>gm_state := keep_error e (gm_state m1)\<rparr>)" for e
    by (rule quiet_inv [OF i]) (simp_all add: keep_error_def)
  ultimately show ?thesis by (simp add: watch_def c split: sum.split)
qed

section \<open>Whole runs\<close>

lemma and_then_cases:
  assumes "and_then p f = (m', x)"
  obtains (failed) e where "p = (m', Inl e)" "x = Inl e" | (went) m1 where "p = (m1, Inr ())" "f m1 = (m', x)"
  using assms by (cases "(p, f)" rule: and_then.cases) auto

text \<open>The parts that start before the rules leave the tables alone.\<close>

definition before_rules :: "gateway_manager \<Rightarrow> gateway_manager \<Rightarrow> bool" where
  "before_rules m m' \<longleftrightarrow> gm_conf m' = gm_conf m \<and> gm_watching m' = gm_watching m
     \<and> fw_nft (gm_firewall m') = fw_nft (gm_firewall m) \<and> fw_tables (gm_firewall m') = fw_tables (gm_firewall m)"

lemma before_rules_trans: "before_rules m1 m2 \<Longrightarrow> before_rules m2 m3 \<Longrightarrow> before_rules m1 m3"
  by (simp add: before_rules_def)

lemma parts_before_rules:
  "before_rules m (note_parts u p m)"
  "start_access_point u ap n m = (m', x) \<Longrightarrow> before_rules m m'"
  "setup_reflector u ap l m = (m', x) \<Longrightarrow> before_rules m m'"
  "turn_on_forwarding u m = (m', x) \<Longrightarrow> before_rules m m'"
  by (auto simp: before_rules_def note_parts_def start_access_point_def setup_reflector_def turn_on_forwarding_def
      enable_forwarding_def Let_def split: prod.splits sum.splits if_splits)

lemma before_rules_parts [simp]:
  "before_rules (m\<lparr>gm_dhcp := d\<rparr>) m' = before_rules m m'" "before_rules (m\<lparr>gm_time := k\<rparr>) m' = before_rules m m'"
  "before_rules m (m'\<lparr>gm_dhcp := d\<rparr>) = before_rules m m'" "before_rules m (m'\<lparr>gm_time := k\<rparr>) = before_rules m m'"
  "before_rules m m"
  by (auto simp: before_rules_def)

lemma services_before_rules: "start_services u ap l n m = (m', x) \<Longrightarrow> before_rules m m'"
  by (auto simp: start_services_def Let_def dest!: parts_before_rules(3) split: sum.splits if_splits)

lemma started_before_rules:
  assumes "and_then (and_then (start_access_point u ap n (note_parts u p m)) (start_services u ap l n))
    (turn_on_forwarding u) = (m', x)"
  shows "before_rules m m'"
  using assms by (elim and_then_cases) (meson before_rules_trans parts_before_rules services_before_rules)+

lemma start_inv:
  assumes "gateway_inv m" "\<not> gm_watching m" "honest (su_runs u) (gm_firewall m)" "start_gateway u m = (m', x)"
  shows "gateway_inv m' \<and> gm_conf m' = gm_conf m"
proof -
  have o: "only_ours (gm_firewall m)" using assms(1) by (simp add: gateway_inv_def)
  have early: "gateway_inv m1 \<and> gm_conf m1 = gm_conf m" if "before_rules m m1" for m1
    using that assms(2) o by (simp add: gateway_inv_def before_rules_def only_ours_def)
  show ?thesis
  proof (cases "gs_enabled (gm_conf m) \<and> fw_nft (gm_firewall m) \<and> (\<exists>ap uplink n. choose_parts u m = Inr (ap, uplink, n))")
    case False
    with assms(1,4) show ?thesis by (auto simp: start_gateway_def split: if_splits sum.splits)
  next
    case True
    then obtain ap l n where p: "choose_parts u m = Inr (ap, l, n)" by blast
    let ?m = "note_parts u (ap, l, n) m"
    from True p assms(4) have "and_then (and_then (and_then (and_then (start_access_point u ap n ?m)
        (start_services u ap l n)) (turn_on_forwarding u)) (apply_rules (su_looks u) (su_runs u) l))
        (\<lambda>m. (m\<lparr>gm_watching := True\<rparr>, Inr ())) = (m', x)" by (simp add: start_gateway_def)
    then show ?thesis
    proof (cases rule: and_then_cases)
      case (went m4)
      note w4 = went
      from w4(1) show ?thesis
      proof (cases rule: and_then_cases)
        case (went m3)
        have b: "before_rules m m3" using went(1) by (rule started_before_rules)
        then have "only_ours (gm_firewall m3)" "honest (su_runs u) (gm_firewall m3)" "gm_conf m3 = gm_conf m"
          using o assms(3) by (simp_all add: before_rules_def only_ours_def honest_def)
        note a = apply_rules_effect [OF this(1,2) went(2)] this(3)
        from w4(2) have "m' = m4\<lparr>gm_watching := True\<rparr>" by simp
        with a installed_same [of m' m4] show ?thesis by (simp add: gateway_inv_def same_setup_def)
      qed simp
    next
      case (failed e)
      from failed(1) show ?thesis
      proof (cases rule: and_then_cases)
        case (failed e')
        have "before_rules m m'" using failed(1) by (rule started_before_rules)
        with early show ?thesis by blast
      next
        case (went m3)
        have b: "before_rules m m3" using went(1) by (rule started_before_rules)
        then have "only_ours (gm_firewall m3)" "honest (su_runs u) (gm_firewall m3)" "gm_conf m3 = gm_conf m"
            "\<not> gm_watching m3"
          using o assms(2,3) by (simp_all add: before_rules_def only_ours_def honest_def)
        with apply_rules_effect [OF this(1,2) went(2)] show ?thesis
          by (auto simp: gateway_inv_def same_setup_def)
      qed
    qed
  qed
qed

lemma stop_inv:
  assumes "gateway_inv m" "honest (r1, r2, r3) (gm_firewall m)" "stop_gateway r1 r2 m = (m', x)"
  shows "gateway_inv m' \<and> \<not> gm_watching m'"
proof -
  obtain fw y where y: "fw_teardown r1 r2 (gm_firewall m) = (fw, y)" by (cases "fw_teardown r1 r2 (gm_firewall m)")
  have "only_ours fw" using teardown_honest [OF _ assms(2) y] assms(1) by (simp add: gateway_inv_def)
  with assms(3) y show ?thesis by (auto simp: stop_gateway_def gateway_inv_def Let_def split: sum.splits)
qed

text \<open>
  What can become of a gateway: it is started while no watcher runs, the watcher takes its turns, it is
  stopped.
\<close>

inductive gateway_run :: "gateway_manager \<Rightarrow> gateway_manager \<Rightarrow> bool" where
  gateway_created: "gateway_run m m"
| gateway_started: "gateway_run m m1 \<Longrightarrow> \<not> gm_watching m1 \<Longrightarrow> honest (su_runs u) (gm_firewall m1)
    \<Longrightarrow> gateway_run m (fst (start_gateway u m1))"
| gateway_watched: "gateway_run m m1 \<Longrightarrow> gm_watching m1 \<Longrightarrow> honest (wt_runs w) (gm_firewall m1)
    \<Longrightarrow> gateway_run m (watch w m1)"
| gateway_stopped: "gateway_run m m1 \<Longrightarrow> honest (r1, r2, r3) (gm_firewall m1)
    \<Longrightarrow> gateway_run m (fst (stop_gateway r1 r2 m1))"

lemma gateway_run_inv:
  assumes "gateway_run m m'" and "gateway_inv m" shows "gateway_inv m'"
  using assms
proof induction
  case (gateway_started m m1 u)
  then show ?case using start_inv [of m1 u "fst (start_gateway u m1)" "snd (start_gateway u m1)"] by simp
next
  case (gateway_watched m m1 w)
  then show ?case using watch_inv by blast
next
  case (gateway_stopped m m1 r1 r2 r3)
  then show ?case using stop_inv [of m1 r1 r2 r3 "fst (stop_gateway r1 r2 m1)" "snd (stop_gateway r1 r2 m1)"] by simp
qed simp

lemma new_manager_inv: "only_ours fw \<Longrightarrow> gateway_inv (new_manager c fw)"
  by (simp add: gateway_inv_def new_manager_def)


section \<open>The rules follow the machine\<close>

text \<open>The uplink that is wanted on a network, and whether the one on record is another.\<close>

definition wanted_uplink :: "gateway_manager \<Rightarrow> host \<Rightarrow> str option" where
  "wanted_uplink m h =
     (if gs_uplink (gm_conf m) \<noteq> [] then Some (gs_uplink (gm_conf m)) else pick_uplink [gt_ap (gm_state m)] h)"

definition on_record :: "gateway_manager \<Rightarrow> host \<Rightarrow> str \<Rightarrow> bool" where
  "on_record m h u \<longleftrightarrow> gt_fingerprint (gm_state m) = uplink_fingerprint h
     \<and> (gs_uplink (gm_conf m) = [] \<longrightarrow> gt_uplink (gm_state m) = u)"

lemma wanted_same:
  "gm_conf m' = gm_conf m \<Longrightarrow> gt_ap (gm_state m') = gt_ap (gm_state m) \<Longrightarrow> wanted_uplink m' h = wanted_uplink m h"
  by (simp add: wanted_uplink_def)

lemma check_settled:
  assumes "wanted_uplink m h = Some u"
  shows "check_uplink now (settled h) runs m =
    (if on_record m h u then (m, Inr ()) else on_uplink_change now (settled h) runs u (uplink_fingerprint h) m)"
  using assms by (auto simp: check_uplink_def wanted_uplink_def on_record_def settled_def Let_def split: if_splits)

text \<open>What the end of a turn leaves alone.\<close>

lemma watch_keeps:
  assumes "check_uplink (wt_now w) (wt_looks w) (wt_runs w) m = (m1, x)"
  shows "gm_conf (watch w m) = gm_conf m1 \<and> gm_firewall (watch w m) = gm_firewall m1
    \<and> gt_uplink (gm_state (watch w m)) = gt_uplink (gm_state m1)
    \<and> gt_fingerprint (gm_state (watch w m)) = gt_fingerprint (gm_state m1)
    \<and> gt_rules_applied (gm_state (watch w m)) = gt_rules_applied (gm_state m1)
    \<and> gt_changes (gm_state (watch w m)) = gt_changes (gm_state m1)
    \<and> gt_ap (gm_state (watch w m)) = gt_ap (gm_state m1)"
  using assms by (auto simp: watch_def refresh_quiet keep_error_def Let_def split: sum.split)

lemma fw_apply_succeeds:
  assumes "only_ours fw" "fw_nft fw" "runs_fit runs fw" "snd (snd runs) = Exited True" "build_ruleset r = Inr t"
  shows "fw_apply runs r fw = (fw\<lparr>fw_tables := [(NAT_TABLE, [t]), (FILTER_TABLE, [t])]\<rparr>, Inr ())"
proof -
  obtain r1 r2 r3 where runs: "runs = (r1, r2, r3)" by (cases runs)
  have "fw_teardown r1 r2 fw = (fw\<lparr>fw_tables := []\<rparr>, Inr ())"
    using assms(1-3) unfolding only_ours_def runs by (intro teardown_fit) auto
  with assms(2,4,5) show ?thesis
    by (simp add: fw_apply_def runs run_load_def add_text_def) (simp add: NAT_TABLE_def FILTER_TABLE_def)
qed


text \<open>
  A rebuild that fails has already removed the tables, but it leaves the record as it was: back on the
  network on record, the watcher sees no change and never builds the rules again, while forwarding is
  still on.
\<close>

lemma failed_rebuild_not_retried:
  assumes "wanted_uplink m h' = Some u'" "\<not> on_record m h' u'" "wanted_uplink m h = Some u" "on_record m h u"
    and "rules_for (gm_conf m) (gm_state m) (settled h') u' = Inr r" "only_ours (gm_firewall m)"
    and "fw_nft (gm_firewall m)" "runs_fit runs (gm_firewall m)" "snd (snd runs) = Exited False"
    and "check_uplink now (settled h') runs m = (m', x)"
  shows "fw_tables (gm_firewall m') = [] \<and> fw_forwarding (gm_firewall m') = fw_forwarding (gm_firewall m)
    \<and> check_uplink now' (settled h) runs' m' = (m', Inr ())"
proof -
  obtain r1 r2 where runs: "runs = (r1, r2, Exited False)" using assms(9) by (cases runs) auto
  have "fw_teardown r1 r2 (gm_firewall m) = ((gm_firewall m)\<lparr>fw_tables := []\<rparr>, Inr ())"
    using assms(6-8) unfolding only_ours_def runs by (intro teardown_fit) auto
  then have "fw_apply runs r (gm_firewall m) = ((gm_firewall m)\<lparr>fw_tables := []\<rparr>, Inl FirewallError)"
    using assms(7) build_error by (auto simp: fw_apply_def runs run_load_def split: sum.split)
  then have m': "m' = m\<lparr>gm_firewall := (gm_firewall m)\<lparr>fw_tables := []\<rparr>,
      gm_state := keep_error FirewallError ((gm_state m)\<lparr>gt_rules_applied := False\<rparr>)\<rparr>"
    using assms(10) unfolding check_settled [OF assms(1)]
    by (auto simp: assms(2) on_uplink_change_def apply_rules_def assms(5) Let_def)
  have "wanted_uplink m' h = Some u" "on_record m' h u"
    using assms(3,4) wanted_same [of m' m] by (simp_all add: m' on_record_def keep_error_def)
  then show ?thesis using check_settled [of m' h u] by (simp add: m')
qed

text \<open>
  The fingerprint that \<open>apply_rules\<close> records is read after the rules were made: a move in between, while
  the gateway starts, is never noticed when the interface stays the same, and the rules keep the subnet
  of the network that was left.  A change seen by the watcher is not affected, as it records the
  fingerprint it saw first.
\<close>

lemma move_during_start_unnoticed:
  assumes "apply_rules l runs u m = (m', Inr ())" "wanted_uplink m h = Some u" "at_after l = h"
    "only_ours (gm_firewall m)" "honest runs (gm_firewall m)"
  shows "check_uplink now (settled h) runs' m' = (m', Inr ())"
proof -
  note a = apply_rules_effect [OF assms(4,5,1)]
  then have "wanted_uplink m' h = Some u" "on_record m' h u"
    using assms(2,3) wanted_same [of m' m] by (simp_all add: same_setup_def on_record_def)
  then show ?thesis using check_settled by simp
qed

section \<open>What clients get\<close>

lemma rules_for_fields:
  assumes "rules_for c g l u = Inr r"
  shows "gw_ap r = gt_ap g \<and> gw_uplink r = u \<and> gw_vpn r = through_vpn c \<and> gw_isolate r = gs_isolate c
    \<and> uplink_subnet (at_subnet l) u = Inr (gw_uplink_subnet r)"
  using assms by (auto simp: rules_for_def rbind_Inr_iff split: option.splits)

lemma isolation_first:
  assumes "build_ruleset r = Inr t" "clean_names r" "isolates r"
  shows "\<exists>n pre post. ip_network (gw_uplink_subnet r) = Some n
    \<and> chain_rules ''forward'' t = pre @ isolation_rule r n # post \<and> (\<forall>x \<in> set pre. accepts x \<longrightarrow> x = established)"
proof -
  obtain n ns where n: "isolates r \<Longrightarrow> ip_network (gw_uplink_subnet r) = Some n"
    and c: "chain_rules ''forward'' t = forward_rules r (if isolates r then [isolation_rule r n] else [])
      (if shares r then [shared_rule ns] else [])"
    using forward_chain_text [OF assms(1,2)] by blast
  let ?pre = "chain_start @ (if gw_block_bypass r then bypass_rules r else [])"
  have "\<forall>x \<in> set ?pre. accepts x \<longrightarrow> x = established" using accepts_rules(1,5) by (auto split: if_splits)
  moreover have "\<exists>post. chain_rules ''forward'' t = ?pre @ isolation_rule r n # post"
    using assms(3) by (simp add: c forward_rules_def)
  ultimately show ?thesis using n [OF assms(3)] by blast
qed


text \<open>
  A lease always names the gateway itself among its resolvers, at most three others, and no empty text.
\<close>

lemma resolvers_end_with_router:
  "router \<in> set (resolver_list ask router) \<and> length (resolver_list ask router) \<le> 4
    \<and> (router \<noteq> [] \<longrightarrow> [] \<notin> set (resolver_list ask router))"
proof -
  have "[] \<notin> set (take 3 (filter (\<lambda>s. s \<noteq> []) servers))" for servers :: "str list" by (auto dest: in_set_takeD)
  then show ?thesis by (auto simp: resolver_list_def add_missing_def split: option.split)
qed

text \<open>Discovery is never repeated onto the uplink the gateway was started on.\<close>

lemma reflector_off_the_uplink:
  assumes "setup_reflector u ap l m = (m', x)" "gm_reflector m = None" "gm_reflector m' = Some rf" "ap \<noteq> l"
  shows "l \<notin> set (rf_interfaces rf) \<and> ap \<in> set (rf_interfaces rf)"
proof -
  obtain ls where ls: "discovery_networks (gm_conf m) (su_at_reflector u) l = Inr ls"
    and rf: "set (rf_interfaces rf) = set (ap # map ln_interface ls)"
    using assms(1-3) by (auto simp: setup_reflector_def start_reflector_def new_reflector_def Let_def
        split: sum.splits if_splits)
  have "\<forall>n \<in> set ls. ln_interface n \<noteq> l"
    using ls by (auto simp: discovery_networks_def rbind_Inr_iff Let_def split: if_splits)
  with rf assms(4) show ?thesis by auto
qed

text \<open>
  But the watcher never touches the reflector: when the uplink moves to an interface it repeats onto, it
  goes on repeating there.
\<close>

lemma reflector_not_moved: "gm_reflector (watch w m) = gm_reflector m"
proof -
  have a: "gm_reflector (fst (apply_rules l r u m)) = gm_reflector m" for l r u m
    by (simp add: apply_rules_def Let_def split: sum.split prod.split)
  have b: "gm_reflector (fst (on_uplink_change n l r u p m)) = gm_reflector m" for n l r u p m
    using a [of l r u m] by (cases "apply_rules l r u m"; cases "snd (apply_rules l r u m)")
      (simp_all add: on_uplink_change_def Let_def)
  have "gm_reflector (fst (check_uplink n l r m)) = gm_reflector m" for n l r m
    using b by (simp add: check_uplink_def Let_def split: option.split)
  note c = this [of "wt_now w" "wt_looks w" "wt_runs w" m]
  have "gm_reflector (refresh_resolvers q k) = gm_reflector k" for q k
    by (simp add: refresh_resolvers_def split: option.split)
  with c show ?thesis
    by (cases "check_uplink (wt_now w) (wt_looks w) (wt_runs w) m") (simp add: watch_def split: sum.split)
qed

text \<open>After a stop nothing is watched or served, but the kernel goes on forwarding.\<close>

lemma stop_leaves_forwarding:
  assumes "only_ours (gm_firewall m)" "fw_nft (gm_firewall m)" "runs_fit (r1, r2, r3) (gm_firewall m)"
    and "stop_gateway r1 r2 m = (m', x)"
  shows "x = Inr () \<and> fw_tables (gm_firewall m') = [] \<and> gm_hotspot m' = None \<and> gm_dhcp m' = None
    \<and> \<not> gt_rules_applied (gm_state m') \<and> fw_forwarding (gm_firewall m') = fw_forwarding (gm_firewall m)"
proof -
  have "fw_teardown r1 r2 (gm_firewall m) = ((gm_firewall m)\<lparr>fw_tables := []\<rparr>, Inr ())"
    using assms(1-3) unfolding only_ours_def by (intro teardown_fit) auto
  with assms(4) show ?thesis by (auto simp: stop_gateway_def)
qed

section \<open>Instances\<close>

text \<open>A laptop that shares the network of \<open>wlan0\<close> from a second adapter.\<close>

definition demo_settings :: gateway_settings where
  "demo_settings = \<lparr>gs_enabled = True, gs_ssid = ''Home'', gs_passphrase = ''correct horse'', gs_interface = ''wlan1'',
     gs_uplink = [], gs_subnet = ''10.9.0.0/24'', gs_channel = 6, gs_band = ''2.4'', gs_country_code = ''US'',
     gs_hidden = False, gs_wpa3_only = False, gs_client_isolation = False, gs_through_vpn = False, gs_isolate = True,
     gs_allow_ipv6 = False, gs_serve_time = True, gs_lease_seconds = 3600, gs_vpn_interface = ''wg0'', gs_dns_port = 53,
     gs_dashboard_port = 8080, gs_cluster_enabled = True, gs_cluster_port = 5454, gs_share_discovery = False,
     gs_discovery_networks = [], gs_discovery_protocols = [], gs_extra_networks = []\<rparr>"

definition demo_kernel :: firewall where
  "demo_kernel = \<lparr>fw_nft = True, fw_tables = [], fw_forwarding = False\<rparr>"

definition demo_startup :: startup where
  "demo_startup = \<lparr>su_now = 1800000000, su_at_ap = demo_host, su_at_free = demo_host, su_at_reflector = demo_host,
     su_looks = settled demo_host, su_device = None, su_scan = [],
     su_machine = \<lparr>hostapd_here = False, nmcli_here = True, addr_status = 0, hostapd_stays = False, nmcli_okay = True\<rparr>,
     su_ask = None, su_dhcp = Inr (), su_opens = (\<lambda>_ _. True), su_forward4 = True, su_forward6 = True,
     su_runs = (Exited False, Exited False, Exited True)\<rparr>"

definition demo_uplink_net :: network where "demo_uplink_net = \<lparr>net_base = V4 167772160, prefixlen = 24\<rparr>"

lemma demo_names: "interface_match ''wlan0''" "interface_match ''wlan1''" "dec 0 = ''0''" "dec 10 = ''10''" "parse_octet ''9'' = Some 9"
  by code_simp+

lemma demo_uplink_bytes: "be_bytes 4 167772160 = [10, 0, 0, 0]"
proof -
  have "(4::nat) = Suc (Suc (Suc (Suc 0)))" by simp
  then show ?thesis by (simp only: be_bytes.simps) simp
qed

lemma demo_texts: "strict_network ''10.9.0.0/24'' = Some demo_net" "net_text demo_uplink_net = ''10.0.0.0/24''"
  "ip_network ''10.0.0.0/24'' = Some demo_uplink_net"
  by (simp_all add: strict_network_def ip_network_def ip_address_def parse_v4_def demo_octets demo_names network_prefix_def
      mask_host_def host_bits_def demo_net_def demo_uplink_net_def net_text_def
      demo_uplink_bytes)

lemma demo_uplink_subnet: "uplink_subnet demo_host ''wlan0'' = Inr ''10.0.0.0/24''"
  using demo_texts(2) by (simp add: uplink_subnet_def demo_discovered demo_found_def demo_uplink_net_def)

lemma demo_pick: "pick_uplink [''wlan1''] demo_host = Some ''wlan0''"
  by (simp add: pick_uplink_def demo_host_def)

lemma demo_rules_for:
  assumes "gt_subnet g = Some demo_net" "gt_ap g = ''wlan1''"
  shows "\<exists>r t. rules_for demo_settings g (settled demo_host) ''wlan0'' = Inr r \<and> build_ruleset r = Inr t"
proof -
  have "shared_networks demo_settings g demo_host ''wlan0'' = Inr []"
    by (simp add: shared_networks_def assms demo_settings_def)
  then show ?thesis using assms demo_names(1,2) demo_texts(3) demo_uplink_subnet
    by (simp add: rules_for_def settled_def through_vpn_def build_ruleset_def check_interface_def check_network_def)
      (simp add: demo_settings_def)
qed

definition demo_gateway :: gateway_manager where
  "demo_gateway = fst (start_gateway demo_startup (new_manager demo_settings demo_kernel))"

lemma demo_gateway_started:
  "gm_watching demo_gateway \<and> gt_rules_applied (gm_state demo_gateway) \<and> gt_uplink (gm_state demo_gateway) = ''wlan0''
    \<and> gt_ap (gm_state demo_gateway) = ''wlan1'' \<and> gm_conf demo_gateway = demo_settings"
proof -
  let ?m = "new_manager demo_settings demo_kernel"
  have p: "choose_parts demo_startup ?m = Inr (''wlan1'', ''wlan0'', demo_net)"
    using demo_texts(1) demo_pick
    by (simp add: choose_parts_def new_manager_def) (simp add: demo_settings_def demo_startup_def settled_def)
  define m3 where "m3 = fst (and_then (and_then (start_access_point demo_startup ''wlan1'' demo_net
      (note_parts demo_startup (''wlan1'', ''wlan0'', demo_net) ?m)) (start_services demo_startup ''wlan1'' ''wlan0'' demo_net))
      (turn_on_forwarding demo_startup))"
  have m3: "and_then (and_then (start_access_point demo_startup ''wlan1'' demo_net
      (note_parts demo_startup (''wlan1'', ''wlan0'', demo_net) ?m)) (start_services demo_startup ''wlan1'' ''wlan0'' demo_net))
      (turn_on_forwarding demo_startup) = (m3, Inr ())"
    and s: "gm_conf m3 = demo_settings" "gt_subnet (gm_state m3) = Some demo_net" "gt_ap (gm_state m3) = ''wlan1''"
    and f: "fw_nft (gm_firewall m3)" "fw_tables (gm_firewall m3) = []"
    unfolding m3_def
    by (simp_all add: start_access_point_def note_parts_def new_manager_def start_services_def turn_on_forwarding_def
        start_hotspot_def new_hotspot_def configure_address_def demo_startup_def demo_settings_def demo_kernel_def
        enable_forwarding_def new_gateway_state_def Let_def)
  obtain r t where r: "rules_for demo_settings (gm_state m3) (settled demo_host) ''wlan0'' = Inr r" "build_ruleset r = Inr t"
    using demo_rules_for [OF s(2,3)] by blast
  have "fw_apply (su_runs demo_startup) r (gm_firewall m3)
      = ((gm_firewall m3)\<lparr>fw_tables := [(NAT_TABLE, [t]), (FILTER_TABLE, [t])]\<rparr>, Inr ())"
    by (rule fw_apply_succeeds) (use f r in \<open>simp_all add: only_ours_def runs_fit_def demo_startup_def\<close>)
  then have "apply_rules (su_looks demo_startup) (su_runs demo_startup) ''wlan0'' m3 = (m3\<lparr>gm_firewall := (gm_firewall m3)\<lparr>fw_tables :=
        [(NAT_TABLE, [t]), (FILTER_TABLE, [t])]\<rparr>, gm_state := (gm_state m3)\<lparr>gt_uplink := ''wlan0'',
        gt_fingerprint := uplink_fingerprint demo_host, gt_rules_applied := True,
        gt_vpn := (case gw_vpn r of None \<Rightarrow> [] | Some v \<Rightarrow> v)\<rparr>\<rparr>, Inr ())"
    using r by (simp add: apply_rules_def s) (simp add: demo_startup_def settled_def)
  then have "start_gateway demo_startup ?m = (m3\<lparr>gm_firewall := (gm_firewall m3)\<lparr>fw_tables :=
        [(NAT_TABLE, [t]), (FILTER_TABLE, [t])]\<rparr>, gm_state := (gm_state m3)\<lparr>gt_uplink := ''wlan0'',
        gt_fingerprint := uplink_fingerprint demo_host, gt_rules_applied := True,
        gt_vpn := (case gw_vpn r of None \<Rightarrow> [] | Some v \<Rightarrow> v)\<rparr>, gm_watching := True\<rparr>, Inr ())"
    unfolding start_gateway_def p by (simp add: m3 del: note_parts_def) (simp add: new_manager_def demo_settings_def demo_kernel_def)
  then show ?thesis using s by (simp add: demo_gateway_def)
qed

lemma demo_gateway_run: "gateway_run (new_manager demo_settings demo_kernel) demo_gateway" "only_ours demo_kernel"
  unfolding demo_gateway_def
  by (rule gateway_started [OF gateway_created])
    (simp_all add: new_manager_def honest_def demo_startup_def demo_kernel_def only_ours_def)



text \<open>The same laptop after it was moved from another network, with the rules of that one still in place.\<close>

definition demo_moved :: gateway_manager where
  "demo_moved = (new_manager demo_settings demo_firewall)\<lparr>gm_watching := True,
     gm_state := new_gateway_state\<lparr>gt_ap := ''wlan1'', gt_subnet := Some demo_net, gt_uplink := ''eth0'',
       gt_fingerprint := ''eth0|192.0.2.7|192.0.2.1'', gt_rules_applied := True\<rparr>\<rparr>"

definition demo_turn :: watch_turn where
  "demo_turn = \<lparr>wt_now = 1800000005, wt_looks = settled demo_host, wt_runs = (Exited True, Exited True, Exited True),
     wt_published = Inr (), wt_ask = None\<rparr>"


end
