(* ===== verification/Spec2Isabelle.thy ===== *)
theory Spec2Isabelle
  imports Engine CacheFile CacheStore Dhcp Vault Resolver Cluster QrScan WireGuard Listener
    TimeServer Reflector X25519 Stats Networks Hotspot Tls Manager
begin

text \<open>
  SymbiVPN is a gateway for a home network: a filtering DNS resolver with a cache and block lists, a
  DHCP server that makes every device use it, and a WireGuard endpoint, with a dashboard on top.
  This library models its core logic from the Python sources under \<open>src/symbivpn\<close> and proves what the
  components promise.

  The parts, and the theories that hold them, in the order a query or a packet meets them:

  \<^item> Prelude, PyStr, IpAddr, Inet: what the code uses of Python.  Errors are values (\<open>err\<close>, \<open>'a res\<close>,
    sequenced by \<open>rbind\<close>), bytes are 8-bit words, text is a list of characters up to code point 255, a
    \<open>dict\<close> is an association list in insertion order, time is a rational given as an argument,
    \<open>ipaddress\<close>, \<open>inet_aton\<close> and \<open>struct\<close> are written out.
  \<^item> Dnsmsg (\<open>dnsmsg.py\<close>): reading and writing DNS messages.  The reader of names recurses on the
    remaining jump budget and offset; the lemmas show that what it reads is bounded, that names,
    queries and answers read back, and that ageing the TTLs changes nothing else.
  \<^item> Cache, CacheStore, SingleFlight, CacheFile (\<open>cache.py\<close>): \<open>DNSCache\<close> with its state and statistics;
    the abstract store it refines; the collapsing of concurrent lookups as a step relation over threads,
    with its reachable states; and saving and loading.
  \<^item> Blocklist, BlocklistLoad (\<open>blocklist.py\<close>): \<open>DomainSet\<close>, the parser of the list dialects, and the
    loading of sources with its guard against collapsed downloads.
  \<^item> Compat, Policy (\<open>compat.py\<close>, \<open>policy.py\<close>): services that must never be blocked, and groups with
    schedules, safe search and allow lists.
  \<^item> Engine (\<open>engine.py\<close>): \<open>FilterEngine.handle\<close> on every path, over the theories above; upstream and the
    clock are an environment, the questions asked and the log lines are traces in the state.
  \<^item> DhcpPacket, Dhcp (\<open>gateway/dhcp.py\<close>): packets and frames, then the lease table and every message
    handler.
  \<^item> Auth (\<open>auth.py\<close>): password hashes, the limiter of failed attempts, the admin token, sessions.
  \<^item> AesGcm, Vault (\<open>aesgcm.py\<close>, \<open>vault.py\<close>): AES-256-GCM, and over it sealed blobs, the machine's key
    file and its pairing with a connector, and bundles locked with a passphrase.
  \<^item> Resolver (\<open>resolver.py\<close>): the upstream pool: health and order, targets, pooled connections, framing,
    the query sent and the checks on its reply.
  \<^item> Cluster (\<open>cluster.py\<close>): nodes that share a secret, their heartbeats, the order of resolvers they
    give clients and the answers they share.
  \<^item> Qr, QrMatrix, QrScan (\<open>vpn/qr.py\<close>): the codewords of a QR code, its matrix with masks and
    renderings, and what a scanner reads from it.
  \<^item> WireGuard (\<open>vpn/wireguard.py\<close>): the peer store with its sealed file, the manager's operations on it
    and the configuration texts of the server and of a peer.
  \<^item> RateLimit, Listener (\<open>server.py\<close>): the token bucket of each client, and over it and the engine the DNS
    listeners: admission, the workers, the slots of TCP connections, with every interleaving of them.
  \<^item> TimeServer, Reflector (\<open>gateway/timeserver.py\<close>, \<open>gateway/reflector.py\<close>): the SNTP replies, and the
    copying of discovery packets between networks; both use the token bucket.
  \<^item> X25519 (\<open>vpn/crypto.py\<close>): the key exchange function, key pairs and their base64 form.
  \<^item> Tls (\<open>tlsutil.py\<close>): the reader that finds a certificate's public key, and the check of pins.
  \<^item> Firewall, Networks, Hotspot (\<open>gateway/firewall.py\<close>, \<open>networks.py\<close>, \<open>interfaces.py\<close>, \<open>hotspot.py\<close>):
    the ruleset of the gateway as text, read back chain by chain, and its installation; the networks of
    the host and what is allowed, listened on and routed because of them; the file hostapd reads.
  \<^item> Manager (\<open>gateway/manager.py\<close>): starting and stopping the gateway, and the watcher that rebuilds
    the rules when the uplink changes.  Every question to the kernel has its own answer, so the network
    may change between any two; what a gateway can become is an inductive relation, and its invariant ties
    the tables in the kernel to the uplink on record.
  \<^item> Stats (\<open>stats.py\<close>): the counters and the ring of the query log, and the queue to its writer.

  State and operations keep the names of the code; an attribute a record shares with another has a
  prefix.  A method that changes its object is a function to the changed record and the result.  A
  lock is held for the whole of an operation, so one operation is one step; where the code drops the
  lock in the middle, as single flight does, the steps are separate.

  The lemmas come in groups: an invariant for each stateful part, kept by every operation and so
  over every sequence of them (cache, engine, lease table, limiter, session store, single flight);
  the behaviour of the operations on each branch; a declarative reading the indexed structures agree
  with (domain sets, the guard, routes); and round trips for every format written and read back.
  Interfaces between parts are locales, each interpreted on the model: the bounded store, the domain
  matcher, the cipher in counter mode and others named in their theories.

  Bounds.  No model runs on fuel: every loop of the code here ends on every input, by the length of
  the data it walks or, for name pointers, by the strictly smaller offset it may jump to.  The BCH
  division of QR codes is a partial function, and it is proved to end for every non-zero generator.

  Parameters.  The idna and utf-8 codecs, the regular expression engine, scrypt, SHA-256, gzip, JSON,
  random numbers, the clocks, the file system and the sockets are arguments of the definitions that
  use them.  Where a result depends on one, its documented behaviour is a hypothesis.

  Not modelled.  Text above code point 255 and rounding of floats; the network exchanges of the
  resolver and the downloads; the configuration file, the application that wires the parts,
  the dashboard API, the command line and the set-up tools, which are I/O over the
  parts above; the programs the gateway runs (nft, hostapd, ip, openssl, wg).
\<close>

end
